(* ===== verification/Nekit_Prelude.thy ===== *)
theory Nekit_Prelude
  imports Main "HOL-Library.Word"
begin

text \<open>
  Shared vocabulary of the development.

  The C++ code can stop in the middle of a function: a \<open>BOOST_ASSERT\<close> fails, a null
  pointer is followed, a raw pointer dangles, a block of memory is read or written
  outside its bounds, a \<open>boost::any\<close> is cast to a type it does not hold,
  a switch is left without a value, or the code calls \<open>exit\<close>.  Every such stop is a \<open>fault\<close>, and code that may stop returns a
  value of \<open>'a exec\<close>, with \<open>Inl\<close> the fault.  This is kept apart from \<open>utils::Result\<close>,
  the library's own error values, which are ordinary results of the code.

  Sizes (\<open>size_t\<close>) are natural numbers; a subtraction the code does not guard is
  \<open>sz_sub\<close>, which wraps at 64 bits as the machine does.
\<close>

type_synonym u8 = "8 word"
type_synonym u16 = "16 word"
type_synonym u32 = "32 word"
type_synonym bytes = "u8 list"

section \<open>Faults and the fault monad\<close>

datatype fault = Assert_Failed | Null_Deref | Dangling | Out_Of_Bounds | Bad_Cast | Unreachable | Exited

type_synonym 'a exec = "fault + 'a"

fun exec_bind :: "'e + 'a \<Rightarrow> ('a \<Rightarrow> 'e + 'b) \<Rightarrow> 'e + 'b" where
  "exec_bind (Inl e) f = Inl e"
| "exec_bind (Inr x) f = f x"

definition boost_assert :: "bool \<Rightarrow> 'a exec \<Rightarrow> 'a exec" where
  "boost_assert P k = (if P then k else Inl Assert_Failed)"

fun fault_free :: "'e + 'a \<Rightarrow> bool" where
  "fault_free (Inl e) = False"
| "fault_free (Inr x) = True"

named_theorems exec_simps \<open>rules that run the fault monad\<close>

lemma boost_assert_True [simp, exec_simps]: "P \<Longrightarrow> boost_assert P k = k"
  by (simp add: boost_assert_def)

lemma boost_assert_False [simp, exec_simps]: "\<not> P \<Longrightarrow> boost_assert P k = Inl Assert_Failed"
  by (simp add: boost_assert_def)

lemma boost_assert_Inr [exec_simps]: "boost_assert P k = Inr x \<longleftrightarrow> P \<and> k = Inr x"
  by (simp add: boost_assert_def)

lemma exec_bind_Inr [exec_simps]:
  "exec_bind m f = Inr y \<longleftrightarrow> (\<exists>x. m = Inr x \<and> f x = Inr y)"
  by (cases m) auto

lemma exec_bind_Inl [exec_simps]:
  "exec_bind m f = Inl e \<longleftrightarrow> m = Inl e \<or> (\<exists>x. m = Inr x \<and> f x = Inl e)"
  by (cases m) auto

lemma exec_bind_cong [fundef_cong]:
  "m = n \<Longrightarrow> (\<And>x. n = Inr x \<Longrightarrow> f x = g x) \<Longrightarrow> exec_bind m f = exec_bind n g"
  by (cases n) auto

lemma boost_assert_cong [fundef_cong]:
  "P = Q \<Longrightarrow> (Q \<Longrightarrow> k = l) \<Longrightarrow> boost_assert P k = boost_assert Q l"
  by (simp add: boost_assert_def)

lemma exec_bind_assoc: "exec_bind (exec_bind m f) g = exec_bind m (\<lambda>x. exec_bind (f x) g)"
  by (cases m) auto

lemma fault_free_iff: "fault_free m \<longleftrightarrow> (\<exists>x. m = Inr x)"
  by (cases m) auto

lemma fault_free_bindI [intro]:
  "fault_free m \<Longrightarrow> (\<And>x. m = Inr x \<Longrightarrow> fault_free (f x)) \<Longrightarrow> fault_free (exec_bind m f)"
  by (cases m) auto

text \<open>Two runs that fault alike or end in related values.\<close>

fun exec_rel :: "('a \<Rightarrow> 'b \<Rightarrow> bool) \<Rightarrow> 'a exec \<Rightarrow> 'b exec \<Rightarrow> bool" where
  "exec_rel R (Inl e) (Inl f) = (e = f)"
| "exec_rel R (Inr x) (Inr y) = R x y"
| "exec_rel R _ _ = False"

lemma exec_rel_bind:
  "exec_rel R m n \<Longrightarrow> (\<And>x y. m = Inr x \<Longrightarrow> R x y \<Longrightarrow> exec_rel S (f x) (g y)) \<Longrightarrow>
   exec_rel S (exec_bind m f) (exec_bind n g)"
  by (cases m; cases n) auto

lemma exec_rel_assert: "(P \<Longrightarrow> exec_rel R m n) \<Longrightarrow> exec_rel R (boost_assert P m) (boost_assert P n)"
  by (simp add: boost_assert_def)

section \<open>Machine sizes\<close>

definition sz_sub :: "nat \<Rightarrow> nat \<Rightarrow> nat" where
  "sz_sub a b = (if b \<le> a then a - b else 2 ^ 64 + a - b)"

lemma sz_sub_le [simp]: "b \<le> a \<Longrightarrow> sz_sub a b = a - b"
  by (simp add: sz_sub_def)

section \<open>Blocks of memory\<close>

text \<open>
  A block is a list of bytes.  \<open>mem_read\<close> and \<open>mem_write\<close> are \<open>memcpy\<close> out of and into a
  block at a position; outside the block they fault.
\<close>

definition mem_read :: "bytes \<Rightarrow> nat \<Rightarrow> nat \<Rightarrow> bytes exec" where
  "mem_read m i n = (if i + n \<le> length m then Inr (take n (drop i m)) else Inl Out_Of_Bounds)"

definition mem_write :: "bytes \<Rightarrow> nat \<Rightarrow> bytes \<Rightarrow> bytes exec" where
  "mem_write m i xs =
     (if i + length xs \<le> length m then Inr (take i m @ xs @ drop (i + length xs) m)
      else Inl Out_Of_Bounds)"

lemma mem_read_in [simp]: "i + n \<le> length m \<Longrightarrow> mem_read m i n = Inr (take n (drop i m))"
  by (simp add: mem_read_def)

lemma mem_write_in [simp]:
  "i + length xs \<le> length m \<Longrightarrow>
   mem_write m i xs = Inr (take i m @ xs @ drop (i + length xs) m)"
  by (simp add: mem_write_def)

lemma mem_write_length: "mem_write m i xs = Inr m' \<Longrightarrow> length m' = length m"
  by (auto simp: mem_write_def split: if_splits)

section \<open>Lists\<close>

text \<open>Replacing a slice and inserting a slice, the two effects byte operations have.\<close>

definition splice :: "'a list \<Rightarrow> nat \<Rightarrow> 'a list \<Rightarrow> 'a list" where
  "splice xs i ys = take i xs @ ys @ drop (i + length ys) xs"

definition insert_at :: "'a list \<Rightarrow> nat \<Rightarrow> 'a list \<Rightarrow> 'a list" where
  "insert_at xs i ys = take i xs @ ys @ drop i xs"

definition delete_at :: "'a list \<Rightarrow> nat \<Rightarrow> nat \<Rightarrow> 'a list" where
  "delete_at xs i n = take i xs @ drop (i + n) xs"

lemma length_splice [simp]: "i + length ys \<le> length xs \<Longrightarrow> length (splice xs i ys) = length xs"
  by (simp add: splice_def)

lemma length_insert_at [simp]: "length (insert_at xs i ys) = length xs + length ys"
  by (simp add: insert_at_def)

lemma length_delete_at [simp]: "i + n \<le> length xs \<Longrightarrow> length (delete_at xs i n) = length xs - n"
  by (simp add: delete_at_def)

lemma insert_at_0 [simp]: "insert_at xs 0 ys = ys @ xs"
  by (simp add: insert_at_def)

lemma insert_at_length [simp]: "i \<ge> length xs \<Longrightarrow> insert_at xs i ys = xs @ ys"
  by (simp add: insert_at_def)

lemma delete_at_0 [simp]: "delete_at xs i 0 = xs"
  by (simp add: delete_at_def)

lemma splice_Nil [simp]: "splice xs i [] = xs"
  by (simp add: splice_def)

lemma insert_at_append1:
  "i \<ge> length xs \<Longrightarrow> insert_at (xs @ zs) i ys = xs @ insert_at zs (i - length xs) ys"
  by (simp add: insert_at_def)

lemma splice_append_left:
  "i + length ys \<le> length xs \<Longrightarrow> splice (xs @ zs) i ys = splice xs i ys @ zs"
  by (simp add: splice_def)

lemma splice_splice:
  "i + length ys \<le> length xs \<Longrightarrow>
   splice (splice xs i ys) (i + length ys) zs = splice xs i (ys @ zs)"
  by (simp add: splice_def ac_simps)

lemma splice_append1:
  "i \<ge> length xs \<Longrightarrow> splice (xs @ zs) i ys = xs @ splice zs (i - length xs) ys"
  by (simp add: splice_def)

lemma delete_at_append1:
  "i \<ge> length xs \<Longrightarrow> delete_at (xs @ zs) i n = xs @ delete_at zs (i - length xs) n"
  by (simp add: delete_at_def)

lemma delete_insert_at [simp]:
  "i \<le> length xs \<Longrightarrow> delete_at (insert_at xs i ys) i (length ys) = xs"
  by (simp add: delete_at_def insert_at_def)

lemma splice_insert_at:
  "i \<le> length xs \<Longrightarrow> length ys = length zs \<Longrightarrow> splice (insert_at xs i ys) i zs = insert_at xs i zs"
  by (simp add: splice_def insert_at_def)

section \<open>Strings and bytes\<close>

text \<open>A \<open>std::string\<close> read as raw bytes, and bytes read as a string.\<close>

definition bytes_of_string :: "string \<Rightarrow> bytes" where
  "bytes_of_string s = map of_char s"

definition string_of_bytes :: "bytes \<Rightarrow> string" where
  "string_of_bytes bs = map (\<lambda>b. char_of (unat b)) bs"

lemma unat_of_char [simp]: "unat (of_char c :: u8) = of_char c"
proof -
  have "(of_char c :: u8) = of_nat (of_char c)" by (simp add: of_nat_of_char)
  moreover have "(of_char c :: nat) < 256"
    using mod_less_divisor [of 256 "of_char c :: nat"] by simp
  ultimately show ?thesis by (simp add: unat_of_nat)
qed

lemma string_of_bytes_of_string [simp]: "string_of_bytes (bytes_of_string s) = s"
  by (simp add: string_of_bytes_def bytes_of_string_def comp_def)

lemma length_bytes_of_string [simp]: "length (bytes_of_string s) = length s"
  by (simp add: bytes_of_string_def)

end
