(* ===== verification/Cancelable.thy ===== *)
theory Cancelable
  imports Nekit_Prelude
begin

text \<open>
  \<open>utils::Cancelable\<close> (src/utils/cancelable.cc): a handle on a shared flag.  All copies of a
  handle share the flag, so the flags live in a store, a list of booleans in which a
  \<open>shared_ptr<bool>\<close> is an index; a moved-from handle holds no pointer.
\<close>

section \<open>Handles and their store\<close>

type_synonym cancel_store = "bool list"
type_synonym cancelable = "nat option"

definition cancelable_new :: "cancel_store \<Rightarrow> cancelable \<times> cancel_store" where
  "cancelable_new st = (Some (length st), st @ [False])"

definition cancelable_copy :: "cancelable \<Rightarrow> cancelable" where
  "cancelable_copy c = c"

text \<open>Move construction: the new handle and what is left in the source.\<close>

definition cancelable_move :: "cancelable \<Rightarrow> cancelable \<times> cancelable" where
  "cancelable_move src = (src, None)"

text \<open>Move assignment swaps the two pointers, unless source and target are one object.\<close>

definition cancelable_move_assign :: "bool \<Rightarrow> cancelable \<Rightarrow> cancelable \<Rightarrow> cancelable \<times> cancelable" where
  "cancelable_move_assign same dst src = (if same then (dst, src) else (src, dst))"

definition cancel :: "cancelable \<Rightarrow> cancel_store \<Rightarrow> cancel_store" where
  "cancel c st = (case c of None \<Rightarrow> st | Some r \<Rightarrow> st[r := True])"

definition cancelable_reset :: "cancelable \<Rightarrow> cancel_store \<Rightarrow> cancelable \<times> cancel_store" where
  "cancelable_reset c st = (Some (length st), st @ [False])"

definition canceled :: "cancelable \<Rightarrow> cancel_store \<Rightarrow> bool exec" where
  "canceled c st =
     (case c of
        None \<Rightarrow> Inl Null_Deref
      | Some r \<Rightarrow> if r < length st then Inr (st ! r) else Inl Dangling)"

section \<open>Properties of the store\<close>

definition handle_ok :: "cancelable \<Rightarrow> cancel_store \<Rightarrow> bool" where
  "handle_ok c st \<longleftrightarrow> (\<exists>r. c = Some r \<and> r < length st)"

text \<open>A later store keeps every flag that was set and every handle that was valid.\<close>

definition store_le :: "cancel_store \<Rightarrow> cancel_store \<Rightarrow> bool" where
  "store_le st st' \<longleftrightarrow> length st \<le> length st' \<and> (\<forall>r < length st. st ! r \<longrightarrow> st' ! r)"

lemma store_le_refl [simp]: "store_le st st"
  by (simp add: store_le_def)

lemma store_le_trans: "store_le a b \<Longrightarrow> store_le b c \<Longrightarrow> store_le a c"
  by (auto simp: store_le_def)

lemma nth_set_True: "st ! r \<Longrightarrow> st[q := True] ! r"
  by (cases "q = r"; cases "q < length st") (auto simp: list_update_beyond)

lemma cancel_le [intro]: "store_le st (cancel c st)"
  by (auto simp: store_le_def cancel_def nth_set_True split: option.splits)

lemma new_le [intro]: "store_le st (snd (cancelable_new st))" "store_le st (snd (cancelable_reset c st))"
  by (auto simp: store_le_def cancelable_new_def cancelable_reset_def nth_append)

lemma canceled_cancel:
  "handle_ok c st \<Longrightarrow> canceled d (cancel c st) = (if d = c then Inr True else canceled d st)"
  by (auto simp: handle_ok_def canceled_def cancel_def split: option.splits)

lemma canceled_mono: "store_le st st' \<Longrightarrow> canceled c st = Inr True \<Longrightarrow> canceled c st' = Inr True"
  by (auto simp: store_le_def canceled_def split: option.splits if_splits)

lemma canceled_new:
  assumes "cancelable_new st = (c, st')"
  shows "canceled c st' = Inr False" and "handle_ok d st \<Longrightarrow> canceled d st' = canceled d st"
    and "handle_ok d st \<Longrightarrow> d \<noteq> c"
  using assms by (auto simp: cancelable_new_def canceled_def handle_ok_def nth_append)

end
