(* ===== verification/Nekit_Error.thy ===== *)
theory Nekit_Error
  imports Nekit_Prelude
begin

text \<open>
  \<open>utils::Error\<close> and \<open>utils::Result\<close> (include/nekit/utils/error.h, result.h,
  common_error.h, boost_error.h, regex_error.h): an error is a category, an integer code and
  an optional dictionary of extra values.  A \<open>Result\<close> is a sum, with \<open>Inl\<close> the error.
\<close>

section \<open>Errors\<close>

text \<open>
  One constructor per \<open>ErrorCategory\<close> subclass; the code compares categories by the address
  of their single global object, so they are compared by name here.
\<close>

datatype error_category =
    No_Error_Category | Common_Category | Boost_Category | Regex_Category | Tcp_Category
  | Listener_Category | Rule_Manager_Category | Http_Category | Http_Server_Category
  | Socks5_Category | Socks5_Server_Category | Http_Rewriter_Category | Tls_Tunnel_Category
  | Stream_Cipher_Category | Maxmind_Category

text \<open>
  The values \<open>boost::any\<close> holds in the library, by their types: \<open>boost::system::error_code\<close>,
  \<open>std::regex_constants::error_type\<close>, \<open>unsigned int\<close>, and \<open>http_errno\<close>.
\<close>

datatype boost_category = System_Category | Misc_Category | Other_Category

record boost_code =
  bcategory :: boost_category
  bvalue :: int

datatype any = Any_Boost boost_code | Any_Regex int | Any_Unsigned int | Any_Http_Errno int

record error =
  category :: error_category
  error_code :: int
  info :: "(int \<Rightarrow> any option) option"

type_synonym 'a result = "error + 'a"

definition error_of :: "error_category \<Rightarrow> int \<Rightarrow> error" where
  "error_of c n = \<lparr>category = c, error_code = n, info = None\<rparr>"

definition no_error :: error where
  "no_error = error_of No_Error_Category 0"

definition error_bool :: "error \<Rightarrow> bool" where
  "error_bool e \<longleftrightarrow> error_code e \<noteq> 0"

definition error_dup :: "error \<Rightarrow> error" where
  "error_dup e =
     (let d = error_of (category e) (error_code e)
      in case info e of None \<Rightarrow> d | Some i \<Rightarrow> d\<lparr>info := Some i\<rparr>)"

definition create_info_dict :: "error \<Rightarrow> error" where
  "create_info_dict e = e\<lparr>info := Some (\<lambda>_. None)\<rparr>"

text \<open>\<open>std::map::emplace\<close> keeps the value already stored under the key.\<close>

definition add_info :: "error \<Rightarrow> int \<Rightarrow> any \<Rightarrow> error exec" where
  "add_info e k v =
     (case info e of
        None \<Rightarrow> Inl Assert_Failed
      | Some i \<Rightarrow> Inr (e\<lparr>info := Some (if i k = None then i(k := Some v) else i)\<rparr>))"

definition has_info :: "error \<Rightarrow> int \<Rightarrow> bool exec" where
  "has_info e k = (case info e of None \<Rightarrow> Inl Assert_Failed | Some i \<Rightarrow> Inr (i k \<noteq> None))"

text \<open>\<open>at\<close> throws when the key is missing.\<close>

definition get_info :: "error \<Rightarrow> int \<Rightarrow> any exec" where
  "get_info e k =
     (case info e of
        None \<Rightarrow> Inl Assert_Failed
      | Some i \<Rightarrow> (case i k of None \<Rightarrow> Inl Out_Of_Bounds | Some v \<Rightarrow> Inr v))"

definition error_eq :: "error \<Rightarrow> error \<Rightarrow> bool" where
  "error_eq e f \<longleftrightarrow> category e = category f \<and> error_code e = error_code f"

section \<open>Common errors\<close>

datatype common_error_code = EndOfFile | Cancelled | UnknownError

fun common_code :: "common_error_code \<Rightarrow> int" where
  "common_code EndOfFile = 1"
| "common_code Cancelled = 2"
| "common_code UnknownError = 3"

definition common_error :: "common_error_code \<Rightarrow> error" where
  "common_error c = error_of Common_Category (common_code c)"

definition is_eof :: "error \<Rightarrow> bool" where
  "is_eof e \<longleftrightarrow> category e = Common_Category \<and> error_code e = common_code EndOfFile"

section \<open>Wrapped errors\<close>

definition boost_info_key :: int where "boost_info_key = 1"

definition from_boost_error :: "boost_code \<Rightarrow> error exec" where
  "from_boost_error ec =
     add_info (create_info_dict (error_of Boost_Category 1)) boost_info_key (Any_Boost ec)"

definition to_boost_error :: "error \<Rightarrow> boost_code exec" where
  "to_boost_error e =
     exec_bind (get_info e boost_info_key) (\<lambda>v.
       case v of Any_Boost ec \<Rightarrow> Inr ec | _ \<Rightarrow> Inl Bad_Cast)"

definition regex_info_key :: int where "regex_info_key = 1"

definition from_regex_error :: "int \<Rightarrow> error exec" where
  "from_regex_error c =
     add_info (create_info_dict (error_of Regex_Category 1)) regex_info_key (Any_Regex c)"

section \<open>Lemmas\<close>

lemma error_dup_id [simp]: "error_dup e = e"
  by (cases e) (auto simp: error_dup_def error_of_def Let_def split: option.splits)

lemma error_eq_dup [simp]: "error_eq (error_dup e) f = error_eq e f"
  by simp

lemma is_eof_iff: "is_eof e \<longleftrightarrow> error_eq e (common_error EndOfFile)"
  by (auto simp: is_eof_def error_eq_def common_error_def error_of_def)

lemma is_eof_common [simp]: "is_eof (common_error c) \<longleftrightarrow> c = EndOfFile"
  by (cases c) (auto simp: is_eof_def common_error_def error_of_def)

lemma is_eof_other [simp]: "c \<noteq> Common_Category \<Longrightarrow> \<not> is_eof (error_of c n)"
  by (simp add: is_eof_def error_of_def)

definition boost_error :: "boost_code \<Rightarrow> error" where
  "boost_error ec =
     \<lparr>category = Boost_Category, error_code = 1, info = Some [boost_info_key \<mapsto> Any_Boost ec]\<rparr>"

lemma from_boost_error_ok [simp]: "from_boost_error ec = Inr (boost_error ec)"
  by (simp add: from_boost_error_def add_info_def create_info_dict_def error_of_def boost_error_def
      fun_eq_iff)

lemma boost_error_roundtrip: "exec_bind (from_boost_error ec) to_boost_error = Inr ec"
  by (simp add: to_boost_error_def get_info_def boost_error_def)

lemma is_eof_boost_error [simp]: "\<not> is_eof (boost_error ec)"
  by (simp add: is_eof_def boost_error_def)

end
