(* ===== verification/Subnet.thy ===== *)
theory Subnet
  imports Nekit_Prelude
begin

text \<open>
  \<open>utils::Subnet\<close> (src/utils/subnet.cc).  An address of \<open>boost::asio::ip\<close> is one 32-bit
  word (IPv4) or four (IPv6), most significant first; \<open>to_bytes\<close> is its network byte order.
  The code copies these bytes into host words and swaps its masks with \<open>htonl\<close>, so what is
  stored depends on the host's byte order, an argument here.
\<close>

unbundle bit_operations_syntax

section \<open>Addresses and byte order\<close>

datatype ip_address = V4 u32 | V6 u32 u32 u32 u32

fun is_v4 :: "ip_address \<Rightarrow> bool" where
  "is_v4 (V4 a) = True"
| "is_v4 (V6 a b c d) = False"

fun groups :: "ip_address \<Rightarrow> u32 list" where
  "groups (V4 a) = [a]"
| "groups (V6 a b c d) = [a, b, c, d]"

datatype byte_order = Little_Endian | Big_Endian

text \<open>The bytes of a word, most significant first, and a word read from four bytes.\<close>

definition be_bytes :: "u32 \<Rightarrow> bytes" where
  "be_bytes w = [ucast (drop_bit 24 w), ucast (drop_bit 16 w), ucast (drop_bit 8 w), ucast w]"

definition be_word :: "bytes \<Rightarrow> u32" where
  "be_word bs = push_bit 24 (ucast (bs ! 0)) OR push_bit 16 (ucast (bs ! 1)) OR
                push_bit 8 (ucast (bs ! 2)) OR ucast (bs ! 3)"

fun host_word :: "byte_order \<Rightarrow> bytes \<Rightarrow> u32" where
  "host_word Big_Endian bs = be_word bs"
| "host_word Little_Endian bs = be_word (rev bs)"

definition htonl :: "byte_order \<Rightarrow> u32 \<Rightarrow> u32" where
  "htonl e w = host_word e (be_bytes w)"

text \<open>\<open>memcpy\<close> of \<open>to_bytes()\<close> into an array of host words.\<close>

definition address_words :: "byte_order \<Rightarrow> ip_address \<Rightarrow> u32 list" where
  "address_words e a = map (\<lambda>g. host_word e (be_bytes g)) (groups a)"

section \<open>The subnet\<close>

record subnet =
  network_address_data :: "u32 list"
  mask_data :: "u32 list"
  is_ipv4 :: bool
  prefix_bits :: int

text \<open>
  The loops of the IPv6 branch: words of the prefix are kept or cut, the rest is cleared.
  A shift by more than 31 bits is undefined; a negative prefix, which the assertions let
  through, would need one.
\<close>

definition shift_ones :: "byte_order \<Rightarrow> int \<Rightarrow> u32 exec" where
  "shift_ones e n =
     (if 0 \<le> n \<and> n < 32 then Inr (htonl e (push_bit (nat n) (NOT 0))) else Inl Out_Of_Bounds)"

fun v6_fill :: "byte_order \<Rightarrow> int \<Rightarrow> u32 list \<Rightarrow> (u32 list \<times> u32 list) exec" where
  "v6_fill e remain [] = (if remain = 0 then Inr ([], []) else Inl Out_Of_Bounds)"
| "v6_fill e remain (w # ws) =
     (if remain = 0 then Inr (map (\<lambda>_. 0) (w # ws), map (\<lambda>_. 0) (w # ws))
      else if remain \<ge> 32
      then exec_bind (v6_fill e (remain - 32) ws) (\<lambda>(ns, ms). Inr (w # ns, NOT 0 # ms))
      else exec_bind (shift_ones e (32 - remain)) (\<lambda>m.
           exec_bind (v6_fill e 0 ws) (\<lambda>(ns, ms). Inr ((w AND m) # ns, m # ms))))"

definition subnet_new :: "byte_order \<Rightarrow> ip_address \<Rightarrow> int \<Rightarrow> subnet exec" where
  "subnet_new e address p =
     boost_assert (p \<noteq> 0)
       (if is_v4 address
        then boost_assert (p \<le> 32)
          (exec_bind (if p < 32 then shift_ones e (32 - p) else Inr (htonl e (NOT 0))) (\<lambda>m.
           Inr \<lparr>network_address_data = map (\<lambda>w. w AND m) (address_words e address),
                mask_data = [m], is_ipv4 = True, prefix_bits = p\<rparr>))
        else boost_assert (p \<le> 128)
          (exec_bind (v6_fill e p (address_words e address)) (\<lambda>(ns, ms).
           Inr \<lparr>network_address_data = ns, mask_data = ms, is_ipv4 = False, prefix_bits = p\<rparr>)))"

definition subnet_contains :: "byte_order \<Rightarrow> subnet \<Rightarrow> ip_address \<Rightarrow> bool" where
  "subnet_contains e s address =
     (if is_v4 address \<noteq> is_ipv4 s then False
      else list_all2 (\<lambda>(m, a) n. m AND a = n)
             (zip (mask_data s) (address_words e address)) (network_address_data s))"

section \<open>Byte order and the bitwise operations\<close>

lemma htonl_big [simp]: "htonl Big_Endian w = w"
proof (rule bit_word_eqI)
  fix n assume "n < LENGTH(32)"
  then consider "n < 8" | "8 \<le> n" "n < 16" | "16 \<le> n" "n < 24" | "24 \<le> n" "n < 32"
    by force
  then show "bit (htonl Big_Endian w) n = bit w n"
    by cases (auto simp: htonl_def be_word_def be_bytes_def bit_simps)
qed

lemma bit_htonl_little:
  "bit (htonl Little_Endian w) n \<longleftrightarrow>
     n < 32 \<and> bit w (if n < 8 then n + 24 else if n < 16 then n + 8
                    else if n < 24 then n - 8 else n - 24)"
proof -
  consider "n < 8" | "8 \<le> n" "n < 16" | "16 \<le> n" "n < 24" | "24 \<le> n" "n < 32" | "32 \<le> n"
    by force
  then show ?thesis
    by cases (auto simp: htonl_def be_word_def be_bytes_def bit_simps add.commute)
qed

lemma htonl_and: "htonl e (v AND w) = htonl e v AND htonl e w"
  by (cases e) (auto intro!: bit_word_eqI simp: bit_htonl_little bit_simps)

lemma htonl_htonl [simp]: "htonl e (htonl e w) = w"
proof (cases e)
  case Little_Endian
  show ?thesis
  proof (rule bit_word_eqI)
    fix n assume "n < LENGTH(32)"
    then consider "n < 8" | "8 \<le> n" "n < 16" | "16 \<le> n" "n < 24" | "24 \<le> n" "n < 32"
      by force
    then show "bit (htonl e (htonl e w)) n = bit w n"
      by cases (auto simp: Little_Endian bit_htonl_little)
  qed
qed simp

lemma htonl_inject [simp]: "htonl e v = htonl e w \<longleftrightarrow> v = w"
  by (metis htonl_htonl)

lemma htonl_zero [simp]: "htonl e 0 = 0"
  by (cases e) (auto intro!: bit_word_eqI simp: bit_htonl_little)

lemma htonl_ones [simp]: "htonl e (- 1) = - 1"
  by (cases e) (auto intro!: bit_word_eqI simp: bit_htonl_little)

section \<open>The bits of an address\<close>

text \<open>Most significant bit first, as a prefix length counts them.\<close>

definition word_bits :: "u32 \<Rightarrow> bool list" where
  "word_bits w = map (\<lambda>i. bit w (31 - i)) [0..<32]"

definition address_bits :: "ip_address \<Rightarrow> bool list" where
  "address_bits a = concat (map word_bits (groups a))"

lemma length_word_bits [simp]: "length (word_bits w) = 32"
  by (simp add: word_bits_def)

lemma word_bits_prefix:
  assumes "n \<le> 32"
  shows "take n (word_bits v) = take n (word_bits w) \<longleftrightarrow>
           v AND push_bit (32 - n) (- 1) = w AND push_bit (32 - n) (- 1)"
proof -
  have "take n (word_bits v) = take n (word_bits w) \<longleftrightarrow> (\<forall>i < n. bit v (31 - i) = bit w (31 - i))"
    using assms by (auto simp: word_bits_def list_eq_iff_nth_eq)
  also have "\<dots> \<longleftrightarrow> (\<forall>k < 32. 32 - n \<le> k \<longrightarrow> bit v k = bit w k)"
  proof
    assume *: "\<forall>i < n. bit v (31 - i) = bit w (31 - i)"
    show "\<forall>k < 32. 32 - n \<le> k \<longrightarrow> bit v k = bit w k"
    proof (intro allI impI)
      fix k :: nat assume "k < 32" "32 - n \<le> k"
      then show "bit v k = bit w k" using *[rule_format, of "31 - k"] assms by auto
    qed
  qed (use assms in auto)
  also have "\<dots> \<longleftrightarrow> v AND push_bit (32 - n) (- 1) = w AND push_bit (32 - n) (- 1)"
    by (auto simp: bit_eq_iff bit_simps)
  finally show ?thesis .
qed

lemma take_append_eq:
  "length xs = length xs' \<Longrightarrow>
   take n (xs @ ys) = take n (xs' @ ys') \<longleftrightarrow>
     take n xs = take n xs' \<and> take (n - length xs) ys = take (n - length xs') ys'"
  by simp

section \<open>What the constructor builds\<close>

abbreviation words_of :: "byte_order \<Rightarrow> u32 list \<Rightarrow> u32 list" where
  "words_of e gs \<equiv> map (htonl e) gs"

lemma address_words_htonl: "address_words e a = words_of e (groups a)"
  by (simp add: address_words_def htonl_def)

definition match_words :: "u32 list \<Rightarrow> u32 list \<Rightarrow> u32 list \<Rightarrow> bool" where
  "match_words ms ws ns = list_all2 (\<lambda>(m, a) n. m AND a = n) (zip ms ws) ns"

lemma match_words_zero: "length gs = length hs \<Longrightarrow>
  match_words (map (\<lambda>_. 0) gs) ws (map (\<lambda>_. 0) gs) \<longleftrightarrow> length gs \<le> length ws" 
  by (auto simp: match_words_def list_all2_conv_all_nth)

lemma v6_fill_matches:
  "v6_fill e r (words_of e gs) = Inr (ns, ms) \<Longrightarrow> length hs = length gs \<Longrightarrow> 0 \<le> r \<Longrightarrow>
   match_words ms (words_of e hs) ns \<longleftrightarrow>
     take (nat r) (concat (map word_bits gs)) = take (nat r) (concat (map word_bits hs))"
proof (induction gs arbitrary: r hs ns ms)
  case Nil
  then show ?case by (auto simp: match_words_def split: if_splits)
next
  case (Cons g gs)
  then obtain h hs' where hs: "hs = h # hs'" and len: "length hs' = length gs"
    by (cases hs) auto
  consider (zero) "r = 0" | (full) "r \<ge> 32" | (cut) "0 < r" "r < 32" using Cons.prems(3) by linarith
  then show ?case
  proof cases
    case zero
    then show ?thesis using Cons.prems hs len
      by (auto simp: match_words_def list_all2_conv_all_nth nth_Cons split: nat.splits)
  next
    case full
    then obtain ns' ms' where r: "v6_fill e (r - 32) (words_of e gs) = Inr (ns', ms')"
      "ns = htonl e g # ns'" "ms = - 1 # ms'"
      using Cons.prems(1) by (auto simp: exec_bind_Inr)
    have "match_words ms' (words_of e hs') ns' \<longleftrightarrow>
        take (nat (r - 32)) (concat (map word_bits gs)) = take (nat (r - 32)) (concat (map word_bits hs'))"
      using full len r by (intro Cons.IH) auto
    moreover have "word_bits g = word_bits h \<longleftrightarrow> g = h"
      using word_bits_prefix [of 32 g h] by simp
    ultimately show ?thesis using full r hs
      by (auto simp: match_words_def nat_diff_distrib)
  next
    case cut
    then obtain m ns' ms' where r: "m = htonl e (push_bit (nat (32 - r)) (- 1))"
      "v6_fill e 0 (words_of e gs) = Inr (ns', ms')"
      "ns = (htonl e g AND m) # ns'" "ms = m # ms'"
      using Cons.prems(1) by (auto simp: exec_bind_Inr shift_ones_def)
    have tail: "match_words ms' (words_of e hs') ns'"
      using Cons.IH [OF r(2) len] by simp
    have "m AND htonl e h = htonl e g AND m \<longleftrightarrow> take (nat r) (word_bits g) = take (nat r) (word_bits h)"
      using cut word_bits_prefix [of "nat r" g h]
      by (auto simp: r(1) and.commute nat_diff_distrib simp flip: htonl_and)
    then show ?thesis using cut r tail hs
      by (simp add: match_words_def)
  qed
qed

text \<open>The prefixes the constructor accepts, and what \<open>Contains\<close> then decides.\<close>

definition prefix_ok :: "ip_address \<Rightarrow> int \<Rightarrow> bool" where
  "prefix_ok a p \<longleftrightarrow> 0 < p \<and> p \<le> (if is_v4 a then 32 else 128)"

lemma v6_fill_total:
  "0 \<le> r \<Longrightarrow> r \<le> 32 * int (length gs) \<Longrightarrow>
   \<exists>ns ms. v6_fill e r gs = Inr (ns, ms) \<and> length ms = length gs"
proof (induction gs arbitrary: r)
  case Nil
  then show ?case by simp
next
  case (Cons g gs)
  have zero: "\<exists>ns ms. v6_fill e 0 gs = Inr (ns, ms) \<and> length ms = length gs"
    using Cons.IH [of 0] by simp
  show ?case
  proof (cases "r \<ge> 32")
    case True
    then have "\<exists>ns ms. v6_fill e (r - 32) gs = Inr (ns, ms) \<and> length ms = length gs"
      using Cons.prems by (intro Cons.IH) auto
    then show ?thesis using True by auto
  next
    case False
    then show ?thesis using zero Cons.prems by (auto simp: shift_ones_def)
  qed
qed

lemma length_groups: "length (groups a) = (if is_v4 a then 1 else 4)"
  by (cases a) auto

lemma subnet_new_total:
  assumes "prefix_ok a p"
  shows "\<exists>s. subnet_new e a p = Inr s"
proof (cases "is_v4 a")
  case True
  then show ?thesis using assms by (auto simp: subnet_new_def prefix_ok_def shift_ones_def)
next
  case False
  then have "\<exists>ns ms. v6_fill e p (address_words e a) = Inr (ns, ms)"
    using v6_fill_total [of p "address_words e a" e] assms
    by (fastforce simp: prefix_ok_def address_words_htonl length_groups)
  then show ?thesis using False assms by (auto simp: subnet_new_def prefix_ok_def)
qed

lemma contains_iff:
  assumes new: "subnet_new e a p = Inr s" and p: "0 < p"
  shows "subnet_contains e s b \<longleftrightarrow>
           is_v4 b = is_v4 a \<and> take (nat p) (address_bits b) = take (nat p) (address_bits a)"
proof (cases "is_v4 a")
  case True
  then obtain g where a: "a = V4 g" by (cases a) auto
  have p32: "p \<le> 32" using new True by (auto simp: subnet_new_def boost_assert_def split: if_splits)
  have s: "s = \<lparr>network_address_data = [htonl e g AND htonl e (push_bit (nat (32 - p)) (- 1))],
                mask_data = [htonl e (push_bit (nat (32 - p)) (- 1))], is_ipv4 = True, prefix_bits = p\<rparr>"
    using new a p p32
    by (cases "p < 32") (auto simp: subnet_new_def shift_ones_def address_words_htonl)
  show ?thesis
  proof (cases b)
    case (V4 h)
    then show ?thesis using p p32 word_bits_prefix [of "nat p" h g]
      by (auto simp: subnet_contains_def s a address_words_htonl address_bits_def nat_diff_distrib
          and.commute simp flip: htonl_and)
  qed (simp add: subnet_contains_def s a)
next
  case False
  then obtain ns ms where f: "v6_fill e p (words_of e (groups a)) = Inr (ns, ms)"
    and s: "s = \<lparr>network_address_data = ns, mask_data = ms, is_ipv4 = False, prefix_bits = p\<rparr>"
    using new by (auto simp: subnet_new_def boost_assert_Inr exec_bind_Inr address_words_htonl)
  show ?thesis
  proof (cases "is_v4 b")
    case False
    have "match_words ms (words_of e (groups b)) ns \<longleftrightarrow>
        take (nat p) (address_bits a) = take (nat p) (address_bits b)"
      unfolding address_bits_def using f p False \<open>\<not> is_v4 a\<close>
      by (intro v6_fill_matches [where r = p]) (auto simp: length_groups)
    then show ?thesis using False \<open>\<not> is_v4 a\<close>
      by (auto simp: subnet_contains_def s match_words_def address_words_htonl)
  qed (use False in \<open>auto simp: subnet_contains_def s\<close>)
qed

section \<open>Properties\<close>

text \<open>
  C27. For every legal prefix length and on hosts of either byte order, the constructor builds a
  subnet without a failed assertion or an undefined shift, and \<open>Contains\<close> accepts exactly
  the addresses of the same family whose first \<open>prefix\<close> bits are those of the network's
  address.
\<close>

theorem subnet_contains_prefix:
  assumes "prefix_ok a p"
  shows "\<exists>s. subnet_new e a p = Inr s \<and>
           (\<forall>b. subnet_contains e s b \<longleftrightarrow>
                is_v4 b = is_v4 a \<and> take (nat p) (address_bits b) = take (nat p) (address_bits a))"
proof -
  obtain s where s: "subnet_new e a p = Inr s" using subnet_new_total [OF assms] by blast
  moreover have "0 < p" using assms by (simp add: prefix_ok_def)
  ultimately show ?thesis using contains_iff by blast
qed

theorem subnet_contains_prefix_witness:
  "\<exists>s. subnet_new Little_Endian (V4 0x0A000000) 8 = Inr s \<and>
       subnet_contains Little_Endian s (V4 0x0A010203) \<and>
       \<not> subnet_contains Little_Endian s (V4 0x0B000001)"
proof -
  have "prefix_ok (V4 0x0A000000) 8" by (simp add: prefix_ok_def)
  from subnet_contains_prefix [OF this, of Little_Endian]
  obtain s where s: "subnet_new Little_Endian (V4 0x0A000000) 8 = Inr s"
    and c: "\<And>b. subnet_contains Little_Endian s b \<longleftrightarrow> is_v4 b = is_v4 (V4 0x0A000000) \<and>
       take (nat 8) (address_bits b) = take (nat 8) (address_bits (V4 0x0A000000))" by blast
  have "take (nat 8) (address_bits (V4 0x0A010203)) = take (nat 8) (address_bits (V4 0x0A000000))"
    "take (nat 8) (address_bits (V4 0x0B000001)) \<noteq> take (nat 8) (address_bits (V4 0x0A000000))"
    by code_simp+
  then show ?thesis using s c by auto
qed

end
