(* ===== verification/Endpoint.thy ===== *)
theory Endpoint
  imports Cancelable Nekit_Error Subnet
begin

text \<open>
  \<open>utils::Endpoint\<close> (include/nekit/utils/endpoint.h, src/utils/endpoint.cc), the
  \<open>utils::SystemResolver\<close> that answers it (src/utils/system_resolver.cc) and
  \<open>utils::Session\<close> (include/nekit/utils/session.h).  The parser and printer of
  \<open>boost::asio::ip::address\<close> are arguments, and so is what the system's resolver answers.
  Raw pointers to resolvers and event loops are numbers, callbacks are values of a type
  \<open>'h\<close> that the functions hand on.
\<close>

section \<open>Endpoints\<close>

datatype endpoint_type = Domain_Type | Address_Type

datatype ip_protocol = TCP | UDP

record endpoint =
  etype :: endpoint_type
  host :: string
  raw_address :: ip_address
  port :: u16
  protocol :: ip_protocol
  resolved_addresses :: "ip_address list option"
  resolve_error :: error
  resolver :: "nat option"
  resolved :: bool
  resolving :: bool
  resolve_cancelable :: cancelable

text \<open>
  The two constructors, with the flag \<open>c\<close> of the member \<open>resolve_cancelable_\<close>, and where
  that flag is allocated.
\<close>

definition endpoint_with_host ::
  "(string \<Rightarrow> ip_address option) \<Rightarrow> string \<Rightarrow> u16 \<Rightarrow> cancelable \<Rightarrow> endpoint" where
  "endpoint_with_host parse h p c =
     (let (t, a) = (case parse h of None \<Rightarrow> (Domain_Type, V4 0) | Some a \<Rightarrow> (Address_Type, a))
      in \<lparr>etype = t, host = h, raw_address = a, port = p, protocol = TCP,
          resolved_addresses = None, resolve_error = no_error, resolver = None,
          resolved = False, resolving = False, resolve_cancelable = c\<rparr>)"

definition endpoint_with_address ::
  "(ip_address \<Rightarrow> string) \<Rightarrow> ip_address \<Rightarrow> u16 \<Rightarrow> cancelable \<Rightarrow> endpoint" where
  "endpoint_with_address show_ip a p c =
     \<lparr>etype = Address_Type, host = show_ip a, raw_address = a, port = p, protocol = TCP,
      resolved_addresses = None, resolve_error = no_error, resolver = None,
      resolved = False, resolving = False, resolve_cancelable = c\<rparr>"

definition endpoint_from_host ::
  "(string \<Rightarrow> ip_address option) \<Rightarrow> string \<Rightarrow> u16 \<Rightarrow> cancel_store \<Rightarrow> endpoint \<times> cancel_store" where
  "endpoint_from_host parse h p st =
     (let (c, st') = cancelable_new st in (endpoint_with_host parse h p c, st'))"

definition endpoint_from_address ::
  "(ip_address \<Rightarrow> string) \<Rightarrow> ip_address \<Rightarrow> u16 \<Rightarrow> cancel_store \<Rightarrow> endpoint \<times> cancel_store" where
  "endpoint_from_address show_ip a p st =
     (let (c, st') = cancelable_new st in (endpoint_with_address show_ip a p c, st'))"

definition endpoint_destroy :: "endpoint \<Rightarrow> cancel_store \<Rightarrow> cancel_store" where
  "endpoint_destroy ep st = cancel (resolve_cancelable ep) st"

definition endpoint_eq_string :: "endpoint \<Rightarrow> string \<Rightarrow> bool" where
  "endpoint_eq_string ep s \<longleftrightarrow> host ep = s"

definition is_address_available :: "endpoint \<Rightarrow> bool" where
  "is_address_available ep \<longleftrightarrow> etype ep = Address_Type \<or> resolved_addresses ep \<noteq> None"

definition is_resolvable :: "endpoint \<Rightarrow> bool" where
  "is_resolvable ep \<longleftrightarrow>
     etype ep = Address_Type \<or> \<not> (resolved ep \<and> resolved_addresses ep = None)"

definition is_resolve_failed :: "endpoint \<Rightarrow> bool" where
  "is_resolve_failed ep \<longleftrightarrow> resolved ep \<and> resolved_addresses ep = None"

text \<open>\<open>front\<close> of an empty vector is undefined.\<close>

definition endpoint_address :: "endpoint \<Rightarrow> ip_address exec" where
  "endpoint_address ep =
     (if etype ep = Address_Type then Inr (raw_address ep)
      else case resolved_addresses ep of
             None \<Rightarrow> Inl Null_Deref
           | Some [] \<Rightarrow> Inl Out_Of_Bounds
           | Some (a # as) \<Rightarrow> Inr a)"

section \<open>Resolving\<close>

text \<open>
  \<open>ForceResolve\<close> hands the resolver a closure that holds the caller's handler and a copy of
  \<open>resolve_cancelable_\<close> taken before the assignment; \<open>tok\<close> is what the resolver returns.
\<close>

record 'h resolve_closure =
  on_resolved :: 'h
  captured :: cancelable

definition endpoint_force_resolve ::
  "cancelable \<Rightarrow> 'h \<Rightarrow> endpoint \<Rightarrow> ('h resolve_closure \<times> cancelable \<times> endpoint) exec" where
  "endpoint_force_resolve tok h ep =
     boost_assert (resolver ep \<noteq> None)
       (boost_assert (\<not> resolving ep)
         (Inr (\<lparr>on_resolved = h, captured = cancelable_copy (resolve_cancelable ep)\<rparr>, tok,
               ep\<lparr>resolving := True, resolve_cancelable := tok\<rparr>)))"

definition endpoint_resolve ::
  "cancelable \<Rightarrow> 'h \<Rightarrow> endpoint \<Rightarrow> ('h resolve_closure \<times> cancelable \<times> endpoint) exec" where
  "endpoint_resolve tok h ep =
     boost_assert (resolver ep \<noteq> None)
       (boost_assert (\<not> resolved ep \<and> \<not> resolving ep) (endpoint_force_resolve tok h ep))"

text \<open>The closure, run on an answer: the new endpoint and the call of the handler, if any.\<close>

definition endpoint_resolved ::
  "cancel_store \<Rightarrow> 'h resolve_closure \<Rightarrow> ip_address list result \<Rightarrow> endpoint \<Rightarrow>
   (endpoint \<times> ('h \<times> unit result) option) exec" where
  "endpoint_resolved st cl answer ep =
     exec_bind (canceled (captured cl) st) (\<lambda>stop.
       if stop then Inr (ep, None)
       else let ep' = ep\<lparr>resolving := False, resolved := True\<rparr>
            in case answer of
                 Inl e \<Rightarrow> Inr (ep'\<lparr>resolve_error := error_dup e, resolved_addresses := None\<rparr>,
                              Some (on_resolved cl, Inl e))
               | Inr addresses \<Rightarrow> Inr (ep'\<lparr>resolved_addresses := Some addresses\<rparr>,
                                      Some (on_resolved cl, Inr ())))"

definition endpoint_dup ::
  "(string \<Rightarrow> ip_address option) \<Rightarrow> (ip_address \<Rightarrow> string) \<Rightarrow> endpoint \<Rightarrow> cancel_store \<Rightarrow>
   endpoint \<times> cancel_store" where
  "endpoint_dup parse show_ip ep st =
     (let (d, st') = (case etype ep of
                        Address_Type \<Rightarrow> endpoint_from_address show_ip (raw_address ep) (port ep) st
                      | Domain_Type \<Rightarrow> endpoint_from_host parse (host ep) (port ep) st)
      in (d\<lparr>protocol := protocol ep, resolver := resolver ep\<rparr>, st'))"

section \<open>The system resolver\<close>

text \<open>
  \<open>Resolve\<close> posts a query to the resolver's own loop; the query posts a reply to the
  caller's loop.  Each task looks at the caller's flag and the resolver's own before it acts.
\<close>

record 'h query_task =
  q_domain :: string
  q_handler :: 'h
  q_cancelable :: cancelable
  q_lifetime :: cancelable

record 'h reply_task =
  r_handler :: 'h
  r_answer :: "ip_address list result"
  r_cancelable :: cancelable
  r_lifetime :: cancelable

text \<open>\<open>a.canceled() || b.canceled()\<close>\<close>

definition either_canceled :: "cancelable \<Rightarrow> cancelable \<Rightarrow> cancel_store \<Rightarrow> bool exec" where
  "either_canceled a b st =
     exec_bind (canceled a st) (\<lambda>x. if x then Inr True else canceled b st)"

definition system_resolve ::
  "cancelable \<Rightarrow> string \<Rightarrow> 'h \<Rightarrow> cancel_store \<Rightarrow> 'h query_task \<times> cancelable \<times> cancel_store" where
  "system_resolve lifetime d h st =
     (let (c, st') = cancelable_new st
      in (\<lparr>q_domain = d, q_handler = h, q_cancelable = c, q_lifetime = lifetime\<rparr>, c, st'))"

text \<open>What the operating system answered becomes a reply.\<close>

definition query_reply :: "boost_code + ip_address list \<Rightarrow> 'h query_task \<Rightarrow> 'h reply_task exec" where
  "query_reply answer q =
     (case answer of
        Inl ec \<Rightarrow> exec_bind (from_boost_error ec) (\<lambda>e.
          Inr \<lparr>r_handler = q_handler q, r_answer = Inl e,
               r_cancelable = q_cancelable q, r_lifetime = q_lifetime q\<rparr>)
      | Inr addresses \<Rightarrow>
          Inr \<lparr>r_handler = q_handler q, r_answer = Inr addresses,
               r_cancelable = q_cancelable q, r_lifetime = q_lifetime q\<rparr>)"

definition run_query ::
  "(string \<Rightarrow> boost_code + ip_address list) \<Rightarrow> cancel_store \<Rightarrow> 'h query_task \<Rightarrow>
   'h reply_task option exec" where
  "run_query getaddr st q =
     exec_bind (either_canceled (q_cancelable q) (q_lifetime q) st) (\<lambda>stop.
       if stop then Inr None
       else exec_bind (query_reply (getaddr (q_domain q)) q) (\<lambda>r. Inr (Some r)))"

definition run_reply ::
  "cancel_store \<Rightarrow> 'h reply_task \<Rightarrow> ('h \<times> ip_address list result) option exec" where
  "run_reply st r =
     exec_bind (either_canceled (r_cancelable r) (r_lifetime r) st) (\<lambda>stop.
       if stop then Inr None else Inr (Some (r_handler r, r_answer r)))"

text \<open>A query served to its end: \<open>st1\<close> when the query runs, \<open>st2\<close> when the reply does.\<close>

definition serve_query ::
  "(string \<Rightarrow> boost_code + ip_address list) \<Rightarrow> cancel_store \<Rightarrow> cancel_store \<Rightarrow> 'h query_task \<Rightarrow>
   ('h \<times> ip_address list result) option exec" where
  "serve_query getaddr st1 st2 q =
     exec_bind (run_query getaddr st1 q) (\<lambda>r.
       case r of None \<Rightarrow> Inr None | Some t \<Rightarrow> run_reply st2 t)"

section \<open>Sessions\<close>

record session =
  session_runloop :: nat
  session_endpoint :: "endpoint option"
  session_resolver :: "nat option"
  int_cache :: "string \<rightharpoonup> int"
  string_cache :: "string \<rightharpoonup> string"

definition session_new :: "nat \<Rightarrow> endpoint option \<Rightarrow> session" where
  "session_new loop ep =
     \<lparr>session_runloop = loop, session_endpoint = ep, session_resolver = None,
      int_cache = Map.empty, string_cache = Map.empty\<rparr>"

definition session_set_endpoint :: "endpoint \<Rightarrow> session \<Rightarrow> session" where
  "session_set_endpoint ep s =
     s\<lparr>session_endpoint := Some (ep\<lparr>resolver := session_resolver s\<rparr>)\<rparr>"

definition session_set_resolver :: "(nat \<Rightarrow> nat) \<Rightarrow> nat \<Rightarrow> session \<Rightarrow> session exec" where
  "session_set_resolver loop_of r s =
     boost_assert (loop_of r = session_runloop s)
       (Inr (s\<lparr>session_resolver := Some r,
              session_endpoint := map_option (\<lambda>ep. ep\<lparr>resolver := Some r\<rparr>) (session_endpoint s)\<rparr>))"

section \<open>Lemmas\<close>

lemmas endpoint_defs =
  is_address_available_def is_resolvable_def is_resolve_failed_def endpoint_address_def

text \<open>An endpoint that has addresses was resolved; a resolver answers with some address.\<close>

definition endpoint_ok :: "endpoint \<Rightarrow> bool" where
  "endpoint_ok ep \<longleftrightarrow>
     (resolved_addresses ep \<noteq> None \<longrightarrow> resolved ep) \<and> resolved_addresses ep \<noteq> Some []"

lemma endpoint_from_host_ok: "endpoint_ok (fst (endpoint_from_host parse h p st))"
  by (auto simp: endpoint_from_host_def endpoint_with_host_def endpoint_ok_def cancelable_new_def Let_def split: option.splits)

lemma endpoint_from_address_ok: "endpoint_ok (fst (endpoint_from_address show_ip a p st))"
  by (auto simp: endpoint_from_address_def endpoint_with_address_def endpoint_ok_def cancelable_new_def)

lemma endpoint_dup_ok: "endpoint_ok (fst (endpoint_dup parse show_ip ep st))"
  by (auto simp: endpoint_dup_def endpoint_from_host_def endpoint_with_host_def endpoint_from_address_def endpoint_with_address_def endpoint_ok_def
      cancelable_new_def Let_def split: option.splits endpoint_type.splits)

lemma endpoint_force_resolve_ok:
  "endpoint_ok ep \<Longrightarrow> endpoint_force_resolve tok h ep = Inr (cl, c, ep') \<Longrightarrow> endpoint_ok ep'"
  by (auto simp: endpoint_force_resolve_def boost_assert_Inr endpoint_ok_def)

lemma endpoint_resolved_ok:
  "endpoint_ok ep \<Longrightarrow> answer \<noteq> Inr [] \<Longrightarrow> endpoint_resolved st cl answer ep = Inr (ep', call) \<Longrightarrow>
   endpoint_ok ep'"
  by (auto simp: endpoint_resolved_def exec_bind_Inr endpoint_ok_def Let_def
      split: if_splits sum.splits)

lemma address_available:
  "endpoint_ok ep \<Longrightarrow> is_address_available ep \<longleftrightarrow> (\<exists>a. endpoint_address ep = Inr a)"
  by (cases "etype ep")
    (auto simp: endpoint_defs endpoint_ok_def split: option.splits list.splits)

lemma resolve_needed:
  "endpoint_ok ep \<Longrightarrow> \<not> is_address_available ep \<Longrightarrow> is_resolvable ep \<Longrightarrow> \<not> resolved ep"
  by (auto simp: endpoint_defs endpoint_ok_def)

lemma endpoint_resolved_run:
  assumes "canceled (captured cl) st = Inr False"
  shows "endpoint_resolved st cl (Inl e) ep =
           Inr (ep\<lparr>resolving := False, resolved := True, resolve_error := e,
                   resolved_addresses := None\<rparr>, Some (on_resolved cl, Inl e))"
    and "endpoint_resolved st cl (Inr as) ep =
           Inr (ep\<lparr>resolving := False, resolved := True, resolved_addresses := Some as\<rparr>,
                Some (on_resolved cl, Inr ()))"
  using assms by (simp_all add: endpoint_resolved_def)

lemma either_canceled_True:
  "canceled a st = Inr True \<Longrightarrow> either_canceled a b st = Inr True"
  "handle_ok a st \<Longrightarrow> canceled b st = Inr True \<Longrightarrow> either_canceled a b st = Inr True"
  by (auto simp: either_canceled_def handle_ok_def canceled_def split: option.splits)

lemma either_canceled_False:
  "canceled a st = Inr False \<Longrightarrow> canceled b st = Inr False \<Longrightarrow> either_canceled a b st = Inr False"
  by (simp add: either_canceled_def)

lemma handle_ok_le: "store_le st st' \<Longrightarrow> handle_ok c st \<Longrightarrow> handle_ok c st'"
  by (auto simp: handle_ok_def store_le_def)

lemma either_canceled_total:
  "handle_ok a st \<Longrightarrow> handle_ok b st \<Longrightarrow>
     either_canceled a b st = Inr True \<or>
     canceled a st = Inr False \<and> canceled b st = Inr False"
  by (auto simp: either_canceled_def handle_ok_def canceled_def split: option.splits)

section \<open>Properties\<close>

text \<open>
  A query of the system resolver, however its two tasks are delayed, calls its handler with
  the system's answer exactly when neither the caller's token nor the resolver's own flag was
  canceled before the reply ran; a canceled query calls nothing.
\<close>

theorem system_resolver_serves:
  assumes "handle_ok (q_cancelable q) st1" "handle_ok (q_lifetime q) st1" "store_le st1 st2"
  shows "serve_query getaddr st1 st2 q =
           Inr (if canceled (q_cancelable q) st2 = Inr True \<or> canceled (q_lifetime q) st2 = Inr True
                then None
                else Some (q_handler q, case getaddr (q_domain q) of
                                          Inl ec \<Rightarrow> Inl (boost_error ec) | Inr as \<Rightarrow> Inr as))"
proof -
  note later = handle_ok_le [OF assms(3) assms(1)] handle_ok_le [OF assms(3) assms(2)]
  have reply: "run_reply st2 r = Inr (if canceled (q_cancelable q) st2 = Inr True \<or>
        canceled (q_lifetime q) st2 = Inr True then None else Some (r_handler r, r_answer r))"
    if "r_cancelable r = q_cancelable q" "r_lifetime r = q_lifetime q" for r :: "'a reply_task"
    using either_canceled_total [OF later] that later
    by (auto simp: run_reply_def either_canceled_True either_canceled_False)
      (auto simp: either_canceled_def exec_bind_Inr split: if_splits)
  show ?thesis
  proof (cases "canceled (q_cancelable q) st1 = Inr True \<or> canceled (q_lifetime q) st1 = Inr True")
    case True
    then have "either_canceled (q_cancelable q) (q_lifetime q) st1 = Inr True"
      using assms by (auto simp: either_canceled_True)
    moreover have "canceled (q_cancelable q) st2 = Inr True \<or> canceled (q_lifetime q) st2 = Inr True"
      using True assms(3) canceled_mono by blast
    ultimately show ?thesis by (simp add: serve_query_def run_query_def)
  next
    case False
    then have "either_canceled (q_cancelable q) (q_lifetime q) st1 = Inr False"
      using either_canceled_total [OF assms(1,2)]
      by (auto simp: either_canceled_def exec_bind_Inr split: if_splits)
    then show ?thesis
      by (auto simp: serve_query_def run_query_def query_reply_def reply split: sum.splits)
  qed
qed

theorem system_resolver_serves_witness:
  "serve_query (\<lambda>_. Inr [V4 1]) [False, False] [False, False]
     \<lparr>q_domain = ''a'', q_handler = (7::nat), q_cancelable = Some 0, q_lifetime = Some 1\<rparr> =
     Inr (Some (7, Inr [V4 1])) \<and>
   serve_query (\<lambda>_. Inr [V4 1]) [False, False] [True, False]
     \<lparr>q_domain = ''a'', q_handler = (7::nat), q_cancelable = Some 0, q_lifetime = Some 1\<rparr> =
     Inr None"
  by (subst system_resolver_serves;
      simp add: handle_ok_def store_le_def canceled_def less_Suc_eq)+

text \<open>
  Resolving an endpoint to its end: \<open>Resolve\<close> is accepted, the closure calls the
  caller's handler once, and the endpoint then is resolved, no longer resolving, and available
  exactly when the resolver answered with addresses; after a failure the error is kept and
  the endpoint counts as not resolvable.  A second \<open>Resolve\<close> stops at an assertion.
\<close>

theorem endpoint_resolve_once:
  assumes "etype ep = Domain_Type" "resolver ep \<noteq> None" "\<not> resolved ep" "\<not> resolving ep"
    and "canceled (resolve_cancelable ep) st = Inr False"
  shows "\<exists>cl ep1 ep2.
     endpoint_resolve tok h ep = Inr (cl, tok, ep1) \<and> resolving ep1 \<and>
     endpoint_resolved st cl answer ep1 =
       Inr (ep2, Some (h, case answer of Inl e \<Rightarrow> Inl e | Inr _ \<Rightarrow> Inr ())) \<and>
     resolved ep2 \<and> \<not> resolving ep2 \<and>
     is_address_available ep2 = (\<exists>as. answer = Inr as) \<and>
     is_resolvable ep2 = (\<exists>as. answer = Inr as) \<and>
     (\<forall>e. answer = Inl e \<longrightarrow> resolve_error ep2 = e) \<and>
     (\<forall>a as. answer = Inr (a # as) \<longrightarrow> endpoint_address ep2 = Inr a) \<and>
     endpoint_resolve tok h ep2 = Inl Assert_Failed"
  using assms
  by (cases answer) (auto simp: endpoint_resolve_def endpoint_force_resolve_def
      endpoint_resolved_def cancelable_copy_def endpoint_defs boost_assert_def)

theorem endpoint_resolve_once_witness:
  "\<exists>cl ep2.
     endpoint_resolve (Some 1) (0::nat)
       ((fst (endpoint_from_host (\<lambda>_. None) ''a.b'' 80 []))\<lparr>resolver := Some 0\<rparr>) =
       Inr (cl, Some 1, ep2) \<and> resolving ep2"
  using endpoint_resolve_once
    [of "(fst (endpoint_from_host (\<lambda>_. None) ''a.b'' 80 []))\<lparr>resolver := Some 0\<rparr>" "[False]"
        "Some 1" "0::nat" "Inr [V4 1]"]
  by (auto simp: endpoint_from_host_def endpoint_with_host_def cancelable_new_def canceled_def)

text \<open>
  The closure that \<open>ForceResolve\<close> gives the resolver holds the token of the previous
  resolve, not the one it returns: canceling the returned token does not stop this closure,
  which still runs the handler if the resolver itself does not hold it back.
\<close>

theorem resolve_token_not_captured:
  assumes "endpoint_force_resolve tok h ep = Inr (cl, c, ep')"
    and "canceled (resolve_cancelable ep) st = Inr False" "tok \<noteq> resolve_cancelable ep"
  shows "\<exists>ep'' r. c = tok \<and> resolve_cancelable ep' = tok \<and>
           endpoint_resolved (cancel tok st) cl answer ep' = Inr (ep'', Some (h, r))"
proof -
  have cl: "cl = \<lparr>on_resolved = h, captured = resolve_cancelable ep\<rparr>" "c = tok"
      "resolve_cancelable ep' = tok"
    using assms(1) by (auto simp: endpoint_force_resolve_def boost_assert_Inr cancelable_copy_def)
  have "canceled (resolve_cancelable ep) (cancel tok st) = Inr False"
    using assms(2,3) by (auto simp: canceled_def cancel_def split: option.splits if_splits)
  then show ?thesis
    using cl endpoint_resolved_run [of cl "cancel tok st"] by (cases answer) auto
qed

theorem resolve_token_not_captured_witness:
  "\<exists>cl ep' ep'' r.
     endpoint_force_resolve (Some 1) (0::nat)
       ((fst (endpoint_from_host (\<lambda>_. None) ''a.b'' 80 []))\<lparr>resolver := Some 0\<rparr>) =
       Inr (cl, Some 1, ep') \<and>
     endpoint_resolved (cancel (Some 1) [False, False]) cl (Inr [V4 1]) ep' = Inr (ep'', Some (0, r))"
proof -
  obtain cl ep' where r: "endpoint_force_resolve (Some 1) (0::nat)
       ((fst (endpoint_from_host (\<lambda>_. None) ''a.b'' 80 []))\<lparr>resolver := Some 0\<rparr>) =
       Inr (cl, Some 1, ep')"
    by (simp add: endpoint_from_host_def endpoint_with_host_def cancelable_new_def endpoint_force_resolve_def)
  show ?thesis
    using r resolve_token_not_captured [OF r, of "[False, False]" "Inr [V4 1]"]
    by (auto simp: endpoint_from_host_def endpoint_with_host_def cancelable_new_def canceled_def)
qed

end
