(* ===== verification/Trie.thy ===== *)
theory Trie
  imports Nekit_Prelude "HOL-Library.Sublist"
begin

text \<open>
  \<open>utils::Trie\<close> (include/nekit/utils/trie.h), a template over a character type, the first
  character \<open>offset\<close>, the number of characters \<open>node_size\<close> and the direction.  Characters
  are integers here (the code's \<open>char\<close>, promoted to \<open>int\<close> in every comparison), template
  parameters are arguments.
\<close>

section \<open>Nodes\<close>

datatype trie = Trie_Node (nodes: "nat \<Rightarrow> trie option") (end_flag: bool)

definition trie_empty :: trie where
  "trie_empty = Trie_Node (\<lambda>_. None) False"

definition in_range :: "int \<Rightarrow> int \<Rightarrow> int \<Rightarrow> bool" where
  "in_range off node_size ch \<longleftrightarrow> \<not> (ch < off \<or> ch \<ge> off + node_size)"

section \<open>AddPrefix\<close>

text \<open>The walk from the root: missing children are created, the last node is marked.\<close>

fun add_path :: "int \<Rightarrow> int list \<Rightarrow> trie \<Rightarrow> trie" where
  "add_path off [] (Trie_Node ns e) = Trie_Node ns True"
| "add_path off (ch # cs) (Trie_Node ns e) =
     (let i = nat (ch - off);
          child = (case ns i of None \<Rightarrow> trie_empty | Some t \<Rightarrow> t)
      in Trie_Node (ns(i := Some (add_path off cs child))) e)"

definition add_prefix :: "int \<Rightarrow> int \<Rightarrow> bool \<Rightarrow> int list \<Rightarrow> trie \<Rightarrow> bool \<times> trie" where
  "add_prefix off node_size reverse p t =
     (if length p = 0 then (False, t)
      else if list_ex (\<lambda>ch. \<not> in_range off node_size ch) p then (False, t)
      else (True, add_path off (if reverse then rev p else p) t))"

section \<open>MatchPrefixWith\<close>

fun match_path :: "int \<Rightarrow> int \<Rightarrow> int list \<Rightarrow> trie \<Rightarrow> bool" where
  "match_path off node_size [] t = False"
| "match_path off node_size (ch # cs) t =
     (if \<not> in_range off node_size ch then False
      else case nodes t (nat (ch - off)) of
             None \<Rightarrow> False
           | Some u \<Rightarrow> if end_flag u then True else match_path off node_size cs u)"

definition match_prefix_with :: "int \<Rightarrow> int \<Rightarrow> bool \<Rightarrow> trie \<Rightarrow> int list \<Rightarrow> bool" where
  "match_prefix_with off node_size reverse t literal =
     (if length literal = 0 then False
      else match_path off node_size (if reverse then rev literal else literal) t)"

text \<open>\<open>DomainTrie\<close>: \<open>Trie<char, '-', 78, reverse>\<close>, over \<open>std::string\<close>.\<close>

definition char_value :: "char \<Rightarrow> int" where
  "char_value c = (let n = of_char c :: int in if n < 128 then n else n - 256)"

lemma inj_char_value: "inj char_value"
proof (rule injI)
  fix c d assume eq: "char_value c = char_value d"
  have range: "0 \<le> (of_char x :: int) \<and> (of_char x :: int) < 256" for x
    using pos_mod_bound [of 256 "of_char x :: int"] pos_mod_sign [of 256 "of_char x :: int"] by simp
  have "(of_char c :: int) = of_char d"
    using eq range [of c] range [of d] unfolding char_value_def Let_def
    by (simp only: split: if_splits)
  then show "c = d" by simp
qed

definition domain_chars :: "string \<Rightarrow> int list" where
  "domain_chars = map char_value"

definition domain_trie_add :: "bool \<Rightarrow> string \<Rightarrow> trie \<Rightarrow> bool \<times> trie" where
  "domain_trie_add reverse p t = add_prefix 45 78 reverse (domain_chars p) t"

definition domain_trie_match :: "bool \<Rightarrow> trie \<Rightarrow> string \<Rightarrow> bool" where
  "domain_trie_match reverse t s = match_prefix_with 45 78 reverse t (domain_chars s)"

section \<open>The words of a trie\<close>

text \<open>A trie stands for the set of the paths that end in a marked node.\<close>

fun has_word :: "int \<Rightarrow> int list \<Rightarrow> trie \<Rightarrow> bool" where
  "has_word off [] t = end_flag t"
| "has_word off (ch # cs) t =
     (case nodes t (nat (ch - off)) of None \<Rightarrow> False | Some u \<Rightarrow> has_word off cs u)"

lemma has_word_empty [simp]: "\<not> has_word off w trie_empty"
  by (cases w) (auto simp: trie_empty_def)

definition all_in_range :: "int \<Rightarrow> int \<Rightarrow> int list \<Rightarrow> bool" where
  "all_in_range off node_size p \<longleftrightarrow> (\<forall>ch \<in> set p. in_range off node_size ch)"

lemma all_in_range_simps [simp]:
  "all_in_range off n []"
  "all_in_range off n (c # cs) \<longleftrightarrow> in_range off n c \<and> all_in_range off n cs"
  "all_in_range off n (rev cs) \<longleftrightarrow> all_in_range off n cs"
  by (auto simp: all_in_range_def)

lemma in_range_inj:
  "in_range off n c \<Longrightarrow> in_range off n d \<Longrightarrow> nat (c - off) = nat (d - off) \<longleftrightarrow> c = d"
  by (auto simp: in_range_def)

lemma has_word_add_path:
  "all_in_range off n p \<Longrightarrow> all_in_range off n w \<Longrightarrow>
   has_word off w (add_path off p t) \<longleftrightarrow> w = p \<or> has_word off w t"
proof (induction p arbitrary: w t)
  case Nil
  then show ?case by (cases w; cases t) auto
next
  case (Cons c p)
  obtain ns e where t: "t = Trie_Node ns e" by (cases t)
  show ?case
  proof (cases w)
    case Nil
    with t show ?thesis by (simp add: Let_def)
  next
    case (Cons d v)
    let ?child = "case ns (nat (c - off)) of None \<Rightarrow> trie_empty | Some u \<Rightarrow> u"
    have ih: "has_word off v (add_path off p ?child) \<longleftrightarrow> v = p \<or> has_word off v ?child"
      using Cons.prems Cons by (intro Cons.IH) auto
    show ?thesis
      using Cons Cons.prems t ih in_range_inj [of off n c d]
      by (auto simp: Let_def split: option.splits)
  qed
qed

text \<open>A trie never marks its root: every marked node is reached by a non-empty path.\<close>

lemma end_flag_add_path: "p \<noteq> [] \<Longrightarrow> end_flag (add_path off p t) = end_flag t"
  by (cases p; cases t) (auto simp: Let_def)

lemma match_path_iff:
  "match_path off n cs t \<longleftrightarrow>
     (\<exists>p. p \<noteq> [] \<and> prefix p cs \<and> all_in_range off n p \<and> has_word off p t)"
proof (induction cs arbitrary: t)
  case Nil
  then show ?case by simp
next
  case (Cons c cs)
  have split: "(\<exists>p. p \<noteq> [] \<and> prefix p (c # cs) \<and> Q p) \<longleftrightarrow>
      Q [c] \<or> (\<exists>p. p \<noteq> [] \<and> prefix p cs \<and> Q (c # p))" for Q
    unfolding prefix_Cons by (metis Nil_prefix list.discI)
  show ?case
    unfolding split using Cons.IH by (auto split: option.splits)
qed

section \<open>Sequences of additions\<close>

fun add_all :: "int \<Rightarrow> int \<Rightarrow> bool \<Rightarrow> int list list \<Rightarrow> trie \<Rightarrow> trie" where
  "add_all off n reverse [] t = t"
| "add_all off n reverse (p # ps) t = add_all off n reverse ps (snd (add_prefix off n reverse p t))"

definition accepted :: "int \<Rightarrow> int \<Rightarrow> int list \<Rightarrow> bool" where
  "accepted off n p \<longleftrightarrow> p \<noteq> [] \<and> all_in_range off n p"

lemma add_prefix_accepted: "fst (add_prefix off n reverse p t) \<longleftrightarrow> accepted off n p"
  by (auto simp: add_prefix_def accepted_def list_ex_iff all_in_range_def)

lemma add_prefix_rejected: "\<not> accepted off n p \<Longrightarrow> snd (add_prefix off n reverse p t) = t"
  by (auto simp: add_prefix_def accepted_def list_ex_iff all_in_range_def)

lemma has_word_add_prefix:
  assumes "all_in_range off n w"
  shows "has_word off w (snd (add_prefix off n reverse p t)) \<longleftrightarrow>
           (accepted off n p \<and> w = (if reverse then rev p else p)) \<or> has_word off w t"
proof (cases "accepted off n p")
  case True
  then have "add_prefix off n reverse p t = (True, add_path off (if reverse then rev p else p) t)"
    by (auto simp: add_prefix_def accepted_def list_ex_iff all_in_range_def)
  then show ?thesis using True assms
    by (simp add: accepted_def has_word_add_path [of off n])
qed (simp add: add_prefix_rejected)

lemma has_word_add_all:
  assumes "all_in_range off n w"
  shows "has_word off w (add_all off n reverse ps t) \<longleftrightarrow>
           (\<exists>p \<in> set ps. accepted off n p \<and> w = (if reverse then rev p else p)) \<or> has_word off w t"
  using assms by (induction ps arbitrary: t) (auto simp: has_word_add_prefix)

lemma match_added:
  "match_prefix_with off n reverse (add_all off n reverse ps trie_empty) literal \<longleftrightarrow>
     (\<exists>p \<in> set ps. accepted off n p \<and>
        (if reverse then suffix p literal else prefix p literal))"
proof -
  have "match_prefix_with off n reverse (add_all off n reverse ps trie_empty) literal \<longleftrightarrow>
      (\<exists>w. w \<noteq> [] \<and> prefix w (if reverse then rev literal else literal) \<and> all_in_range off n w \<and>
        has_word off w (add_all off n reverse ps trie_empty))"
    by (auto simp: match_prefix_with_def match_path_iff)
  also have "\<dots> \<longleftrightarrow> (\<exists>p \<in> set ps. accepted off n p \<and>
        (if reverse then suffix p literal else prefix p literal))"
    by (auto simp: has_word_add_all accepted_def suffix_to_prefix cong: conj_cong)
  finally show ?thesis .
qed

end
