(* ===== verification/Country_Code.thy ===== *)
theory Country_Code
  imports Nekit_Prelude "HOL-Library.Multiset"
begin

text \<open>
  \<open>utils::CountryIsoCode\<close> (include/nekit/utils/country_iso_code.h,
  src/utils/country_iso_code.cc).  A value of the enumeration is its number, which is what
  \<open>static_cast<int>\<close> gives; the enumerators are listed by name in the order of the header,
  and the look-up table by pairs of a key and an enumerator's name.
\<close>

section \<open>The enumeration\<close>

type_synonym country_iso_code = nat

definition country_enumerators :: "string list" where
  "country_enumerators = [
     ''AF'', ''AX'', ''AL'', ''DZ'', ''AS'', ''AD'', ''AO'', ''AI'', ''AQ'', ''AG'', ''AR'',
     ''AM'', ''AW'', ''AU'', ''AT'', ''AZ'', ''BS'', ''BH'', ''BD'', ''BB'', ''BY'', ''BE'',
     ''BZ'', ''BJ'', ''BM'', ''BT'', ''BO'', ''BQ'', ''BA'', ''BW'', ''BV'', ''BR'', ''IO'',
     ''BN'', ''BG'', ''BF'', ''BI'', ''CV'', ''KH'', ''CM'', ''CA'', ''KY'', ''CF'', ''TD'',
     ''CL'', ''CN'', ''CX'', ''CC'', ''CO'', ''KM'', ''CG'', ''CD'', ''CK'', ''CR'', ''CI'',
     ''HR'', ''CU'', ''CW'', ''CY'', ''CZ'', ''DK'', ''DJ'', ''DM'', ''DO'', ''EC'', ''EG'',
     ''SV'', ''GQ'', ''ER'', ''EE'', ''ET'', ''FK'', ''FO'', ''FJ'', ''FI'', ''FR'', ''GF'',
     ''PF'', ''TF'', ''GA'', ''GM'', ''GE'', ''DE'', ''GH'', ''GI'', ''GR'', ''GL'', ''GD'',
     ''GP'', ''GU'', ''GT'', ''GG'', ''GN'', ''GW'', ''GY'', ''HT'', ''HM'', ''VA'', ''HN'',
     ''HK'', ''HU'', ''IS'', ''IND'', ''ID'', ''IR'', ''IQ'', ''IE'', ''IM'', ''IL'', ''IT'',
     ''JM'', ''JP'', ''JE'', ''JO'', ''KZ'', ''KE'', ''KI'', ''KP'', ''KR'', ''KW'', ''KG'',
     ''LA'', ''LV'', ''LB'', ''LS'', ''LR'', ''LY'', ''LI'', ''LT'', ''LU'', ''MO'', ''MK'',
     ''MG'', ''MW'', ''MY'', ''MV'', ''ML'', ''MT'', ''MH'', ''MQ'', ''MR'', ''MU'', ''YT'',
     ''MX'', ''FM'', ''MD'', ''MC'', ''MN'', ''ME'', ''MS'', ''MA'', ''MZ'', ''MM'', ''NA'',
     ''NR'', ''NP'', ''NL'', ''NC'', ''NZ'', ''NI'', ''NE'', ''NG'', ''NU'', ''NF'', ''MP'',
     ''NO'', ''OM'', ''PK'', ''PW'', ''PS'', ''PA'', ''PG'', ''PY'', ''PE'', ''PH'', ''PN'',
     ''PL'', ''PT'', ''PR'', ''QA'', ''RE'', ''RO'', ''RU'', ''RW'', ''BL'', ''SH'', ''KN'',
     ''LC'', ''MF'', ''PM'', ''VC'', ''WS'', ''SM'', ''ST'', ''SA'', ''SN'', ''RS'', ''SC'',
     ''SL'', ''SG'', ''SX'', ''SK'', ''SI'', ''SB'', ''SO'', ''ZA'', ''GS'', ''SS'', ''ES'',
     ''LK'', ''SD'', ''SR'', ''SJ'', ''SZ'', ''SE'', ''CH'', ''SY'', ''TW'', ''TJ'', ''TZ'',
     ''TH'', ''TL'', ''TG'', ''TK'', ''TO'', ''TT'', ''TN'', ''TR'', ''TM'', ''TC'', ''TV'',
     ''UG'', ''UA'', ''AE'', ''GB'', ''US'', ''UM'', ''UY'', ''UZ'', ''VU'', ''VE'', ''VN'',
     ''VG'', ''VI'', ''WF'', ''EH'', ''YE'', ''ZM'', ''ZW'', ''XX'']"

fun position :: "'a \<Rightarrow> 'a list \<Rightarrow> nat" where
  "position x [] = 0"
| "position x (y # ys) = (if x = y then 0 else Suc (position x ys))"

text \<open>The number of an enumerator.\<close>

definition country :: "string \<Rightarrow> country_iso_code" where
  "country name = position name country_enumerators"

section \<open>The look-up table\<close>

definition country_code_map :: "(string \<times> string) list" where
  "country_code_map = [
     (''AF'', ''AF''), (''AX'', ''AX''), (''AL'', ''AL''), (''DZ'', ''DZ''), (''AS'', ''AS''),
     (''AD'', ''AD''), (''AO'', ''AO''), (''AI'', ''AI''), (''AQ'', ''AQ''), (''AG'', ''AG''),
     (''AR'', ''AR''), (''AM'', ''AM''), (''AW'', ''AW''), (''AU'', ''AU''), (''AT'', ''AT''),
     (''AZ'', ''AZ''), (''BS'', ''BS''), (''BH'', ''BH''), (''BD'', ''BD''), (''BB'', ''BB''),
     (''BY'', ''BY''), (''BE'', ''BE''), (''BZ'', ''BZ''), (''BJ'', ''BJ''), (''BM'', ''BM''),
     (''BT'', ''BT''), (''BO'', ''BO''), (''BQ'', ''BQ''), (''BA'', ''BA''), (''BW'', ''BW''),
     (''BV'', ''BV''), (''BR'', ''BR''), (''IO'', ''IO''), (''BN'', ''BN''), (''BG'', ''BG''),
     (''BF'', ''BF''), (''BI'', ''BI''), (''CV'', ''CV''), (''KH'', ''KH''), (''CM'', ''CM''),
     (''CA'', ''CA''), (''KY'', ''KY''), (''CF'', ''CF''), (''TD'', ''TD''), (''CL'', ''CL''),
     (''CN'', ''CN''), (''CX'', ''CX''), (''CC'', ''CC''), (''CO'', ''CO''), (''KM'', ''KM''),
     (''CG'', ''CG''), (''CD'', ''CD''), (''CK'', ''CK''), (''CR'', ''CR''), (''CI'', ''CI''),
     (''HR'', ''HR''), (''CU'', ''CU''), (''CW'', ''CW''), (''CY'', ''CY''), (''CZ'', ''CZ''),
     (''DK'', ''DK''), (''DJ'', ''DJ''), (''DM'', ''DM''), (''DO'', ''DO''), (''EC'', ''EC''),
     (''EG'', ''EG''), (''SV'', ''SV''), (''GQ'', ''GQ''), (''ER'', ''ER''), (''EE'', ''EE''),
     (''ET'', ''ET''), (''FK'', ''FK''), (''FO'', ''FO''), (''FJ'', ''FJ''), (''FI'', ''FI''),
     (''FR'', ''FR''), (''GF'', ''GF''), (''PF'', ''PF''), (''TF'', ''TF''), (''GA'', ''GA''),
     (''GM'', ''GM''), (''GE'', ''GE''), (''DE'', ''DE''), (''GH'', ''GH''), (''GI'', ''GI''),
     (''GR'', ''GR''), (''GL'', ''GL''), (''GD'', ''GD''), (''GP'', ''GP''), (''GU'', ''GU''),
     (''GT'', ''GT''), (''GG'', ''GG''), (''GN'', ''GN''), (''GW'', ''GW''), (''GY'', ''GY''),
     (''HT'', ''HT''), (''HM'', ''HM''), (''VA'', ''VA''), (''HN'', ''HN''), (''HK'', ''HK''),
     (''HU'', ''HU''), (''IS'', ''IS''), (''IN'', ''IND''), (''ID'', ''ID''), (''IR'', ''IR''),
     (''IQ'', ''IQ''), (''IE'', ''IE''), (''IM'', ''IM''), (''IL'', ''IL''), (''IT'', ''IT''),
     (''JM'', ''JM''), (''JP'', ''JP''), (''JE'', ''JE''), (''JO'', ''JO''), (''KZ'', ''KZ''),
     (''KE'', ''KE''), (''KI'', ''KI''), (''KP'', ''KP''), (''KR'', ''KR''), (''KW'', ''KW''),
     (''KG'', ''KG''), (''LA'', ''LA''), (''LV'', ''LV''), (''LB'', ''LB''), (''LS'', ''LS''),
     (''LR'', ''LR''), (''LY'', ''LY''), (''LI'', ''LI''), (''LT'', ''LT''), (''LU'', ''LU''),
     (''MO'', ''MO''), (''MK'', ''MK''), (''MG'', ''MG''), (''MW'', ''MW''), (''MY'', ''MY''),
     (''MV'', ''MV''), (''ML'', ''ML''), (''MT'', ''MT''), (''MH'', ''MH''), (''MQ'', ''MQ''),
     (''MR'', ''MR''), (''MU'', ''MU''), (''YT'', ''YT''), (''MX'', ''MX''), (''FM'', ''FM''),
     (''MD'', ''MD''), (''MC'', ''MC''), (''MN'', ''MN''), (''ME'', ''ME''), (''MS'', ''MS''),
     (''MA'', ''MA''), (''MZ'', ''MZ''), (''MM'', ''MM''), (''NA'', ''NA''), (''NR'', ''NR''),
     (''NP'', ''NP''), (''NL'', ''NL''), (''NC'', ''NC''), (''NZ'', ''NZ''), (''NI'', ''NI''),
     (''NE'', ''NE''), (''NG'', ''NG''), (''NU'', ''NU''), (''NF'', ''NF''), (''MP'', ''MP''),
     (''NO'', ''NO''), (''OM'', ''OM''), (''PK'', ''PK''), (''PW'', ''PW''), (''PS'', ''PS''),
     (''PA'', ''PA''), (''PG'', ''PG''), (''PY'', ''PY''), (''PE'', ''PE''), (''PH'', ''PH''),
     (''PN'', ''PN''), (''PL'', ''PL''), (''PT'', ''PT''), (''PR'', ''PR''), (''QA'', ''QA''),
     (''RE'', ''RE''), (''RO'', ''RO''), (''RU'', ''RU''), (''RW'', ''RW''), (''BL'', ''BL''),
     (''SH'', ''SH''), (''KN'', ''KN''), (''LC'', ''LC''), (''MF'', ''MF''), (''PM'', ''PM''),
     (''VC'', ''VC''), (''WS'', ''WS''), (''SM'', ''SM''), (''ST'', ''ST''), (''SA'', ''SA''),
     (''SN'', ''SN''), (''RS'', ''RS''), (''SC'', ''SC''), (''SL'', ''SL''), (''SG'', ''SG''),
     (''SX'', ''SX''), (''SK'', ''SK''), (''SI'', ''SI''), (''SB'', ''SB''), (''SO'', ''SO''),
     (''ZA'', ''ZA''), (''GS'', ''GS''), (''SS'', ''SS''), (''ES'', ''ES''), (''LK'', ''LK''),
     (''SD'', ''SD''), (''SR'', ''SR''), (''SJ'', ''SJ''), (''SZ'', ''SZ''), (''SE'', ''SE''),
     (''CH'', ''CH''), (''SY'', ''SY''), (''TW'', ''TW''), (''TJ'', ''TJ''), (''TZ'', ''TZ''),
     (''TH'', ''TH''), (''TL'', ''TL''), (''TG'', ''TG''), (''TK'', ''TK''), (''TO'', ''TO''),
     (''TT'', ''TT''), (''TN'', ''TN''), (''TR'', ''TR''), (''TM'', ''TM''), (''TC'', ''TC''),
     (''TV'', ''TV''), (''UG'', ''UG''), (''UA'', ''UA''), (''AE'', ''AE''), (''GB'', ''GB''),
     (''US'', ''US''), (''UM'', ''UM''), (''UY'', ''UY''), (''UZ'', ''UZ''), (''VU'', ''VU''),
     (''VE'', ''VE''), (''VN'', ''VN''), (''VG'', ''VG''), (''VI'', ''VI''), (''WF'', ''WF''),
     (''EH'', ''EH''), (''YE'', ''YE''), (''ZM'', ''ZM''), (''ZW'', ''ZW''), (''XX'', ''XX'')]"

definition country_iso_code_from_string :: "string \<Rightarrow> country_iso_code" where
  "country_iso_code_from_string code =
     (case map_of country_code_map code of Some e \<Rightarrow> country e | None \<Rightarrow> country ''XX'')"

section \<open>Every code is found\<close>

text \<open>
  The key of an enumerator is its own name, but for India, whose enumerator cannot be called
  \<open>IN\<close> in C++.
\<close>

definition enumerator_key :: "string \<Rightarrow> string" where
  "enumerator_key e = (if e = ''IND'' then ''IN'' else e)"

lemma position_nth: "distinct xs \<Longrightarrow> i < length xs \<Longrightarrow> position (xs ! i) xs = i"
proof (induction xs arbitrary: i)
  case (Cons x xs)
  then show ?case by (cases i) auto
qed simp

lemma nth_position: "x \<in> set xs \<Longrightarrow> xs ! position x xs = x \<and> position x xs < length xs"
  by (induction xs) auto

lemma country_code_map_keys: "country_code_map = map (\<lambda>e. (enumerator_key e, e)) country_enumerators"
  by code_simp

text \<open>Names are told apart by the numbers they spell, which are sorted to compare neighbours only.\<close>

definition name_number :: "string \<Rightarrow> int" where
  "name_number s = foldr (\<lambda>c n. of_char c + 256 * n) s 0"

fun ascending :: "int list \<Rightarrow> bool" where
  "ascending (x # y # ys) \<longleftrightarrow> x < y \<and> ascending (y # ys)"
| "ascending _ \<longleftrightarrow> True"

lemma ascending_distinct: "ascending (sort xs) \<Longrightarrow> distinct xs"
proof -
  have "ascending ys \<Longrightarrow> sorted_wrt (<) ys" for ys
    by (induction ys rule: ascending.induct) auto
  then show "ascending (sort xs) \<Longrightarrow> distinct xs"
    using strict_sorted_iff distinct_sort by blast
qed

lemma distinct_enumerators: "distinct country_enumerators"
proof -
  have "ascending (sort (map name_number country_enumerators))"
    by code_simp
  then show ?thesis
    by (metis ascending_distinct distinct_map)
qed

lemma length_enumerators: "length country_enumerators = 250"
  by code_simp

lemma no_enumerator_IN: "''IN'' \<notin> set country_enumerators"
  by code_simp

lemma enumerator_key_inj: "inj_on enumerator_key (set country_enumerators)"
  using no_enumerator_IN by (auto simp: inj_on_def enumerator_key_def)

lemma map_of_country_code_map:
  "e \<in> set country_enumerators \<Longrightarrow> map_of country_code_map (enumerator_key e) = Some e"
  unfolding country_code_map_keys
  using distinct_enumerators enumerator_key_inj
  by (intro map_of_is_SomeI) (auto simp: comp_def distinct_map)

lemma country_nth: "i < 250 \<Longrightarrow> country (country_enumerators ! i) = i"
  using distinct_enumerators length_enumerators by (simp add: country_def position_nth)

lemma country_XX: "country ''XX'' = 249" "''XX'' \<in> set country_enumerators"
  by code_simp+

lemma from_string_key:
  "e \<in> set country_enumerators \<Longrightarrow> country_iso_code_from_string (enumerator_key e) = country e"
  by (simp add: country_iso_code_from_string_def map_of_country_code_map)

lemma from_string_unknown:
  "code \<notin> enumerator_key ` set country_enumerators \<Longrightarrow> country_iso_code_from_string code = 249"
proof -
  assume "code \<notin> enumerator_key ` set country_enumerators"
  then have "map_of country_code_map code = None"
    by (auto simp: country_code_map_keys map_of_eq_None_iff)
  then show ?thesis
    by (simp add: country_iso_code_from_string_def country_XX)
qed

text \<open>
  Looking a country up by its code gives the number of the enumerator with that code, and
  \<open>XX\<close>, number 249, for any other string; in particular the table has no wrong, missing or
  shadowed row.
\<close>

theorem country_from_string_iff:
  "country_iso_code_from_string code = i \<longleftrightarrow>
     (i < 250 \<and> code = enumerator_key (country_enumerators ! i)) \<or>
     (i = 249 \<and> code \<notin> enumerator_key ` set country_enumerators)"
proof (cases "code \<in> enumerator_key ` set country_enumerators")
  case True
  then obtain e where e: "e \<in> set country_enumerators" "code = enumerator_key e" by auto
  then obtain j where j: "j < 250" "e = country_enumerators ! j"
    by (metis in_set_conv_nth length_enumerators)
  have "code = enumerator_key (country_enumerators ! i) \<longleftrightarrow> i = j" if "i < 250"
    using that e j enumerator_key_inj length_enumerators
    by (metis country_nth inj_onD nth_mem)
  then show ?thesis using True e j by (auto simp: from_string_key country_nth)
next
  case False
  then show ?thesis
    using length_enumerators by (auto simp: from_string_unknown)
qed

end
