(* ===== verification/Rules.thy ===== *)
theory Rules
  imports Endpoint Trie Country_Code
begin

text \<open>
  The rules (src/rule/, include/nekit/rule/) and the country look-up they use
  (src/utils/maxmind.cc).  A rule's handler, which builds the remote flow, is a value of type
  \<open>'f\<close>.  What the regular expression library and libmaxminddb answer are arguments.
\<close>

section \<open>Maxmind\<close>

text \<open>
  What \<open>MMDB_lookup_sockaddr\<close> and then \<open>MMDB_get_value\<close> give for an address: an error
  code, and the entry's country value.
\<close>

record mmdb_entry =
  found_entry :: bool
  get_value_status :: int
  has_data :: bool
  is_utf8 :: bool
  utf8_string :: string

definition mmdb_success :: int where "mmdb_success = 0"

definition path_does_not_match :: int where "path_does_not_match = 9"

type_synonym mmdb = "ip_address \<Rightarrow> int \<times> mmdb_entry"

definition maxmind_lookup :: "mmdb \<Rightarrow> ip_address \<Rightarrow> mmdb_entry result" where
  "maxmind_lookup db a =
     (let (mmdb_error, r) = db a
      in if mmdb_error \<noteq> mmdb_success then Inl (error_of Maxmind_Category mmdb_error) else Inr r)"

text \<open>
  \<open>Initalize\<close>, given what \<open>MMDB_open\<close> returns for a file, and the look-up of an address in text,
  for which libmaxminddb first calls \<open>getaddrinfo\<close>, whose error is only asserted on.
\<close>

definition maxmind_initialize :: "(string \<Rightarrow> int \<times> mmdb) \<Rightarrow> string \<Rightarrow> bool \<times> mmdb" where
  "maxmind_initialize mmdb_open file = (let (status, db) = mmdb_open file in (status = mmdb_success, db))"

definition maxmind_lookup_string ::
  "(string \<Rightarrow> int \<times> int \<times> mmdb_entry) \<Rightarrow> string \<Rightarrow> mmdb_entry result exec" where
  "maxmind_lookup_string lookup_text ip =
     (let (gai_error, mmdb_error, r) = lookup_text ip
      in boost_assert (gai_error = mmdb_success)
           (Inr (if mmdb_error \<noteq> mmdb_success then Inl (error_of Maxmind_Category mmdb_error) else Inr r)))"

lemma maxmind_lookup_string_is:
  "lookup_text ip = (0, db a) \<Longrightarrow> maxmind_lookup_string lookup_text ip = Inr (maxmind_lookup db a)"
  by (simp add: maxmind_lookup_string_def maxmind_lookup_def mmdb_success_def Let_def split: prod.split)

text \<open>A text that is no address ends the program instead of giving an error.\<close>

lemma maxmind_lookup_string_asserts:
  "lookup_text ip = (gai_error, r) \<Longrightarrow> gai_error \<noteq> 0 \<Longrightarrow> maxmind_lookup_string lookup_text ip = Inl Assert_Failed"
  by (cases r) (simp add: maxmind_lookup_string_def mmdb_success_def boost_assert_def)

definition entry_country :: "mmdb_entry \<Rightarrow> country_iso_code exec" where
  "entry_country r =
     (if \<not> found_entry r then Inr (country ''XX'')
      else if get_value_status r = path_does_not_match then Inr (country ''XX'')
      else boost_assert (get_value_status r = mmdb_success)
             (boost_assert (has_data r)
               (boost_assert (is_utf8 r)
                 (boost_assert (length (utf8_string r) = 2)
                   (Inr (country_iso_code_from_string (utf8_string r)))))))"

section \<open>Rules\<close>

datatype match_result = Match | NotMatch | ResolveNeeded

text \<open>The classes that implement \<open>RuleInterface\<close>, with what each holds.\<close>

datatype ('r, 'f) rule =
    All_Rule (rule_handler: 'f)
  | Dns_Fail_Rule (rule_handler: 'f)
  | Domain_Rule "string list" (rule_handler: 'f)
  | Domain_Regex_Rule "'r list" (rule_handler: 'f)
  | Domain_Affix_Rule bool trie (rule_handler: 'f)
  | Subnet_Rule "subnet list" (rule_handler: 'f)
  | Geo_Rule country_iso_code bool (rule_handler: 'f)

text \<open>What the rules rely on from outside the library.\<close>

record 'r rule_env =
  env_order :: byte_order
  env_regex :: "string \<Rightarrow> 'r \<Rightarrow> bool"
  env_mmdb :: mmdb

subsection \<open>Filling a rule\<close>

definition domain_rule_add :: "string \<Rightarrow> ('r, 'f) rule \<Rightarrow> ('r, 'f) rule" where
  "domain_rule_add d r =
     (case r of Domain_Rule ds h \<Rightarrow> Domain_Rule (if d \<in> set ds then ds else d # ds) h | _ \<Rightarrow> r)"

definition domain_regex_rule_add ::
  "(string \<Rightarrow> int + 'r) \<Rightarrow> string \<Rightarrow> ('r, 'f) rule \<Rightarrow> (unit result \<times> ('r, 'f) rule) exec" where
  "domain_regex_rule_add compile expression r =
     (case r of
        Domain_Regex_Rule rs h \<Rightarrow>
          (case compile expression of
             Inl code \<Rightarrow> exec_bind (from_regex_error code) (\<lambda>e. Inr (Inl e, r))
           | Inr rx \<Rightarrow> Inr (Inr (), Domain_Regex_Rule (rs @ [rx]) h))
      | _ \<Rightarrow> Inr (Inr (), r))"

definition domain_affix_rule_add :: "string \<Rightarrow> ('r, 'f) rule \<Rightarrow> ('r, 'f) rule" where
  "domain_affix_rule_add p r =
     (case r of
        Domain_Affix_Rule reverse t h \<Rightarrow>
          Domain_Affix_Rule reverse (snd (domain_trie_add reverse p t)) h
      | _ \<Rightarrow> r)"

definition subnet_rule_add ::
  "byte_order \<Rightarrow> ip_address \<Rightarrow> int \<Rightarrow> ('r, 'f) rule \<Rightarrow> ('r, 'f) rule exec" where
  "subnet_rule_add e a p r =
     (case r of
        Subnet_Rule ss h \<Rightarrow> exec_bind (subnet_new e a p) (\<lambda>s. Inr (Subnet_Rule (ss @ [s]) h))
      | _ \<Rightarrow> Inr r)"

subsection \<open>Matching a session\<close>

definition dns_fail_match :: "endpoint \<Rightarrow> match_result" where
  "dns_fail_match ep =
     (if is_address_available ep then NotMatch
      else if is_resolvable ep then ResolveNeeded
      else Match)"

definition domain_match :: "string list \<Rightarrow> endpoint \<Rightarrow> match_result" where
  "domain_match ds ep =
     (if etype ep = Domain_Type \<and> host ep \<in> set ds then Match else NotMatch)"

definition domain_regex_match :: "(string \<Rightarrow> 'r \<Rightarrow> bool) \<Rightarrow> 'r list \<Rightarrow> endpoint \<Rightarrow> match_result" where
  "domain_regex_match search rs ep =
     (if etype ep = Address_Type then NotMatch
      else if list_ex (search (host ep)) rs then Match
      else NotMatch)"

definition domain_affix_match :: "bool \<Rightarrow> trie \<Rightarrow> endpoint \<Rightarrow> match_result" where
  "domain_affix_match reverse t ep =
     (if etype ep = Address_Type then NotMatch
      else if domain_trie_match reverse t (host ep) then Match
      else NotMatch)"

definition subnet_look_up :: "byte_order \<Rightarrow> subnet list \<Rightarrow> ip_address \<Rightarrow> bool" where
  "subnet_look_up e ss a = list_ex (\<lambda>s. subnet_contains e s a) ss"

definition subnet_match :: "byte_order \<Rightarrow> subnet list \<Rightarrow> endpoint \<Rightarrow> match_result exec" where
  "subnet_match e ss ep =
     (if is_address_available ep
      then exec_bind (endpoint_address ep) (\<lambda>a.
             Inr (if subnet_look_up e ss a then Match else NotMatch))
      else if is_resolvable ep then Inr ResolveNeeded
      else Inr NotMatch)"

definition country_cache_key :: string where "country_cache_key = ''NECC''"

text \<open>\<open>LookupAndCache\<close> dereferences the look-up's result without asking whether it is an error.\<close>

definition lookup_and_cache ::
  "mmdb \<Rightarrow> ip_address \<Rightarrow> session \<Rightarrow> (country_iso_code \<times> session) exec" where
  "lookup_and_cache db a s =
     (case maxmind_lookup db a of
        Inl e \<Rightarrow> Inl Null_Deref
      | Inr r \<Rightarrow> exec_bind (entry_country r) (\<lambda>code.
          Inr (code, s\<lparr>int_cache := (int_cache s)(country_cache_key \<mapsto> int code)\<rparr>)))"

definition geo_match ::
  "mmdb \<Rightarrow> country_iso_code \<Rightarrow> bool \<Rightarrow> endpoint \<Rightarrow> session \<Rightarrow> (match_result \<times> session) exec" where
  "geo_match db code want ep s =
     (let decide = (\<lambda>(c, s'). Inr (if (c = code) = want then Match else NotMatch, s'))
      in case int_cache s country_cache_key of
           Some n \<Rightarrow> decide (nat n, s)
         | None \<Rightarrow>
             (if is_address_available ep
              then exec_bind (endpoint_address ep) (\<lambda>a.
                   exec_bind (lookup_and_cache db a s) decide)
              else if is_resolvable ep then Inr (ResolveNeeded, s)
              else Inr (NotMatch, s)))"

text \<open>
  \<open>Match\<close> of each class.  All but \<open>DomainRule\<close> assert that the session has an endpoint;
  \<open>DomainRule\<close> follows the null pointer.
\<close>

definition rule_match ::
  "'r rule_env \<Rightarrow> ('r, 'f) rule \<Rightarrow> session \<Rightarrow> (match_result \<times> session) exec" where
  "rule_match env r s =
     (case session_endpoint s of
        None \<Rightarrow> Inl (case r of Domain_Rule ds h \<Rightarrow> Null_Deref | _ \<Rightarrow> Assert_Failed)
      | Some ep \<Rightarrow>
          (case r of
             All_Rule h \<Rightarrow> Inr (Match, s)
           | Dns_Fail_Rule h \<Rightarrow> Inr (dns_fail_match ep, s)
           | Domain_Rule ds h \<Rightarrow> Inr (domain_match ds ep, s)
           | Domain_Regex_Rule rs h \<Rightarrow> Inr (domain_regex_match (env_regex env) rs ep, s)
           | Domain_Affix_Rule reverse t h \<Rightarrow> Inr (domain_affix_match reverse t ep, s)
           | Subnet_Rule ss h \<Rightarrow>
               exec_bind (subnet_match (env_order env) ss ep) (\<lambda>m. Inr (m, s))
           | Geo_Rule code want h \<Rightarrow> geo_match (env_mmdb env) code want ep s))"

text \<open>\<open>GetDataFlow\<close>: the handler, given the session; two of the classes do not check it.\<close>

definition rule_get_data_flow :: "('r, session \<Rightarrow> 'g) rule \<Rightarrow> session \<Rightarrow> 'g exec" where
  "rule_get_data_flow r s =
     (case r of
        Dns_Fail_Rule h \<Rightarrow> Inr (h s)
      | Domain_Rule ds h \<Rightarrow> Inr (h s)
      | _ \<Rightarrow> boost_assert (session_endpoint s \<noteq> None) (Inr (rule_handler r s)))"

section \<open>What a rule means\<close>

text \<open>
  The verdict of a rule on a destination whose addresses are known: \<open>Some a\<close> the first
  address, \<open>None\<close> when the name cannot be resolved.
\<close>

fun rule_holds ::
  "'r rule_env \<Rightarrow> (ip_address \<Rightarrow> country_iso_code) \<Rightarrow> endpoint_type \<Rightarrow> string \<Rightarrow>
   ip_address option \<Rightarrow> ('r, 'f) rule \<Rightarrow> bool" where
  "rule_holds env geo ty h a (All_Rule f) = True"
| "rule_holds env geo ty h a (Dns_Fail_Rule f) = (a = None)"
| "rule_holds env geo ty h a (Domain_Rule ds f) = (ty = Domain_Type \<and> h \<in> set ds)"
| "rule_holds env geo ty h a (Domain_Regex_Rule rs f) =
     (ty = Domain_Type \<and> (\<exists>r \<in> set rs. env_regex env h r))"
| "rule_holds env geo ty h a (Domain_Affix_Rule reverse t f) =
     (ty = Domain_Type \<and> domain_trie_match reverse t h)"
| "rule_holds env geo ty h a (Subnet_Rule ss f) =
     (case a of None \<Rightarrow> False | Some x \<Rightarrow> \<exists>s \<in> set ss. subnet_contains (env_order env) s x)"
| "rule_holds env geo ty h a (Geo_Rule code want f) =
     (case a of None \<Rightarrow> False | Some x \<Rightarrow> (geo x = code) = want)"

text \<open>The database answers for every address, with its country.\<close>

definition mmdb_answers :: "mmdb \<Rightarrow> (ip_address \<Rightarrow> country_iso_code) \<Rightarrow> bool" where
  "mmdb_answers db geo \<longleftrightarrow>
     (\<forall>a. \<exists>r. maxmind_lookup db a = Inr r \<and> entry_country r = Inr (geo a))"

text \<open>The address an endpoint's rules see: none while it is unknown.\<close>

definition known_address :: "endpoint \<Rightarrow> ip_address option" where
  "known_address ep = (case endpoint_address ep of Inl f \<Rightarrow> None | Inr a \<Rightarrow> Some a)"

text \<open>The cached country is the one of the endpoint's address.\<close>

definition cache_ok :: "(ip_address \<Rightarrow> country_iso_code) \<Rightarrow> session \<Rightarrow> endpoint \<Rightarrow> bool" where
  "cache_ok geo s ep \<longleftrightarrow>
     (\<forall>n. int_cache s country_cache_key = Some n \<longrightarrow>
          (\<exists>a. endpoint_address ep = Inr a \<and> n = int (geo a)))"

text \<open>Whether a rule has to know the address.\<close>

fun needs_address :: "('r, 'f) rule \<Rightarrow> bool" where
  "needs_address (Dns_Fail_Rule f) = True"
| "needs_address (Subnet_Rule ss f) = True"
| "needs_address (Geo_Rule code want f) = True"
| "needs_address _ = False"

definition undecided :: "endpoint \<Rightarrow> bool" where
  "undecided ep \<longleftrightarrow> \<not> is_address_available ep \<and> is_resolvable ep"

lemma endpoint_type_cases [simp]:
  "t \<noteq> Address_Type \<longleftrightarrow> t = Domain_Type" "t \<noteq> Domain_Type \<longleftrightarrow> t = Address_Type"
  by (cases t; simp)+

lemma known_address_available:
  "endpoint_ok ep \<Longrightarrow> is_address_available ep \<longleftrightarrow> known_address ep \<noteq> None"
  by (auto simp: address_available known_address_def split: sum.splits)

lemma known_address_get: "known_address ep = Some a \<longleftrightarrow> endpoint_address ep = Inr a"
  by (auto simp: known_address_def split: sum.splits)

text \<open>
  What \<open>Match\<close> returns: it asks for a resolve when the rule needs an address that can still
  be had, and otherwise decides as the rule means; it keeps the cache consistent.
\<close>

lemma geo_rule_spec:
  assumes "session_endpoint s = Some ep" "endpoint_ok ep" "cache_ok geo s ep"
    and "mmdb_answers (env_mmdb env) geo"
  shows "\<exists>s'. rule_match env (Geo_Rule code want h) s =
           Inr (if needs_address (Geo_Rule code want h) \<and> undecided ep then ResolveNeeded
                else if rule_holds env geo (etype ep) (host ep) (known_address ep) (Geo_Rule code want h)
                then Match else NotMatch, s') \<and>
         session_endpoint s' = Some ep \<and> cache_ok geo s' ep"
proof -
  have avail: "is_address_available ep \<longleftrightarrow> (\<exists>a. known_address ep = Some a)"
    using known_address_available [OF assms(2)] by auto
  show ?thesis
  proof (cases "int_cache s country_cache_key")
    case (Some n)
    then obtain a where a: "endpoint_address ep = Inr a" "n = int (geo a)"
      using assms(3) by (auto simp: cache_ok_def)
    then have "is_address_available ep" "known_address ep = Some a"
      using avail by (auto simp: known_address_get)
    then show ?thesis using Some a assms
      by (auto simp: rule_match_def geo_match_def undecided_def)
  next
    case None
    show ?thesis
    proof (cases "is_address_available ep")
      case True
      then obtain a where a: "known_address ep = Some a" "endpoint_address ep = Inr a"
        using avail known_address_get by auto
      obtain e where e: "maxmind_lookup (env_mmdb env) a = Inr e" "entry_country e = Inr (geo a)"
        using assms(4) by (auto simp: mmdb_answers_def)
      show ?thesis using None True a e assms
        by (auto simp: rule_match_def geo_match_def lookup_and_cache_def undecided_def cache_ok_def)
    next
      case False
      then show ?thesis using None avail assms
        by (auto simp: rule_match_def geo_match_def undecided_def cache_ok_def)
    qed
  qed
qed

lemma rule_match_spec:
  assumes "session_endpoint s = Some ep" "endpoint_ok ep" "cache_ok geo s ep"
    and "mmdb_answers (env_mmdb env) geo"
  shows "\<exists>s'. rule_match env r s =
           Inr (if needs_address r \<and> undecided ep then ResolveNeeded
                else if rule_holds env geo (etype ep) (host ep) (known_address ep) r
                then Match else NotMatch, s') \<and>
         session_endpoint s' = Some ep \<and> cache_ok geo s' ep"
proof -
  have avail: "is_address_available ep \<longleftrightarrow> (\<exists>a. known_address ep = Some a)"
    using known_address_available [OF assms(2)] by auto
  show ?thesis
  proof (cases r)
    case (Dns_Fail_Rule h)
    then show ?thesis using assms avail
      by (auto simp: rule_match_def dns_fail_match_def undecided_def)
  next
    case (Subnet_Rule ss h)
    show ?thesis
    proof (cases "known_address ep")
      case None
      then show ?thesis using assms avail Subnet_Rule
        by (auto simp: rule_match_def subnet_match_def undecided_def)
    next
      case (Some a)
      then have "endpoint_address ep = Inr a" by (simp add: known_address_get)
      then show ?thesis using assms avail Subnet_Rule Some
        by (auto simp: rule_match_def subnet_match_def subnet_look_up_def undecided_def list_ex_iff)
    qed
  next
    case (Geo_Rule code want h)
    show ?thesis unfolding Geo_Rule by (rule geo_rule_spec [OF assms])
  qed (use assms in \<open>auto simp: rule_match_def domain_match_def domain_regex_match_def
        domain_affix_match_def list_ex_iff\<close>)
qed

lemma rule_holds_no_address:
  "\<not> needs_address r \<Longrightarrow> rule_holds env geo ty h a r = rule_holds env geo ty h b r"
  by (cases r) auto

section \<open>Properties\<close>

text \<open>
  C36. A domain rule by prefix or suffix, filled with any list of domains, matches a host name
  exactly when one of the domains it accepted is a prefix (or suffix) of the name; an address
  never matches.  Accepted are the non-empty names over the characters of the trie.
\<close>

theorem affix_rule_matches:
  "domain_affix_match reverse (foldl (\<lambda>t p. snd (domain_trie_add reverse p t)) trie_empty ps) ep =
     (if etype ep = Domain_Type \<and>
         (\<exists>p \<in> set ps. p \<noteq> [] \<and> (\<forall>c \<in> set p. 45 \<le> char_value c \<and> char_value c < 123) \<and>
            (if reverse then suffix p (host ep) else prefix p (host ep)))
      then Match else NotMatch)"
proof -
  have fold: "foldl (\<lambda>t p. snd (domain_trie_add reverse p t)) t ps =
      add_all 45 78 reverse (map domain_chars ps) t" for t
    by (induction ps arbitrary: t) (simp_all add: domain_trie_add_def)
  note inj = inj_char_value
  have pre: "prefix (map char_value p) (map char_value q) \<longleftrightarrow> prefix p q" for p q
    by (auto simp: prefix_def map_eq_append_conv inj_map_eq_map [OF inj])
  have suf: "suffix (map char_value p) (map char_value q) \<longleftrightarrow> suffix p q" for p q
    using pre [of "rev p" "rev q"] by (simp add: suffix_to_prefix rev_map)
  have acc: "accepted 45 78 (domain_chars p) \<longleftrightarrow>
      p \<noteq> [] \<and> (\<forall>c \<in> set p. 45 \<le> char_value c \<and> char_value c < 123)" for p
    by (simp add: accepted_def all_in_range_def in_range_def domain_chars_def not_less not_le)
  show ?thesis
    unfolding domain_affix_match_def fold domain_trie_match_def match_added
    by (simp add: acc [unfolded domain_chars_def] domain_chars_def pre suf)
qed

theorem affix_rule_matches_witness:
  "domain_affix_match True
     (foldl (\<lambda>t p. snd (domain_trie_add True p t)) trie_empty [''.io'', ''b c''])
     (endpoint_with_host (\<lambda>_. None) ''x.io'' 80 None) = Match"
  unfolding affix_rule_matches
  by (simp add: endpoint_with_host_def suffix_to_prefix char_value_def Let_def)
text \<open>
  A failed country look-up is not handled: the rule follows the missing result as soon as
  the address of an uncached session is known.
\<close>

theorem geo_lookup_failure_faults:
  assumes "session_endpoint s = Some ep" "endpoint_address ep = Inr a" "is_address_available ep"
    and "int_cache s country_cache_key = None" "fst (env_mmdb env a) \<noteq> 0"
  shows "rule_match env (Geo_Rule code want h) s = Inl Null_Deref"
  using assms
  by (auto simp: rule_match_def geo_match_def lookup_and_cache_def maxmind_lookup_def mmdb_success_def
      split: prod.splits)

theorem geo_lookup_failure_faults_witness:
  "rule_match \<lparr>env_order = Little_Endian, env_regex = \<lambda>_ (_::nat). False,
      env_mmdb = \<lambda>_. (2, \<lparr>found_entry = False, get_value_status = 0, has_data = False,
                          is_utf8 = False, utf8_string = []\<rparr>)\<rparr>
     (Geo_Rule 0 True ())
     (session_new 0 (Some (fst (endpoint_from_address (\<lambda>_. ''1.1.1.1'') (V4 1) 80 [])))) =
     Inl Null_Deref"
  by (rule geo_lookup_failure_faults
        [where a = "V4 1" and ep = "fst (endpoint_from_address (\<lambda>_. ''1.1.1.1'') (V4 1) 80 [])"])
    (simp_all add: session_new_def endpoint_from_address_def endpoint_with_address_def cancelable_new_def endpoint_defs)

end
