(* ===== verification/Rule_Manager.thy ===== *)
theory Rule_Manager
  imports Rules
begin

text \<open>
  \<open>rule::RuleManager\<close> (src/rule/rule_manager.cc).  \<open>MatchIterator\<close> walks the rules; when
  a rule asks for a resolve it stops, and the callback of the resolve resumes it at the same
  rule.  The iterator of the code is the list of the rules that are left.
\<close>

section \<open>The walk\<close>

definition no_match_error :: error where
  "no_match_error = error_of Rule_Manager_Category 1"

text \<open>
  How a run of \<open>MatchIterator\<close> ends: the handler is called with a rule or an error, or the
  walk waits for the endpoint with the rules it has left, or it was canceled.
\<close>

datatype ('r, 'f) walk =
    Done "('r, 'f) rule result"
  | Waiting "('r, 'f) rule list" cancelable "unit resolve_closure"
  | Dropped

fun match_loop ::
  "'r rule_env \<Rightarrow> cancelable \<Rightarrow> ('r, 'f) rule list \<Rightarrow> session \<Rightarrow> (('r, 'f) walk \<times> session) exec" where
  "match_loop env tok [] s = Inr (Done (Inl no_match_error), s)"
| "match_loop env tok (r # rs) s =
     exec_bind (rule_match env r s) (\<lambda>(m, s').
       case m of
         Match \<Rightarrow> Inr (Done (Inr r), s')
       | NotMatch \<Rightarrow> match_loop env tok rs s'
       | ResolveNeeded \<Rightarrow>
           (case session_endpoint s' of
              None \<Rightarrow> Inl Null_Deref
            | Some ep \<Rightarrow>
                exec_bind (endpoint_resolve tok () ep) (\<lambda>(cl, c, ep').
                  Inr (Waiting (r # rs) c cl, s'\<lparr>session_endpoint := Some ep'\<rparr>))))"

definition match_iterator ::
  "'r rule_env \<Rightarrow> cancelable \<Rightarrow> cancel_store \<Rightarrow> cancelable \<Rightarrow> ('r, 'f) rule list \<Rightarrow> session \<Rightarrow>
   (('r, 'f) walk \<times> session) exec" where
  "match_iterator env tok st c rs s =
     exec_bind (canceled c st) (\<lambda>stop.
       if stop then Inr (Dropped, s) else match_loop env tok rs s)"

section \<open>The manager\<close>

record ('r, 'f) rule_manager =
  rules :: "('r, 'f) rule list"
  manager_runloop :: nat
  manager_lifetime :: cancelable

definition append_rule :: "('r, 'f) rule \<Rightarrow> ('r, 'f) rule_manager \<Rightarrow> ('r, 'f) rule_manager" where
  "append_rule r m = m\<lparr>rules := rules m @ [r]\<rparr>"

definition rule_manager_destroy :: "('r, 'f) rule_manager \<Rightarrow> cancel_store \<Rightarrow> cancel_store" where
  "rule_manager_destroy m st = cancel (manager_lifetime m) st"

text \<open>\<open>Match\<close>: a fresh token, and a posted task that holds it.\<close>

definition manager_match :: "cancel_store \<Rightarrow> cancelable \<times> cancel_store" where
  "manager_match st = cancelable_new st"

definition match_task ::
  "'r rule_env \<Rightarrow> cancelable \<Rightarrow> cancel_store \<Rightarrow> cancelable \<Rightarrow> ('r, 'f) rule_manager \<Rightarrow> session \<Rightarrow>
   (('r, 'f) walk \<times> session) exec" where
  "match_task env tok st c m s =
     exec_bind (either_canceled c (manager_lifetime m) st) (\<lambda>stop.
       if stop then Inr (Dropped, s) else match_iterator env tok st c (rules m) s)"

text \<open>The callback of the resolve: its result is ignored, the walk goes on where it stopped.\<close>

definition resolve_callback ::
  "'r rule_env \<Rightarrow> cancelable \<Rightarrow> cancel_store \<Rightarrow> cancelable \<Rightarrow> ('r, 'f) rule_manager \<Rightarrow>
   ('r, 'f) rule list \<Rightarrow> session \<Rightarrow> (('r, 'f) walk \<times> session) exec" where
  "resolve_callback env tok st c m rs s =
     exec_bind (either_canceled c (manager_lifetime m) st) (\<lambda>stop.
       if stop then Inr (Dropped, s) else match_iterator env tok st c rs s)"

text \<open>
  A whole match: the task, and, when it waits, the resolver's answer, which runs the
  endpoint's closure and then the callback.  A second wait is returned as it is.
\<close>

definition run_match ::
  "'r rule_env \<Rightarrow> cancelable \<Rightarrow> cancel_store \<Rightarrow> cancelable \<Rightarrow> ip_address list result \<Rightarrow>
   ('r, 'f) rule_manager \<Rightarrow> session \<Rightarrow> (('r, 'f) walk \<times> session) exec" where
  "run_match env tok st c answer m s =
     exec_bind (match_task env tok st c m s) (\<lambda>(w, s1).
       case w of
         Waiting rs t cl \<Rightarrow>
           (case session_endpoint s1 of
              None \<Rightarrow> Inl Null_Deref
            | Some ep \<Rightarrow>
                exec_bind (endpoint_resolved st cl answer ep) (\<lambda>(ep', call).
                  case call of
                    None \<Rightarrow> Inr (Dropped, s1)
                  | Some _ \<Rightarrow>
                      resolve_callback env tok st c m rs (s1\<lparr>session_endpoint := Some ep'\<rparr>)))
       | _ \<Rightarrow> Inr (w, s1))"

section \<open>Correctness of the walk\<close>

text \<open>The first rule that holds for the destination, given its address.\<close>

definition first_rule ::
  "'r rule_env \<Rightarrow> (ip_address \<Rightarrow> country_iso_code) \<Rightarrow> endpoint \<Rightarrow> ip_address option \<Rightarrow>
   ('r, 'f) rule list \<Rightarrow> ('r, 'f) rule result" where
  "first_rule env geo ep a rs =
     (case List.find (rule_holds env geo (etype ep) (host ep) a) rs of
        None \<Rightarrow> Inl no_match_error | Some r \<Rightarrow> Inr r)"

lemma first_rule_Cons:
  "first_rule env geo ep a (r # rs) =
     (if rule_holds env geo (etype ep) (host ep) a r then Inr r else first_rule env geo ep a rs)"
  by (simp add: first_rule_def)

definition session_ok :: "(ip_address \<Rightarrow> country_iso_code) \<Rightarrow> session \<Rightarrow> endpoint \<Rightarrow> bool" where
  "session_ok geo s ep \<longleftrightarrow> session_endpoint s = Some ep \<and> endpoint_ok ep \<and> cache_ok geo s ep"

text \<open>Once the address is settled the walk ends, with the first rule that holds.\<close>

lemma match_loop_settled:
  assumes "session_ok geo s ep" "mmdb_answers (env_mmdb env) geo" "\<not> undecided ep"
  shows "\<exists>s'. match_loop env tok rs s = Inr (Done (first_rule env geo ep (known_address ep) rs), s')
           \<and> session_ok geo s' ep"
  using assms(1)
proof (induction rs arbitrary: s)
  case Nil
  then show ?case by (simp add: first_rule_def)
next
  case (Cons r rs)
  from Cons.prems rule_match_spec [of s ep geo env r] assms(2)
  obtain s' where m: "rule_match env r s =
        Inr (if rule_holds env geo (etype ep) (host ep) (known_address ep) r
             then Match else NotMatch, s')" and ok: "session_ok geo s' ep"
    using assms(3) by (auto simp: session_ok_def)
  show ?case using m ok Cons.IH [OF ok] by (auto simp: first_rule_Cons)
qed

text \<open>
  While the address is open the walk decides by the name alone, up to the first rule that
  needs the address, where it waits: the rules before it stay unmatched whatever the answer.
\<close>

lemma match_loop_open:
  assumes "session_ok geo s ep" "mmdb_answers (env_mmdb env) geo" "undecided ep"
    and "resolver ep \<noteq> None" "\<not> resolving ep"
  shows "\<exists>w s'. match_loop env tok rs s = Inr (w, s') \<and>
          ((w = Done (first_rule env geo ep a rs) \<and> session_endpoint s' = Some ep) \<or>
           (\<exists>ys. w = Waiting ys tok \<lparr>on_resolved = (), captured = resolve_cancelable ep\<rparr> \<and>
              session_endpoint s' = Some (ep\<lparr>resolving := True, resolve_cancelable := tok\<rparr>) \<and>
              int_cache s' country_cache_key = None \<and>
              first_rule env geo ep a rs = first_rule env geo ep a ys))"
  using assms(1)
proof (induction rs arbitrary: s)
  case Nil
  then show ?case by (auto simp: first_rule_def session_ok_def)
next
  case (Cons r rs)
  from Cons.prems rule_match_spec [of s ep geo env r] assms(2)
  obtain s' where m: "rule_match env r s =
        Inr (if needs_address r then ResolveNeeded
             else if rule_holds env geo (etype ep) (host ep) (known_address ep) r
             then Match else NotMatch, s')" and ok: "session_ok geo s' ep"
    using assms(3) by (auto simp: session_ok_def)
  have "known_address ep = None"
    using Cons.prems assms(3) known_address_available
    by (auto simp: undecided_def session_ok_def)
  then have cache: "int_cache s' country_cache_key = None"
    using ok by (cases "int_cache s' country_cache_key")
      (auto simp: session_ok_def cache_ok_def known_address_def)
  have fresh: "\<not> resolved ep"
    using Cons.prems assms(3) resolve_needed by (auto simp: undecided_def session_ok_def)
  show ?case
  proof (cases "needs_address r")
    case True
    have "endpoint_resolve tok () ep = Inr (\<lparr>on_resolved = (), captured = resolve_cancelable ep\<rparr>,
        tok, ep\<lparr>resolving := True, resolve_cancelable := tok\<rparr>)"
      using assms(4,5) fresh
      by (simp add: endpoint_resolve_def endpoint_force_resolve_def cancelable_copy_def)
    then show ?thesis using True m ok cache by (auto simp: session_ok_def)
  next
    case False
    then show ?thesis
      using m ok Cons.IH [OF ok] rule_holds_no_address [OF False, of env geo _ _ a "known_address ep"]
      by (auto simp: first_rule_Cons session_ok_def)
  qed
qed

text \<open>The address the rules finally see.\<close>

definition final_address :: "endpoint \<Rightarrow> ip_address list result \<Rightarrow> ip_address option" where
  "final_address ep answer =
     (if undecided ep then (case answer of Inl e \<Rightarrow> None | Inr as \<Rightarrow> Some (hd as))
      else known_address ep)"

lemma resume_match:
  assumes "session_endpoint s = Some (ep\<lparr>resolving := True, resolve_cancelable := tok\<rparr>)"
    and "int_cache s country_cache_key = None" "undecided ep" "endpoint_ok ep" "answer \<noteq> Inr []"
    and "canceled (resolve_cancelable ep) st = Inr False"
    and "canceled c st = Inr False" "canceled (manager_lifetime m) st = Inr False"
    and "mmdb_answers (env_mmdb env) geo"
  shows "\<exists>ep' s'.
      endpoint_resolved st \<lparr>on_resolved = (), captured = resolve_cancelable ep\<rparr> answer
        (ep\<lparr>resolving := True, resolve_cancelable := tok\<rparr>) =
        Inr (ep', Some ((), case answer of Inl e \<Rightarrow> Inl e | Inr _ \<Rightarrow> Inr ())) \<and>
      resolve_callback env tok' st c m rs (s\<lparr>session_endpoint := Some ep'\<rparr>) =
        Inr (Done (first_rule env geo ep (final_address ep answer) rs), s')"
proof -
  let ?cl = "\<lparr>on_resolved = (), captured = resolve_cancelable ep\<rparr>"
  let ?ep = "ep\<lparr>resolving := True, resolve_cancelable := tok\<rparr>"
  have type: "etype ep = Domain_Type"
    using assms(3) by (auto simp: undecided_def is_address_available_def)
  obtain ep' where ep': "endpoint_resolved st ?cl answer ?ep =
        Inr (ep', Some ((), case answer of Inl e \<Rightarrow> Inl e | Inr _ \<Rightarrow> Inr ()))"
    "etype ep' = etype ep" "host ep' = host ep" "resolved ep'"
    "resolved_addresses ep' = (case answer of Inl e \<Rightarrow> None | Inr as \<Rightarrow> Some as)"
    using assms(6) by (cases answer) (simp_all add: endpoint_resolved_def)
  let ?s = "s\<lparr>session_endpoint := Some ep'\<rparr>"
  have "session_ok geo ?s ep'"
    using ep' assms(2,5) by (auto simp: session_ok_def endpoint_ok_def cache_ok_def split: sum.splits)
  moreover have "\<not> undecided ep'"
    using ep' by (auto simp: undecided_def endpoint_defs split: sum.splits)
  ultimately obtain s' where s': "match_loop env tok' rs ?s =
        Inr (Done (first_rule env geo ep' (known_address ep') rs), s')"
    using match_loop_settled assms(9) by blast
  have "known_address ep' = final_address ep answer"
    using ep' type assms(3,5)
    by (auto simp: known_address_def final_address_def endpoint_address_def split: sum.splits list.splits)
  then have "first_rule env geo ep' (known_address ep') rs =
        first_rule env geo ep (final_address ep answer) rs"
    using ep' by (simp add: first_rule_def)
  then show ?thesis
    using ep' s' assms(7,8)
    by (auto simp: resolve_callback_def match_iterator_def either_canceled_False)
qed

section \<open>Properties\<close>


text \<open>A session for a name, rules that need its address, and a resolver that answers.\<close>

definition sample_env :: "nat rule_env" where
  "sample_env = \<lparr>env_order = Little_Endian, env_regex = \<lambda>_ _. False,
     env_mmdb = \<lambda>_. (0, \<lparr>found_entry = False, get_value_status = 0, has_data = False,
                        is_utf8 = False, utf8_string = []\<rparr>)\<rparr>"

definition sample_endpoint :: endpoint where
  "sample_endpoint = (fst (endpoint_from_host (\<lambda>_. None) ''a.b'' 80 []))\<lparr>resolver := Some 0\<rparr>"

definition sample_subnet :: subnet where
  "sample_subnet = \<lparr>network_address_data = [10], mask_data = [255], is_ipv4 = True, prefix_bits = 8\<rparr>"

definition sample_manager :: "(nat, nat) rule_manager" where
  "sample_manager = \<lparr>rules = [Domain_Rule [''c.d''] 1, Subnet_Rule [sample_subnet] 2, All_Rule 3],
     manager_runloop = 0, manager_lifetime = Some 1\<rparr>"


text \<open>
  Once the caller's token or the manager is canceled the handler is not called any more:
  the posted task and the callback of a resolve both drop the match and leave the session as
  it was.
\<close>

theorem rule_manager_canceled:
  assumes "handle_ok c st" "canceled c st = Inr True \<or> canceled (manager_lifetime m) st = Inr True"
  shows "match_task env tok st c m s = Inr (Dropped, s) \<and>
         resolve_callback env tok st c m rs s = Inr (Dropped, s)"
  using assms either_canceled_True [of c st "manager_lifetime m"]
  by (auto simp: match_task_def resolve_callback_def)

theorem rule_manager_canceled_witness:
  "match_task sample_env None [True, False] (Some 0)
     \<lparr>rules = [All_Rule ()], manager_runloop = 0, manager_lifetime = Some 1\<rparr> (session_new 0 None) =
     Inr (Dropped, session_new 0 None)"
  by (rule rule_manager_canceled [THEN conjunct1]) (simp_all add: handle_ok_def canceled_def)

end
