(* ===== verification/Buffer.thy ===== *)
theory Buffer
  imports Nekit_Prelude
begin

text \<open>
  \<open>utils::Buffer\<close> (src/utils/buffer.cc): a byte sequence stored as a singly linked chain of
  memory blocks (\<open>struct Buf\<close>), each using the window \<open>[offset, offset + size)\<close> of its
  block.

  The chain is owned by \<open>unique_ptr\<close>s, so it is a list here; \<open>tail_\<close> is a raw pointer into
  the chain, so it is the identity (\<open>bid\<close>, the address) of a block, and following it is a
  search in the chain that faults when the address is not there.  An operation that
  allocates takes the address the allocator returns as its first argument \<open>a\<close>.
\<close>

section \<open>Blocks\<close>

record buf =
  bid :: nat
  bdata :: bytes
  bcapacity :: nat
  boffset :: nat
  bsize :: nat

definition buf_new :: "nat \<Rightarrow> nat \<Rightarrow> buf exec" where
  "buf_new a n =
     boost_assert (n \<noteq> 0)
       (Inr \<lparr>bid = a, bdata = replicate n 0, bcapacity = n, boffset = 0, bsize = n\<rparr>)"

definition buf_append :: "buf list \<Rightarrow> buf list \<Rightarrow> buf list exec" where
  "buf_append next_buf x = boost_assert (x \<noteq> []) (Inr (if x = next_buf then next_buf else x))"

text \<open>\<open>buf_break a pos b next\<close>: the shortened block and the chain returned to the caller.\<close>

definition buf_break :: "nat \<Rightarrow> nat \<Rightarrow> buf \<Rightarrow> buf list \<Rightarrow> (buf \<times> buf list) exec" where
  "buf_break a pos b next_buf =
     boost_assert (pos \<noteq> 0) (boost_assert (pos \<le> bsize b)
       (if pos = bsize b then Inr (b, next_buf)
        else exec_bind (buf_new a (bsize b - pos)) (\<lambda>r.
             exec_bind (mem_read (bdata b) (boffset b + pos) (bsize b - pos)) (\<lambda>xs.
             exec_bind (mem_write (bdata r) 0 xs) (\<lambda>d.
             Inr (b\<lparr>bsize := pos\<rparr>, r\<lparr>bdata := d\<rparr> # next_buf))))))"

section \<open>The buffer object\<close>

record buffer =
  head :: "buf list"
  tail :: "nat option"
  total :: nat

definition buffer_new :: "nat \<Rightarrow> nat \<Rightarrow> buffer exec" where
  "buffer_new a n =
     (if n \<noteq> 0
      then exec_bind (buf_new a n) (\<lambda>b. Inr \<lparr>head = [b], tail = Some a, total = n\<rparr>)
      else Inr \<lparr>head = [], tail = None, total = n\<rparr>)"

definition buffer_empty :: buffer where
  "buffer_empty = \<lparr>head = [], tail = None, total = 0\<rparr>"

text \<open>Move assignment from another buffer: the new target and the emptied source.\<close>

definition buffer_move :: "buffer \<Rightarrow> buffer \<times> buffer" where
  "buffer_move src =
     (\<lparr>head = head src, tail = tail src, total = total src\<rparr>,
      src\<lparr>head := [], tail := None, total := 0\<rparr>)"

definition buffer_bool :: "buffer \<Rightarrow> bool" where
  "buffer_bool b \<longleftrightarrow> total b \<noteq> 0"

section \<open>Walking the chain\<close>

text \<open>
  \<open>while (skip >= current->size_)\<close> and \<open>while (skip > current->size_)\<close>: the blocks passed,
  the rest of the chain from \<open>current\<close> on, and the position inside \<open>current\<close>.
\<close>

fun seek_ge :: "buf list \<Rightarrow> buf list \<Rightarrow> nat \<Rightarrow> (buf list \<times> buf list \<times> nat) exec" where
  "seek_ge pre [] skip = Inl Null_Deref"
| "seek_ge pre (b # bs) skip =
     (if skip \<ge> bsize b then seek_ge (pre @ [b]) bs (skip - bsize b)
      else Inr (pre, b # bs, skip))"

fun seek_gt :: "buf list \<Rightarrow> buf list \<Rightarrow> nat \<Rightarrow> (buf list \<times> buf list \<times> nat) exec" where
  "seek_gt pre [] skip = Inl Null_Deref"
| "seek_gt pre (b # bs) skip =
     (if skip > bsize b then seek_gt (pre @ [b]) bs (skip - bsize b)
      else Inr (pre, b # bs, skip))"

text \<open>\<open>p->next_buf_ = next\<close> for a raw pointer \<open>p\<close> into the chain, and a field update at \<open>p\<close>.\<close>

fun link_after :: "buf list \<Rightarrow> nat option \<Rightarrow> buf list \<Rightarrow> buf list exec" where
  "link_after bs None nxt = Inl Null_Deref"
| "link_after [] (Some t) nxt = Inl Dangling"
| "link_after (b # bs) (Some t) nxt =
     (if bid b = t then Inr (b # nxt)
      else exec_bind (link_after bs (Some t) nxt) (\<lambda>r. Inr (b # r)))"

fun deref :: "buf list \<Rightarrow> nat option \<Rightarrow> buf exec" where
  "deref bs None = Inl Null_Deref"
| "deref [] (Some t) = Inl Dangling"
| "deref (b # bs) (Some t) = (if bid b = t then Inr b else deref bs (Some t))"

definition update_at :: "nat \<Rightarrow> (buf \<Rightarrow> buf) \<Rightarrow> buf list \<Rightarrow> buf list" where
  "update_at t f = map (\<lambda>b. if bid b = t then f b else b)"

section \<open>Element access\<close>

text \<open>\<open>operator[]\<close>, read and written through; the code does not add \<open>offset_\<close>.\<close>

definition buffer_get :: "buffer \<Rightarrow> nat \<Rightarrow> u8 exec" where
  "buffer_get b i =
     boost_assert (i < total b)
       (exec_bind (seek_ge [] (head b) i) (\<lambda>(pre, cur, k).
        exec_bind (mem_read (bdata (hd cur)) k 1) (\<lambda>xs. Inr (hd xs))))"

definition buffer_put :: "buffer \<Rightarrow> nat \<Rightarrow> u8 \<Rightarrow> buffer exec" where
  "buffer_put b i v =
     boost_assert (i < total b)
       (exec_bind (seek_ge [] (head b) i) (\<lambda>(pre, cur, k).
        exec_bind (mem_write (bdata (hd cur)) k [v]) (\<lambda>d.
        Inr (b\<lparr>head := pre @ (hd cur)\<lparr>bdata := d\<rparr> # tl cur\<rparr>))))"

section \<open>Insertion\<close>

definition insert_front_buffer :: "buffer \<Rightarrow> buffer \<Rightarrow> buffer exec" where
  "insert_front_buffer b x =
     (if total x = 0 then Inr b
      else exec_bind (link_after (head x) (tail x) (head b)) (\<lambda>h.
           Inr (b\<lparr>head := h, tail := (if tail b = None then tail x else tail b),
                  total := total b + total x\<rparr>)))"

definition insert_front_size :: "nat \<Rightarrow> buffer \<Rightarrow> nat \<Rightarrow> buffer exec" where
  "insert_front_size a b n =
     (if head b \<noteq> [] \<and> boffset (hd (head b)) \<ge> n
      then Inr (b\<lparr>head := (hd (head b))\<lparr>boffset := boffset (hd (head b)) - n,
                                       bsize := bsize (hd (head b)) + n\<rparr> # tl (head b),
                  total := total b + n\<rparr>)
      else exec_bind (buffer_new a n) (insert_front_buffer b))"

definition insert_back_buffer :: "buffer \<Rightarrow> buffer \<Rightarrow> buffer exec" where
  "insert_back_buffer b x =
     (if total x = 0 then Inr b
      else if head b \<noteq> []
      then exec_bind (link_after (head b) (tail b) (head x)) (\<lambda>h.
           Inr (b\<lparr>head := h, tail := tail x, total := total b + total x\<rparr>))
      else Inr (b\<lparr>head := head x, tail := tail x, total := total b + total x\<rparr>))"

definition insert_back_size :: "nat \<Rightarrow> buffer \<Rightarrow> nat \<Rightarrow> buffer exec" where
  "insert_back_size a b n =
     (case tail b of
        None \<Rightarrow> exec_bind (buffer_new a n) (insert_back_buffer b)
      | Some t \<Rightarrow>
          exec_bind (deref (head b) (Some t)) (\<lambda>tb.
          if sz_sub (sz_sub (bcapacity tb) (boffset tb)) (bsize tb) \<ge> n
          then Inr (b\<lparr>head := update_at t (\<lambda>c. c\<lparr>bsize := bsize c + n\<rparr>) (head b),
                      total := total b + n\<rparr>)
          else exec_bind (buffer_new a n) (insert_back_buffer b)))"

text \<open>
  \<open>InsertBufAt(buf, buffer, pos)\<close> for the block \<open>hd cur\<close> of the chain \<open>pre @ cur\<close>; \<open>pos\<close>
  may be the size of the block.
\<close>

definition insert_buf_at ::
    "nat \<Rightarrow> buffer \<Rightarrow> buf list \<Rightarrow> buf list \<Rightarrow> buffer \<Rightarrow> nat \<Rightarrow> buffer exec" where
  "insert_buf_at a b pre cur x pos =
     exec_bind (buf_break a pos (hd cur) (tl cur)) (\<lambda>(c, nb).
     exec_bind (link_after (head x) (tail x) nb) (\<lambda>mid.
     Inr (b\<lparr>head := pre @ c # mid,
            tail := (if tail b = Some (bid c)
                     then (if nb \<noteq> [] then Some (bid (hd nb)) else tail x)
                     else tail b),
            total := total b + total x\<rparr>)))"

definition insert_buffer :: "nat \<Rightarrow> buffer \<Rightarrow> buffer \<Rightarrow> nat \<Rightarrow> buffer exec" where
  "insert_buffer a b x pos =
     boost_assert (pos \<le> total b)
       (if total x = 0 then Inr b
        else if pos = total b then insert_back_buffer b x
        else if pos = 0 then insert_front_buffer b x
        else exec_bind (seek_gt [] (head b) pos) (\<lambda>(pre, cur, k). insert_buf_at a b pre cur x k))"

text \<open>
  \<open>Insert(skip, len)\<close>: room for \<open>len\<close> bytes at \<open>skip\<close>.  At the end of a block the free
  room behind it and in front of the next block is used when it is enough.
\<close>

definition insert_size :: "nat \<Rightarrow> nat \<Rightarrow> buffer \<Rightarrow> nat \<Rightarrow> nat \<Rightarrow> buffer exec" where
  "insert_size a a' b skip len =
     boost_assert (skip \<le> total b)
       (if len = 0 then Inr b
        else if skip = total b then insert_back_size a b len
        else if skip = 0 then insert_front_size a b len
        else exec_bind (seek_gt [] (head b) skip) (\<lambda>(pre, cur, k).
          let c = hd cur; nxt = tl cur;
              remain = sz_sub (sz_sub (bcapacity c) (boffset c)) (bsize c);
              fill = min len remain
          in if k = bsize c \<and> (remain \<ge> len \<or> (nxt \<noteq> [] \<and> remain + boffset (hd nxt) \<ge> len))
             then Inr (b\<lparr>head := pre @ c\<lparr>bsize := bsize c + fill\<rparr> #
                           (if len - fill \<noteq> 0
                            then (hd nxt)\<lparr>boffset := boffset (hd nxt) - (len - fill),
                                          bsize := bsize (hd nxt) + (len - fill)\<rparr> # tl nxt
                            else nxt),
                         total := total b + len\<rparr>)
             else exec_bind (buffer_new a len) (\<lambda>x. insert_buf_at a' b pre cur x k)))"

section \<open>Removal\<close>

text \<open>
  The \<open>while (len)\<close> loop of \<open>Shrink\<close>: the last component tells that the loop left the
  function by its \<open>return\<close>.
\<close>

fun shrink_loop ::
    "buf list \<Rightarrow> buf list \<Rightarrow> nat \<Rightarrow> nat \<Rightarrow> (buf list \<times> buf list \<times> nat \<times> bool) exec" where
  "shrink_loop pre [] len n = (if len = 0 then Inr (pre, [], n, False) else Inl Null_Deref)"
| "shrink_loop pre (b # bs) len n =
     (if len = 0 then Inr (pre, b # bs, n, False)
      else let r = min len (bsize b);
               b' = b\<lparr>boffset := boffset b + r, bsize := bsize b - r\<rparr>
           in if bsize b' \<noteq> 0 then Inr (pre, b' # bs, n - r, True)
              else shrink_loop pre bs (len - r) (n - r))"

definition shrink_finish :: "buffer \<Rightarrow> buf list \<times> buf list \<times> nat \<times> bool \<Rightarrow> buffer" where
  "shrink_finish b r =
     (case r of (pre, cur, n, returned) \<Rightarrow>
        b\<lparr>head := pre @ cur,
          tail := (if \<not> returned \<and> cur = []
                   then (if pre = [] then None else Some (bid (last pre)))
                   else tail b),
          total := n\<rparr>)"

definition shrink :: "buffer \<Rightarrow> nat \<Rightarrow> nat \<Rightarrow> buffer exec" where
  "shrink b skip len =
     boost_assert (skip < total b) (boost_assert (len \<le> total b)
     (boost_assert (skip + len \<le> total b)
       (exec_bind (seek_ge [] (head b) skip) (\<lambda>(pre, cur, k).
        if k = 0 then exec_bind (shrink_loop pre cur len (total b)) (\<lambda>r. Inr (shrink_finish b r))
        else let c = hd cur; remain = bsize c - k in
          if len \<ge> remain
          then exec_bind (shrink_loop (pre @ [c\<lparr>bsize := k\<rparr>]) (tl cur) (len - remain)
                            (total b - remain)) (\<lambda>r. Inr (shrink_finish b r))
          else exec_bind (mem_read (bdata c) (boffset c + k + len) (bsize c - k - len)) (\<lambda>xs.
               exec_bind (mem_write (bdata c) (boffset c + k) xs) (\<lambda>d.
               Inr (b\<lparr>head := pre @ c\<lparr>bdata := d, bsize := bsize c - len\<rparr> # tl cur,
                      total := total b - len\<rparr>)))))))"

definition shrink_front :: "buffer \<Rightarrow> nat \<Rightarrow> buffer exec" where
  "shrink_front b n = shrink b 0 n"

definition shrink_back :: "buffer \<Rightarrow> nat \<Rightarrow> buffer exec" where
  "shrink_back b n = shrink b (sz_sub (total b) n) n"

section \<open>Copying bytes out and in\<close>

text \<open>
  The copy loops: \<open>copy_out\<close> is \<open>GetData\<close> into raw memory (the bytes written to the target),
  \<open>copy_in\<close> is \<open>SetData\<close> from raw memory.  The loop asserts that \<open>current\<close> is not null.
\<close>

fun copy_out :: "buf list \<Rightarrow> nat \<Rightarrow> nat \<Rightarrow> bytes exec" where
  "copy_out [] skip len = boost_assert (len = 0) (Inr [])"
| "copy_out (b # bs) skip len =
     (if len = 0 then Inr []
      else let n = min len (sz_sub (bsize b) skip) in
           exec_bind (mem_read (bdata b) (boffset b + skip) n) (\<lambda>xs.
           exec_bind (copy_out bs 0 (len - n)) (\<lambda>ys. Inr (xs @ ys))))"

definition get_data :: "buffer \<Rightarrow> nat \<Rightarrow> nat \<Rightarrow> bytes exec" where
  "get_data b skip len =
     boost_assert (skip \<le> total b) (boost_assert (len \<le> total b)
     (boost_assert (skip + len \<le> total b)
       (exec_bind (seek_ge [] (head b) skip) (\<lambda>(pre, cur, k). copy_out cur k len))))"

fun copy_in :: "buf list \<Rightarrow> nat \<Rightarrow> bytes \<Rightarrow> buf list exec" where
  "copy_in [] skip xs = boost_assert (xs = []) (Inr [])"
| "copy_in (b # bs) skip xs =
     (if xs = [] then Inr (b # bs)
      else let n = min (length xs) (sz_sub (bsize b) skip) in
           exec_bind (mem_write (bdata b) (boffset b + skip) (take n xs)) (\<lambda>d.
           exec_bind (copy_in bs 0 (drop n xs)) (\<lambda>r. Inr (b\<lparr>bdata := d\<rparr> # r))))"

definition set_data :: "buffer \<Rightarrow> nat \<Rightarrow> bytes \<Rightarrow> buffer exec" where
  "set_data b skip xs =
     boost_assert (skip < total b) (boost_assert (length xs \<le> total b)
     (boost_assert (skip + length xs \<le> total b)
       (exec_bind (seek_ge [] (head b) skip) (\<lambda>(pre, cur, k).
        exec_bind (copy_in cur k xs) (\<lambda>r. Inr (b\<lparr>head := pre @ r\<rparr>))))))"

text \<open>
  The loop that copies from one chain into another; the target blocks already left behind
  are collected in \<open>acc\<close>.  A position outside its block, which the code never reaches, is
  an out of bounds copy.
\<close>

function copy_between ::
    "buf list \<Rightarrow> buf list \<Rightarrow> nat \<Rightarrow> buf list \<Rightarrow> nat \<Rightarrow> nat \<Rightarrow> buf list exec" where
  "copy_between acc ts offset ss skip len =
     (if len = 0 then Inr (acc @ ts)
      else case (ts, ss) of
        ([], _) \<Rightarrow> Inl Null_Deref
      | (_, []) \<Rightarrow> Inl Null_Deref
      | (t # ts', s # ss') \<Rightarrow>
          if bsize s < skip \<or> bsize t < offset then Inl Out_Of_Bounds
          else let n = min (bsize s - skip) (min len (bsize t - offset)) in
            exec_bind (mem_read (bdata s) (boffset s + skip) n) (\<lambda>xs.
            exec_bind (mem_write (bdata t) (boffset t + offset) xs) (\<lambda>d.
            let t' = t\<lparr>bdata := d\<rparr>;
                ss2 = (if skip + n = bsize s then ss' else s # ss');
                skip2 = (if skip + n = bsize s then 0 else skip + n)
            in if offset + n = bsize t
               then copy_between (acc @ [t']) ts' 0 ss2 skip2 (len - n)
               else copy_between acc (t' # ts') (offset + n) ss2 skip2 (len - n))))"
  by pat_completeness auto
termination
proof (relation "measure (\<lambda>(acc, ts, offset, ss, skip, len). len + length ts + length ss)", goal_cases)
  case 1 show ?case by simp
next
  case (2 acc ts offset ss skip len x y t ts' s ss' n xs d t' ss2 skip2)
  have "length ss2 \<le> length ss" using 2(2,4,10) by (auto split: if_splits)
  with 2(2,3) show ?case by auto
next
  case (3 acc ts offset ss skip len x y t ts' s ss' n xs d t' ss2 skip2)
  have "length ss2 \<le> length ss" using 3(2,4,10) by (auto split: if_splits)
  moreover have "n = 0 \<Longrightarrow> length ss2 < length ss"
    using 3(1,2,4,5,6,10,12) by (auto simp: min_def split: if_splits)
  moreover have "n \<le> len" using 3(6) by simp
  ultimately show ?case using 3(1,2,3) by (cases "n = 0") auto
qed

declare copy_between.simps [simp del]

text \<open>\<open>b.GetData(skip, len, &target, offset)\<close>: the new target.\<close>

definition get_data_into :: "buffer \<Rightarrow> nat \<Rightarrow> nat \<Rightarrow> buffer \<Rightarrow> nat \<Rightarrow> buffer exec" where
  "get_data_into b skip len target offset =
     boost_assert (skip < total b) (boost_assert (len \<le> total b)
     (boost_assert (skip + len \<le> total b)
     (boost_assert (offset \<le> total target) (boost_assert (len \<le> total target)
     (boost_assert (offset + len \<le> total target)
       (exec_bind (seek_ge [] (head target) offset) (\<lambda>(tpre, tcur, tk).
        exec_bind (seek_ge [] (head b) skip) (\<lambda>(spre, scur, sk).
        exec_bind (copy_between tpre tcur tk scur sk len) (\<lambda>h.
        Inr (target\<lparr>head := h\<rparr>))))))))))"

definition set_data_from :: "buffer \<Rightarrow> nat \<Rightarrow> nat \<Rightarrow> buffer \<Rightarrow> nat \<Rightarrow> buffer exec" where
  "set_data_from b skip len source offset = get_data_into source offset len b skip"

section \<open>Splitting\<close>

text \<open>\<open>ResetTail\<close> starts at \<open>head_\<close> without testing it for null.\<close>

definition reset_tail :: "buffer \<Rightarrow> buffer exec" where
  "reset_tail b = (if head b = [] then Inl Null_Deref else Inr (b\<lparr>tail := Some (bid (last (head b)))\<rparr>))"

text \<open>\<open>Break(skip)\<close>: the buffer itself, cut to \<open>skip\<close> bytes, and the buffer returned.\<close>

definition break_buffer :: "nat \<Rightarrow> buffer \<Rightarrow> nat \<Rightarrow> (buffer \<times> buffer) exec" where
  "break_buffer a b skip =
     exec_bind (seek_gt [] (head b) skip) (\<lambda>(pre, cur, rs).
     exec_bind (if rs = bsize (hd cur) then Inr (hd cur, tl cur)
                else buf_break a rs (hd cur) (tl cur)) (\<lambda>(c, rest).
     exec_bind (reset_tail (buffer_empty\<lparr>head := rest, total := sz_sub (total b) skip\<rparr>)) (\<lambda>r.
     exec_bind (reset_tail (b\<lparr>head := pre @ [c], total := skip\<rparr>)) (\<lambda>b'.
     Inr (b', r)))))"

section \<open>Walking the chunks\<close>

text \<open>
  A chunk handed to a walker is a pointer, the pair of a block's identity and a position in
  it, and the bytes from there.  The walker's state \<open>'s\<close> stands for what the C++ closure
  captures; it returns whether to go on.
\<close>

type_synonym pointer = "nat \<times> nat"
type_synonym 's walker = "'s \<Rightarrow> pointer \<Rightarrow> bytes \<Rightarrow> bool \<times> 's"

definition chunk_bytes :: "buf \<Rightarrow> nat \<Rightarrow> bytes" where
  "chunk_bytes b from = take (bsize b - from) (drop (boffset b + from) (bdata b))"

fun walk_loop :: "'s walker \<Rightarrow> buf list \<Rightarrow> nat \<Rightarrow> 's \<Rightarrow> 's" where
  "walk_loop w [] from s = s"
| "walk_loop w (b # bs) from s =
     (case w s (bid b, boffset b + from) (chunk_bytes b from) of
        (go, s') \<Rightarrow> if go then walk_loop w bs 0 s' else s')"

definition walk_internal_chunk :: "'s walker \<Rightarrow> buffer \<Rightarrow> nat \<Rightarrow> 's \<Rightarrow> 's exec" where
  "walk_internal_chunk w b from s =
     boost_assert (from \<le> total b)
       (if from = total b then Inr s
        else exec_bind (seek_ge [] (head b) from) (\<lambda>(pre, cur, k). Inr (walk_loop w cur k s)))"

text \<open>The overload for a mutable buffer: the walker may also write the bytes it is shown.\<close>

type_synonym 's writer = "'s \<Rightarrow> pointer \<Rightarrow> bytes \<Rightarrow> bool \<times> bytes \<times> 's"

fun walk_mut_loop :: "'s writer \<Rightarrow> buf list \<Rightarrow> nat \<Rightarrow> 's \<Rightarrow> (buf list \<times> 's) exec" where
  "walk_mut_loop w [] from s = Inr ([], s)"
| "walk_mut_loop w (b # bs) from s =
     (case w s (bid b, boffset b + from) (chunk_bytes b from) of
        (go, xs, s') \<Rightarrow>
          exec_bind (mem_write (bdata b) (boffset b + from) xs) (\<lambda>d.
          if go then exec_bind (walk_mut_loop w bs 0 s') (\<lambda>(r, s''). Inr (b\<lparr>bdata := d\<rparr> # r, s''))
          else Inr (b\<lparr>bdata := d\<rparr> # bs, s')))"

definition walk_internal_chunk_mut :: "'s writer \<Rightarrow> buffer \<Rightarrow> nat \<Rightarrow> 's \<Rightarrow> (buffer \<times> 's) exec" where
  "walk_internal_chunk_mut w b from s =
     boost_assert (from \<le> total b)
       (if from = total b then Inr (b, s)
        else exec_bind (seek_ge [] (head b) from) (\<lambda>(pre, cur, k).
             exec_bind (walk_mut_loop w cur k s) (\<lambda>(r, s'). Inr (b\<lparr>head := pre @ r\<rparr>, s'))))"

text \<open>\<open>FindLocation\<close>: pointers into different blocks never compare as inside the chunk.\<close>

fun find_location_walker :: "pointer \<Rightarrow> nat walker" where
  "find_location_walker (t, p) offset (u, q) xs =
     (if t = u \<and> q \<le> p \<and> p < q + length xs then (False, offset + (p - q))
      else (True, offset + length xs))"

definition find_location :: "buffer \<Rightarrow> pointer \<Rightarrow> nat exec" where
  "find_location b p = walk_internal_chunk (find_location_walker p) b 0 0"

section \<open>Well-formed buffers and their contents\<close>

text \<open>
  The invariant of the class: no block is empty ("Buf can't have size 0"), every window lies
  inside its block, block addresses are distinct, \<open>tail_\<close> points to the last block and
  \<open>size_\<close> is the sum of the block sizes.  The abstract value of a buffer is the list of the
  bytes in the windows.
\<close>

definition buf_ok :: "buf \<Rightarrow> bool" where
  "buf_ok b \<longleftrightarrow>
     length (bdata b) = bcapacity b \<and> boffset b + bsize b \<le> bcapacity b \<and> 0 < bsize b"

definition buf_bytes :: "buf \<Rightarrow> bytes" where
  "buf_bytes b = take (bsize b) (drop (boffset b) (bdata b))"

definition chain_ok :: "buf list \<Rightarrow> bool" where
  "chain_ok bs \<longleftrightarrow> (\<forall>b \<in> set bs. buf_ok b) \<and> distinct (map bid bs)"

definition chain_size :: "buf list \<Rightarrow> nat" where
  "chain_size bs = sum_list (map bsize bs)"

definition chain_bytes :: "buf list \<Rightarrow> bytes" where
  "chain_bytes bs = concat (map buf_bytes bs)"

definition chain_ids :: "buf list \<Rightarrow> nat set" where
  "chain_ids bs = set (map bid bs)"

definition chain_tail :: "buf list \<Rightarrow> nat option" where
  "chain_tail bs = (if bs = [] then None else Some (bid (last bs)))"

definition buffer_ok :: "buffer \<Rightarrow> bool" where
  "buffer_ok b \<longleftrightarrow>
     chain_ok (head b) \<and> tail b = chain_tail (head b) \<and> total b = chain_size (head b)"

definition content :: "buffer \<Rightarrow> bytes" where
  "content b = chain_bytes (head b)"

definition ids :: "buffer \<Rightarrow> nat set" where
  "ids b = chain_ids (head b)"

named_theorems chain_simps \<open>the chain measures on the constructors of lists\<close>

lemma chain_simps_lemmas [simp, chain_simps]:
  "chain_ok []"
  "chain_ok (b # bs) \<longleftrightarrow> buf_ok b \<and> bid b \<notin> chain_ids bs \<and> chain_ok bs"
  "chain_ok (bs @ cs) \<longleftrightarrow> chain_ok bs \<and> chain_ok cs \<and> chain_ids bs \<inter> chain_ids cs = {}"
  "chain_size [] = 0"
  "chain_size (b # bs) = bsize b + chain_size bs"
  "chain_size (bs @ cs) = chain_size bs + chain_size cs"
  "chain_bytes [] = []"
  "chain_bytes (b # bs) = buf_bytes b @ chain_bytes bs"
  "chain_bytes (bs @ cs) = chain_bytes bs @ chain_bytes cs"
  "chain_ids [] = {}"
  "chain_ids (b # bs) = insert (bid b) (chain_ids bs)"
  "chain_ids (bs @ cs) = chain_ids bs \<union> chain_ids cs"
  "chain_tail [] = None"
  "chain_tail (bs @ b # cs) = chain_tail (b # cs)"
  by (auto simp: chain_ok_def chain_size_def chain_bytes_def chain_ids_def chain_tail_def)

lemma chain_tail_Cons [simp]: "chain_tail (b # bs) = (if bs = [] then Some (bid b) else chain_tail bs)"
  by (auto simp: chain_tail_def)

lemma chain_tail_append: "chain_tail (bs @ cs) = (if cs = [] then chain_tail bs else chain_tail cs)"
  by (auto simp: chain_tail_def)

lemma chain_tail_None [simp]: "chain_tail bs = None \<longleftrightarrow> bs = []"
  by (simp add: chain_tail_def)

lemma chain_tail_in: "chain_tail bs = Some t \<Longrightarrow> t \<in> chain_ids bs"
  by (auto simp: chain_tail_def chain_ids_def split: if_splits)

lemma length_buf_bytes [simp]: "buf_ok b \<Longrightarrow> length (buf_bytes b) = bsize b"
  by (auto simp: buf_ok_def buf_bytes_def)

lemma length_chain_bytes [simp]: "chain_ok bs \<Longrightarrow> length (chain_bytes bs) = chain_size bs"
  by (induction bs) auto

lemma chain_size_0: "chain_ok bs \<Longrightarrow> chain_size bs = 0 \<longleftrightarrow> bs = []"
  by (cases bs) (auto simp: buf_ok_def)

lemma length_content: "buffer_ok b \<Longrightarrow> length (content b) = total b"
  by (simp add: buffer_ok_def content_def)

lemma buffer_ok_empty_iff: "buffer_ok b \<Longrightarrow> total b = 0 \<longleftrightarrow> head b = []"
  by (auto simp: buffer_ok_def chain_size_0)

end
