(* ===== verification/Buffer_Laws.thy ===== *)
theory Buffer_Laws
  imports Buffer
begin

text \<open>
  What every operation of \<open>Buffer\<close> does to the byte sequence, on every well-formed buffer:
  it does not fault, it keeps the invariant, and its effect on \<open>content\<close> is the list
  operation one expects.
\<close>

section \<open>Windows of one block\<close>

named_theorems window \<open>changing the window of a block\<close>

lemma window_take [window]:
  "buf_ok b \<Longrightarrow> n \<le> bsize b \<Longrightarrow> buf_bytes (b\<lparr>bsize := n\<rparr>) = take n (buf_bytes b)"
  by (simp add: buf_bytes_def min_absorb1)

lemma window_take_ok [window]: "buf_ok b \<Longrightarrow> 0 < n \<Longrightarrow> n \<le> bsize b \<Longrightarrow> buf_ok (b\<lparr>bsize := n\<rparr>)"
  by (auto simp: buf_ok_def)

lemma window_drop [window]:
  "buf_ok b \<Longrightarrow> n \<le> bsize b \<Longrightarrow>
   buf_bytes (b\<lparr>boffset := boffset b + n, bsize := bsize b - n\<rparr>) = drop n (buf_bytes b)"
  by (simp add: buf_bytes_def drop_take add.commute)

lemma window_drop_ok [window]:
  "buf_ok b \<Longrightarrow> n < bsize b \<Longrightarrow>
   buf_ok (b\<lparr>boffset := boffset b + n, bsize := bsize b - n\<rparr>)"
  by (auto simp: buf_ok_def)

lemma window_grow_back:
  assumes "buf_ok b" and "boffset b + bsize b + n \<le> bcapacity b"
  obtains pad where "length pad = n"
    and "buf_bytes (b\<lparr>bsize := bsize b + n\<rparr>) = buf_bytes b @ pad"
proof
  show "length (take n (drop (bsize b) (drop (boffset b) (bdata b)))) = n"
    using assms by (auto simp: buf_ok_def)
  show "buf_bytes (b\<lparr>bsize := bsize b + n\<rparr>) =
      buf_bytes b @ take n (drop (bsize b) (drop (boffset b) (bdata b)))"
    by (simp add: buf_bytes_def take_add)
qed

lemma window_grow_front:
  assumes "buf_ok b" and "n \<le> boffset b"
  obtains pad where "length pad = n"
    and "buf_bytes (b\<lparr>boffset := boffset b - n, bsize := bsize b + n\<rparr>) = pad @ buf_bytes b"
proof
  show "length (take n (drop (boffset b - n) (bdata b))) = n"
    using assms by (auto simp: buf_ok_def)
  show "buf_bytes (b\<lparr>boffset := boffset b - n, bsize := bsize b + n\<rparr>) =
      take n (drop (boffset b - n) (bdata b)) @ buf_bytes b"
    using assms by (simp add: buf_bytes_def take_add add.commute)
qed

lemma buf_room:
  "buf_ok c \<Longrightarrow>
   sz_sub (sz_sub (bcapacity c) (boffset c)) (bsize c) = bcapacity c - boffset c - bsize c"
  by (auto simp: buf_ok_def)

text \<open>Reading and writing inside a window.\<close>

lemma window_read [window]:
  "buf_ok b \<Longrightarrow> k + n \<le> bsize b \<Longrightarrow>
   mem_read (bdata b) (boffset b + k) n = Inr (take n (drop k (buf_bytes b)))"
  by (auto simp: buf_ok_def buf_bytes_def drop_take add.commute)

lemma window_write:
  assumes "buf_ok b" and "k + length xs \<le> bsize b"
  obtains d where "mem_write (bdata b) (boffset b + k) xs = Inr d"
    and "buf_ok (b\<lparr>bdata := d\<rparr>)"
    and "buf_bytes (b\<lparr>bdata := d\<rparr>) = splice (buf_bytes b) k xs"
proof
  let ?d = "take (boffset b + k) (bdata b) @ xs @ drop (boffset b + k + length xs) (bdata b)"
  show "mem_write (bdata b) (boffset b + k) xs = Inr ?d"
    using assms by (auto simp: buf_ok_def)
  show "buf_ok (b\<lparr>bdata := ?d\<rparr>)"
    using assms by (auto simp: buf_ok_def)
  have *: "min (length (bdata b)) (boffset b + k) = boffset b + k"
    using assms by (auto simp: buf_ok_def)
  show "buf_bytes (b\<lparr>bdata := ?d\<rparr>) = splice (buf_bytes b) k xs"
    using assms * by (simp add: buf_bytes_def splice_def drop_take min_absorb2 ac_simps)
qed

section \<open>Walking to a position\<close>

lemma seek_ge_split:
  assumes "skip < chain_size bs"
  shows "\<exists>ps c cs k. bs = ps @ c # cs \<and> skip = chain_size ps + k \<and> k < bsize c \<and>
           (\<forall>pre. seek_ge pre bs skip = Inr (pre @ ps, c # cs, k))"
  using assms
proof (induction bs arbitrary: skip)
  case Nil
  then show ?case by simp
next
  case (Cons b bs)
  show ?case
  proof (cases "skip < bsize b")
    case True
    then show ?thesis by (intro exI [of _ "[]"] exI [of _ b] exI [of _ bs] exI [of _ skip]) simp
  next
    case False
    then have "skip - bsize b < chain_size bs" using Cons.prems by simp
    from Cons.IH [OF this] obtain ps c cs k where
      "bs = ps @ c # cs" "skip - bsize b = chain_size ps + k" "k < bsize c"
      "\<forall>pre. seek_ge pre bs (skip - bsize b) = Inr (pre @ ps, c # cs, k)" by blast
    with False show ?thesis
      by (intro exI [of _ "b # ps"] exI [of _ c] exI [of _ cs] exI [of _ k]) simp
  qed
qed

lemma seek_gt_split:
  assumes "0 < skip" and "skip \<le> chain_size bs"
  shows "\<exists>ps c cs k. bs = ps @ c # cs \<and> skip = chain_size ps + k \<and> 0 < k \<and> k \<le> bsize c \<and>
           (\<forall>pre. seek_gt pre bs skip = Inr (pre @ ps, c # cs, k))"
  using assms
proof (induction bs arbitrary: skip)
  case Nil
  then show ?case by simp
next
  case (Cons b bs)
  show ?case
  proof (cases "skip \<le> bsize b")
    case True
    with Cons.prems show ?thesis
      by (intro exI [of _ "[]"] exI [of _ b] exI [of _ bs] exI [of _ skip]) simp
  next
    case False
    then have "0 < skip - bsize b" "skip - bsize b \<le> chain_size bs" using Cons.prems by simp_all
    from Cons.IH [OF this] obtain ps c cs k where
      "bs = ps @ c # cs" "skip - bsize b = chain_size ps + k" "0 < k" "k \<le> bsize c"
      "\<forall>pre. seek_gt pre bs (skip - bsize b) = Inr (pre @ ps, c # cs, k)" by blast
    with False show ?thesis
      by (intro exI [of _ "b # ps"] exI [of _ c] exI [of _ cs] exI [of _ k]) simp
  qed
qed

lemma seek_ge_end: "chain_ok bs \<Longrightarrow> skip \<ge> chain_size bs \<Longrightarrow> seek_ge pre bs skip = Inl Null_Deref"
  by (induction bs arbitrary: pre skip) auto

lemma link_after_tail:
  "chain_ok bs \<Longrightarrow> bs \<noteq> [] \<Longrightarrow> link_after bs (chain_tail bs) nxt = Inr (bs @ nxt)"
proof (induction bs)
  case (Cons b bs)
  then show ?case
    by (cases "bs = []") (auto simp: chain_tail_def chain_ids_def)
qed simp

lemma deref_tail: "chain_ok bs \<Longrightarrow> bs \<noteq> [] \<Longrightarrow> deref bs (chain_tail bs) = Inr (last bs)"
proof (induction bs)
  case (Cons b bs)
  then show ?case
    by (cases "bs = []") (auto simp: chain_tail_def chain_ids_def)
qed simp

lemma update_at_tail:
  assumes "chain_ok bs" and "bs \<noteq> []" and "chain_tail bs = Some t"
  shows "update_at t f bs = butlast bs @ [f (last bs)]"
proof -
  obtain cs c where bs: "bs = cs @ [c]" using assms(2) by (metis append_butlast_last_id)
  have "bid c = t" using assms(3) bs by (simp add: chain_tail_def)
  moreover have "map (\<lambda>b. if bid b = t then f b else b) cs = cs"
    using assms(1) bs \<open>bid c = t\<close>
    by (intro map_idI) (clarsimp simp: chain_ids_def, metis image_eqI)
  ultimately show ?thesis by (simp add: bs update_at_def)
qed

section \<open>Construction and insertion\<close>

lemma buffer_new_ok:
  obtains b where "buffer_new a n = Inr b" and "buffer_ok b" and "content b = replicate n 0"
    and "total b = n" and "ids b = (if n = 0 then {} else {a})"
proof (cases "n = 0")
  case True
  then show ?thesis
    by (intro that [of "\<lparr>head = [], tail = None, total = n\<rparr>"])
       (auto simp: buffer_new_def buffer_ok_def content_def ids_def)
next
  case False
  then show ?thesis
    by (intro that [of "\<lparr>head = [\<lparr>bid = a, bdata = replicate n 0, bcapacity = n, boffset = 0,
                                   bsize = n\<rparr>], tail = Some a, total = n\<rparr>"])
       (auto simp: buffer_new_def buf_new_def buffer_ok_def content_def ids_def buf_ok_def
         buf_bytes_def)
qed

lemma buffer_empty_ok [simp]:
  "buffer_ok buffer_empty" "content buffer_empty = []" "ids buffer_empty = {}"
  "total buffer_empty = 0"
  by (auto simp: buffer_empty_def buffer_ok_def content_def ids_def)

lemma insert_back_buffer_ok:
  assumes "buffer_ok b" and "buffer_ok x" and "ids b \<inter> ids x = {}"
  obtains b' where "insert_back_buffer b x = Inr b'" and "buffer_ok b'"
    and "content b' = content b @ content x" and "ids b' = ids b \<union> ids x"
proof (cases "total x = 0")
  case True
  with assms show ?thesis
    by (intro that [of b])
       (auto simp: insert_back_buffer_def buffer_ok_empty_iff content_def ids_def)
next
  case x: False
  then have hx: "head x \<noteq> []" using assms(2) by (simp add: buffer_ok_empty_iff)
  show ?thesis
  proof (cases "head b = []")
    case True
    with assms x show ?thesis
      by (intro that [of "b\<lparr>head := head x, tail := tail x, total := total b + total x\<rparr>"])
         (auto simp: insert_back_buffer_def buffer_ok_def content_def ids_def)
  next
    case False
    with assms x hx show ?thesis
      by (intro that [of "b\<lparr>head := head b @ head x, tail := tail x,
                            total := total b + total x\<rparr>"])
         (auto simp: insert_back_buffer_def buffer_ok_def content_def ids_def link_after_tail
           chain_tail_append)
  qed
qed

lemma insert_front_buffer_ok:
  assumes "buffer_ok b" and "buffer_ok x" and "ids b \<inter> ids x = {}"
  obtains b' where "insert_front_buffer b x = Inr b'" and "buffer_ok b'"
    and "content b' = content x @ content b" and "ids b' = ids b \<union> ids x"
proof (cases "total x = 0")
  case True
  with assms show ?thesis
    by (intro that [of b])
       (auto simp: insert_front_buffer_def buffer_ok_empty_iff content_def ids_def)
next
  case False
  then have hx: "head x \<noteq> []" using assms(2) by (simp add: buffer_ok_empty_iff)
  with assms False show ?thesis
    by (intro that [of "b\<lparr>head := head x @ head b,
                          tail := (if tail b = None then tail x else tail b),
                          total := total b + total x\<rparr>"])
       (auto simp: insert_front_buffer_def buffer_ok_def content_def ids_def link_after_tail
         chain_tail_append)
qed

lemma insert_front_size_ok:
  assumes "buffer_ok b" and "a \<notin> ids b"
  obtains b' pad where "insert_front_size a b n = Inr b'" and "buffer_ok b'" and "length pad = n"
    and "content b' = pad @ content b" and "ids b' \<subseteq> insert a (ids b)"
proof (cases "head b \<noteq> [] \<and> boffset (hd (head b)) \<ge> n")
  case True
  then obtain c cs where h: "head b = c # cs" and n: "n \<le> boffset c" by (cases "head b") auto
  have c: "buf_ok c" using assms(1) h by (simp add: buffer_ok_def)
  obtain pad where pad: "length pad = n"
    "buf_bytes (c\<lparr>boffset := boffset c - n, bsize := bsize c + n\<rparr>) = pad @ buf_bytes c"
    using window_grow_front [OF c n] .
  have "buf_ok (c\<lparr>boffset := boffset c - n, bsize := bsize c + n\<rparr>)"
    using c n by (auto simp: buf_ok_def)
  with pad h n assms(1) show ?thesis
    by (intro that [of "b\<lparr>head := c\<lparr>boffset := boffset c - n, bsize := bsize c + n\<rparr> # cs,
                          total := total b + n\<rparr>" pad])
       (auto simp: insert_front_size_def buffer_ok_def content_def ids_def)
next
  case False
  obtain x where x: "buffer_new a n = Inr x" "buffer_ok x" "content x = replicate n 0"
    "ids x \<subseteq> {a}" by (rule buffer_new_ok [of a n]) (auto split: if_splits)
  obtain b' where "insert_front_buffer b x = Inr b'" "buffer_ok b'"
    "content b' = content x @ content b" "ids b' = ids b \<union> ids x"
    using insert_front_buffer_ok [OF assms(1) x(2)] assms(2) x(4) by auto
  with x False show ?thesis
    by (intro that [of b' "replicate n 0"]) (auto simp: insert_front_size_def)
qed

lemma insert_back_size_ok:
  assumes "buffer_ok b" and "a \<notin> ids b"
  obtains b' pad where "insert_back_size a b n = Inr b'" and "buffer_ok b'" and "length pad = n"
    and "content b' = content b @ pad" and "ids b' \<subseteq> insert a (ids b)"
proof -
  obtain x where x: "buffer_new a n = Inr x" "buffer_ok x" "content x = replicate n 0"
    "ids x \<subseteq> {a}" by (rule buffer_new_ok [of a n]) (auto split: if_splits)
  obtain b2 where b2: "insert_back_buffer b x = Inr b2" "buffer_ok b2"
    "content b2 = content b @ content x" "ids b2 = ids b \<union> ids x"
    using insert_back_buffer_ok [OF assms(1) x(2)] assms(2) x(4) by auto
  note fresh = that [of b2 "replicate n 0"]
  show ?thesis
  proof (cases "tail b")
    case None
    with x b2 show ?thesis by (intro fresh) (auto simp: insert_back_size_def)
  next
    case (Some t)
    then have t: "chain_tail (head b) = Some t" and hb: "head b \<noteq> []" and ok: "chain_ok (head b)"
      using assms(1) by (auto simp: buffer_ok_def)
    then obtain cs c where h: "head b = cs @ [c]" by (metis append_butlast_last_id)
    have c: "buf_ok c" using ok h by simp
    have d: "deref (head b) (Some t) = Inr c" using deref_tail [OF ok hb] t h by simp
    have room: "sz_sub (sz_sub (bcapacity c) (boffset c)) (bsize c) =
        bcapacity c - boffset c - bsize c" using c by (rule buf_room)
    show ?thesis
    proof (cases "n \<le> bcapacity c - boffset c - bsize c")
      case True
      then have "boffset c + bsize c + n \<le> bcapacity c" using c by (auto simp: buf_ok_def)
      then obtain pad where pad: "length pad = n"
        "buf_bytes (c\<lparr>bsize := bsize c + n\<rparr>) = buf_bytes c @ pad"
        using window_grow_back [OF c] by blast
      have "buf_ok (c\<lparr>bsize := bsize c + n\<rparr>)" using c True by (auto simp: buf_ok_def)
      with pad h True assms(1) Some d room update_at_tail [OF ok hb t] show ?thesis
        by (intro that [of "b\<lparr>head := cs @ [c\<lparr>bsize := bsize c + n\<rparr>],
                              total := total b + n\<rparr>" pad])
           (auto simp: insert_back_size_def buffer_ok_def content_def ids_def chain_tail_append)
    next
      case False
      with x b2 Some d room show ?thesis by (intro fresh) (auto simp: insert_back_size_def)
    qed
  qed
qed

lemma buf_break_ok:
  assumes "buf_ok b" and "0 < k" and "k \<le> bsize b" and "chain_ok bs"
    and "a \<noteq> bid b" and "a \<notin> chain_ids bs"
  obtains b' r where "buf_break a k b bs = Inr (b', r)" and "buf_ok b'" and "bid b' = bid b"
    and "buf_bytes b' = take k (buf_bytes b)" and "bsize b' = k"
    and "chain_ok r" and "chain_bytes r = drop k (buf_bytes b) @ chain_bytes bs"
    and "chain_ids bs \<subseteq> chain_ids r" and "chain_ids r \<subseteq> insert a (chain_ids bs)"
    and "chain_tail r = (if k < bsize b \<and> bs = [] then Some a else chain_tail bs)"
proof (cases "k = bsize b")
  case True
  with assms show ?thesis by (intro that [of b bs]) (auto simp: buf_break_def)
next
  case False
  let ?n = "bsize b - k"
  let ?r = "\<lparr>bid = a, bdata = drop k (buf_bytes b), bcapacity = ?n, boffset = 0, bsize = ?n\<rparr>"
  have "mem_read (bdata b) (boffset b + k) ?n = Inr (drop k (buf_bytes b))"
    using assms False by (subst window_read) auto
  then have "buf_break a k b bs = Inr (b\<lparr>bsize := k\<rparr>, ?r # bs)"
    using assms False by (simp add: buf_break_def buf_new_def)
  then show ?thesis using assms False
    by (intro that [of "b\<lparr>bsize := k\<rparr>" "?r # bs"])
       (auto simp: window buf_bytes_def [of ?r] buf_ok_def [of ?r])
qed

lemma insert_buf_at_ok:
  assumes b: "buffer_ok b" and h: "head b = ps @ c # cs" and k: "0 < k" "k \<le> bsize c"
    and inside: "chain_size ps + k < total b"
    and x: "buffer_ok x" "total x \<noteq> 0" and disj: "ids b \<inter> ids x = {}"
    and a: "a \<notin> ids b" "a \<notin> ids x"
  obtains b' where "insert_buf_at a b ps (c # cs) x k = Inr b'" and "buffer_ok b'"
    and "content b' = insert_at (content b) (chain_size ps + k) (content x)"
    and "ids b' \<subseteq> insert a (ids b \<union> ids x)"
proof -
  have ok: "chain_ok ps" "buf_ok c" "chain_ok cs" and total: "total b = chain_size (head b)"
    and tail: "tail b = chain_tail (head b)"
    using b h by (auto simp: buffer_ok_def)
  have ac: "a \<noteq> bid c" "a \<notin> chain_ids cs" using a h by (auto simp: ids_def)
  obtain c' r where br: "buf_break a k c cs = Inr (c', r)" "buf_ok c'" "bid c' = bid c"
    "buf_bytes c' = take k (buf_bytes c)" "bsize c' = k" "chain_ok r"
    "chain_bytes r = drop k (buf_bytes c) @ chain_bytes cs" "chain_ids cs \<subseteq> chain_ids r"
    "chain_ids r \<subseteq> insert a (chain_ids cs)"
    "chain_tail r = (if k < bsize c \<and> cs = [] then Some a else chain_tail cs)"
    using buf_break_ok [OF ok(2) k ok(3) ac] .
  have hx: "head x \<noteq> []" using x by (simp add: buffer_ok_empty_iff)
  have link: "link_after (head x) (tail x) r = Inr (head x @ r)"
    using x(1) hx by (simp add: buffer_ok_def link_after_tail)
  have "length (chain_bytes r) = chain_size r" using br(6) by simp
  with br(7) ok k have size_r: "chain_size r = bsize c - k + chain_size cs" by simp
  have rne: "r \<noteq> []" using size_r inside k total h by auto
  let ?t = "if tail b = Some (bid c) then (if r \<noteq> [] then Some (bid (hd r)) else tail x) else tail b"
  let ?b = "b\<lparr>head := ps @ c' # head x @ r, tail := ?t, total := total b + total x\<rparr>"
  have res: "insert_buf_at a b ps (c # cs) x k = Inr ?b"
    using br link by (simp add: insert_buf_at_def)
  have distinct_c: "bid c \<notin> chain_ids cs" using b h by (simp add: buffer_ok_def)
  have t: "?t = chain_tail r"
  proof (cases "cs = []")
    case True
    then have "k < bsize c" using size_r rne br(6) chain_size_0 by fastforce
    moreover have "length r = 1"
    proof -
      have "r = [hd r]" using br(1) True \<open>k < bsize c\<close> k
        by (auto simp: buf_break_def buf_new_def exec_simps split: if_splits)
      then show ?thesis by (metis One_nat_def length_Cons list.size(3))
    qed
    ultimately show ?thesis using True tail h rne br(10)
      by (cases r) (auto simp: chain_tail_append)
  next
    case False
    then have "tail b = chain_tail cs" using tail h by (simp add: chain_tail_append)
    moreover have "chain_tail cs \<noteq> Some (bid c)"
      using distinct_c chain_tail_in by blast
    ultimately show ?thesis using br(10) False by simp
  qed
  have dj: "chain_ids r \<inter> chain_ids ps = {}" "bid c \<notin> chain_ids r"
    "chain_ids (head x) \<inter> chain_ids r = {}" "bid c \<notin> chain_ids (head x)"
    "chain_ids (head x) \<inter> chain_ids ps = {}" "bid c \<notin> chain_ids ps"
    using br(9) a h disj b by (auto simp: ids_def buffer_ok_def)
  have "buffer_ok ?b"
    unfolding buffer_ok_def
    using t rne ok br dj x k size_r total h
    by (auto simp: buffer_ok_def chain_tail_append)
  moreover have "content ?b = insert_at (content b) (chain_size ps + k) (content x)"
    using ok k h br by (simp add: content_def insert_at_def)
  moreover have "ids ?b \<subseteq> insert a (ids b \<union> ids x)"
    using br(3,9) h by (auto simp: ids_def)
  ultimately show ?thesis using res that by blast
qed

lemma insert_buffer_ok:
  assumes "buffer_ok b" and "buffer_ok x" and "ids b \<inter> ids x = {}"
    and "a \<notin> ids b" and "a \<notin> ids x" and "pos \<le> total b"
  obtains b' where "insert_buffer a b x pos = Inr b'" and "buffer_ok b'"
    and "content b' = insert_at (content b) pos (content x)"
    and "ids b' \<subseteq> insert a (ids b \<union> ids x)"
proof -
  have len: "length (content b) = total b" "length (content x) = total x"
    using assms by (simp_all add: length_content)
  consider "total x = 0" | "total x \<noteq> 0" "pos = total b" | "total x \<noteq> 0" "pos \<noteq> total b" "pos = 0"
    | "total x \<noteq> 0" "0 < pos" "pos < total b" using assms(6) by linarith
  then show ?thesis
  proof cases
    case 1
    with assms len show ?thesis
      by (intro that [of b]) (auto simp: insert_buffer_def insert_at_def)
  next
    case 2
    obtain b' where "insert_back_buffer b x = Inr b'" "buffer_ok b'"
      "content b' = content b @ content x" "ids b' = ids b \<union> ids x"
      using insert_back_buffer_ok [OF assms(1-3)] .
    with 2 len show ?thesis by (intro that [of b']) (auto simp: insert_buffer_def)
  next
    case 3
    obtain b' where "insert_front_buffer b x = Inr b'" "buffer_ok b'"
      "content b' = content x @ content b" "ids b' = ids b \<union> ids x"
      using insert_front_buffer_ok [OF assms(1-3)] .
    with 3 show ?thesis by (intro that [of b']) (auto simp: insert_buffer_def)
  next
    case 4
    have "pos \<le> chain_size (head b)" using 4 assms(1) by (simp add: buffer_ok_def)
    from seek_gt_split [OF 4(2) this] obtain ps c cs k where
      s: "head b = ps @ c # cs" "pos = chain_size ps + k" "0 < k" "k \<le> bsize c"
      "\<forall>pre. seek_gt pre (head b) pos = Inr (pre @ ps, c # cs, k)" by blast
    obtain b' where "insert_buf_at a b ps (c # cs) x k = Inr b'" "buffer_ok b'"
      "content b' = insert_at (content b) (chain_size ps + k) (content x)"
      "ids b' \<subseteq> insert a (ids b \<union> ids x)"
      using insert_buf_at_ok [OF assms(1) s(1,3,4) _ assms(2) 4(1) assms(3,4,5)] 4 s(2) by blast
    with 4 s show ?thesis by (intro that [of b']) (auto simp: insert_buffer_def)
  qed
qed

text \<open>The room in the middle of the chain: the gap between two neighbouring windows widens.\<close>

lemma widen_gap:
  assumes "buf_ok c" and "chain_ok cs" and "cs \<noteq> []"
    and "len \<le> remain \<or> len \<le> remain + boffset (hd cs)"
    and remain: "remain = bcapacity c - boffset c - bsize c" and fill: "fill = min len remain"
  obtains c' cs' pad where
    "c\<lparr>bsize := bsize c + fill\<rparr> = c'"
    and "(if len - fill \<noteq> 0
          then (hd cs)\<lparr>boffset := boffset (hd cs) - (len - fill),
                        bsize := bsize (hd cs) + (len - fill)\<rparr> # tl cs
          else cs) = cs'"
    and "buf_ok c'" and "chain_ok cs'" and "bid c' = bid c" and "chain_ids cs' = chain_ids cs"
    and "chain_tail cs' = chain_tail cs" and "cs' \<noteq> []" and "length pad = len"
    and "buf_bytes c' @ chain_bytes cs' = buf_bytes c @ pad @ chain_bytes cs"
    and "bsize c' + chain_size cs' = bsize c + len + chain_size cs"
proof -
  have "boffset c + bsize c + fill \<le> bcapacity c"
    using assms(1) remain fill by (auto simp: buf_ok_def)
  then obtain p1 where p1: "length p1 = fill"
    "buf_bytes (c\<lparr>bsize := bsize c + fill\<rparr>) = buf_bytes c @ p1"
    using window_grow_back [OF assms(1)] by blast
  have c': "buf_ok (c\<lparr>bsize := bsize c + fill\<rparr>)"
    using assms(1) remain fill by (auto simp: buf_ok_def)
  obtain d ds where cs: "cs = d # ds" using assms(3) by (cases cs) auto
  have d: "buf_ok d" using assms(2) cs by simp
  show ?thesis
  proof (cases "len - fill = 0")
    case True
    then show ?thesis
      using assms p1 c' fill by (intro that [OF refl refl, of p1]) auto
  next
    case False
    then have n: "len - fill \<le> boffset d" using assms(4) fill cs by auto
    obtain p2 where p2: "length p2 = len - fill"
      "buf_bytes (d\<lparr>boffset := boffset d - (len - fill), bsize := bsize d + (len - fill)\<rparr>)
         = p2 @ buf_bytes d"
      using window_grow_front [OF d n] .
    have "buf_ok (d\<lparr>boffset := boffset d - (len - fill), bsize := bsize d + (len - fill)\<rparr>)"
      using d n by (auto simp: buf_ok_def)
    then show ?thesis
      using assms p1 p2 c' fill False cs by (intro that [OF refl refl, of "p1 @ p2"]) auto
  qed
qed

text \<open>Room made inside: in the gap between two blocks when it is large enough, or by a new block.\<close>

lemma insert_size_inside:
  assumes b: "buffer_ok b" and fresh: "a \<notin> ids b" "a' \<notin> ids b" "a \<noteq> a'"
    and 4: "len \<noteq> 0" "0 < skip" "skip < total b"
  obtains b' pad where "insert_size a a' b skip len = Inr b'" and "buffer_ok b'"
    and "length pad = len" and "content b' = insert_at (content b) skip pad"
    and "ids b' \<subseteq> insert a (insert a' (ids b))"
proof -
  have ok: "chain_ok (head b)" "tail b = chain_tail (head b)" "total b = chain_size (head b)"
    using b by (auto simp: buffer_ok_def)
  from seek_gt_split [of skip "head b"] 4 ok obtain ps c cs k where
    s: "head b = ps @ c # cs" "skip = chain_size ps + k" "0 < k" "k \<le> bsize c"
    "\<forall>pre. seek_gt pre (head b) skip = Inr (pre @ ps, c # cs, k)" by auto
  let ?remain = "sz_sub (sz_sub (bcapacity c) (boffset c)) (bsize c)"
  let ?fill = "min len ?remain"
  have remain: "?remain = bcapacity c - boffset c - bsize c"
    using ok s by (intro buf_room) simp
  show ?thesis
  proof (cases "k = bsize c \<and> (?remain \<ge> len \<or> (cs \<noteq> [] \<and> ?remain + boffset (hd cs) \<ge> len))")
    case True
    have cs: "cs \<noteq> []" using True 4(3) ok s by auto
    obtain c' cs' pad where w: "c\<lparr>bsize := bsize c + ?fill\<rparr> = c'"
      "(if len - ?fill \<noteq> 0
        then (hd cs)\<lparr>boffset := boffset (hd cs) - (len - ?fill),
                      bsize := bsize (hd cs) + (len - ?fill)\<rparr> # tl cs
        else cs) = cs'"
      "buf_ok c'" "chain_ok cs'" "bid c' = bid c" "chain_ids cs' = chain_ids cs"
      "chain_tail cs' = chain_tail cs" "cs' \<noteq> []" "length pad = len"
      "buf_bytes c' @ chain_bytes cs' = buf_bytes c @ pad @ chain_bytes cs"
      "bsize c' + chain_size cs' = bsize c + len + chain_size cs"
      using widen_gap [OF _ _ cs _ remain refl, of len] ok s(1) True by auto
    let ?b = "b\<lparr>head := ps @ c' # cs', total := total b + len\<rparr>"
    have "insert_size a a' b skip len = Inr ?b"
      using 4 s True w(1,2) by (auto simp: insert_size_def Let_def)
    moreover have "buffer_ok ?b"
      using ok s w cs by (auto simp: buffer_ok_def)
    moreover have "content ?b = insert_at (content b) skip pad"
      using ok s w True by (simp add: content_def insert_at_def)
    moreover have "ids ?b = ids b" using s w by (simp add: ids_def)
    ultimately show ?thesis using w(9) by (intro that [of ?b pad]) auto
  next
    case False
    obtain x where x: "buffer_new a len = Inr x" "buffer_ok x" "content x = replicate len 0"
      "total x = len" "ids x = {a}" by (rule buffer_new_ok [of a len]) (use 4 in auto)
    obtain b' where "insert_buf_at a' b ps (c # cs) x k = Inr b'" "buffer_ok b'"
      "content b' = insert_at (content b) (chain_size ps + k) (content x)"
      "ids b' \<subseteq> insert a' (ids b \<union> ids x)"
      using insert_buf_at_ok [OF b s(1,3,4) _ x(2)] 4 s(2) x fresh by auto
    with 4 s x False show ?thesis
      by (intro that [of b' "replicate len 0"]) (auto simp: insert_size_def Let_def)
  qed
qed

lemma insert_size_ok:
  assumes b: "buffer_ok b" and fresh: "a \<notin> ids b" "a' \<notin> ids b" "a \<noteq> a'"
    and skip: "skip \<le> total b"
  obtains b' pad where "insert_size a a' b skip len = Inr b'" and "buffer_ok b'"
    and "length pad = len" and "content b' = insert_at (content b) skip pad"
    and "ids b' \<subseteq> insert a (insert a' (ids b))"
proof -
  have len_b: "length (content b) = total b" using b by (rule length_content)
  consider "len = 0" | "len \<noteq> 0" "skip = total b" | "len \<noteq> 0" "skip \<noteq> total b" "skip = 0"
    | "len \<noteq> 0" "0 < skip" "skip < total b" using skip by linarith
  then show ?thesis
  proof cases
    case 1
    with b skip show ?thesis
      by (intro that [of b "[]"]) (auto simp: insert_size_def insert_at_def)
  next
    case 2
    obtain b' pad where "insert_back_size a b len = Inr b'" "buffer_ok b'" "length pad = len"
      "content b' = content b @ pad" "ids b' \<subseteq> insert a (ids b)"
      using insert_back_size_ok [OF b fresh(1)] .
    with 2 len_b show ?thesis by (intro that [of b' pad]) (auto simp: insert_size_def)
  next
    case 3
    obtain b' pad where "insert_front_size a b len = Inr b'" "buffer_ok b'" "length pad = len"
      "content b' = pad @ content b" "ids b' \<subseteq> insert a (ids b)"
      using insert_front_size_ok [OF b fresh(1)] .
    with 3 show ?thesis by (intro that [of b' pad]) (auto simp: insert_size_def)
  next
    case 4
    then show ?thesis using insert_size_inside [OF b fresh] that by metis
  qed
qed

section \<open>Removal\<close>

lemma shrink_loop_ok:
  assumes "chain_ok bs" and "len \<le> chain_size bs"
  shows "\<exists>cur returned. shrink_loop pre bs len n = Inr (pre, cur, n - len, returned) \<and>
           chain_ok cur \<and> chain_bytes cur = drop len (chain_bytes bs) \<and>
           chain_ids cur \<subseteq> chain_ids bs \<and> chain_size cur = chain_size bs - len \<and>
           (cur \<noteq> [] \<longrightarrow> chain_tail cur = chain_tail bs) \<and> (returned \<longrightarrow> cur \<noteq> [])"
  using assms
proof (induction bs arbitrary: len n)
  case Nil
  then show ?case by auto
next
  case (Cons b bs)
  have b: "buf_ok b" using Cons.prems by simp
  consider "len = 0" | "0 < len" "len < bsize b" | "bsize b \<le> len" "0 < len" by linarith
  then show ?case
  proof cases
    case 1
    with Cons.prems show ?thesis by (intro exI [of _ "b # bs"] exI [of _ False]) simp
  next
    case 2
    let ?b = "b\<lparr>boffset := boffset b + len, bsize := bsize b - len\<rparr>"
    have "shrink_loop pre (b # bs) len n = Inr (pre, ?b # bs, n - len, True)"
      using 2 by (simp add: Let_def min_absorb1)
    with 2 Cons.prems show ?thesis
      by (intro exI [of _ "?b # bs"] exI [of _ True]) (auto simp: window)
  next
    case 3
    have "chain_ok bs" "len - bsize b \<le> chain_size bs" using Cons.prems 3 by auto
    from Cons.IH [OF this, of "n - bsize b"] obtain cur returned where
      i: "shrink_loop pre bs (len - bsize b) (n - bsize b) = Inr (pre, cur, n - len, returned)"
      "chain_ok cur" "chain_bytes cur = drop (len - bsize b) (chain_bytes bs)"
      "chain_ids cur \<subseteq> chain_ids bs" "chain_size cur = chain_size bs - (len - bsize b)"
      "cur \<noteq> [] \<longrightarrow> chain_tail cur = chain_tail bs" "returned \<longrightarrow> cur \<noteq> []"
      using 3 by auto
    have "shrink_loop pre (b # bs) len n = Inr (pre, cur, n - len, returned)"
      using 3 i(1) by (simp add: Let_def min_absorb2)
    then show ?thesis
      using 3 i Cons.prems b by (intro exI [of _ cur] exI [of _ returned]) auto
  qed
qed

lemma shrink_finish_ok:
  assumes "chain_ok (ps @ bs)" and "len \<le> chain_size bs"
    and n: "n = chain_size (ps @ bs)" and tail: "bs \<noteq> [] \<Longrightarrow> tail b = chain_tail bs"
  obtains r where "shrink_loop ps bs len n = Inr r" and "buffer_ok (shrink_finish b r)"
    and "content (shrink_finish b r) = chain_bytes ps @ drop len (chain_bytes bs)"
    and "ids (shrink_finish b r) \<subseteq> chain_ids (ps @ bs)"
proof -
  have "chain_ok bs" using assms(1) by simp
  from shrink_loop_ok [OF this assms(2), of ps n] obtain cur returned where
    i: "shrink_loop ps bs len n = Inr (ps, cur, n - len, returned)"
    "chain_ok cur" "chain_bytes cur = drop len (chain_bytes bs)"
    "chain_ids cur \<subseteq> chain_ids bs" "chain_size cur = chain_size bs - len"
    "cur \<noteq> [] \<longrightarrow> chain_tail cur = chain_tail bs" "returned \<longrightarrow> cur \<noteq> []" by blast
  have ne: "cur \<noteq> [] \<Longrightarrow> bs \<noteq> []" using i(4) by (cases bs; cases cur) auto
  show ?thesis
  proof (rule that [OF i(1)])
    show "buffer_ok (shrink_finish b (ps, cur, n - len, returned))"
      using assms i ne by (auto simp: shrink_finish_def buffer_ok_def chain_tail_append chain_tail_def)
    show "content (shrink_finish b (ps, cur, n - len, returned))
        = chain_bytes ps @ drop len (chain_bytes bs)"
      using i by (simp add: shrink_finish_def content_def)
    show "ids (shrink_finish b (ps, cur, n - len, returned)) \<subseteq> chain_ids (ps @ bs)"
      using i by (auto simp: shrink_finish_def ids_def)
  qed
qed

lemma shrink_ok:
  assumes b: "buffer_ok b" and skip: "skip < total b" and len: "skip + len \<le> total b"
  obtains b' where "shrink b skip len = Inr b'" and "buffer_ok b'"
    and "content b' = delete_at (content b) skip len" and "ids b' \<subseteq> ids b"
proof -
  have ok: "chain_ok (head b)" "tail b = chain_tail (head b)" "total b = chain_size (head b)"
    using b by (auto simp: buffer_ok_def)
  from seek_ge_split [of skip "head b"] skip ok obtain ps c cs k where
    s: "head b = ps @ c # cs" "skip = chain_size ps + k" "k < bsize c"
    "\<forall>pre. seek_ge pre (head b) skip = Inr (pre @ ps, c # cs, k)" by auto
  have c: "buf_ok c" "chain_ok ps" "chain_ok cs" using ok s by auto
  have bytes: "content b = chain_bytes ps @ buf_bytes c @ chain_bytes cs"
    using s by (simp add: content_def)
  consider "k = 0" | "0 < k" "bsize c - k \<le> len" | "0 < k" "len < bsize c - k" by linarith
  then show ?thesis
  proof cases
    case 1
    obtain r where r: "shrink_loop ps (c # cs) len (total b) = Inr r"
      "buffer_ok (shrink_finish b r)"
      "content (shrink_finish b r) = chain_bytes ps @ drop len (chain_bytes (c # cs))"
      "ids (shrink_finish b r) \<subseteq> chain_ids (ps @ c # cs)"
      by (rule shrink_finish_ok [of ps "c # cs" len "total b" b]) (use ok s len 1 in auto)
    have "shrink b skip len = Inr (shrink_finish b r)"
      using skip len s 1 r(1) by (simp add: shrink_def)
    then show ?thesis using r s 1 c bytes
      by (intro that) (auto simp: ids_def delete_at_def)
  next
    case 2
    let ?c = "c\<lparr>bsize := k\<rparr>"
    have c': "buf_ok ?c" "buf_bytes ?c = take k (buf_bytes c)"
      using c s 2 by (auto simp: window)
    obtain r where r: "shrink_loop (ps @ [?c]) cs (len - (bsize c - k)) (total b - (bsize c - k)) = Inr r"
      "buffer_ok (shrink_finish b r)"
      "content (shrink_finish b r)
         = chain_bytes (ps @ [?c]) @ drop (len - (bsize c - k)) (chain_bytes cs)"
      "ids (shrink_finish b r) \<subseteq> chain_ids ((ps @ [?c]) @ cs)"
      by (rule shrink_finish_ok [of "ps @ [?c]" cs "len - (bsize c - k)" "total b - (bsize c - k)" b])
         (use ok s len 2 c' in auto)
    have "shrink b skip len = Inr (shrink_finish b r)"
      using skip len s 2 r(1) by (simp add: shrink_def Let_def)
    then show ?thesis using r s 2 c c' bytes
      by (intro that) (auto simp: ids_def delete_at_def add.commute)
  next
    case 3
    let ?xs = "drop (k + len) (buf_bytes c)"
    have rd: "mem_read (bdata c) (boffset c + k + len) (bsize c - k - len) = Inr ?xs"
      using window_read [OF c(1), of "k + len" "bsize c - k - len"] c 3 by (simp add: add.assoc)
    obtain d where d: "mem_write (bdata c) (boffset c + k) ?xs = Inr d" "buf_ok (c\<lparr>bdata := d\<rparr>)"
      "buf_bytes (c\<lparr>bdata := d\<rparr>) = splice (buf_bytes c) k ?xs"
      by (rule window_write [OF c(1), of k ?xs]) (use c 3 in auto)
    let ?c = "c\<lparr>bdata := d, bsize := bsize c - len\<rparr>"
    have c': "buf_ok ?c" "buf_bytes ?c = delete_at (buf_bytes c) k len"
      using window_take_ok [OF d(2), of "bsize c - len"] window_take [OF d(2), of "bsize c - len"]
        c 3 d(3) by (auto simp: splice_def delete_at_def)
    let ?b = "b\<lparr>head := ps @ ?c # cs, total := total b - len\<rparr>"
    have "shrink b skip len = Inr ?b"
      using skip len s 3 rd d(1) by (simp add: shrink_def Let_def)
    then show ?thesis using s ok c c' 3 bytes
      by (intro that [of ?b]) (auto simp: buffer_ok_def content_def ids_def delete_at_def)
  qed
qed

section \<open>Copying\<close>

lemma copy_out_ok:
  assumes "chain_ok cs" and "k + len \<le> chain_size cs" and "cs \<noteq> [] \<Longrightarrow> k \<le> bsize (hd cs)"
  shows "copy_out cs k len = Inr (take len (drop k (chain_bytes cs)))"
  using assms
proof (induction cs arbitrary: k len)
  case Nil
  then show ?case by simp
next
  case (Cons c cs)
  have c: "buf_ok c" "k \<le> bsize c" using Cons.prems by auto
  show ?case
  proof (cases "len = 0")
    case False
    let ?n = "min len (bsize c - k)"
    have rd: "mem_read (bdata c) (boffset c + k) ?n = Inr (take ?n (drop k (buf_bytes c)))"
      using c by (intro window_read) auto
    have "len - ?n \<le> chain_size cs" using Cons.prems by auto
    then have "copy_out cs 0 (len - ?n) = Inr (take (len - ?n) (chain_bytes cs))"
      using Cons.IH [of 0 "len - ?n"] Cons.prems by simp
    then have "copy_out (c # cs) k len
        = Inr (take ?n (drop k (buf_bytes c)) @ take (len - ?n) (chain_bytes cs))"
      using False c(2) rd by (simp add: Let_def)
    also have "take ?n (drop k (buf_bytes c)) = take len (drop k (buf_bytes c))"
      using c by (simp add: min_def)
    finally show ?thesis using c by (auto simp: min_def)
  qed simp
qed

lemma get_data_ok:
  assumes "buffer_ok b" and "skip < total b" and "skip + len \<le> total b"
  shows "get_data b skip len = Inr (take len (drop skip (content b)))"
proof -
  have ok: "chain_ok (head b)" "total b = chain_size (head b)"
    using assms by (auto simp: buffer_ok_def)
  from seek_ge_split [of skip "head b"] assms(2) ok obtain ps c cs k where
    s: "head b = ps @ c # cs" "skip = chain_size ps + k" "k < bsize c"
    "\<forall>pre. seek_ge pre (head b) skip = Inr (pre @ ps, c # cs, k)" by auto
  have "copy_out (c # cs) k len = Inr (take len (drop k (chain_bytes (c # cs))))"
    using assms ok s by (intro copy_out_ok) auto
  then show ?thesis using assms s ok by (simp add: get_data_def content_def)
qed

lemma copy_in_ok:
  assumes "chain_ok cs" and "k + length xs \<le> chain_size cs" and "cs \<noteq> [] \<Longrightarrow> k \<le> bsize (hd cs)"
  shows "\<exists>ds. copy_in cs k xs = Inr ds \<and> chain_ok ds \<and> chain_bytes ds = splice (chain_bytes cs) k xs \<and>
           map bid ds = map bid cs \<and> map bsize ds = map bsize cs"
  using assms
proof (induction cs arbitrary: k xs)
  case Nil
  then show ?case by simp
next
  case (Cons c cs)
  have c: "buf_ok c" "k \<le> bsize c" using Cons.prems by auto
  show ?case
  proof (cases "xs = []")
    case True
    with Cons.prems show ?thesis by (intro exI [of _ "c # cs"]) simp
  next
    case False
    let ?n = "min (length xs) (bsize c - k)"
    obtain d where d: "mem_write (bdata c) (boffset c + k) (take ?n xs) = Inr d"
      "buf_ok (c\<lparr>bdata := d\<rparr>)"
      "buf_bytes (c\<lparr>bdata := d\<rparr>) = splice (buf_bytes c) k (take ?n xs)"
      by (rule window_write [OF c(1), of k "take ?n xs"]) (use c in auto)
    have "length (drop ?n xs) \<le> chain_size cs" using Cons.prems by auto
    with Cons.prems Cons.IH [of 0 "drop ?n xs"] obtain ds where
      ds: "copy_in cs 0 (drop ?n xs) = Inr ds" "chain_ok ds"
      "chain_bytes ds = splice (chain_bytes cs) 0 (drop ?n xs)" "map bid ds = map bid cs"
      "map bsize ds = map bsize cs" by auto
    have "chain_ids ds = chain_ids cs" using ds(4) by (simp add: chain_ids_def del: set_map)
    moreover have "copy_in (c # cs) k xs = Inr (c\<lparr>bdata := d\<rparr> # ds)"
      using False c(2) d(1) ds(1) by (simp add: Let_def)
    moreover have "splice (buf_bytes c) k (take ?n xs) @ splice (chain_bytes cs) 0 (drop ?n xs)
        = splice (buf_bytes c @ chain_bytes cs) k xs"
      using c by (auto simp: splice_def min_def add.commute)
    ultimately show ?thesis
      using d ds Cons.prems by (intro exI [of _ "c\<lparr>bdata := d\<rparr> # ds"]) simp
  qed
qed

lemma same_blocks:
  assumes "map bid ds = map bid cs" and "map bsize ds = map bsize cs"
  shows "chain_size ds = chain_size cs" "chain_ids ds = chain_ids cs" "chain_tail ds = chain_tail cs"
proof -
  show "chain_size ds = chain_size cs" using assms(2) by (simp add: chain_size_def)
  show "chain_ids ds = chain_ids cs" using assms(1) by (simp add: chain_ids_def del: set_map)
  show "chain_tail ds = chain_tail cs" using assms(1)
    by (metis (no_types, lifting) chain_tail_def last_map map_is_Nil_conv)
qed

lemma set_data_ok:
  assumes "buffer_ok b" and "skip < total b" and "skip + length xs \<le> total b"
  obtains b' where "set_data b skip xs = Inr b'" and "buffer_ok b'"
    and "content b' = splice (content b) skip xs" and "ids b' = ids b"
proof -
  have ok: "chain_ok (head b)" "tail b = chain_tail (head b)" "total b = chain_size (head b)"
    using assms by (auto simp: buffer_ok_def)
  from seek_ge_split [of skip "head b"] assms(2) ok obtain ps c cs k where
    s: "head b = ps @ c # cs" "skip = chain_size ps + k" "k < bsize c"
    "\<forall>pre. seek_ge pre (head b) skip = Inr (pre @ ps, c # cs, k)" by auto
  have "\<exists>ds. copy_in (c # cs) k xs = Inr ds \<and> chain_ok ds \<and>
      chain_bytes ds = splice (chain_bytes (c # cs)) k xs \<and>
      map bid ds = map bid (c # cs) \<and> map bsize ds = map bsize (c # cs)"
    using assms ok s by (intro copy_in_ok) auto
  then obtain ds where ds: "copy_in (c # cs) k xs = Inr ds" "chain_ok ds"
    "chain_bytes ds = splice (chain_bytes (c # cs)) k xs"
    and same: "map bid ds = map bid (c # cs)" "map bsize ds = map bsize (c # cs)" by blast
  note same = same_blocks [OF same]
  have "chain_ok ps" using ok s by simp
  have "ds \<noteq> []" using same(2) by (cases ds) auto
  have "set_data b skip xs = Inr (b\<lparr>head := ps @ ds\<rparr>)"
    using assms s ds by (simp add: set_data_def)
  then show ?thesis
    using ok s ds same \<open>chain_ok ps\<close> \<open>ds \<noteq> []\<close>
    by (intro that [of "b\<lparr>head := ps @ ds\<rparr>"])
       (auto simp: buffer_ok_def content_def ids_def splice_append1 chain_tail_append)
qed

text \<open>One round of the two-chain copy: where the source position moves to.\<close>

lemma advance_source:
  assumes "buf_ok s" and "skip + n \<le> bsize s" and "chain_ok ss"
  defines "ss2 \<equiv> (if skip + n = bsize s then ss else s # ss)"
    and "skip2 \<equiv> (if skip + n = bsize s then 0 else skip + n)"
  shows "drop skip2 (chain_bytes ss2) = drop (skip + n) (chain_bytes (s # ss))"
    and "ss2 \<noteq> [] \<longrightarrow> skip2 < bsize (hd ss2)" and "length ss2 \<le> Suc (length ss)"
    and "skip2 + m \<le> chain_size ss2 \<longleftrightarrow> skip + n + m \<le> chain_size (s # ss)"
    and "bid s \<notin> chain_ids ss \<Longrightarrow> chain_ok ss2"
  using assms by (cases ss; auto simp: buf_ok_def)+

text \<open>One round: the bytes that fit into the first block, and what is left of the source.\<close>

lemma copy_between_step:
  assumes "chain_ok (t # ts)" "chain_ok ss" "skip + len \<le> chain_size ss" "offset < bsize t"
    and "ss \<noteq> [] \<longrightarrow> skip < bsize (hd ss)" "len \<noteq> 0"
  obtains n d ss2 skip2 where "0 < n" "n \<le> len" "offset + n \<le> bsize t" "buf_ok (t\<lparr>bdata := d\<rparr>)"
    and "length (take n (drop skip (chain_bytes ss))) = n"
    and "buf_bytes (t\<lparr>bdata := d\<rparr>) = splice (buf_bytes t) offset (take n (drop skip (chain_bytes ss)))"
    and "chain_ok ss2" "skip2 + (len - n) \<le> chain_size ss2" "ss2 \<noteq> [] \<longrightarrow> skip2 < bsize (hd ss2)"
      "length ss2 \<le> length ss" "drop skip2 (chain_bytes ss2) = drop (skip + n) (chain_bytes ss)"
    and "\<And>acc. copy_between acc (t # ts) offset ss skip len =
        (if offset + n = bsize t then copy_between (acc @ [t\<lparr>bdata := d\<rparr>]) ts 0 ss2 skip2 (len - n)
         else copy_between acc (t\<lparr>bdata := d\<rparr> # ts) (offset + n) ss2 skip2 (len - n))"
proof -
  obtain s ss' where ss: "ss = s # ss'" using assms(3,6) by (cases ss) auto
  have ok: "buf_ok t" "buf_ok s" "chain_ok ss'" "skip < bsize s" "bid s \<notin> chain_ids ss'"
    using assms ss by auto
  define n where "n = min (bsize s - skip) (min len (bsize t - offset))"
  define ss2 where "ss2 = (if skip + n = bsize s then ss' else s # ss')"
  define skip2 where "skip2 = (if skip + n = bsize s then 0 else skip + n)"
  have n: "0 < n" "n \<le> len" "skip + n \<le> bsize s" "offset + n \<le> bsize t"
    using ok assms(4,6) by (auto simp: n_def)
  note adv = advance_source [OF ok(2) n(3) ok(3), folded ss2_def skip2_def]
  let ?xs = "take n (drop skip (buf_bytes s))"
  have xs: "?xs = take n (drop skip (chain_bytes ss))" "length ?xs = n" using n ok ss by auto
  have rd: "mem_read (bdata s) (boffset s + skip) n = Inr ?xs"
    using ok n by (intro window_read) auto
  obtain d where d: "mem_write (bdata t) (boffset t + offset) ?xs = Inr d"
    "buf_ok (t\<lparr>bdata := d\<rparr>)" "buf_bytes (t\<lparr>bdata := d\<rparr>) = splice (buf_bytes t) offset ?xs"
    by (rule window_write [OF ok(1), of offset ?xs]) (use n xs in auto)
  have step: "copy_between acc (t # ts) offset ss skip len =
      (if offset + n = bsize t then copy_between (acc @ [t\<lparr>bdata := d\<rparr>]) ts 0 ss2 skip2 (len - n)
       else copy_between acc (t\<lparr>bdata := d\<rparr> # ts) (offset + n) ss2 skip2 (len - n))" for acc
    using assms(4,6) ss ok rd d(1)
    by (simp add: copy_between.simps [of acc] Let_def n_def [symmetric] ss2_def skip2_def)
  have "skip + n + (len - n) \<le> chain_size (s # ss')" using n ss assms(3) by simp
  then have "chain_ok ss2" "skip2 + (len - n) \<le> chain_size ss2" "ss2 \<noteq> [] \<longrightarrow> skip2 < bsize (hd ss2)"
    "length ss2 \<le> length ss"
    using adv(2,3) adv(4) [of "len - n"] adv(5) ok(5) ss by auto
  note source = this
  have len: "length (take n (drop skip (chain_bytes ss))) = n" unfolding xs(1) [symmetric] by (rule xs(2))
  have bytes: "buf_bytes (t\<lparr>bdata := d\<rparr>) = splice (buf_bytes t) offset (take n (drop skip (chain_bytes ss)))"
    unfolding xs(1) [symmetric] by (rule d(3))
  have rest: "drop skip2 (chain_bytes ss2) = drop (skip + n) (chain_bytes ss)" unfolding ss by (rule adv(1))
  show thesis by (rule that [OF n(1,2,4) d(2) len bytes source rest step])
qed

lemma copy_between_ok:
  assumes "chain_ok ts" and "chain_ok ss"
    and "skip + len \<le> chain_size ss" and "offset + len \<le> chain_size ts"
    and "ts \<noteq> [] \<longrightarrow> offset < bsize (hd ts)" and "ss \<noteq> [] \<longrightarrow> skip < bsize (hd ss)"
  shows "\<exists>ds. copy_between acc ts offset ss skip len = Inr (acc @ ds) \<and> chain_ok ds \<and>
           chain_bytes ds = splice (chain_bytes ts) offset (take len (drop skip (chain_bytes ss))) \<and>
           map bid ds = map bid ts \<and> map bsize ds = map bsize ts"
  using assms
proof (induction "len + length ts + length ss" arbitrary: acc ts offset ss skip len rule: less_induct)
  case less
  show ?case
  proof (cases "len = 0")
    case True
    with less.prems show ?thesis
      by (intro exI [of _ ts]) (simp add: copy_between.simps [of acc])
  next
    case False
    obtain t ts' where ts: "ts = t # ts'" using less.prems False by (cases ts) auto
    let ?S = "chain_bytes ss"
    have ok: "buf_ok t" "chain_ok ts'" "offset < bsize t" "bid t \<notin> chain_ids ts'" using less.prems ts by auto
    obtain n d ss2 skip2 where n: "0 < n" "n \<le> len" "offset + n \<le> bsize t" and d: "buf_ok (t\<lparr>bdata := d\<rparr>)"
      and xs: "length (take n (drop skip ?S)) = n"
      and bytes: "buf_bytes (t\<lparr>bdata := d\<rparr>) = splice (buf_bytes t) offset (take n (drop skip ?S))"
      and src: "chain_ok ss2" "skip2 + (len - n) \<le> chain_size ss2" "ss2 \<noteq> [] \<longrightarrow> skip2 < bsize (hd ss2)"
        "length ss2 \<le> length ss" "drop skip2 (chain_bytes ss2) = drop (skip + n) ?S"
      and step: "\<And>acc. copy_between acc ts offset ss skip len =
        (if offset + n = bsize t then copy_between (acc @ [t\<lparr>bdata := d\<rparr>]) ts' 0 ss2 skip2 (len - n)
         else copy_between acc (t\<lparr>bdata := d\<rparr> # ts') (offset + n) ss2 skip2 (len - n))"
      using copy_between_step [of t ts' ss skip len offset] less.prems ok False ts by metis
    let ?t = "t\<lparr>bdata := d\<rparr>" and ?xs = "take n (drop skip ?S)"
    have chunk: "take len (drop skip ?S) = ?xs @ take (len - n) (drop (skip + n) ?S)"
      using n by (metis add.commute drop_drop le_add_diff_inverse take_add)
    show ?thesis
    proof (cases "offset + n = bsize t")
      case True
      have "len - n + length ts' + length ss2 < len + length ts + length ss" using n src(4) ts by simp
      moreover have "0 + (len - n) \<le> chain_size ts'" using less.prems(4) True ts by simp
      moreover have "ts' \<noteq> [] \<longrightarrow> 0 < bsize (hd ts')"
        using ok(2) by (cases ts') (auto simp: buf_ok_def)
      ultimately obtain ds where ds: "copy_between (acc @ [?t]) ts' 0 ss2 skip2 (len - n)
            = Inr ((acc @ [?t]) @ ds)" "chain_ok ds"
          "chain_bytes ds = splice (chain_bytes ts') 0 (take (len - n) (drop skip2 (chain_bytes ss2)))"
          "map bid ds = map bid ts'" "map bsize ds = map bsize ts'"
        using less.hyps [of "len - n" ts' ss2 skip2 0 "acc @ [?t]"] ok(2) src by blast
      have "splice (chain_bytes ts) offset (take len (drop skip ?S))
          = splice (buf_bytes t) offset ?xs @
            splice (chain_bytes ts') 0 (take (len - n) (drop (skip + n) ?S))"
        using ts ok xs chunk by (simp add: splice_def flip: True)
      then show ?thesis
        using step True ds d bytes src(5) ts ok same_blocks(2) [OF ds(4,5)]
        by (intro exI [of _ "?t # ds"]) simp
    next
      case False
      have "len - n + length (?t # ts') + length ss2 < len + length ts + length ss" using n src(4) ts by simp
      moreover have "chain_ok (?t # ts')" "offset + n + (len - n) \<le> chain_size (?t # ts')"
        using ok d less.prems(4) n ts by simp_all
      moreover have "?t # ts' \<noteq> [] \<longrightarrow> offset + n < bsize (hd (?t # ts'))" using False n by simp
      ultimately obtain ds where ds: "copy_between acc (?t # ts') (offset + n) ss2 skip2 (len - n)
            = Inr (acc @ ds)" "chain_ok ds"
          "chain_bytes ds = splice (chain_bytes (?t # ts')) (offset + n)
             (take (len - n) (drop skip2 (chain_bytes ss2)))"
          "map bid ds = map bid (?t # ts')" "map bsize ds = map bsize (?t # ts')"
        using less.hyps [of "len - n" "?t # ts'" ss2 skip2 "offset + n" acc] src by blast
      have "chain_bytes (?t # ts') = splice (chain_bytes ts) offset ?xs"
        using bytes ts ok n(3) xs by (simp add: splice_append_left)
      then have "chain_bytes ds = splice (chain_bytes ts) offset (take len (drop skip ?S))"
        using ds(3) src(5) ts ok n xs chunk
          splice_splice [of offset ?xs "chain_bytes ts" "take (len - n) (drop (skip + n) ?S)"]
        by simp
      then show ?thesis using step False ds ts by (intro exI [of _ ds]) simp
    qed
  qed
qed

lemma get_data_into_ok:
  assumes "buffer_ok b" and "buffer_ok target" and "skip < total b" and "skip + len \<le> total b"
    and "offset < total target" and "offset + len \<le> total target"
  obtains t' where "get_data_into b skip len target offset = Inr t'" and "buffer_ok t'"
    and "content t' = splice (content target) offset (take len (drop skip (content b)))"
    and "ids t' = ids target"
proof -
  have ok: "chain_ok (head b)" "total b = chain_size (head b)" "chain_ok (head target)"
    "tail target = chain_tail (head target)" "total target = chain_size (head target)"
    using assms by (auto simp: buffer_ok_def)
  from seek_ge_split [of skip "head b"] assms(3) ok obtain ps c cs k where
    s: "head b = ps @ c # cs" "skip = chain_size ps + k" "k < bsize c"
    "\<forall>pre. seek_ge pre (head b) skip = Inr (pre @ ps, c # cs, k)" by auto
  from seek_ge_split [of offset "head target"] assms(5) ok obtain qs e es j where
    t: "head target = qs @ e # es" "offset = chain_size qs + j" "j < bsize e"
    "\<forall>pre. seek_ge pre (head target) offset = Inr (pre @ qs, e # es, j)" by auto
  have "\<exists>ds. copy_between qs (e # es) j (c # cs) k len = Inr (qs @ ds) \<and> chain_ok ds \<and>
      chain_bytes ds = splice (chain_bytes (e # es)) j (take len (drop k (chain_bytes (c # cs)))) \<and>
      map bid ds = map bid (e # es) \<and> map bsize ds = map bsize (e # es)"
    using assms ok s t by (intro copy_between_ok) auto
  then obtain ds where ds: "copy_between qs (e # es) j (c # cs) k len = Inr (qs @ ds)" "chain_ok ds"
    "chain_bytes ds = splice (chain_bytes (e # es)) j (take len (drop k (chain_bytes (c # cs))))"
    and same: "map bid ds = map bid (e # es)" "map bsize ds = map bsize (e # es)" by blast
  note same = same_blocks [OF same]
  have "chain_ok qs" "chain_ok ps" using ok s t by auto
  have "ds \<noteq> []" using same(2) by (cases ds) auto
  have "get_data_into b skip len target offset = Inr (target\<lparr>head := qs @ ds\<rparr>)"
    using assms s t ds(1) by (simp add: get_data_into_def)
  then show ?thesis
    using ok s t ds same \<open>chain_ok qs\<close> \<open>chain_ok ps\<close> \<open>ds \<noteq> []\<close>
    by (intro that [of "target\<lparr>head := qs @ ds\<rparr>"])
       (auto simp: buffer_ok_def content_def ids_def splice_append1 chain_tail_append)
qed

section \<open>Splitting\<close>

lemma break_buffer_ok:
  assumes b: "buffer_ok b" and skip: "0 < skip" "skip < total b" and a: "a \<notin> ids b"
  obtains b' r where "break_buffer a b skip = Inr (b', r)" and "buffer_ok b'" and "buffer_ok r"
    and "content b' = take skip (content b)" and "content r = drop skip (content b)"
    and "ids b' \<inter> ids r = {}" and "ids b' \<subseteq> ids b" and "ids r \<subseteq> insert a (ids b)"
proof -
  have ok: "chain_ok (head b)" "tail b = chain_tail (head b)" "total b = chain_size (head b)"
    using b by (auto simp: buffer_ok_def)
  from seek_gt_split [of skip "head b"] skip ok obtain ps c cs k where
    s: "head b = ps @ c # cs" "skip = chain_size ps + k" "0 < k" "k \<le> bsize c"
    "\<forall>pre. seek_gt pre (head b) skip = Inr (pre @ ps, c # cs, k)" by auto
  have cok: "chain_ok ps" "buf_ok c" "chain_ok cs" using ok s by auto
  have ac: "a \<noteq> bid c" "a \<notin> chain_ids cs" using a s by (auto simp: ids_def)
  obtain c' r where br: "buf_break a k c cs = Inr (c', r)" "buf_ok c'" "bid c' = bid c"
    "buf_bytes c' = take k (buf_bytes c)" "bsize c' = k" "chain_ok r"
    "chain_bytes r = drop k (buf_bytes c) @ chain_bytes cs" "chain_ids cs \<subseteq> chain_ids r"
    "chain_ids r \<subseteq> insert a (chain_ids cs)"
    using buf_break_ok [OF cok(2) s(3,4) cok(3) ac] .
  have size_r: "chain_size r = total b - skip"
    using br(6,7) cok s ok length_chain_bytes [OF br(6)] by simp
  then have rne: "r \<noteq> []" using skip by auto
  have split: "(if k = bsize c then Inr (c, cs) else buf_break a k c cs) = Inr (c', r)"
    using br(1) s(3) by (auto simp: buf_break_def)
  let ?b = "b\<lparr>head := ps @ [c'], tail := Some (bid c'), total := skip\<rparr>"
  let ?r = "buffer_empty\<lparr>head := r, tail := chain_tail r, total := total b - skip\<rparr>"
  have res: "break_buffer a b skip = Inr (?b, ?r)"
    using s split rne skip
    by (cases "k = bsize c") (auto simp: break_buffer_def reset_tail_def chain_tail_def)
  have "buffer_ok ?b" using cok br ok s by (auto simp: buffer_ok_def)
  moreover have "buffer_ok ?r" using br(6) size_r by (simp add: buffer_ok_def)
  moreover have "content ?b = take skip (content b)" using br s cok by (simp add: content_def)
  moreover have "content ?r = drop skip (content b)" using br s cok by (simp add: content_def)
  moreover have "ids ?b \<inter> ids ?r = {}" "ids ?b \<subseteq> ids b" "ids ?r \<subseteq> insert a (ids b)"
    using br(3,9) s a ok by (auto simp: ids_def)
  ultimately show ?thesis using res that by blast
qed

text \<open>
  \<open>Break\<close> at the very end of the buffer, or of an empty buffer, follows a null pointer, and
  at the very beginning it fails the assertion of \<open>Buf::Break\<close>.
\<close>

lemma break_buffer_end:
  assumes "buffer_ok b"
  shows "break_buffer a b (total b) = Inl Null_Deref"
proof (cases "head b = []")
  case True
  then show ?thesis by (simp add: break_buffer_def)
next
  case False
  have ok: "chain_ok (head b)" "total b = chain_size (head b)"
    using assms by (auto simp: buffer_ok_def)
  have pos: "0 < total b" using ok False chain_size_0 by fastforce
  from seek_gt_split [of "total b" "head b"] ok pos obtain ps c cs k where
    s: "head b = ps @ c # cs" "total b = chain_size ps + k" "0 < k" "k \<le> bsize c"
    "\<forall>pre. seek_gt pre (head b) (total b) = Inr (pre @ ps, c # cs, k)" by auto
  have "chain_ok cs" "chain_size cs = 0" "k = bsize c" using ok s by auto
  then have "cs = []" using chain_size_0 by blast
  with s \<open>k = bsize c\<close> show ?thesis
    by (simp add: break_buffer_def reset_tail_def buffer_empty_def)
qed

lemma break_buffer_begin:
  "buffer_ok b \<Longrightarrow> 0 < total b \<Longrightarrow> break_buffer a b 0 = Inl Assert_Failed"
  by (cases "head b") (auto simp: break_buffer_def buffer_ok_def buf_ok_def buf_break_def)

section \<open>Walking the chunks\<close>

lemma chunk_bytes_window: "buf_ok b \<Longrightarrow> k \<le> bsize b \<Longrightarrow> chunk_bytes b k = drop k (buf_bytes b)"
  by (auto simp: chunk_bytes_def buf_bytes_def buf_ok_def drop_take add.commute)

text \<open>A walker that takes every chunk sees the bytes from \<open>from\<close> on, in order.\<close>

definition collect_walker :: "bytes walker" where
  "collect_walker s p xs = (True, s @ xs)"

lemma walk_loop_collect:
  "chain_ok bs \<Longrightarrow> bs \<noteq> [] \<Longrightarrow> k \<le> bsize (hd bs) \<Longrightarrow>
   walk_loop collect_walker bs k s = s @ drop k (chain_bytes bs)"
proof (induction bs arbitrary: k s)
  case (Cons b bs)
  then show ?case
    by (cases "bs = []") (auto simp: collect_walker_def chunk_bytes_window)
qed simp

lemma walk_collect:
  assumes "buffer_ok b" and "from \<le> total b"
  shows "walk_internal_chunk collect_walker b from s = Inr (s @ drop from (content b))"
proof (cases "from = total b")
  case True
  then show ?thesis using assms
    by (simp add: walk_internal_chunk_def length_content [symmetric])
next
  case False
  have ok: "chain_ok (head b)" "total b = chain_size (head b)"
    using assms by (auto simp: buffer_ok_def)
  from seek_ge_split [of "from" "head b"] assms(2) False ok obtain ps c cs k where
    s: "head b = ps @ c # cs" "from = chain_size ps + k" "k < bsize c"
    "\<forall>pre. seek_ge pre (head b) from = Inr (pre @ ps, c # cs, k)" by auto
  have "walk_loop collect_walker (c # cs) k s = s @ drop k (chain_bytes (c # cs))"
    using ok s by (intro walk_loop_collect) auto
  then show ?thesis using s ok assms False by (simp add: walk_internal_chunk_def content_def)
qed

text \<open>
  \<open>FindLocation\<close> inverts addressing: the pointer to byte \<open>i\<close> of the buffer is found at \<open>i\<close>.
\<close>

fun pointer_at :: "buf list \<Rightarrow> nat \<Rightarrow> pointer option" where
  "pointer_at [] i = None"
| "pointer_at (b # bs) i =
     (if i < bsize b then Some (bid b, boffset b + i) else pointer_at bs (i - bsize b))"

lemma find_loop:
  assumes "chain_ok bs" and "pointer_at bs i = Some p"
  shows "walk_loop (find_location_walker p) bs 0 n = n + i"
  using assms
proof (induction bs arbitrary: i n)
  case (Cons b bs)
  obtain t q where p: "p = (t, q)" by (cases p)
  show ?case
  proof (cases "i < bsize b")
    case True
    with Cons.prems p show ?thesis by (auto simp: chunk_bytes_window)
  next
    case False
    then have pt: "pointer_at bs (i - bsize b) = Some p" using Cons.prems by simp
    have "pointer_at cs j = Some (t, q) \<Longrightarrow> t \<in> chain_ids cs" for cs j
      by (induction cs arbitrary: j) (auto split: if_splits)
    then have "t \<noteq> bid b" using pt p Cons.prems(1) by auto
    with Cons.IH [OF _ pt, of "n + bsize b"] Cons.prems False p show ?thesis
      by (simp add: chunk_bytes_window)
  qed
qed simp

text \<open>
  \<open>FindLocation\<close> inverts addressing: given the address of the byte at position \<open>i\<close> of a
  well-formed buffer, whichever block of the chain holds it and wherever that block's window
  starts, it returns \<open>i\<close>.
\<close>

theorem find_location_exact:
  assumes "buffer_ok b" and "pointer_at (head b) i = Some p"
  shows "find_location b p = Inr i"
proof -
  have ok: "chain_ok (head b)" "total b = chain_size (head b)"
    using assms by (auto simp: buffer_ok_def)
  obtain c cs where h: "head b = c # cs" using assms(2) by (cases "head b") auto
  have "0 < bsize c" using ok h by (simp add: buf_ok_def)
  then show ?thesis
    using find_loop [OF ok(1) assms(2), of 0] ok h
    by (simp add: find_location_def walk_internal_chunk_def del: walk_loop.simps)
qed

theorem find_location_exact_witness:
  "find_location
     \<lparr>head = [\<lparr>bid = 1, bdata = [9, 8, 7], bcapacity = 3, boffset = 1, bsize = 2\<rparr>,
              \<lparr>bid = 2, bdata = [6], bcapacity = 1, boffset = 0, bsize = 1\<rparr>],
      tail = Some 2, total = 3\<rparr> (2, 0) = Inr 2"
  by (rule find_location_exact)
    (simp_all add: buffer_ok_def buf_ok_def chain_tail_def)

section \<open>Element access\<close>

text \<open>\<open>operator[]\<close> is right exactly as long as the blocks it reaches start at offset 0.\<close>

definition unshifted :: "buffer \<Rightarrow> bool" where
  "unshifted b \<longleftrightarrow> (\<forall>c \<in> set (head b). boffset c = 0)"

lemma buffer_get_ok:
  assumes "buffer_ok b" and "unshifted b" and "i < total b"
  shows "buffer_get b i = Inr (content b ! i)"
proof -
  have ok: "chain_ok (head b)" "total b = chain_size (head b)"
    using assms by (auto simp: buffer_ok_def)
  from seek_ge_split [of i "head b"] assms(3) ok obtain ps c cs k where
    s: "head b = ps @ c # cs" "i = chain_size ps + k" "k < bsize c"
    "\<forall>pre. seek_ge pre (head b) i = Inr (pre @ ps, c # cs, k)" by auto
  have c: "buf_ok c" "boffset c = 0" "chain_ok ps" using ok s assms(2) by (auto simp: unshifted_def)
  have "mem_read (bdata c) k 1 = Inr (take 1 (drop k (buf_bytes c)))"
    using window_read [OF c(1), of k 1] c s by simp
  moreover have "hd (take 1 (drop k (buf_bytes c))) = buf_bytes c ! k"
    using c s by (simp add: hd_drop_conv_nth take_Suc)
  ultimately show ?thesis using assms s c by (simp add: buffer_get_def content_def nth_append)
qed

lemma buffer_put_ok:
  assumes "buffer_ok b" and "unshifted b" and "i < total b"
  obtains b' where "buffer_put b i v = Inr b'" and "buffer_ok b'" and "unshifted b'"
    and "content b' = (content b)[i := v]" and "ids b' = ids b"
proof -
  have ok: "chain_ok (head b)" "total b = chain_size (head b)"
    using assms by (auto simp: buffer_ok_def)
  from seek_ge_split [of i "head b"] assms(3) ok obtain ps c cs k where
    s: "head b = ps @ c # cs" "i = chain_size ps + k" "k < bsize c"
    "\<forall>pre. seek_ge pre (head b) i = Inr (pre @ ps, c # cs, k)" by auto
  have c: "buf_ok c" "boffset c = 0" "chain_ok ps" using ok s assms(2) by (auto simp: unshifted_def)
  obtain d where d: "mem_write (bdata c) (boffset c + k) [v] = Inr d" "buf_ok (c\<lparr>bdata := d\<rparr>)"
    "buf_bytes (c\<lparr>bdata := d\<rparr>) = splice (buf_bytes c) k [v]"
    by (rule window_write [OF c(1), of k "[v]"]) (use s in auto)
  have upd: "splice (buf_bytes c) k [v] = (buf_bytes c)[k := v]"
    using c s by (simp add: splice_def upd_conv_take_nth_drop)
  let ?b = "b\<lparr>head := ps @ c\<lparr>bdata := d\<rparr> # cs\<rparr>"
  have "buffer_put b i v = Inr ?b" using assms s c d(1) by (simp add: buffer_put_def)
  then show ?thesis using assms ok s c d upd
    by (intro that [of ?b])
       (auto simp: buffer_ok_def content_def ids_def unshifted_def list_update_append)
qed

end
