(* ===== verification/Machine.thy ===== *)
theory Machine
  imports Nekit_Prelude
begin

text \<open>
  Components driven by events: a step function that may fault, run over a list of events.
  The locales state what an invariant and a rank need from one step; their lemmas lift it to
  whole runs.
\<close>

section \<open>Runs\<close>

fun run :: "('s \<Rightarrow> 'e \<Rightarrow> 's exec) \<Rightarrow> 's \<Rightarrow> 'e list \<Rightarrow> 's exec" where
  "run step s [] = Inr s"
| "run step s (e # es) = exec_bind (step s e) (\<lambda>s'. run step s' es)"

lemma run_append: "run step s (xs @ ys) = exec_bind (run step s xs) (\<lambda>s'. run step s' ys)"
  by (induction xs arbitrary: s) (simp_all add: exec_bind_assoc)

inductive reachable :: "('s \<Rightarrow> 'e \<Rightarrow> 's exec) \<Rightarrow> 's \<Rightarrow> 's \<Rightarrow> bool" for step s where
  start: "reachable step s s"
| step: "reachable step s t \<Longrightarrow> step t e = Inr u \<Longrightarrow> reachable step s u"

lemma run_reachable: "run step s es = Inr t \<Longrightarrow> reachable step s t"
proof (induction es arbitrary: t rule: rev_induct)
  case Nil
  then show ?case by (auto intro: reachable.start)
next
  case (snoc e es)
  then show ?case by (auto simp: run_append exec_simps intro: reachable.step)
qed

section \<open>Invariants of runs\<close>

locale invariant_machine =
  fixes step :: "'s \<Rightarrow> 'e \<Rightarrow> 's exec"
    and inv :: "'s \<Rightarrow> bool"
  assumes inv_step: "inv s \<Longrightarrow> step s e = Inr t \<Longrightarrow> inv t"
begin

lemma inv_reachable: "reachable step s t \<Longrightarrow> inv s \<Longrightarrow> inv t"
  by (induction rule: reachable.induct) (auto intro: inv_step)

lemma inv_run: "inv s \<Longrightarrow> run step s es = Inr t \<Longrightarrow> inv t"
  by (rule inv_reachable [OF run_reachable])

end

text \<open>A rank, in any order, that no step lowers under the invariant.\<close>

locale ranked_machine = invariant_machine step inv
  for step :: "'s \<Rightarrow> 'e \<Rightarrow> 's exec" and inv :: "'s \<Rightarrow> bool" +
  fixes rank :: "'s \<Rightarrow> 'r::preorder"
  assumes rank_step: "step s e = Inr t \<Longrightarrow> inv s \<Longrightarrow> rank s \<le> rank t"
begin

lemma rank_reachable: "reachable step s t \<Longrightarrow> inv s \<Longrightarrow> rank s \<le> rank t"
proof (induction rule: reachable.induct)
  case (step t e u)
  from step.hyps(1) step.prems have "inv t" by (rule inv_reachable)
  with step.hyps(2) have "rank t \<le> rank u" by (rule rank_step)
  with step.IH [OF step.prems] show ?case by (rule order_trans)
qed simp

lemma rank_run: "inv s \<Longrightarrow> run step s es = Inr t \<Longrightarrow> rank s \<le> rank t"
  by (rule rank_reachable [OF run_reachable])

end

section \<open>Contracts\<close>

text \<open>
  A machine whose events have preconditions: a run keeps the contract when each event is
  admissible in the state it meets.
\<close>

fun admissible_run ::
  "('s \<Rightarrow> 'e \<Rightarrow> 's exec) \<Rightarrow> ('s \<Rightarrow> 'e \<Rightarrow> bool) \<Rightarrow> 's \<Rightarrow> 'e list \<Rightarrow> bool" where
  "admissible_run step adm s [] = True"
| "admissible_run step adm s (e # es) =
     (adm s e \<and> (case step s e of Inl f \<Rightarrow> True | Inr t \<Rightarrow> admissible_run step adm t es))"

lemma admissible_split:
  "admissible_run step adm s (xs @ ys) \<Longrightarrow> run step s xs = Inr t \<Longrightarrow>
   admissible_run step adm s xs \<and> admissible_run step adm t ys"
  by (induction xs arbitrary: s) (auto simp: exec_bind_Inr)

locale contract_machine =
  fixes step :: "'s \<Rightarrow> 'e \<Rightarrow> 's exec" and inv :: "'s \<Rightarrow> bool"
    and admissible :: "'s \<Rightarrow> 'e \<Rightarrow> bool"
  assumes contract_step: "inv s \<Longrightarrow> admissible s e \<Longrightarrow> \<exists>t. step s e = Inr t \<and> inv t"
begin

lemma contract_run:
  "inv s \<Longrightarrow> admissible_run step admissible s es \<Longrightarrow> \<exists>t. run step s es = Inr t \<and> inv t"
proof (induction es arbitrary: s)
  case (Cons e es)
  then obtain t where "step s e = Inr t" "inv t" using contract_step by fastforce
  then show ?case using Cons by simp
qed simp

end

section \<open>Simulation\<close>

text \<open>A detailed machine that follows an abstract one step by step, faults included.\<close>

locale simulation =
  fixes cstep :: "'c \<Rightarrow> 'e \<Rightarrow> 'c exec"
    and astep :: "'a \<Rightarrow> 'e \<Rightarrow> 'a exec"
    and sim :: "'c \<Rightarrow> 'a \<Rightarrow> bool"
  assumes sim_step: "sim c a \<Longrightarrow> exec_rel sim (cstep c e) (astep a e)"
begin

lemma sim_run: "sim c a \<Longrightarrow> exec_rel sim (run cstep c es) (run astep a es)"
proof (induction es arbitrary: c a)
  case (Cons e es)
  show ?case
    unfolding run.simps
    by (rule exec_rel_bind [OF sim_step [OF Cons.prems]]) (rule Cons.IH)
qed simp

end

end
