(* ===== verification/Byte_Buffer.thy ===== *)
theory Byte_Buffer
  imports Buffer_Laws Machine
begin

text \<open>
  The list of bytes a \<open>Buffer\<close> stands for, and the proof that the operations on chains of
  blocks do to it what they promise.  The components that only pass buffers on and edit them
  are modelled over these lists; \<open>byte_store\<close> states what they rely on.
\<close>

section \<open>The operations on lists of bytes\<close>

text \<open>Each with the assertions and the null pointers of the code.\<close>

definition bb_get :: "bytes \<Rightarrow> nat \<Rightarrow> u8 exec" where
  "bb_get xs i = boost_assert (i < length xs) (Inr (xs ! i))"

definition bb_put :: "bytes \<Rightarrow> nat \<Rightarrow> u8 \<Rightarrow> bytes exec" where
  "bb_put xs i v = boost_assert (i < length xs) (Inr (xs[i := v]))"

definition bb_set_data :: "bytes \<Rightarrow> nat \<Rightarrow> bytes \<Rightarrow> bytes exec" where
  "bb_set_data xs i ys =
     boost_assert (i < length xs \<and> i + length ys \<le> length xs) (Inr (splice xs i ys))"

definition bb_get_data :: "bytes \<Rightarrow> nat \<Rightarrow> nat \<Rightarrow> bytes exec" where
  "bb_get_data xs i n =
     boost_assert (i + n \<le> length xs)
       (if i = length xs then Inl Null_Deref else Inr (take n (drop i xs)))"

definition bb_shrink :: "bytes \<Rightarrow> nat \<Rightarrow> nat \<Rightarrow> bytes exec" where
  "bb_shrink xs i n =
     boost_assert (i < length xs \<and> i + n \<le> length xs) (Inr (delete_at xs i n))"

definition bb_shrink_front :: "bytes \<Rightarrow> nat \<Rightarrow> bytes exec" where
  "bb_shrink_front xs n = bb_shrink xs 0 n"

definition bb_shrink_back :: "bytes \<Rightarrow> nat \<Rightarrow> bytes exec" where
  "bb_shrink_back xs n = bb_shrink xs (sz_sub (length xs) n) n"

definition bb_break :: "bytes \<Rightarrow> nat \<Rightarrow> (bytes \<times> bytes) exec" where
  "bb_break xs n =
     (if n \<ge> length xs then Inl Null_Deref
      else boost_assert (n \<noteq> 0) (Inr (take n xs, drop n xs)))"

definition bb_insert :: "bytes \<Rightarrow> nat \<Rightarrow> bytes \<Rightarrow> bytes exec" where
  "bb_insert xs i ys = boost_assert (i \<le> length xs) (Inr (insert_at xs i ys))"

lemmas bb_defs = bb_get_def bb_put_def bb_set_data_def bb_get_data_def bb_shrink_def
  bb_shrink_front_def bb_shrink_back_def bb_break_def bb_insert_def

text \<open>
  The blocks of a buffer, for the code that walks over them: \<open>blk b k\<close> is the number of bytes
  from position \<open>k\<close> of \<open>b\<close> to the end of its block, and a walk from \<open>k\<close> meets the chunks
  \<open>chunks_from blk b k\<close>, of which none is empty.
\<close>

type_synonym cutter = "bytes \<Rightarrow> nat \<Rightarrow> nat"

definition chunk_at :: "cutter \<Rightarrow> bytes \<Rightarrow> nat \<Rightarrow> bytes" where
  "chunk_at blk b k = take (max 1 (blk b k)) (drop k b)"

lemma length_chunk_at: "k < length b \<Longrightarrow> 0 < length (chunk_at blk b k)"
  by (simp add: chunk_at_def)

function chunks_from :: "cutter \<Rightarrow> bytes \<Rightarrow> nat \<Rightarrow> bytes list" where
  "chunks_from blk b k =
     (if k < length b then chunk_at blk b k # chunks_from blk b (k + length (chunk_at blk b k)) else [])"
  by pat_completeness auto
termination
  by (relation "measure (\<lambda>(blk, b, k). length b - k)") 
    (simp_all add: length_chunk_at diff_less_mono2 del: diff_diff_left length_greater_0_conv)

declare chunks_from.simps [simp del]

lemma concat_chunks_from: "k \<le> length b \<Longrightarrow> concat (chunks_from blk b k) = drop k b"
proof (induction blk b k rule: chunks_from.induct)
  case (1 blk b k)
  show ?case
  proof (cases "k < length b")
    case True
    let ?n = "max 1 (blk b k)"
    have "chunk_at blk b k @ drop (k + length (chunk_at blk b k)) b = drop k b"
    proof (cases "k + ?n \<le> length b")
      case True
      then have "length (chunk_at blk b k) = ?n" by (simp add: chunk_at_def)
      then show ?thesis
        by (simp only: chunk_at_def) (metis add.commute append_take_drop_id drop_drop)
    next
      case False
      then show ?thesis using True by (simp add: chunk_at_def)
    qed
    moreover have "k + length (chunk_at blk b k) \<le> length b" using True by (simp add: chunk_at_def)
    ultimately show ?thesis using 1 True by (simp add: chunks_from.simps [of blk b k])
  next
    case False
    then show ?thesis using 1(2) by (simp add: chunks_from.simps)
  qed
qed

lemma chunks_from_nonempty: "c \<in> set (chunks_from blk b k) \<Longrightarrow> c \<noteq> []"
proof (induction blk b k rule: chunks_from.induct)
  case (1 blk b k)
  show ?case
  proof (cases "k < length b")
    case True
    then have "c = chunk_at blk b k \<or> c \<in> set (chunks_from blk b (k + length (chunk_at blk b k)))"
      using 1(2) by (simp add: chunks_from.simps [of blk b k])
    then show ?thesis using 1(1) True length_chunk_at [OF True, of blk] by fastforce
  next
    case False
    then show ?thesis using 1(2) by (simp add: chunks_from.simps)
  qed
qed

section \<open>What the clients of a buffer rely on\<close>

text \<open>
  A store of bytes: some representation, the bytes it stands for, and operations that act on
  them.  \<open>fresh\<close> says that a supply of addresses is not in use in a store.
\<close>

locale byte_store =
  fixes ok :: "'b \<Rightarrow> bool" and bytes_of :: "'b \<Rightarrow> bytes" and fresh :: "nat \<Rightarrow> 'b \<Rightarrow> bool"
    and cut :: "nat \<Rightarrow> 'b \<Rightarrow> nat \<Rightarrow> ('b \<times> 'b) exec" and append :: "'b \<Rightarrow> 'b \<Rightarrow> 'b exec"
    and store :: "'b \<Rightarrow> nat \<Rightarrow> bytes \<Rightarrow> 'b exec" and remove :: "'b \<Rightarrow> nat \<Rightarrow> nat \<Rightarrow> 'b exec"
    and room :: "nat \<Rightarrow> nat \<Rightarrow> 'b \<Rightarrow> nat \<Rightarrow> nat \<Rightarrow> 'b exec"
    and disjoint :: "'b \<Rightarrow> 'b \<Rightarrow> bool"
  assumes cut_law: "ok b \<Longrightarrow> fresh a b \<Longrightarrow> 0 < n \<Longrightarrow> n < length (bytes_of b) \<Longrightarrow>
      \<exists>b' r. cut a b n = Inr (b', r) \<and> ok b' \<and> ok r \<and> disjoint b' r \<and>
             bytes_of b' = take n (bytes_of b) \<and> bytes_of r = drop n (bytes_of b)"
    and append_law: "ok b \<Longrightarrow> ok x \<Longrightarrow> disjoint b x \<Longrightarrow>
      \<exists>b'. append b x = Inr b' \<and> ok b' \<and> bytes_of b' = bytes_of b @ bytes_of x"
    and store_law: "ok b \<Longrightarrow> i < length (bytes_of b) \<Longrightarrow> i + length xs \<le> length (bytes_of b) \<Longrightarrow>
      \<exists>b'. store b i xs = Inr b' \<and> ok b' \<and> bytes_of b' = splice (bytes_of b) i xs"
    and remove_law: "ok b \<Longrightarrow> i < length (bytes_of b) \<Longrightarrow> i + n \<le> length (bytes_of b) \<Longrightarrow>
      \<exists>b'. remove b i n = Inr b' \<and> ok b' \<and> bytes_of b' = delete_at (bytes_of b) i n"
    and room_law: "ok b \<Longrightarrow> fresh a b \<Longrightarrow> fresh a' b \<Longrightarrow> a \<noteq> a' \<Longrightarrow> i \<le> length (bytes_of b) \<Longrightarrow>
      \<exists>b' pad. room a a' b i n = Inr b' \<and> ok b' \<and> length pad = n \<and>
             bytes_of b' = insert_at (bytes_of b) i pad"
begin

text \<open>Cutting a store in two and joining the parts gives its bytes back.\<close>

lemma cut_append:
  assumes "ok b" "fresh a b" "0 < n" "n < length (bytes_of b)"
  shows "\<exists>b'. exec_bind (cut a b n) (\<lambda>(x, y). append x y) = Inr b' \<and> bytes_of b' = bytes_of b"
proof -
  obtain x y where c: "cut a b n = Inr (x, y)" "ok x" "ok y" "disjoint x y"
    "bytes_of x = take n (bytes_of b)" "bytes_of y = drop n (bytes_of b)"
    using cut_law [OF assms] by blast
  obtain b' where "append x y = Inr b'" "bytes_of b' = bytes_of x @ bytes_of y"
    using append_law [OF c(2-4)] by blast
  then show ?thesis using c by simp
qed

text \<open>Making room and filling it inserts bytes; taking the room away again undoes it.\<close>

lemma room_store:
  assumes "ok b" "fresh a b" "fresh a' b" "a \<noteq> a'" "i \<le> length (bytes_of b)" "xs \<noteq> []"
  shows "\<exists>b'. exec_bind (room a a' b i (length xs)) (\<lambda>c. store c i xs) = Inr b' \<and> ok b' \<and>
           bytes_of b' = insert_at (bytes_of b) i xs"
proof -
  obtain c pad where c: "room a a' b i (length xs) = Inr c" "ok c" "length pad = length xs"
    "bytes_of c = insert_at (bytes_of b) i pad"
    using room_law [OF assms(1-5)] by blast
  have len: "i < length (bytes_of c)" "i + length xs \<le> length (bytes_of c)"
    using c(3,4) assms(5,6) by (cases xs; simp)+
  obtain b' where "store c i xs = Inr b'" "ok b'" "bytes_of b' = splice (bytes_of c) i xs"
    using store_law [OF c(2) len] by blast
  then show ?thesis using c assms(5) by (simp add: splice_insert_at)
qed

lemma room_remove:
  assumes "ok b" "fresh a b" "fresh a' b" "a \<noteq> a'" "i \<le> length (bytes_of b)" "0 < n"
  shows "\<exists>b'. exec_bind (room a a' b i n) (\<lambda>c. remove c i n) = Inr b' \<and> ok b' \<and>
           bytes_of b' = bytes_of b"
proof -
  obtain c pad where c: "room a a' b i n = Inr c" "ok c" "length pad = n"
    "bytes_of c = insert_at (bytes_of b) i pad"
    using room_law [OF assms(1-5)] by blast
  have "i < length (bytes_of c)" "i + n \<le> length (bytes_of c)"
    using c(3,4) assms(5,6) by auto
  from remove_law [OF c(2) this] obtain b' where
    "remove c i n = Inr b'" "ok b'" "bytes_of b' = delete_at (bytes_of c) i n" by blast
  moreover have "delete_at (bytes_of c) i n = bytes_of b"
    unfolding c(4) using c(3) assms(5) delete_insert_at [of i "bytes_of b" pad] by simp
  ultimately show ?thesis using c by simp
qed

end

definition buffer_fresh :: "nat \<Rightarrow> buffer \<Rightarrow> bool" where
  "buffer_fresh a b \<longleftrightarrow> a \<notin> ids b"

definition buffers_disjoint :: "buffer \<Rightarrow> buffer \<Rightarrow> bool" where
  "buffers_disjoint b c \<longleftrightarrow> ids b \<inter> ids c = {}"

interpretation chain_store: byte_store buffer_ok content buffer_fresh break_buffer
  insert_back_buffer set_data shrink insert_size buffers_disjoint
proof
  fix b :: buffer and a n
  assume "buffer_ok b" "buffer_fresh a b" "0 < n" "n < length (content b)"
  then show "\<exists>b' r. break_buffer a b n = Inr (b', r) \<and> buffer_ok b' \<and> buffer_ok r \<and>
      buffers_disjoint b' r \<and> content b' = take n (content b) \<and> content r = drop n (content b)"
    by (auto simp: buffer_fresh_def buffers_disjoint_def length_content elim: break_buffer_ok)
next
  fix b x :: buffer
  assume "buffer_ok b" "buffer_ok x" "buffers_disjoint b x"
  then show "\<exists>b'. insert_back_buffer b x = Inr b' \<and> buffer_ok b' \<and> content b' = content b @ content x"
    unfolding buffers_disjoint_def by (metis insert_back_buffer_ok)
next
  fix b :: buffer and i and xs :: bytes
  assume "buffer_ok b" "i < length (content b)" "i + length xs \<le> length (content b)"
  then show "\<exists>b'. set_data b i xs = Inr b' \<and> buffer_ok b' \<and> content b' = splice (content b) i xs"
    by (metis length_content set_data_ok)
next
  fix b :: buffer and i n
  assume "buffer_ok b" "i < length (content b)" "i + n \<le> length (content b)"
  then show "\<exists>b'. shrink b i n = Inr b' \<and> buffer_ok b' \<and> content b' = delete_at (content b) i n"
    by (metis length_content shrink_ok)
next
  fix b :: buffer and a a' i n
  assume "buffer_ok b" "buffer_fresh a b" "buffer_fresh a' b" "a \<noteq> a'" "i \<le> length (content b)"
  then show "\<exists>b' pad. insert_size a a' b i n = Inr b' \<and> buffer_ok b' \<and> length pad = n \<and>
      content b' = insert_at (content b) i pad"
    unfolding buffer_fresh_def by (metis length_content insert_size_ok)
qed

section \<open>Programs of buffer operations\<close>

text \<open>
  A program appends, prepends and inserts whole buffers, makes room and fills it, removes,
  overwrites and cuts.  On chains it runs with a counter that supplies addresses.
\<close>

datatype buf_op =
    Op_Append bytes | Op_Prepend bytes | Op_Insert nat bytes | Op_Room nat bytes
  | Op_Shrink nat nat | Op_Shrink_Back nat | Op_Set_Data nat bytes | Op_Keep nat

definition buffer_of :: "nat \<Rightarrow> bytes \<Rightarrow> buffer exec" where
  "buffer_of a xs =
     exec_bind (buffer_new a (length xs)) (\<lambda>b. if xs = [] then Inr b else set_data b 0 xs)"

fun chain_step :: "buffer \<times> nat \<Rightarrow> buf_op \<Rightarrow> (buffer \<times> nat) exec" where
  "chain_step (b, a) (Op_Append xs) =
     exec_bind (buffer_of a xs) (\<lambda>x. exec_bind (insert_back_buffer b x) (\<lambda>b'. Inr (b', a + 1)))"
| "chain_step (b, a) (Op_Prepend xs) =
     exec_bind (buffer_of a xs) (\<lambda>x. exec_bind (insert_front_buffer b x) (\<lambda>b'. Inr (b', a + 1)))"
| "chain_step (b, a) (Op_Insert i xs) =
     exec_bind (buffer_of a xs) (\<lambda>x.
     exec_bind (insert_buffer (a + 1) b x i) (\<lambda>b'. Inr (b', a + 2)))"
| "chain_step (b, a) (Op_Room i xs) =
     exec_bind (insert_size a (a + 1) b i (length xs)) (\<lambda>c.
     exec_bind (if xs = [] then Inr c else set_data c i xs) (\<lambda>b'. Inr (b', a + 2)))"
| "chain_step (b, a) (Op_Shrink i n) = exec_bind (shrink b i n) (\<lambda>b'. Inr (b', a))"
| "chain_step (b, a) (Op_Shrink_Back n) = exec_bind (shrink_back b n) (\<lambda>b'. Inr (b', a))"
| "chain_step (b, a) (Op_Set_Data i xs) = exec_bind (set_data b i xs) (\<lambda>b'. Inr (b', a))"
| "chain_step (b, a) (Op_Keep n) = exec_bind (break_buffer a b n) (\<lambda>(b', r). Inr (b', a + 1))"

fun list_step :: "bytes \<Rightarrow> buf_op \<Rightarrow> bytes exec" where
  "list_step xs (Op_Append ys) = Inr (xs @ ys)"
| "list_step xs (Op_Prepend ys) = Inr (ys @ xs)"
| "list_step xs (Op_Insert i ys) = bb_insert xs i ys"
| "list_step xs (Op_Room i ys) = bb_insert xs i ys"
| "list_step xs (Op_Shrink i n) = bb_shrink xs i n"
| "list_step xs (Op_Shrink_Back n) = bb_shrink_back xs n"
| "list_step xs (Op_Set_Data i ys) = bb_set_data xs i ys"
| "list_step xs (Op_Keep n) = exec_bind (bb_break xs n) (\<lambda>(x, y). Inr x)"

definition represents :: "buffer \<times> nat \<Rightarrow> bytes \<Rightarrow> bool" where
  "represents ba xs \<longleftrightarrow>
     buffer_ok (fst ba) \<and> content (fst ba) = xs \<and> (\<forall>i \<in> ids (fst ba). i < snd ba)"

lemma buffer_of_ok:
  obtains b where "buffer_of a xs = Inr b" "buffer_ok b" "content b = xs" "ids b \<subseteq> {a}"
proof -
  obtain c where c: "buffer_new a (length xs) = Inr c" "buffer_ok c"
    "content c = replicate (length xs) 0" "total c = length xs"
    "ids c = (if length xs = 0 then {} else {a})"
    by (rule buffer_new_ok)
  show ?thesis
  proof (cases "xs = []")
    case True
    then show ?thesis using c that by (simp add: buffer_of_def)
  next
    case False
    then obtain b where "set_data c 0 xs = Inr b" "buffer_ok b" "content b = splice (content c) 0 xs"
      "ids b = ids c"
      using set_data_ok [OF c(2), of 0 xs] c(4) by auto
    then show ?thesis using c False that by (simp add: buffer_of_def splice_def split: if_splits)
  qed
qed

lemma break_out_of_range:
  assumes "buffer_ok b" "n \<ge> total b"
  shows "break_buffer a b n = Inl Null_Deref"
proof (cases "n = total b")
  case False
  have "chain_ok bs \<Longrightarrow> skip > chain_size bs \<Longrightarrow> seek_gt pre bs skip = Inl Null_Deref" for pre bs skip
    by (induction bs arbitrary: pre skip) auto
  then show ?thesis using assms False by (simp add: break_buffer_def buffer_ok_def)
qed (simp add: break_buffer_end assms)

lemma represents_facts:
  assumes "represents (b, a) xs"
  shows "buffer_ok b" "content b = xs" "\<forall>i \<in> ids b. i < a" "total b = length xs" "a \<notin> ids b" "Suc a \<notin> ids b"
  using assms by (auto simp: represents_def length_content)

text \<open>Each operation, on the chain and on the list.\<close>

lemma chain_append_step:
  assumes "represents (b, a) xs"
  shows "exec_rel represents (chain_step (b, a) (Op_Append ys)) (list_step xs (Op_Append ys))"
proof -
  note ok = represents_facts(1) [OF assms] and c = represents_facts(2) [OF assms]
    and ids = represents_facts(3) [OF assms] and tot = represents_facts(4) [OF assms]
    and fresh = represents_facts(5,6) [OF assms]
  obtain x where x: "buffer_of a ys = Inr x" "buffer_ok x" "content x = ys" "ids x \<subseteq> {a}"
    by (rule buffer_of_ok)
  then have "ids b \<inter> ids x = {}" using fresh by auto
  from insert_back_buffer_ok [OF ok x(2) this] obtain b' where
    "insert_back_buffer b x = Inr b'" "buffer_ok b'" "content b' = content b @ content x"
    "ids b' = ids b \<union> ids x" .
  then show ?thesis using x ids c by (auto simp: represents_def less_Suc_eq)
qed

lemma chain_prepend_step:
  assumes "represents (b, a) xs"
  shows "exec_rel represents (chain_step (b, a) (Op_Prepend ys)) (list_step xs (Op_Prepend ys))"
proof -
  note ok = represents_facts(1) [OF assms] and c = represents_facts(2) [OF assms]
    and ids = represents_facts(3) [OF assms] and tot = represents_facts(4) [OF assms]
    and fresh = represents_facts(5,6) [OF assms]
  obtain x where x: "buffer_of a ys = Inr x" "buffer_ok x" "content x = ys" "ids x \<subseteq> {a}"
    by (rule buffer_of_ok)
  then have "ids b \<inter> ids x = {}" using fresh by auto
  from insert_front_buffer_ok [OF ok x(2) this] obtain b' where
    "insert_front_buffer b x = Inr b'" "buffer_ok b'" "content b' = content x @ content b"
    "ids b' = ids b \<union> ids x" .
  then show ?thesis using x ids c by (auto simp: represents_def less_Suc_eq)
qed

lemma chain_insert_step:
  assumes "represents (b, a) xs"
  shows "exec_rel represents (chain_step (b, a) (Op_Insert i ys)) (list_step xs (Op_Insert i ys))"
proof -
  note ok = represents_facts(1) [OF assms] and c = represents_facts(2) [OF assms]
    and ids = represents_facts(3) [OF assms] and tot = represents_facts(4) [OF assms]
    and fresh = represents_facts(5,6) [OF assms]
  obtain x where x: "buffer_of a ys = Inr x" "buffer_ok x" "content x = ys" "ids x \<subseteq> {a}"
    by (rule buffer_of_ok)
  show ?thesis
  proof (cases "i \<le> total b")
    case True
    have "ids b \<inter> ids x = {}" "a + 1 \<notin> ids b \<union> ids x" using x fresh by auto
    then obtain b' where "insert_buffer (a + 1) b x i = Inr b'" "buffer_ok b'"
      "content b' = insert_at (content b) i (content x)" "ids b' \<subseteq> insert (a + 1) (ids b \<union> ids x)"
      using insert_buffer_ok [OF ok x(2), of "a + 1" i] True by blast
    then show ?thesis using x ids c True tot
      by (fastforce simp: represents_def bb_insert_def)
  next
    case False
    then show ?thesis using x tot by (simp add: bb_insert_def insert_buffer_def)
  qed
qed

lemma chain_room_step:
  assumes "represents (b, a) xs"
  shows "exec_rel represents (chain_step (b, a) (Op_Room i ys)) (list_step xs (Op_Room i ys))"
proof -
  note ok = represents_facts(1) [OF assms] and c = represents_facts(2) [OF assms]
    and ids = represents_facts(3) [OF assms] and tot = represents_facts(4) [OF assms]
    and fresh = represents_facts(5,6) [OF assms]
  show ?thesis
  proof (cases "i \<le> total b")
    case True
    obtain c' pad where c': "insert_size a (a + 1) b i (length ys) = Inr c'" "buffer_ok c'"
      "length pad = length ys" "content c' = insert_at (content b) i pad"
      "ids c' \<subseteq> insert a (insert (a + 1) (ids b))"
      using insert_size_ok [OF ok fresh(1), of "a + 1" i "length ys"] True fresh by auto
    have len: "length (content c') = total b + length ys" using c' tot c by simp
    show ?thesis
    proof (cases "ys = []")
      case True
      then show ?thesis using c' c ids \<open>i \<le> total b\<close> tot
        by (fastforce simp: represents_def bb_insert_def)
    next
      case False
      then obtain b' where "set_data c' i ys = Inr b'" "buffer_ok b'"
        "content b' = splice (content c') i ys" "ids b' = ids c'"
      proof -
        have "i < total c'" "i + length ys \<le> total c'"
          using False len \<open>i \<le> total b\<close> length_content [OF c'(2)] by (cases ys; simp)+
        then show ?thesis using set_data_ok [OF c'(2)] that by blast
      qed
      then show ?thesis using c' c ids \<open>i \<le> total b\<close> tot False
        by (fastforce simp: represents_def bb_insert_def splice_insert_at)
    qed
  next
    case False
    then show ?thesis using tot by (simp add: bb_insert_def insert_size_def)
  qed
qed

lemma chain_shrink_step:
  assumes "represents (b, a) xs"
  shows "exec_rel represents (chain_step (b, a) (Op_Shrink i n)) (list_step xs (Op_Shrink i n))"
proof -
  note ok = represents_facts(1) [OF assms] and c = represents_facts(2) [OF assms]
    and ids = represents_facts(3) [OF assms] and tot = represents_facts(4) [OF assms]
    and fresh = represents_facts(5,6) [OF assms]
  show ?thesis
  proof (cases "i < total b \<and> i + n \<le> total b")
    case True
    then obtain b' where "shrink b i n = Inr b'" "buffer_ok b'"
      "content b' = delete_at (content b) i n" "ids b' \<subseteq> ids b"
      using shrink_ok [OF ok] by metis
    then show ?thesis using ids c True tot by (auto simp: represents_def bb_shrink_def)
  next
    case False
    then show ?thesis using tot by (auto simp: bb_shrink_def shrink_def boost_assert_def)
  qed
qed

lemma chain_shrink_back_step:
  assumes "represents (b, a) xs"
  shows "exec_rel represents (chain_step (b, a) (Op_Shrink_Back n)) (list_step xs (Op_Shrink_Back n))"
proof -
  note ok = represents_facts(1) [OF assms] and c = represents_facts(2) [OF assms]
    and ids = represents_facts(3) [OF assms] and tot = represents_facts(4) [OF assms]
    and fresh = represents_facts(5,6) [OF assms]
  let ?i = "sz_sub (length xs) n"
  show ?thesis
  proof (cases "?i < total b \<and> ?i + n \<le> total b")
    case True
    then obtain b' where "shrink b ?i n = Inr b'" "buffer_ok b'"
      "content b' = delete_at (content b) ?i n" "ids b' \<subseteq> ids b"
      using shrink_ok [OF ok] by metis
    moreover from this ids have "\<forall>i \<in> ids b'. i < a" by blast
    ultimately show ?thesis using c True tot
      by (auto simp: represents_def bb_shrink_def bb_shrink_back_def shrink_back_def)
  next
    case False
    then show ?thesis using tot
      by (auto simp: bb_shrink_def bb_shrink_back_def shrink_back_def shrink_def boost_assert_def)
  qed
qed

lemma chain_set_data_step:
  assumes "represents (b, a) xs"
  shows "exec_rel represents (chain_step (b, a) (Op_Set_Data i ys)) (list_step xs (Op_Set_Data i ys))"
proof -
  note ok = represents_facts(1) [OF assms] and c = represents_facts(2) [OF assms]
    and ids = represents_facts(3) [OF assms] and tot = represents_facts(4) [OF assms]
    and fresh = represents_facts(5,6) [OF assms]
  show ?thesis
  proof (cases "i < total b \<and> i + length ys \<le> total b")
    case True
    then obtain b' where "set_data b i ys = Inr b'" "buffer_ok b'"
      "content b' = splice (content b) i ys" "ids b' = ids b"
      using set_data_ok [OF ok] by metis
    then show ?thesis using ids c True tot
      by (auto simp: represents_def bb_set_data_def)
  next
    case False
    then show ?thesis using tot
      by (auto simp: bb_set_data_def set_data_def boost_assert_def)
  qed
qed

lemma chain_keep_step:
  assumes "represents (b, a) xs"
  shows "exec_rel represents (chain_step (b, a) (Op_Keep n)) (list_step xs (Op_Keep n))"
proof -
  note ok = represents_facts(1) [OF assms] and c = represents_facts(2) [OF assms]
    and ids = represents_facts(3) [OF assms] and tot = represents_facts(4) [OF assms]
    and fresh = represents_facts(5,6) [OF assms]
  consider "n \<ge> total b" | "n = 0" "0 < total b" | "0 < n" "n < total b" by linarith
  then show ?thesis
  proof cases
    case 1
    then show ?thesis using tot break_out_of_range [OF ok 1] by (simp add: bb_break_def)
  next
    case 2
    then show ?thesis using tot break_buffer_begin [OF ok] by (simp add: bb_break_def)
  next
    case 3
    then obtain b' r where "break_buffer a b n = Inr (b', r)" "buffer_ok b'"
      "content b' = take n (content b)" "ids b' \<subseteq> ids b"
      using break_buffer_ok [OF ok 3 fresh(1)] by metis
    then show ?thesis using ids c 3 tot
      by (fastforce simp: represents_def bb_break_def)
  qed
qed

lemma chain_list_step: "represents ba xs \<Longrightarrow> exec_rel represents (chain_step ba e) (list_step xs e)"
  by (cases ba; cases e)
    (simp_all only: chain_append_step chain_prepend_step chain_insert_step chain_room_step chain_shrink_step
      chain_shrink_back_step chain_set_data_step chain_keep_step)

interpretation chain_program: simulation chain_step list_step represents
  by unfold_locales (rule chain_list_step)

section \<open>Properties\<close>

text \<open>
  C6. Any program of buffer operations, run on chains of blocks from the empty buffer, behaves
  as it does on plain lists of bytes: the same faults (failed assertions, null pointers) at the
  same operation, or a well-formed chain (no empty block, windows inside their blocks, the tail
  pointer at the last block, the size field right) whose bytes are the list's.
\<close>

theorem buffer_program_refines:
  "exec_rel (\<lambda>(b, a) xs. buffer_ok b \<and> content b = xs)
     (run chain_step (buffer_empty, 0) ops) (run list_step [] ops)"
proof -
  have "exec_rel represents (run chain_step (buffer_empty, 0) ops) (run list_step [] ops)"
    by (rule chain_program.sim_run) (simp add: represents_def content_def buffer_empty_def ids_def
        buffer_ok_def)
  then show ?thesis
    by (cases "run chain_step (buffer_empty, 0) ops"; cases "run list_step [] ops")
      (auto simp: represents_def)
qed

text \<open>
  C39. Breaking a buffer strictly inside and appending the second part to the first gives the
  bytes of the buffer back, across any chain of blocks.
\<close>

theorem break_append_restores:
  assumes "buffer_ok b" "a \<notin> ids b" "0 < n" "n < total b"
  shows "\<exists>b'. exec_bind (break_buffer a b n) (\<lambda>(x, y). insert_back_buffer x y) = Inr b' \<and>
           content b' = content b"
  using chain_store.cut_append [of b a n] assms by (simp add: buffer_fresh_def length_content)

theorem break_append_restores_witness:
  "\<exists>b'. exec_bind (break_buffer 9
           \<lparr>head = [\<lparr>bid = 0, bdata = [1, 2, 3, 4], bcapacity = 4, boffset = 1, bsize = 3\<rparr>],
            tail = Some 0, total = 3\<rparr> 2) (\<lambda>(x, y). insert_back_buffer x y) = Inr b' \<and>
        content b' = [2, 3, 4]"
  using break_append_restores
    [of "\<lparr>head = [\<lparr>bid = 0, bdata = [1, 2, 3, 4], bcapacity = 4, boffset = 1, bsize = 3\<rparr>],
          tail = Some 0, total = 3\<rparr>" 9 2]
  by (simp add: buffer_ok_def buf_ok_def ids_def content_def buf_bytes_def)

text \<open>
  Removing bytes at the front moves the window of the first block, which
  \<open>operator[]\<close> does not take into account: at index \<open>i\<close> it still reads the byte \<open>i\<close> of the
  old contents, not of the new ones.
\<close>

theorem operator_index_ignores_offset:
  assumes "0 < n" "n + i < length xs"
  shows "\<exists>b. exec_bind (buffer_of a xs) (\<lambda>b. shrink_front b n) = Inr b \<and>
           content b = drop n xs \<and> buffer_get b i = Inr (xs ! i)"
proof -
  let ?b = "\<lparr>bid = a, bdata = xs, bcapacity = length xs, boffset = n, bsize = length xs - n\<rparr>"
  have xs: "xs \<noteq> []" and len: "length xs \<noteq> 0" using assms by auto
  have "buffer_of a xs = Inr \<lparr>head = [\<lparr>bid = a, bdata = xs, bcapacity = length xs, boffset = 0,
      bsize = length xs\<rparr>], tail = Some a, total = length xs\<rparr>"
    using xs by (simp add: buffer_of_def buffer_new_def buf_new_def set_data_def)
  then have "exec_bind (buffer_of a xs) (\<lambda>b. shrink_front b n) =
      Inr \<lparr>head = [?b], tail = Some a, total = length xs - n\<rparr>"
    using assms xs by (simp add: shrink_front_def shrink_def shrink_finish_def Let_def)
  moreover have "buffer_get \<lparr>head = [?b], tail = Some a, total = length xs - n\<rparr> i = Inr (xs ! i)"
    using assms by (simp add: buffer_get_def hd_drop_conv_nth take_Suc)
  ultimately show ?thesis by (simp add: content_def buf_bytes_def)
qed

theorem operator_index_ignores_offset_witness:
  "\<exists>b. exec_bind (buffer_of 0 [10, 20, 30]) (\<lambda>b. shrink_front b 1) = Inr b \<and>
       content b = [20, 30] \<and> buffer_get b 0 = Inr 10"
  using operator_index_ignores_offset [of 1 0 "[10, 20, 30]" 0] by simp

text \<open>
  Except for that, reading through \<open>operator[]\<close> gives the indexed byte and writing
  changes only it, in any chain whose windows start with their blocks.
\<close>

theorem operator_index_unshifted:
  assumes "buffer_ok b" "unshifted b" "i < total b"
  shows "buffer_get b i = Inr (content b ! i) \<and>
         (\<exists>b'. buffer_put b i v = Inr b' \<and> buffer_ok b' \<and> content b' = (content b)[i := v])"
  using buffer_get_ok [OF assms] buffer_put_ok [OF assms, of v] by metis

theorem operator_index_unshifted_witness:
  "\<exists>b'. buffer_put
          \<lparr>head = [\<lparr>bid = 0, bdata = [1, 2], bcapacity = 2, boffset = 0, bsize = 2\<rparr>],
           tail = Some 0, total = 2\<rparr> 1 7 = Inr b' \<and> buffer_ok b' \<and> content b' = [1, 7]"
  using operator_index_unshifted
    [of "\<lparr>head = [\<lparr>bid = 0, bdata = [1, 2], bcapacity = 2, boffset = 0, bsize = 2\<rparr>],
          tail = Some 0, total = 2\<rparr>" 1 7]
  by (simp add: buffer_ok_def buf_ok_def unshifted_def content_def buf_bytes_def)

end
