(* ===== verification/Flow_State_Machine.thy ===== *)
theory Flow_State_Machine
  imports Machine
begin

text \<open>
  \<open>data_flow::FlowStateMachine\<close> (include/nekit/data_flow/flow_state_machine.h): the life cycle
  every data flow keeps, with its half-closed states.  A method whose assertion fails is a
  fault.
\<close>

section \<open>State and queries\<close>

datatype flow_state = Init | Closed | Establishing | Established | Closing
datatype flow_type = Local | Remote

record fsm =
  ftype :: flow_type
  state :: flow_state
  reading :: bool
  writing :: bool
  read_closed :: bool
  write_closing :: bool
  write_closed :: bool

definition fsm_new :: "flow_type \<Rightarrow> fsm" where
  "fsm_new t = \<lparr>ftype = t, state = Init, reading = False, writing = False, read_closed = False,
                write_closing = False, write_closed = False\<rparr>"

definition is_readable :: "fsm \<Rightarrow> bool" where
  "is_readable m \<longleftrightarrow> \<not> reading m \<and>
     ((ftype m = Local \<and> state m = Establishing) \<or> state m = Established \<or>
      (state m = Closing \<and> \<not> read_closed m))"

definition is_writable :: "fsm \<Rightarrow> bool" where
  "is_writable m \<longleftrightarrow> \<not> writing m \<and>
     ((ftype m = Local \<and> state m = Establishing) \<or> state m = Established \<or>
      (state m = Closing \<and> \<not> write_closed m \<and> \<not> write_closing m))"

definition is_write_closable :: "fsm \<Rightarrow> bool" where
  "is_write_closable m = is_writable m"

section \<open>Transitions\<close>

definition connect_begin :: "fsm \<Rightarrow> fsm exec" where
  "connect_begin m = boost_assert (state m = Init) (Inr (m\<lparr>state := Establishing\<rparr>))"

definition connected :: "fsm \<Rightarrow> fsm exec" where
  "connected m = boost_assert (state m = Establishing \<or> state m = Init)
     (Inr (m\<lparr>state := Established\<rparr>))"

definition read_begin :: "fsm \<Rightarrow> fsm exec" where
  "read_begin m = boost_assert (is_readable m) (Inr (m\<lparr>reading := True\<rparr>))"

definition read_end :: "fsm \<Rightarrow> fsm exec" where
  "read_end m = boost_assert (reading m) (Inr (m\<lparr>reading := False\<rparr>))"

definition read_close :: "fsm \<Rightarrow> fsm exec" where
  "read_close m =
     boost_assert (state m = Established \<or> state m = Closing)
     (boost_assert (\<not> read_closed m)
       (if state m = Established
        then Inr (m\<lparr>read_closed := True, reading := False, state := Closing\<rparr>)
        else let m' = m\<lparr>read_closed := True, reading := False\<rparr>
             in Inr (if write_closed m' then m'\<lparr>state := Closed\<rparr> else m')))"

definition write_begin :: "fsm \<Rightarrow> fsm exec" where
  "write_begin m = boost_assert (is_writable m) (Inr (m\<lparr>writing := True\<rparr>))"

definition write_end :: "fsm \<Rightarrow> fsm exec" where
  "write_end m = boost_assert (writing m) (Inr (m\<lparr>writing := False\<rparr>))"

definition write_close_begin :: "fsm \<Rightarrow> fsm exec" where
  "write_close_begin m =
     boost_assert (state m = Established \<or> state m = Closing)
     (boost_assert (\<not> write_closed m \<and> \<not> write_closing m)
       (Inr (m\<lparr>state := Closing, writing := False, write_closing := True\<rparr>)))"

definition write_close_end :: "fsm \<Rightarrow> fsm exec" where
  "write_close_end m =
     boost_assert (write_closing m)
       (let m' = m\<lparr>write_closing := False, write_closed := True\<rparr>
        in Inr (if read_closed m' then m'\<lparr>state := Closed\<rparr> else m'))"

definition closed :: "fsm \<Rightarrow> fsm" where
  "closed m = m\<lparr>reading := False, writing := False, write_closing := False,
                write_closed := True, read_closed := True, state := Closed\<rparr>"

definition errored :: "fsm \<Rightarrow> fsm" where
  "errored m = closed m"

section \<open>The machine over its events\<close>

datatype fsm_event =
    Connect_Begin | Connected | Read_Begin | Read_End | Read_Closed | Write_Begin | Write_End
  | Write_Close_Begin | Write_Close_End | Errored

fun fsm_step :: "fsm \<Rightarrow> fsm_event \<Rightarrow> fsm exec" where
  "fsm_step m Connect_Begin = connect_begin m"
| "fsm_step m Connected = connected m"
| "fsm_step m Read_Begin = read_begin m"
| "fsm_step m Read_End = read_end m"
| "fsm_step m Read_Closed = read_close m"
| "fsm_step m Write_Begin = write_begin m"
| "fsm_step m Write_End = write_end m"
| "fsm_step m Write_Close_Begin = write_close_begin m"
| "fsm_step m Write_Close_End = write_close_end m"
| "fsm_step m Errored = Inr (errored m)"

text \<open>The flags and the state agree.\<close>

definition fsm_ok :: "fsm \<Rightarrow> bool" where
  "fsm_ok m \<longleftrightarrow>
     (reading m \<longrightarrow> \<not> read_closed m) \<and>
     (writing m \<longrightarrow> \<not> write_closing m \<and> \<not> write_closed m) \<and>
     \<not> (write_closing m \<and> write_closed m) \<and>
     (case state m of
        Init \<Rightarrow> \<not> reading m \<and> \<not> writing m \<and> \<not> read_closed m \<and> \<not> write_closing m \<and> \<not> write_closed m
      | Establishing \<Rightarrow> \<not> read_closed m \<and> \<not> write_closing m \<and> \<not> write_closed m \<and>
          (ftype m = Remote \<longrightarrow> \<not> reading m \<and> \<not> writing m)
      | Established \<Rightarrow> \<not> read_closed m \<and> \<not> write_closing m \<and> \<not> write_closed m
      | Closing \<Rightarrow> (read_closed m \<or> write_closing m \<or> write_closed m) \<and>
          \<not> (read_closed m \<and> write_closed m)
      | Closed \<Rightarrow> read_closed m \<and> write_closed m)"

text \<open>The phases of a life in their order.\<close>

fun state_rank :: "flow_state \<Rightarrow> nat" where
  "state_rank Init = 0"
| "state_rank Establishing = 1"
| "state_rank Established = 2"
| "state_rank Closing = 3"
| "state_rank Closed = 4"

lemma state_rank_inject: "state_rank s = state_rank t \<Longrightarrow> s = t"
  by (cases s; cases t) simp_all

instantiation flow_state :: linorder
begin

definition less_eq_flow_state_def: "s \<le> t \<longleftrightarrow> state_rank s \<le> state_rank t"
definition less_flow_state_def: "s < t \<longleftrightarrow> state_rank s < state_rank t"

instance
  by standard (auto simp: less_eq_flow_state_def less_flow_state_def intro: state_rank_inject)

end

lemmas fsm_defs =
  connect_begin_def connected_def read_begin_def read_end_def read_close_def write_begin_def
  write_end_def write_close_begin_def write_close_end_def closed_def errored_def
  is_readable_def is_writable_def is_write_closable_def

lemma fsm_step_ok: "fsm_ok m \<Longrightarrow> fsm_step m e = Inr m' \<Longrightarrow> fsm_ok m'"
  by (cases e; cases "state m";
      clarsimp simp: fsm_defs fsm_ok_def boost_assert_Inr Let_def split: if_splits)

lemma fsm_step_rank:
  "fsm_step m e = Inr m' \<Longrightarrow> fsm_ok m \<Longrightarrow> state m \<le> state m'"
  by (cases e; cases "state m";
      clarsimp simp: less_eq_flow_state_def fsm_defs fsm_ok_def boost_assert_Inr Let_def split: if_splits)

lemma fsm_new_ok: "fsm_ok (fsm_new t)"
  by (simp add: fsm_ok_def fsm_new_def)

interpretation fsm_machine: ranked_machine fsm_step fsm_ok state
  by unfold_locales (auto intro: fsm_step_ok fsm_step_rank)

text \<open>
  C32. However its methods are called, as long as none asserts, a data flow's state machine keeps
  its flags and its state in agreement, and it only moves forward: from any state it reaches,
  through any further calls, it never returns to an earlier phase of its life, in the order
  \<open>Init\<close>, \<open>Establishing\<close>, \<open>Established\<close>, \<open>Closing\<close>, \<open>Closed\<close>.
\<close>

theorem flow_life_goes_forward:
  assumes "run fsm_step (fsm_new t) es = Inr m" and "run fsm_step m fs = Inr m'"
  shows "fsm_ok m' \<and> state m \<le> state m'"
proof -
  have "fsm_ok m" using fsm_machine.inv_run [OF fsm_new_ok assms(1)] .
  then show ?thesis using fsm_machine.inv_run fsm_machine.rank_run assms(2) by blast
qed

theorem flow_life_goes_forward_witness:
  "\<exists>m m'. run fsm_step (fsm_new Remote) [Connect_Begin, Connected] = Inr m \<and>
     run fsm_step m [Read_Begin, Read_End, Read_Closed] = Inr m' \<and>
     fsm_ok m' \<and> state m \<le> state m'"
proof -
  let ?m = "(fsm_new Remote)\<lparr>state := Established\<rparr>"
  let ?m' = "?m\<lparr>state := Closing, read_closed := True\<rparr>"
  have a: "run fsm_step (fsm_new Remote) [Connect_Begin, Connected] = Inr ?m"
    by (simp add: fsm_defs fsm_new_def)
  have b: "run fsm_step ?m [Read_Begin, Read_End, Read_Closed] = Inr ?m'"
    by (simp add: fsm_defs fsm_new_def)
  show ?thesis using flow_life_goes_forward [OF a b] a b by blast
qed

end
