(* ===== verification/Flow_Interface.thy ===== *)
theory Flow_Interface
  imports Byte_Buffer Flow_State_Machine Endpoint
begin

text \<open>
  What the data flows have in common (include/nekit/data_flow/data_flow_interface.h and its
  local and remote refinements).

  A flow runs one handler at a time.  A handler reads and changes the flow's members and
  makes calls whose answers come later; such a call is an \<open>action\<close> of the handler, in the
  order of the code, and carries the closure that will receive the answer, named by a value
  of a type \<open>'k\<close> of the flow.  A call of the handler the flow's user supplied (a value of
  \<open>'h\<close>) is an action too.  The token a call returns is an argument of the handler that makes
  the call, and the flags of the tokens are read from a \<open>cancel_store\<close>; setting a flag is an
  action.  Buffers are the bytes they hold (see \<open>Byte_Buffer\<close>).
\<close>

section \<open>Actions\<close>

datatype ('h, 'k) action =
    Do_Read 'k
  | Do_Write bytes 'k
  | Do_Close_Write 'k
  | Do_Open 'k
  | Do_Continue 'k
  | Do_Connect endpoint 'k
  | Do_Post 'k
  | Do_Wait int 'k
  | Give 'h "unit result"
  | Give_Data 'h "bytes result"
  | Cancel_Token cancelable

type_synonym ('s, 'h, 'k) reaction = "('s \<times> ('h, 'k) action list) exec"

text \<open>A \<open>std::function\<close> that may be empty; calling an empty one throws.\<close>

definition call_handler :: "'h option \<Rightarrow> ('h \<Rightarrow> 'a exec) \<Rightarrow> 'a exec" where
  "call_handler h f = (case h of None \<Rightarrow> Inl Null_Deref | Some x \<Rightarrow> f x)"

lemma call_handler_Some [simp]: "call_handler (Some h) f = f h"
  by (simp add: call_handler_def)

text \<open>\<open>if (cancelable.canceled()) return;\<close> at the start of a closure.\<close>

definition unless_canceled ::
  "cancel_store \<Rightarrow> cancelable \<Rightarrow> 's \<Rightarrow> ('s, 'h, 'k) reaction \<Rightarrow> ('s, 'h, 'k) reaction" where
  "unless_canceled st c s k = exec_bind (canceled c st) (\<lambda>stop. if stop then Inr (s, []) else k)"

section \<open>What the user of a flow sees\<close>

text \<open>The reports among the actions, and the calls made on the next hop.\<close>

fun is_report :: "('h, 'k) action \<Rightarrow> bool" where
  "is_report (Give h r) = True"
| "is_report (Give_Data h r) = True"
| "is_report _ = False"

fun is_next_call :: "('h, 'k) action \<Rightarrow> bool" where
  "is_next_call (Do_Read k) = True"
| "is_next_call (Do_Write xs k) = True"
| "is_next_call (Do_Close_Write k) = True"
| "is_next_call (Do_Open k) = True"
| "is_next_call (Do_Continue k) = True"
| "is_next_call (Do_Connect e k) = True"
| "is_next_call _ = False"

definition reports :: "('h, 'k) action list \<Rightarrow> nat" where
  "reports as = length (List.filter is_report as)"

lemma reports_simps [simp]:
  "reports [] = 0"
  "reports (a # as) = (if is_report a then 1 else 0) + reports as"
  "reports (as @ bs) = reports as + reports bs"
  by (auto simp: reports_def)

end
