(* ===== verification/Stream_Reader.thy ===== *)
theory Stream_Reader
  imports Flow_Interface
begin

text \<open>
  \<open>utils::StreamReader\<close> (src/utils/stream_reader.cc): reads from a flow until it has a given
  number of bytes, or a pattern; what it has read beyond that waits in its buffer for the next
  request.  Boost's Knuth-Morris-Pratt search is an argument.
\<close>

section \<open>State\<close>

text \<open>
  The matcher keeps iterators into the pattern it was built from, which is the by-value
  argument of \<open>ReadToPattern\<close>: the pattern is there while that function runs.
\<close>

datatype pattern_ref = No_Pattern | Pattern bytes | Pattern_Gone

record 'h stream_reader =
  sr_buffer :: bytes
  sr_cancelable :: cancelable
  sr_flow_cancelable :: cancelable
  sr_handler :: "'h option"
  length_to_read :: nat
  last_pos :: nat
  pattern_size :: nat
  sr_pattern :: pattern_ref

text \<open>The closures: of the two reads, and the posted delivery with what it captures.\<close>

datatype 'h reader_task = On_Length_Read | On_Pattern_Read | Deliver cancelable "'h option" bytes

type_synonym 'h reader_reaction = "('h stream_reader, 'h, 'h reader_task) reaction"

definition stream_reader_new :: "cancelable \<Rightarrow> cancelable \<Rightarrow> 'h stream_reader" where
  "stream_reader_new c d =
     \<lparr>sr_buffer = [], sr_cancelable = c, sr_flow_cancelable = d, sr_handler = None,
      length_to_read = 0, last_pos = 0, pattern_size = 0, sr_pattern = No_Pattern\<rparr>"

definition stream_reader_destroy :: "'h stream_reader \<Rightarrow> ('h, 'h reader_task) action list" where
  "stream_reader_destroy s = [Cancel_Token (sr_flow_cancelable s), Cancel_Token (sr_cancelable s)]"

section \<open>Reading to a length\<close>

text \<open>
  \<open>deliver n s\<close>: the first \<open>n\<close> bytes go to the handler in a posted task, the rest stays.
\<close>

definition deliver :: "nat \<Rightarrow> 'h stream_reader \<Rightarrow> 'h reader_reaction" where
  "deliver n s =
     exec_bind (if length (sr_buffer s) \<noteq> n then bb_break (sr_buffer s) n
                else Inr (sr_buffer s, [])) (\<lambda>(b, rest).
     Inr (s\<lparr>sr_buffer := rest, sr_handler := None\<rparr>,
          [Do_Post (Deliver (sr_cancelable s) (sr_handler s) b)]))"

definition do_read_length :: "cancelable \<Rightarrow> 'h stream_reader \<Rightarrow> 'h reader_reaction" where
  "do_read_length tok s =
     (if length (sr_buffer s) \<ge> length_to_read s then deliver (length_to_read s) s
      else Inr (s\<lparr>sr_flow_cancelable := tok\<rparr>, [Do_Read On_Length_Read]))"

text \<open>\<open>new\<close> is the flag of the \<open>Cancelable()\<close> the request makes, and returns.\<close>

definition read_to_length ::
  "cancelable \<Rightarrow> cancelable \<Rightarrow> nat \<Rightarrow> 'h \<Rightarrow> 'h stream_reader \<Rightarrow> 'h reader_reaction" where
  "read_to_length new tok n h s =
     boost_assert (n \<noteq> 0)
       (do_read_length tok (s\<lparr>sr_cancelable := new, sr_handler := Some h, length_to_read := n\<rparr>))"

definition on_length_read ::
  "cancel_store \<Rightarrow> cancelable \<Rightarrow> bytes result \<Rightarrow> 'h stream_reader \<Rightarrow> 'h reader_reaction" where
  "on_length_read st tok r s =
     exec_bind (canceled (sr_cancelable s) st) (\<lambda>stop.
       if stop then Inr (s, [])
       else case r of
              Inl e \<Rightarrow> call_handler (sr_handler s) (\<lambda>h. Inr (s, [Give_Data h (Inl e)]))
            | Inr xs \<Rightarrow> do_read_length tok (s\<lparr>sr_buffer := sr_buffer s @ xs\<rparr>))"

text \<open>The posted task.\<close>

definition run_deliver ::
  "cancel_store \<Rightarrow> cancelable \<Rightarrow> 'h option \<Rightarrow> bytes \<Rightarrow> ('h, 'h reader_task) action list exec" where
  "run_deliver st c h xs =
     exec_bind (canceled c st) (\<lambda>stop.
       if stop then Inr [] else call_handler h (\<lambda>h. Inr [Give_Data h (Inr xs)]))"

section \<open>Reading to a pattern\<close>

definition do_read_pattern ::
  "(bytes \<Rightarrow> bytes \<Rightarrow> nat option) \<Rightarrow> cancelable \<Rightarrow> 'h stream_reader \<Rightarrow> 'h reader_reaction" where
  "do_read_pattern search tok s =
     boost_assert (last_pos s \<le> length (sr_buffer s))
       (case sr_pattern s of
          No_Pattern \<Rightarrow> Inl Null_Deref
        | Pattern_Gone \<Rightarrow> Inl Dangling
        | Pattern p \<Rightarrow>
            (case search p (drop (last_pos s) (sr_buffer s)) of
               None \<Rightarrow>
                 Inr (s\<lparr>last_pos := length (sr_buffer s) - min (length (sr_buffer s)) (pattern_size s),
                        sr_flow_cancelable := tok\<rparr>, [Do_Read On_Pattern_Read])
             | Some i \<Rightarrow> deliver (i + pattern_size s + last_pos s) s))"

definition read_to_pattern ::
  "(bytes \<Rightarrow> bytes \<Rightarrow> nat option) \<Rightarrow> cancelable \<Rightarrow> cancelable \<Rightarrow> bytes \<Rightarrow> 'h \<Rightarrow>
   'h stream_reader \<Rightarrow> 'h reader_reaction" where
  "read_to_pattern search new tok p h s =
     boost_assert (length p \<noteq> 0)
       (exec_bind (do_read_pattern search tok
          (s\<lparr>sr_cancelable := new, sr_handler := Some h, sr_pattern := Pattern p,
             last_pos := 0, pattern_size := length p\<rparr>)) (\<lambda>(s', as).
        Inr (s'\<lparr>sr_pattern := Pattern_Gone\<rparr>, as)))"

definition on_pattern_read ::
  "(bytes \<Rightarrow> bytes \<Rightarrow> nat option) \<Rightarrow> cancel_store \<Rightarrow> cancelable \<Rightarrow> bytes result \<Rightarrow>
   'h stream_reader \<Rightarrow> 'h reader_reaction" where
  "on_pattern_read search st tok r s =
     exec_bind (canceled (sr_cancelable s) st) (\<lambda>stop.
       if stop then Inr (s, [])
       else case r of
              Inl e \<Rightarrow> call_handler (sr_handler s) (\<lambda>h. Inr (s, [Give_Data h (Inl e)]))
            | Inr xs \<Rightarrow> do_read_pattern search tok (s\<lparr>sr_buffer := sr_buffer s @ xs\<rparr>))"

definition consume_remain_data :: "'h stream_reader \<Rightarrow> bytes \<times> 'h stream_reader" where
  "consume_remain_data s = (sr_buffer s, s\<lparr>sr_buffer := []\<rparr>)"

section \<open>Runs\<close>

text \<open>
  A request for \<open>n\<close> bytes against a flow that delivers the chunks \<open>cs\<close>: the state and
  actions when the reader stops asking, and the chunks not read.
\<close>

fun feed ::
  "cancel_store \<Rightarrow> cancelable \<Rightarrow> ('h stream_reader \<times> ('h, 'h reader_task) action list) \<Rightarrow>
   bytes list \<Rightarrow> (('h stream_reader \<times> ('h, 'h reader_task) action list) \<times> bytes list) exec" where
  "feed st tok (s, as) [] = Inr ((s, as), [])"
| "feed st tok (s, as) (c # cs) =
     (if as = [Do_Read On_Length_Read]
      then exec_bind (on_length_read st tok (Inr c) s) (\<lambda>r. feed st tok r cs)
      else Inr ((s, as), c # cs))"

definition read_run ::
  "cancel_store \<Rightarrow> cancelable \<Rightarrow> cancelable \<Rightarrow> nat \<Rightarrow> 'h \<Rightarrow> 'h stream_reader \<Rightarrow> bytes list \<Rightarrow>
   (('h stream_reader \<times> ('h, 'h reader_task) action list) \<times> bytes list) exec" where
  "read_run st new tok n h s cs =
     exec_bind (read_to_length new tok n h s) (\<lambda>r. feed st tok r cs)"

lemma deliver_ok:
  "0 < n \<Longrightarrow> n \<le> length (sr_buffer s) \<Longrightarrow>
   deliver n s = Inr (s\<lparr>sr_buffer := drop n (sr_buffer s), sr_handler := None\<rparr>,
                      [Do_Post (Deliver (sr_cancelable s) (sr_handler s) (take n (sr_buffer s)))])"
  by (auto simp: deliver_def bb_break_def)

lemma feed_do_read_length:
  assumes "0 < length_to_read s" "canceled (sr_cancelable s) st = Inr False"
    and "length_to_read s \<le> length (sr_buffer s @ concat cs)"
  shows "\<exists>s' k. exec_bind (do_read_length tok s) (\<lambda>r. feed st tok r cs) =
           Inr ((s', [Do_Post (Deliver (sr_cancelable s) (sr_handler s)
                       (take (length_to_read s) (sr_buffer s @ concat cs)))]), drop k cs) \<and>
         k \<le> length cs \<and> sr_handler s' = None \<and>
         sr_buffer s' = drop (length_to_read s) (sr_buffer s @ concat (take k cs)) \<and>
         length_to_read s \<le> length (sr_buffer s @ concat (take k cs)) \<and>
         (\<forall>j < k. length (sr_buffer s @ concat (take j cs)) < length_to_read s)"
  using assms
proof (induction cs arbitrary: s)
  case Nil
  then show ?case by (simp add: do_read_length_def deliver_ok)
next
  case (Cons c cs)
  show ?case
  proof (cases "length_to_read s \<le> length (sr_buffer s)")
    case True
    then show ?thesis using Cons.prems
      by (intro exI [of _ "s\<lparr>sr_buffer := drop (length_to_read s) (sr_buffer s), sr_handler := None\<rparr>"]
          exI [of _ 0]) (simp add: do_read_length_def deliver_ok)
  next
    case False
    let ?s = "s\<lparr>sr_flow_cancelable := tok, sr_buffer := sr_buffer s @ c\<rparr>"
    have step: "exec_bind (do_read_length tok s) (\<lambda>r. feed st tok r (c # cs)) =
        exec_bind (do_read_length tok ?s) (\<lambda>r. feed st tok r cs)"
      using False Cons.prems(2) by (simp add: do_read_length_def on_length_read_def)
    obtain s' k where ih: "exec_bind (do_read_length tok ?s) (\<lambda>r. feed st tok r cs) =
           Inr ((s', [Do_Post (Deliver (sr_cancelable s) (sr_handler s)
                       (take (length_to_read s) (sr_buffer s @ c @ concat cs)))]), drop k cs)"
         "k \<le> length cs" "sr_handler s' = None"
         "sr_buffer s' = drop (length_to_read s) (sr_buffer s @ c @ concat (take k cs))"
         "length_to_read s \<le> length (sr_buffer s @ c @ concat (take k cs))"
         "\<forall>j < k. length (sr_buffer s @ c @ concat (take j cs)) < length_to_read s"
      using Cons.IH [of ?s] Cons.prems by auto
    have "\<forall>j < Suc k. length (sr_buffer s @ concat (take j (c # cs))) < length_to_read s"
      using ih(6) False by (auto simp: less_Suc_eq_0_disj)
    then show ?thesis
      using ih unfolding step by (intro exI [of _ s'] exI [of _ "Suc k"]) simp
  qed
qed

section \<open>Properties\<close>

text \<open>
  C29. A request for \<open>n > 0\<close> bytes that is not canceled ends after the fewest chunks that hold
  enough, however the stream is cut into chunks, and hands its handler exactly the next
  \<open>n\<close> bytes of the stream; everything read beyond them is in the buffer for the next request,
  so no byte is lost, repeated or reordered.
\<close>

theorem read_to_length_exact:
  assumes "0 < n" "canceled new st = Inr False" "n \<le> length (sr_buffer s @ concat cs)"
  shows "\<exists>s' k. read_run st new tok n h s cs =
           Inr ((s', [Do_Post (Deliver new (Some h) (take n (sr_buffer s @ concat cs)))]), drop k cs) \<and>
         sr_buffer s' @ concat (drop k cs) = drop n (sr_buffer s @ concat cs) \<and>
         (\<forall>j < k. length (sr_buffer s @ concat (take j cs)) < n)"
proof -
  let ?s = "s\<lparr>sr_cancelable := new, sr_handler := Some h, length_to_read := n\<rparr>"
  obtain s' k where k: "exec_bind (do_read_length tok ?s) (\<lambda>r. feed st tok r cs) =
      Inr ((s', [Do_Post (Deliver new (Some h) (take n (sr_buffer s @ concat cs)))]), drop k cs)"
    "sr_buffer s' = drop n (sr_buffer s @ concat (take k cs))"
    "n \<le> length (sr_buffer s @ concat (take k cs))"
    "\<forall>j < k. length (sr_buffer s @ concat (take j cs)) < n"
    using feed_do_read_length [of ?s st cs tok] assms by auto
  have "drop n (sr_buffer s @ concat cs) =
      drop n ((sr_buffer s @ concat (take k cs)) @ concat (drop k cs))"
    by (simp flip: concat_append)
  also have "\<dots> = sr_buffer s' @ concat (drop k cs)"
    using k(2,3) by simp
  finally show ?thesis
    using k assms(1) by (auto simp: read_run_def read_to_length_def)
qed

theorem read_to_length_exact_witness:
  "\<exists>s'. read_run [False] (Some 0) None 3 (7::nat) (stream_reader_new None None) [[1], [2, 3, 4], [5]] =
     Inr ((s', [Do_Post (Deliver (Some 0) (Some 7) [1, 2, 3])]), [[5]]) \<and> sr_buffer s' = [4]"
proof -
  obtain s' k where r:
    "read_run [False] (Some 0) None 3 (7::nat) (stream_reader_new None None) [[1], [2, 3, 4], [5]] =
       Inr ((s', [Do_Post (Deliver (Some 0) (Some 7) [1, 2, 3])]), drop k [[1], [2, 3, 4], [5]])"
    "sr_buffer s' @ concat (drop k [[1], [2, 3, 4], [5]]) = [4, 5]"
    using read_to_length_exact [of 3 "Some 0" "[False]" "stream_reader_new None None"
        "[[1], [2, 3, 4], [5]]" None "7::nat"]
    by (auto simp: canceled_def stream_reader_new_def numeral_3_eq_3)
  then show ?thesis
    by (simp add: read_run_def read_to_length_def do_read_length_def stream_reader_new_def
        on_length_read_def canceled_def deliver_def bb_break_def)
qed

definition finds_first :: "(bytes \<Rightarrow> bytes \<Rightarrow> nat option) \<Rightarrow> bool" where
  "finds_first search \<longleftrightarrow> (\<forall>p xs. case search p xs of
       None \<Rightarrow> \<forall>i. take (length p) (drop i xs) \<noteq> p
     | Some i \<Rightarrow> take (length p) (drop i xs) = p \<and> (\<forall>j < i. take (length p) (drop j xs) \<noteq> p))"

text \<open>
  C40. \<open>ReadToPattern\<close> works on what is already buffered: it delivers the bytes up to the end
  of the first occurrence and keeps the rest.  But its matcher refers to the pattern's
  by-value argument, so when the pattern is not there yet the next successful read uses
  iterators into a string that is gone.
\<close>

theorem read_to_pattern_behaviour:
  assumes "finds_first search" "p \<noteq> []" "canceled new st = Inr False"
  shows "(\<exists>i s'. take (length p) (drop i (sr_buffer s)) = p \<and>
            (\<forall>j < i. take (length p) (drop j (sr_buffer s)) \<noteq> p) \<and>
            read_to_pattern search new tok p h s =
              Inr (s', [Do_Post (Deliver new (Some h) (take (i + length p) (sr_buffer s)))]) \<and>
            sr_buffer s' = drop (i + length p) (sr_buffer s)) \<or>
         ((\<forall>i. take (length p) (drop i (sr_buffer s)) \<noteq> p) \<and>
          (\<exists>s'. read_to_pattern search new tok p h s = Inr (s', [Do_Read On_Pattern_Read]) \<and>
                on_pattern_read search st tok' (Inr xs) s' = Inl Dangling))"
proof (cases "search p (sr_buffer s)")
  case None
  then have "\<forall>i. take (length p) (drop i (sr_buffer s)) \<noteq> p"
    using assms(1) [unfolded finds_first_def, rule_format, of p "sr_buffer s"] by simp
  then show ?thesis using None assms(2,3)
    by (simp add: read_to_pattern_def do_read_pattern_def on_pattern_read_def)
next
  case (Some i)
  have i: "take (length p) (drop i (sr_buffer s)) = p"
    "\<forall>j < i. take (length p) (drop j (sr_buffer s)) \<noteq> p"
    using assms(1) [unfolded finds_first_def, rule_format, of p "sr_buffer s"] Some by simp_all
  have "length p \<le> length (sr_buffer s) - i"
    using i(1) by (metis length_drop length_take min.absorb_iff2 min.commute)
  moreover have "i < length (sr_buffer s)"
    using i(1) assms(2) by (metis drop_all linorder_not_less take_Nil)
  ultimately have "i + length p \<le> length (sr_buffer s)" "0 < i + length p"
    using assms(2) by auto
  then show ?thesis using i Some assms(2)
    by (intro disjI1) (auto simp: read_to_pattern_def do_read_pattern_def deliver_ok)
qed

text \<open>A search that satisfies the hypothesis, for the concrete case.\<close>

definition naive_search :: "bytes \<Rightarrow> bytes \<Rightarrow> nat option" where
  "naive_search p xs = List.find (\<lambda>i. take (length p) (drop i xs) = p) [0..<Suc (length xs)]"

lemma naive_search_finds_first: "finds_first naive_search"
  unfolding finds_first_def
proof (intro allI)
  fix p xs :: bytes
  show "case naive_search p xs of None \<Rightarrow> \<forall>i. take (length p) (drop i xs) \<noteq> p
      | Some i \<Rightarrow> take (length p) (drop i xs) = p \<and> (\<forall>j < i. take (length p) (drop j xs) \<noteq> p)"
  proof (cases "naive_search p xs")
    case None
    then have inside: "i \<le> length xs \<Longrightarrow> take (length p) (drop i xs) \<noteq> p" for i
      unfolding naive_search_def find_None_iff by (auto simp: less_Suc_eq_le simp del: upt_Suc)
    have "take (length p) (drop i xs) \<noteq> p" for i
    proof (cases "i \<le> length xs")
      case False
      then show ?thesis using inside [of "length xs"] by auto
    qed (rule inside)
    then show ?thesis using None by simp
  next
    case (Some i)
    then obtain k where k: "k < Suc (length xs)" "take (length p) (drop ([0..<Suc (length xs)] ! k) xs) = p"
      "i = [0..<Suc (length xs)] ! k"
      "\<forall>j < k. take (length p) (drop ([0..<Suc (length xs)] ! j) xs) \<noteq> p"
      unfolding naive_search_def find_Some_iff by (auto simp del: upt_Suc)
    then have "i = k" by (simp del: upt_Suc)
    moreover have "\<forall>j < k. take (length p) (drop j xs) \<noteq> p"
      using k(1,4) by (auto simp del: upt_Suc)
    ultimately show ?thesis using Some k by (simp del: upt_Suc)
  qed
qed

theorem read_to_pattern_behaviour_witness:
  "\<exists>s'. read_to_pattern naive_search (Some 0) None [13, 10] (7::nat) (stream_reader_new None None) =
          Inr (s', [Do_Read On_Pattern_Read]) \<and>
        on_pattern_read naive_search [False] None (Inr [65, 13, 10]) s' = Inl Dangling"
proof -
  have "\<not> (\<exists>i. take (length [13, 10]) (drop i (sr_buffer (stream_reader_new None None))) = [13, 10 :: u8])"
    by (simp add: stream_reader_new_def)
  then show ?thesis
    using read_to_pattern_behaviour [OF naive_search_finds_first, of "[13, 10]" "Some 0" "[False]"
        "stream_reader_new None None" None "7::nat" None "[65, 13, 10]"]
    by (auto simp: canceled_def)
qed

end
