(* ===== verification/Network_Order.thy ===== *)
theory Network_Order
  imports Subnet
begin

text \<open>
  Port numbers and addresses as bytes on the wire: \<open>htons\<close> and \<open>ntohs\<close> on hosts of either
  byte order, \<open>to_bytes\<close> of addresses and the constructors from bytes.
\<close>

section \<open>Half words\<close>

definition be_half_bytes :: "u16 \<Rightarrow> bytes" where
  "be_half_bytes w = [ucast (drop_bit 8 w), ucast w]"

definition be_half :: "bytes \<Rightarrow> u16" where
  "be_half bs = push_bit 8 (ucast (bs ! 0)) OR ucast (bs ! 1)"

text \<open>A half word read from memory and its bytes in memory.\<close>

fun host_half :: "byte_order \<Rightarrow> bytes \<Rightarrow> u16" where
  "host_half Big_Endian bs = be_half bs"
| "host_half Little_Endian bs = be_half (rev bs)"

fun half_memory :: "byte_order \<Rightarrow> u16 \<Rightarrow> bytes" where
  "half_memory Big_Endian w = be_half_bytes w"
| "half_memory Little_Endian w = rev (be_half_bytes w)"

definition htons :: "byte_order \<Rightarrow> u16 \<Rightarrow> u16" where
  "htons e w = host_half e (be_half_bytes w)"

definition ntohs :: "byte_order \<Rightarrow> u16 \<Rightarrow> u16" where
  "ntohs e w = be_half (half_memory e w)"

lemma length_be_half_bytes [simp]: "length (be_half_bytes w) = 2"
  by (simp add: be_half_bytes_def)

lemma be_half_be_half_bytes [simp]: "be_half (be_half_bytes w) = w"
proof (rule bit_word_eqI)
  fix n assume "n < LENGTH(16)"
  then consider "n < 8" | "8 \<le> n" "n < 16" by force
  then show "bit (be_half (be_half_bytes w)) n = bit w n"
    by cases (auto simp: be_half_def be_half_bytes_def bit_simps)
qed

lemma be_half_bytes_be_half [simp]: "be_half_bytes (be_half [a, b]) = [a, b]"
proof -
  have "ucast (drop_bit 8 (push_bit 8 (ucast a) OR ucast b :: u16)) = a"
    by (rule bit_word_eqI) (auto simp: bit_simps dest: bit_imp_le_length)
  moreover have "ucast (push_bit 8 (ucast a) OR ucast b :: u16) = b"
    by (rule bit_word_eqI) (auto simp: bit_simps)
  ultimately show ?thesis by (simp add: be_half_def be_half_bytes_def)
qed

lemma half_memory_host_half: "half_memory e (host_half e [a, b]) = [a, b]"
  by (cases e) simp_all

lemma ntohs_host_half [simp]: "length bs = 2 \<Longrightarrow> ntohs e (host_half e bs) = be_half bs"
proof -
  assume "length bs = 2"
  then obtain a b where "bs = [a, b]" by (metis (no_types) One_nat_def Suc_1 length_0_conv length_Suc_conv)
  then show ?thesis by (simp add: ntohs_def half_memory_host_half)
qed

lemma half_memory_htons [simp]: "half_memory e (htons e w) = be_half_bytes w"
  by (simp add: htons_def be_half_bytes_def half_memory_host_half)

section \<open>Addresses\<close>

definition address_bytes :: "ip_address \<Rightarrow> bytes" where
  "address_bytes a = concat (map be_bytes (groups a))"

definition address_v4 :: "bytes \<Rightarrow> ip_address" where
  "address_v4 bs = V4 (be_word bs)"

definition address_v6 :: "bytes \<Rightarrow> ip_address" where
  "address_v6 bs = V6 (be_word (take 4 bs)) (be_word (take 4 (drop 4 bs)))
     (be_word (take 4 (drop 8 bs))) (be_word (take 4 (drop 12 bs)))"

lemma be_word_be_bytes [simp]: "be_word (be_bytes w) = w"
  using htonl_big [of w] by (simp add: htonl_def)

lemma length_be_bytes [simp]: "length (be_bytes w) = 4"
  by (simp add: be_bytes_def)

lemma address_v4_bytes: "is_v4 a \<Longrightarrow> address_v4 (address_bytes a) = a"
  by (cases a) (simp_all add: address_v4_def address_bytes_def)

lemma address_v6_bytes: "\<not> is_v4 a \<Longrightarrow> address_v6 (address_bytes a) = a"
  by (cases a) (simp_all add: address_v6_def address_bytes_def)

lemma length_address_bytes: "length (address_bytes a) = (if is_v4 a then 4 else 16)"
  by (cases a) (simp_all add: address_bytes_def)

end
