(* ===== verification/Socks5_Client.thy ===== *)
theory Socks5_Client
  imports Stream_Reader Network_Order
begin

text \<open>
  \<open>data_flow::Socks5DataFlow\<close> (src/data_flow/socks5_data_flow.cc): the client side of a
  SOCKS5 negotiation over the next remote hop, read through a \<open>StreamReader\<close>.
\<close>

section \<open>State\<close>

datatype socks5_error_code =
    ServerVersionNotSupported | AuthenticationNotSupported | InvalidResponse | ConnectionFailed

fun socks5_code :: "socks5_error_code \<Rightarrow> int" where
  "socks5_code ServerVersionNotSupported = 1"
| "socks5_code AuthenticationNotSupported = 2"
| "socks5_code InvalidResponse = 3"
| "socks5_code ConnectionFailed = 4"

definition socks5_error :: "socks5_error_code \<Rightarrow> error" where
  "socks5_error c = error_of Socks5_Category (socks5_code c)"

text \<open>The closures given to the reader, and all closures of the flow.\<close>

datatype 'h reply_handler =
    Method_Reply cancelable 'h | Reply_Head cancelable 'h | Reply_Tail cancelable 'h

datatype 'h socks5_task =
    Server_Connected cancelable 'h
  | Greeting_Written cancelable 'h
  | Request_Written cancelable 'h
  | In_Reader "'h reply_handler reader_task"
  | User_Read 'h | User_Written 'h | User_Write_Closed 'h

record 'h socks5_client =
  server_endpoint :: endpoint
  target_endpoint :: "endpoint option"
  sc_machine :: fsm
  connect_cancelable :: cancelable
  connect_action_cancelable :: cancelable
  sc_reader :: "'h reply_handler stream_reader"

type_synonym 'h sc_reaction = "('h socks5_client, 'h, 'h socks5_task) reaction"

definition socks5_client_new ::
  "endpoint \<Rightarrow> cancelable \<Rightarrow> cancelable \<Rightarrow> cancelable \<Rightarrow> cancelable \<Rightarrow> 'h socks5_client" where
  "socks5_client_new server c a rc rd =
     \<lparr>server_endpoint = server, target_endpoint = None, sc_machine = fsm_new Remote,
      connect_cancelable = c, connect_action_cancelable = a, sc_reader = stream_reader_new rc rd\<rparr>"

text \<open>The body of the destructor, and then that of the reader, a member.\<close>

definition socks5_client_destroy :: "'h socks5_client \<Rightarrow> ('h, 'h socks5_task) action list" where
  "socks5_client_destroy s =
     [Cancel_Token (connect_cancelable s), Cancel_Token (connect_action_cancelable s),
      Cancel_Token (sr_flow_cancelable (sc_reader s)), Cancel_Token (sr_cancelable (sc_reader s))]"

text \<open>Reads, writes and closes go to the next hop; its handler is the user's.\<close>

definition client_read :: "'h \<Rightarrow> 'h socks5_client \<Rightarrow> 'h sc_reaction" where
  "client_read h s = Inr (s, [Do_Read (User_Read h)])"

definition client_write :: "bytes \<Rightarrow> 'h \<Rightarrow> 'h socks5_client \<Rightarrow> 'h sc_reaction" where
  "client_write xs h s = Inr (s, [Do_Write xs (User_Written h)])"

definition client_close_write :: "'h \<Rightarrow> 'h socks5_client \<Rightarrow> 'h sc_reaction" where
  "client_close_write h s = Inr (s, [Do_Close_Write (User_Write_Closed h)])"

definition client_machine :: "fsm \<Rightarrow> 'h socks5_client \<Rightarrow> fsm" where
  "client_machine next_hop s =
     (if state (sc_machine s) \<noteq> Established then sc_machine s else next_hop)"

section \<open>Connecting\<close>

definition client_connect :: "cancelable \<Rightarrow> endpoint \<Rightarrow> 'h \<Rightarrow> 'h socks5_client \<Rightarrow> 'h sc_reaction" where
  "client_connect tok ep h s =
     exec_bind (connect_begin (sc_machine s)) (\<lambda>m.
     Inr (s\<lparr>target_endpoint := Some ep, sc_machine := m, connect_action_cancelable := tok\<rparr>,
          [Do_Connect (server_endpoint s) (Server_Connected (connect_cancelable s) h)]))"

text \<open>\<open>state_machine_.Errored(); handler(error); return;\<close>\<close>

definition client_fail :: "error \<Rightarrow> 'h \<Rightarrow> 'h socks5_client \<Rightarrow> 'h sc_reaction" where
  "client_fail e h s = Inr (s\<lparr>sc_machine := errored (sc_machine s)\<rparr>, [Give h (Inl e)])"

definition do_negotiation :: "cancelable \<Rightarrow> 'h \<Rightarrow> 'h socks5_client \<Rightarrow> 'h sc_reaction" where
  "do_negotiation tok h s =
     exec_bind (bb_put (replicate 3 0) 0 5) (\<lambda>b.
     exec_bind (bb_put b 1 1) (\<lambda>b.
     exec_bind (bb_put b 2 0) (\<lambda>b.
     Inr (s\<lparr>connect_action_cancelable := tok\<rparr>,
          [Do_Write b (Greeting_Written (connect_cancelable s) h)]))))"

definition on_server_connected ::
  "cancel_store \<Rightarrow> cancelable \<Rightarrow> cancelable \<Rightarrow> 'h \<Rightarrow> unit result \<Rightarrow> 'h socks5_client \<Rightarrow>
   'h sc_reaction" where
  "on_server_connected st tok c h r s =
     unless_canceled st c s
       (case r of Inl e \<Rightarrow> client_fail e h s | Inr _ \<Rightarrow> do_negotiation tok h s)"

text \<open>
  A request to the reader: \<open>new\<close> is the token it returns, \<open>tok\<close> the token of the read it may
  start.  Its reads and posts are the flow's.
\<close>

fun lift_reader ::
  "('h reply_handler, 'h reply_handler reader_task) action \<Rightarrow> ('h, 'h socks5_task) action list" where
  "lift_reader (Do_Read k) = [Do_Read (In_Reader k)]"
| "lift_reader (Do_Post k) = [Do_Post (In_Reader k)]"
| "lift_reader (Cancel_Token c) = [Cancel_Token c]"
| "lift_reader _ = []"

definition ask_reader ::
  "cancelable \<Rightarrow> cancelable \<Rightarrow> nat \<Rightarrow> 'h reply_handler \<Rightarrow> 'h socks5_client \<Rightarrow> 'h sc_reaction" where
  "ask_reader new tok n k s =
     exec_bind (read_to_length new tok n k (sc_reader s)) (\<lambda>(rd, as).
     Inr (s\<lparr>sc_reader := rd, connect_action_cancelable := new\<rparr>, concat (map lift_reader as)))"

definition on_greeting_written ::
  "cancel_store \<Rightarrow> cancelable \<Rightarrow> cancelable \<Rightarrow> cancelable \<Rightarrow> 'h \<Rightarrow> unit result \<Rightarrow>
   'h socks5_client \<Rightarrow> 'h sc_reaction" where
  "on_greeting_written st new tok c h r s =
     unless_canceled st c s
       (case r of Inl e \<Rightarrow> client_fail e h s
                | Inr _ \<Rightarrow> ask_reader new tok 2 (Method_Reply c h) s)"

text \<open>
  The request, made in the buffer \<open>b\<close> of the method reply.  \<open>pad n\<close> is what \<open>InsertBack(n)\<close>
  leaves in the bytes it adds.
\<close>

definition build_request ::
  "byte_order \<Rightarrow> (nat \<Rightarrow> bytes) \<Rightarrow> bytes \<Rightarrow> endpoint \<Rightarrow> bytes exec" where
  "build_request e pad b ep =
     exec_bind (bb_put b 1 1) (\<lambda>b.
     exec_bind
       (if etype ep = Domain_Type
        then let n = length (host ep) in
             exec_bind (bb_put (b @ pad (1 + 1 + 1 + n + 2)) 3 3) (\<lambda>b.
             exec_bind (bb_put b 4 (of_nat n)) (\<lambda>b.
             exec_bind (bb_set_data b 5 (bytes_of_string (host ep))) (\<lambda>b.
             Inr (b, 4 + (1 + n)))))
        else exec_bind (endpoint_address ep) (\<lambda>a.
             if is_v4 a
             then exec_bind (bb_put (b @ pad (1 + 1 + 4 + 2)) 3 1) (\<lambda>b.
                  exec_bind (bb_set_data b 4 (address_bytes a)) (\<lambda>b. Inr (b, 4 + 4)))
             else exec_bind (bb_put (b @ pad (1 + 1 + 16 + 2)) 3 4) (\<lambda>b.
                  exec_bind (bb_set_data b 4 (address_bytes a)) (\<lambda>b. Inr (b, 4 + 16))))) (\<lambda>(b, offset).
     exec_bind (bb_put b 2 0) (\<lambda>b.
     bb_set_data b offset (half_memory e (htons e (port ep))))))"

definition on_method_reply ::
  "byte_order \<Rightarrow> (nat \<Rightarrow> bytes) \<Rightarrow> cancelable \<Rightarrow> cancelable \<Rightarrow> 'h \<Rightarrow> bytes result \<Rightarrow>
   'h socks5_client \<Rightarrow> 'h sc_reaction" where
  "on_method_reply e pad tok c h r s =
     (case r of
        Inl err \<Rightarrow> client_fail err h s
      | Inr b \<Rightarrow>
          exec_bind (bb_get b 0) (\<lambda>v.
          if v \<noteq> 5 then client_fail (socks5_error ServerVersionNotSupported) h s
          else exec_bind (bb_get b 1) (\<lambda>m.
          if m \<noteq> 0 then client_fail (socks5_error AuthenticationNotSupported) h s
          else case target_endpoint s of
                 None \<Rightarrow> Inl Null_Deref
               | Some ep \<Rightarrow>
                   exec_bind (build_request e pad b ep) (\<lambda>b.
                   Inr (s\<lparr>connect_action_cancelable := tok\<rparr>, [Do_Write b (Request_Written c h)])))))"

definition on_request_written ::
  "cancel_store \<Rightarrow> cancelable \<Rightarrow> cancelable \<Rightarrow> cancelable \<Rightarrow> 'h \<Rightarrow> unit result \<Rightarrow>
   'h socks5_client \<Rightarrow> 'h sc_reaction" where
  "on_request_written st new tok c h r s =
     unless_canceled st c s
       (case r of Inl e \<Rightarrow> client_fail e h s
                | Inr _ \<Rightarrow> ask_reader new tok 5 (Reply_Head c h) s)"

definition on_reply_head ::
  "cancelable \<Rightarrow> cancelable \<Rightarrow> cancelable \<Rightarrow> 'h \<Rightarrow> bytes result \<Rightarrow> 'h socks5_client \<Rightarrow>
   'h sc_reaction" where
  "on_reply_head new tok c h r s =
     (case r of
        Inl err \<Rightarrow> client_fail err h s
      | Inr b \<Rightarrow>
          exec_bind (bb_get b 0) (\<lambda>v.
          if v \<noteq> 5 then client_fail (socks5_error ServerVersionNotSupported) h s
          else exec_bind (bb_get b 1) (\<lambda>reply.
          if reply \<noteq> 0 then client_fail (socks5_error ConnectionFailed) h s
          else exec_bind (bb_get b 2) (\<lambda>reserved.
          if reserved \<noteq> 0 then client_fail (socks5_error InvalidResponse) h s
          else exec_bind (bb_get b 3) (\<lambda>type.
          exec_bind (bb_get b 4) (\<lambda>n.
          if type = 1 then ask_reader new tok 5 (Reply_Tail c h) s
          else if type = 3 then ask_reader new tok (unat n + 2) (Reply_Tail c h) s
          else if type = 4 then ask_reader new tok 17 (Reply_Tail c h) s
          else client_fail (socks5_error InvalidResponse) h s))))))"

definition on_reply_tail :: "'h \<Rightarrow> bytes result \<Rightarrow> 'h socks5_client \<Rightarrow> 'h sc_reaction" where
  "on_reply_tail h r s =
     (case r of
        Inl err \<Rightarrow> client_fail err h s
      | Inr b \<Rightarrow>
          (let (remain, rd) = consume_remain_data (sc_reader s); s' = s\<lparr>sc_reader := rd\<rparr>
           in if remain \<noteq> [] then client_fail (socks5_error InvalidResponse) h s'
              else Inr (s', [Give h (Inr ())])))"

text \<open>The closures given to the reader all start by looking at the connect token.\<close>

definition on_reply ::
  "byte_order \<Rightarrow> (nat \<Rightarrow> bytes) \<Rightarrow> cancel_store \<Rightarrow> cancelable \<Rightarrow> cancelable \<Rightarrow> 'h reply_handler \<Rightarrow>
   bytes result \<Rightarrow> 'h socks5_client \<Rightarrow> 'h sc_reaction" where
  "on_reply e pad st new tok k r s =
     (case k of
        Method_Reply c h \<Rightarrow> unless_canceled st c s (on_method_reply e pad tok c h r s)
      | Reply_Head c h \<Rightarrow> unless_canceled st c s (on_reply_head new tok c h r s)
      | Reply_Tail c h \<Rightarrow> unless_canceled st c s (on_reply_tail h r s))"

text \<open>
  A task of the reader.  When the reader calls its handler, that closure runs at once.
\<close>

definition on_reader_task ::
  "byte_order \<Rightarrow> (nat \<Rightarrow> bytes) \<Rightarrow> cancel_store \<Rightarrow> cancelable \<Rightarrow> cancelable \<Rightarrow>
   'h reply_handler reader_task \<Rightarrow> bytes result \<Rightarrow> 'h socks5_client \<Rightarrow> 'h sc_reaction" where
  "on_reader_task e pad st new tok t r s =
     exec_bind
       (case t of
          On_Length_Read \<Rightarrow> on_length_read st tok r (sc_reader s)
        | On_Pattern_Read \<Rightarrow> Inr (sc_reader s, [])
        | Deliver c k xs \<Rightarrow>
            exec_bind (run_deliver st c k xs) (\<lambda>as. Inr (sc_reader s, as))) (\<lambda>(rd, as).
     let s' = s\<lparr>sc_reader := rd\<rparr>
     in case as of
          [Give_Data k d] \<Rightarrow> on_reply e pad st new tok k d s'
        | _ \<Rightarrow> Inr (s', concat (map lift_reader as)))"

section \<open>The request on the wire\<close>

definition socks5_request :: "endpoint \<Rightarrow> ip_address \<Rightarrow> bytes" where
  "socks5_request ep a =
     [5, 1, 0] @
     (if etype ep = Domain_Type then [3, of_nat (length (host ep))] @ bytes_of_string (host ep)
      else (if is_v4 a then 1 else 4) # address_bytes a) @
     be_half_bytes (port ep)"

lemma splice_at: "length xs = i \<Longrightarrow> length ys = n \<Longrightarrow> length zs = n \<Longrightarrow>
    splice (xs @ ys @ ws) i zs = xs @ zs @ ws"
  by (simp add: splice_def)

text \<open>Room of \<open>n + 5\<close> bytes behind two bytes, filled field by field.\<close>

lemma split_pad:
  assumes "length p = k + n"
  obtains xs ys where "p = xs @ ys" "length xs = k" "length ys = n"
  using assms by (metis add_diff_cancel_left' append_take_drop_id length_drop length_take
      min.absorb2 le_add1)

lemma two_bytes:
  assumes "length ys = 2" obtains a b where "ys = [a, b]"
  using assms by (metis (no_types) One_nat_def Suc_1 length_0_conv length_Suc_conv)

lemma build_request_domain:
  assumes "etype ep = Domain_Type" "\<And>n. length (pad n) = n"
  shows "build_request e pad [v, m] ep =
           Inr ([v, 1, 0, 3, of_nat (length (host ep))] @ bytes_of_string (host ep) @
                be_half_bytes (port ep))"
proof -
  let ?n = "length (host ep)"
  obtain hd3 rest where p: "pad (5 + ?n) = hd3 @ rest" "length hd3 = 3" "length rest = ?n + 2"
    by (rule split_pad [of "pad (5 + ?n)" 3 "?n + 2"]) (use assms in auto)
  obtain xs ys where r: "rest = xs @ ys" "length xs = ?n" "length ys = 2"
    by (rule split_pad [of rest ?n 2]) (use p in auto)
  obtain a b c where h: "hd3 = [a, b, c]" using p(2)
    by (auto simp: numeral_3_eq_3 length_Suc_conv)
  have pad: "pad (Suc (Suc (Suc (Suc (Suc ?n))))) = a # b # c # xs @ ys"
    using p(1) r(1) h by (simp add: eval_nat_numeral)
  have s1: "splice (v # 1 # a # 3 # of_nat ?n # xs @ ys) 5 (bytes_of_string (host ep)) =
      v # 1 # a # 3 # of_nat ?n # bytes_of_string (host ep) @ ys"
    using splice_at [of "[v, 1, a, 3, of_nat ?n]" 5 xs ?n "bytes_of_string (host ep)" ys] r(2) by simp
  have s2: "splice (v # 1 # 0 # 3 # of_nat ?n # bytes_of_string (host ep) @ ys) (5 + ?n)
        (be_half_bytes (port ep)) =
      v # 1 # 0 # 3 # of_nat ?n # bytes_of_string (host ep) @ be_half_bytes (port ep)"
    using splice_at [of "[v, 1, 0, 3, of_nat ?n] @ bytes_of_string (host ep)" "5 + ?n" ys 2
        "be_half_bytes (port ep)" "[]"] r(3) by simp
  show ?thesis
    using assms(1) s1 s2 r(2,3)
    by (simp add: build_request_def bb_put_def bb_set_data_def Let_def pad)
qed

lemma fill_address:
  assumes "length (pad (4 + n)) = 4 + n" "length as = n" "0 < n"
  shows "exec_bind (bb_put ([v, m] @ pad (4 + n)) 3 t) (\<lambda>b.
         exec_bind (bb_set_data b 4 as) (\<lambda>b.
         exec_bind (bb_put b 2 0) (\<lambda>b. bb_set_data b (4 + n) (be_half_bytes w)))) =
         Inr ([v, m, 0, t] @ as @ be_half_bytes w)"
proof -
  obtain hd2 rest where p: "pad (4 + n) = hd2 @ rest" "length hd2 = 2" "length rest = n + 2"
    by (rule split_pad [of "pad (4 + n)" 2 "n + 2"]) (use assms in auto)
  obtain xs ys where r: "rest = xs @ ys" "length xs = n" "length ys = 2"
    by (rule split_pad [of rest n 2]) (use p in auto)
  obtain a b where h: "hd2 = [a, b]" using p(2) two_bytes by blast
  have s1: "splice (v # m # a # t # xs @ ys) 4 as = v # m # a # t # as @ ys"
    using splice_at [of "[v, m, a, t]" 4 xs n as ys] r(2) assms(2) by simp
  have s2: "splice (v # m # 0 # t # as @ ys) (4 + n) (be_half_bytes w) =
      v # m # 0 # t # as @ be_half_bytes w"
    using splice_at [of "[v, m, 0, t] @ as" "4 + n" ys 2 "be_half_bytes w" "[]"] r(3) assms(2) by simp
  show ?thesis
    using s1 s2 r assms(2,3) by (simp add: p(1) h bb_put_def bb_set_data_def)
qed

lemma build_request_address:
  assumes "etype ep = Address_Type" "endpoint_address ep = Inr a" "\<And>n. length (pad n) = n"
  shows "build_request e pad [v, m] ep =
           Inr ([v, 1, 0, if is_v4 a then 1 else 4] @ address_bytes a @ be_half_bytes (port ep))"
proof (cases "is_v4 a")
  case True
  then show ?thesis
    using fill_address [of pad 4 "address_bytes a" v 1 1 "port ep"] assms
    by (simp add: build_request_def bb_put_def [of "[v, m]"] exec_bind_assoc length_address_bytes)
next
  case False
  then show ?thesis
    using fill_address [of pad 16 "address_bytes a" v 1 4 "port ep"] assms
    by (simp add: build_request_def bb_put_def [of "[v, m]"] exec_bind_assoc length_address_bytes)
qed

lemma build_request_ok:
  assumes "\<And>n. length (pad n) = n"
    and "etype ep = Domain_Type \<or> endpoint_address ep = Inr a"
  shows "build_request e pad [5, 0] ep = Inr (socks5_request ep a)"
  using build_request_domain [OF _ assms(1), of ep e 5 0]
    build_request_address [OF _ _ assms(1), of ep a e 5 0] assms(2)
  by (cases "etype ep") (auto simp: socks5_request_def)

section \<open>Properties\<close>

text \<open>
  The request sent to the server after its method reply is the SOCKS5 connect request for
  the target: the name with its length, or the address in network order, then the port in
  network order, on hosts of either byte order and whatever bytes the enlarged buffer held.
\<close>

theorem client_sends_request:
  assumes "\<And>n. length (pad n) = n" "target_endpoint s = Some ep"
    and "etype ep = Domain_Type \<or> endpoint_address ep = Inr a"
    and "canceled c st = Inr False"
  shows "on_reply e pad st new tok (Method_Reply c h) (Inr [5, 0]) s =
           Inr (s\<lparr>connect_action_cancelable := tok\<rparr>,
                [Do_Write (socks5_request ep a) (Request_Written c h)])"
  using assms build_request_ok [OF assms(1,3)]
  by (simp add: on_reply_def unless_canceled_def on_method_reply_def bb_get_def)

theorem client_sends_request_witness:
  "on_reply Little_Endian (\<lambda>n. replicate n 255) [False] None (Some 7) (Method_Reply (Some 0) (3::nat))
     (Inr [5, 0])
     ((socks5_client_new (endpoint_with_host (\<lambda>_. None) ''proxy'' 1080 None) None None None None)
        \<lparr>target_endpoint := Some (endpoint_with_host (\<lambda>_. None) ''ab'' 443 None)\<rparr>) =
   Inr ((socks5_client_new (endpoint_with_host (\<lambda>_. None) ''proxy'' 1080 None) None (Some 7) None None)
        \<lparr>target_endpoint := Some (endpoint_with_host (\<lambda>_. None) ''ab'' 443 None)\<rparr>,
        [Do_Write [5, 1, 0, 3, 2, 97, 98, 1, 187] (Request_Written (Some 0) 3)])"
proof -
  have "socks5_request (endpoint_with_host (\<lambda>_. None) ''ab'' 443 None) (V4 0) =
      [5, 1, 0, 3, 2, 97, 98, 1, 187]"
    by (simp add: socks5_request_def endpoint_with_host_def bytes_of_string_def be_half_bytes_def
        drop_bit_eq_div)
  then show ?thesis
    using client_sends_request [of "\<lambda>n. replicate n 255"
        "(socks5_client_new (endpoint_with_host (\<lambda>_. None) ''proxy'' 1080 None) None None None None)
           \<lparr>target_endpoint := Some (endpoint_with_host (\<lambda>_. None) ''ab'' 443 None)\<rparr>"
        "endpoint_with_host (\<lambda>_. None) ''ab'' 443 None" "V4 0" "Some 0" "[False]" Little_Endian None
        "Some 7" "3::nat"]
    by (simp add: canceled_def endpoint_with_host_def socks5_client_new_def)
qed

end
