(* ===== verification/Socks5_Server.thy ===== *)
theory Socks5_Server
  imports Flow_Interface Network_Order
begin

text \<open>
  \<open>data_flow::Socks5ServerDataFlow\<close> (src/data_flow/socks5_server_data_flow.cc): the server
  side of a SOCKS5 negotiation over the next local hop, then a plain relay to it.
\<close>

section \<open>State\<close>

datatype socks5_server_error_code =
    IllegalRequest | UnsupportedVersion | UnsupportedAuthenticationMethod | UnsupportedCommand
  | UnsupportedAddressType

fun socks5_server_code :: "socks5_server_error_code \<Rightarrow> int" where
  "socks5_server_code IllegalRequest = 1"
| "socks5_server_code UnsupportedVersion = 2"
| "socks5_server_code UnsupportedAuthenticationMethod = 3"
| "socks5_server_code UnsupportedCommand = 4"
| "socks5_server_code UnsupportedAddressType = 5"

definition socks5_server_error :: "socks5_server_error_code \<Rightarrow> error" where
  "socks5_server_error c = error_of Socks5_Server_Category (socks5_server_code c)"

datatype negotiate_state = ReadingVersion | ReadingRequest

definition server_buffer_size :: nat where "server_buffer_size = 128"

record 'h socks5_server =
  ss_session :: session
  pending_auth :: "bytes option"
  pending_auth_length :: nat
  ss_handler :: "'h option"
  ss_machine :: fsm
  negotiation_state :: negotiate_state
  open_cancelable :: cancelable
  read_cancelable :: cancelable
  write_cancelable :: cancelable

datatype 'h socks5_server_task =
    Server_Read 'h | Server_Written 'h | Server_Write_Closed 'h | Server_Opened 'h
  | Negotiate | Hello_Written | Reply_Written | Continued cancelable

type_synonym 'h ss_reaction = "('h socks5_server, 'h, 'h socks5_server_task) reaction"

definition socks5_server_new ::
  "session \<Rightarrow> cancelable \<Rightarrow> cancelable \<Rightarrow> cancelable \<Rightarrow> 'h socks5_server" where
  "socks5_server_new s oc rc wc =
     \<lparr>ss_session = s, pending_auth = None, pending_auth_length = 0, ss_handler = None,
      ss_machine = fsm_new Local, negotiation_state = ReadingVersion, open_cancelable = oc,
      read_cancelable = rc, write_cancelable = wc\<rparr>"

definition socks5_server_destroy ::
  "'h socks5_server \<Rightarrow> ('h, 'h socks5_server_task) action list" where
  "socks5_server_destroy s =
     [Cancel_Token (open_cancelable s), Cancel_Token (read_cancelable s),
      Cancel_Token (write_cancelable s)]"

section \<open>The relay\<close>

definition server_read :: "cancelable \<Rightarrow> 'h \<Rightarrow> 'h socks5_server \<Rightarrow> 'h ss_reaction" where
  "server_read tok h s =
     exec_bind (read_begin (ss_machine s)) (\<lambda>m.
     Inr (s\<lparr>ss_machine := m, read_cancelable := tok\<rparr>, [Do_Read (Server_Read h)]))"

definition server_on_read :: "'h \<Rightarrow> bytes result \<Rightarrow> 'h socks5_server \<Rightarrow> 'h ss_reaction" where
  "server_on_read h r s =
     exec_bind (read_end (ss_machine s)) (\<lambda>m.
     case r of
       Inl e \<Rightarrow>
         (if is_eof e
          then exec_bind (read_close m) (\<lambda>m'.
               Inr (s\<lparr>ss_machine := m'\<rparr>, [Give_Data h r]))
          else Inr (s\<lparr>ss_machine := errored m\<rparr>,
                    [Cancel_Token (write_cancelable s), Give_Data h r]))
     | Inr xs \<Rightarrow> Inr (s\<lparr>ss_machine := m\<rparr>, [Give_Data h r]))"

definition server_write :: "cancelable \<Rightarrow> bytes \<Rightarrow> 'h \<Rightarrow> 'h socks5_server \<Rightarrow> 'h ss_reaction" where
  "server_write tok xs h s =
     exec_bind (write_begin (ss_machine s)) (\<lambda>m.
     Inr (s\<lparr>ss_machine := m, write_cancelable := tok\<rparr>, [Do_Write xs (Server_Written h)]))"

definition server_on_written :: "'h \<Rightarrow> unit result \<Rightarrow> 'h socks5_server \<Rightarrow> 'h ss_reaction" where
  "server_on_written h r s =
     exec_bind (write_end (ss_machine s)) (\<lambda>m.
     case r of
       Inl e \<Rightarrow> Inr (s\<lparr>ss_machine := errored m\<rparr>, [Cancel_Token (read_cancelable s), Give h r])
     | Inr _ \<Rightarrow> Inr (s\<lparr>ss_machine := m\<rparr>, [Give h r]))"

definition server_close_write :: "cancelable \<Rightarrow> 'h \<Rightarrow> 'h socks5_server \<Rightarrow> 'h ss_reaction" where
  "server_close_write tok h s =
     exec_bind (write_close_begin (ss_machine s)) (\<lambda>m.
     Inr (s\<lparr>ss_machine := m, write_cancelable := tok\<rparr>, [Do_Close_Write (Server_Write_Closed h)]))"

definition server_on_write_closed :: "'h \<Rightarrow> unit result \<Rightarrow> 'h socks5_server \<Rightarrow> 'h ss_reaction" where
  "server_on_write_closed h r s =
     exec_bind (write_close_end (ss_machine s)) (\<lambda>m.
     Inr (s\<lparr>ss_machine := (case r of Inl e \<Rightarrow> errored m | Inr _ \<Rightarrow> m)\<rparr>, [Give h r]))"

section \<open>The negotiation\<close>

definition negotiate_read :: "cancelable \<Rightarrow> 'h socks5_server \<Rightarrow> 'h ss_reaction" where
  "negotiate_read tok s = Inr (s\<lparr>read_cancelable := tok\<rparr>, [Do_Read Negotiate])"

definition server_open :: "cancelable \<Rightarrow> 'h \<Rightarrow> 'h socks5_server \<Rightarrow> 'h ss_reaction" where
  "server_open tok h s =
     exec_bind (connect_begin (ss_machine s)) (\<lambda>m.
     Inr (s\<lparr>ss_machine := m, open_cancelable := tok\<rparr>, [Do_Open (Server_Opened h)]))"

definition server_on_opened ::
  "cancelable \<Rightarrow> 'h \<Rightarrow> unit result \<Rightarrow> 'h socks5_server \<Rightarrow> 'h ss_reaction" where
  "server_on_opened tok h r s =
     (case r of
        Inl e \<Rightarrow> Inr (s\<lparr>ss_machine := errored (ss_machine s)\<rparr>, [Give h r])
      | Inr _ \<Rightarrow> negotiate_read tok (s\<lparr>ss_handler := Some h\<rparr>))"

text \<open>\<open>state_machine_.Errored(); handler_(error); return;\<close>\<close>

definition server_fail :: "error \<Rightarrow> 'h socks5_server \<Rightarrow> 'h ss_reaction" where
  "server_fail e s =
     call_handler (ss_handler s) (\<lambda>h.
       Inr (s\<lparr>ss_machine := errored (ss_machine s)\<rparr>, [Give h (Inl e)]))"

definition server_reject :: "socks5_server_error_code \<Rightarrow> 'h socks5_server \<Rightarrow> 'h ss_reaction" where
  "server_reject c s = server_fail (socks5_server_error c) s"

definition ensure_pending_auth_buffer :: "'h socks5_server \<Rightarrow> 'h socks5_server" where
  "ensure_pending_auth_buffer s =
     (case pending_auth s of
        None \<Rightarrow> s\<lparr>pending_auth := Some (replicate server_buffer_size 0)\<rparr>
      | Some p \<Rightarrow> s)"

definition append_to_auth_buffer :: "bytes \<Rightarrow> 'h socks5_server \<Rightarrow> 'h socks5_server exec" where
  "append_to_auth_buffer xs s =
     (case pending_auth s of
        None \<Rightarrow> Inl Assert_Failed
      | Some p \<Rightarrow>
          boost_assert (pending_auth_length s + length xs \<le> server_buffer_size)
            (exec_bind (mem_write p (pending_auth_length s) xs) (\<lambda>p'.
             Inr (s\<lparr>pending_auth := Some p',
                    pending_auth_length := pending_auth_length s + length xs\<rparr>))))"

text \<open>
  The hello: \<open>p\<close> is the block, \<open>xs\<close> the last fragment read, whose first two bytes become
  the reply.
\<close>

definition read_version ::
  "cancelable \<Rightarrow> bytes \<Rightarrow> bytes \<Rightarrow> 'h socks5_server \<Rightarrow> 'h ss_reaction" where
  "read_version tok p xs s =
     (let n = pending_auth_length s; len = unat (p ! 1)
      in if n < 3 then negotiate_read tok s
         else if p ! 0 \<noteq> 5 then server_reject UnsupportedVersion s
         else if n < len + 2 then negotiate_read tok s
         else if n > len + 2 then server_reject IllegalRequest s
         else if \<not> list_ex (\<lambda>i. p ! (i + 2) = 0) [0..<len]
              then server_reject UnsupportedAuthenticationMethod s
         else exec_bind (bb_shrink_back xs (sz_sub (length xs) 2)) (\<lambda>reply.
              exec_bind (bb_put reply 1 0) (\<lambda>reply.
              Inr (s\<lparr>pending_auth_length := 0, write_cancelable := tok\<rparr>,
                   [Do_Write reply Hello_Written]))))"

text \<open>The end of a request: the port at \<open>offset\<close>, the state and the handler.\<close>

definition finish_request ::
  "byte_order \<Rightarrow> bytes \<Rightarrow> nat \<Rightarrow> endpoint \<Rightarrow> 'h socks5_server \<Rightarrow> 'h ss_reaction" where
  "finish_request e p offset ep s =
     (let session = session_set_endpoint ep (ss_session s)
      in exec_bind (mem_read p offset 2) (\<lambda>bs.
         exec_bind (connected (ss_machine s)) (\<lambda>m.
         call_handler (ss_handler s) (\<lambda>h.
           Inr (s\<lparr>ss_session := session\<lparr>session_endpoint :=
                    map_option (\<lambda>ep. ep\<lparr>port := ntohs e (host_half e bs)\<rparr>) (session_endpoint session)\<rparr>,
                  ss_machine := m\<rparr>,
                [Give h (Inr ())])))))"

definition read_request ::
  "byte_order \<Rightarrow> (string \<Rightarrow> ip_address option) \<Rightarrow> (ip_address \<Rightarrow> string) \<Rightarrow> cancelable \<Rightarrow>
   cancelable \<Rightarrow> bytes \<Rightarrow> 'h socks5_server \<Rightarrow> 'h ss_reaction" where
  "read_request e parse show_ip new tok p s =
     (let n = pending_auth_length s; offset = 4; len = unat (p ! offset)
      in if n < 10 then negotiate_read tok s
         else if p ! 0 \<noteq> 5 then server_reject UnsupportedVersion s
         else if p ! 1 \<noteq> 1 then server_reject UnsupportedCommand s
         else if p ! 2 \<noteq> 0 then server_reject IllegalRequest s
         else if p ! 3 = 1
         then (if n \<noteq> 10 then server_reject IllegalRequest s
               else finish_request e p (offset + 4)
                      (endpoint_with_address show_ip (address_v4 (take 4 (drop offset p))) 0 new) s)
         else if p ! 3 = 3
         then (if n < offset + 1 + len + 2 then negotiate_read tok s
               else if n > offset + 1 + len + 2 then server_reject IllegalRequest s
               else finish_request e p (offset + 1 + len)
                      (endpoint_with_host parse (string_of_bytes (take len (drop (offset + 1) p))) 0 new) s)
         else if p ! 3 = 4
         then (if n < 22 then negotiate_read tok s
               else if n > 22 then server_reject IllegalRequest s
               else finish_request e p (offset + 16)
                      (endpoint_with_address show_ip (address_v6 (take 16 (drop offset p))) 0 new) s)
         else server_reject IllegalRequest s)"

text \<open>\<open>new\<close> is the flag of an endpoint made here.\<close>

definition on_negotiate ::
  "byte_order \<Rightarrow> (string \<Rightarrow> ip_address option) \<Rightarrow> (ip_address \<Rightarrow> string) \<Rightarrow> cancelable \<Rightarrow>
   cancelable \<Rightarrow> bytes result \<Rightarrow> 'h socks5_server \<Rightarrow> 'h ss_reaction" where
  "on_negotiate e parse show_ip new tok r s =
     (case r of
        Inl err \<Rightarrow> server_fail err s
      | Inr xs \<Rightarrow>
          (let s1 = ensure_pending_auth_buffer s
           in if pending_auth_length s1 + length xs > server_buffer_size
              then server_reject IllegalRequest s1
              else exec_bind (append_to_auth_buffer xs s1) (\<lambda>s2.
                   case pending_auth s2 of
                     None \<Rightarrow> Inl Null_Deref
                   | Some p \<Rightarrow>
                       (case negotiation_state s2 of
                          ReadingVersion \<Rightarrow> read_version tok p xs s2
                        | ReadingRequest \<Rightarrow> read_request e parse show_ip new tok p s2))))"

definition on_hello_written ::
  "cancelable \<Rightarrow> unit result \<Rightarrow> 'h socks5_server \<Rightarrow> 'h ss_reaction" where
  "on_hello_written tok r s =
     (case r of
        Inl e \<Rightarrow> server_fail e s
      | Inr _ \<Rightarrow> negotiate_read tok (s\<lparr>negotiation_state := ReadingRequest\<rparr>))"

section \<open>Continuing after the remote side is connected\<close>

definition reply_shape :: "endpoint \<Rightarrow> (nat \<times> u8) exec" where
  "reply_shape ep =
     (case etype ep of
        Domain_Type \<Rightarrow> Inr (10, 1)
      | Address_Type \<Rightarrow>
          exec_bind (endpoint_address ep) (\<lambda>a. Inr (if is_v4 a then (10, 1) else (22, 4))))"

text \<open>The buffer starts as zeros; the loop of the code stops four bytes before its end.\<close>

definition continue_reply :: "nat \<Rightarrow> u8 \<Rightarrow> bytes exec" where
  "continue_reply len type =
     exec_bind (bb_put (replicate len 0) 0 5) (\<lambda>b.
     exec_bind (bb_put b 1 0) (\<lambda>b.
     exec_bind (bb_put b 2 0) (\<lambda>b.
     exec_bind (bb_put b 3 type) (\<lambda>b.
     fold (\<lambda>i r. exec_bind r (\<lambda>b. bb_put b i 0)) [4..<len - 4] (Inr b)))))"

definition server_continue :: "cancelable \<Rightarrow> 'h \<Rightarrow> 'h socks5_server \<Rightarrow> 'h ss_reaction" where
  "server_continue tok h s =
     (case session_endpoint (ss_session s) of
        None \<Rightarrow> Inl Null_Deref
      | Some ep \<Rightarrow>
          exec_bind (reply_shape ep) (\<lambda>(len, type).
          exec_bind (continue_reply len type) (\<lambda>b.
          Inr (s\<lparr>ss_handler := Some h, open_cancelable := tok\<rparr>, [Do_Write b Reply_Written]))))"

definition on_reply_written ::
  "cancelable \<Rightarrow> unit result \<Rightarrow> 'h socks5_server \<Rightarrow> 'h ss_reaction" where
  "on_reply_written tok r s =
     (case r of
        Inl e \<Rightarrow> server_fail e s
      | Inr _ \<Rightarrow> Inr (s\<lparr>write_cancelable := tok\<rparr>, [Do_Continue (Continued (open_cancelable s))]))"

definition on_continued ::
  "cancel_store \<Rightarrow> cancelable \<Rightarrow> unit result \<Rightarrow> 'h socks5_server \<Rightarrow> 'h ss_reaction" where
  "on_continued st c r s =
     exec_bind (canceled c st) (\<lambda>stop.
       if stop then Inr (s, [])
       else case r of
              Inl e \<Rightarrow> server_fail e s
            | Inr _ \<Rightarrow>
                exec_bind (connected (ss_machine s)) (\<lambda>m.
                call_handler (ss_handler s) (\<lambda>h.
                  Inr (s\<lparr>ss_machine := m\<rparr>, [Give h (Inr ())]))))"

lemmas ss_defs = server_fail_def server_reject_def negotiate_read_def

section \<open>What the negotiation decides\<close>

text \<open>The bytes received and not yet used, and the invariant of the block that holds them.\<close>

definition pending :: "'h socks5_server \<Rightarrow> bytes" where
  "pending s = (case pending_auth s of None \<Rightarrow> [] | Some p \<Rightarrow> take (pending_auth_length s) p)"

definition block_ok :: "'h socks5_server \<Rightarrow> bool" where
  "block_ok s \<longleftrightarrow> pending_auth_length s \<le> server_buffer_size \<and>
     (case pending_auth s of None \<Rightarrow> pending_auth_length s = 0 | Some p \<Rightarrow> length p = server_buffer_size)"

text \<open>What a request says, as far as it has come.\<close>

datatype verdict =
    More | Reject socks5_server_error_code | To_Address ip_address u16 | To_Host string u16

definition request_verdict :: "bytes \<Rightarrow> verdict" where
  "request_verdict bs =
     (let n = length bs; len = unat (bs ! 4)
      in if n < 10 then More
         else if bs ! 0 \<noteq> 5 then Reject UnsupportedVersion
         else if bs ! 1 \<noteq> 1 then Reject UnsupportedCommand
         else if bs ! 2 \<noteq> 0 then Reject IllegalRequest
         else if bs ! 3 = 1
         then (if n = 10 then To_Address (address_v4 (take 4 (drop 4 bs))) (be_half (drop 8 bs))
               else Reject IllegalRequest)
         else if bs ! 3 = 3
         then (if n < len + 7 then More
               else if n = len + 7
               then To_Host (string_of_bytes (take len (drop 5 bs))) (be_half (drop (5 + len) bs))
               else Reject IllegalRequest)
         else if bs ! 3 = 4
         then (if n < 22 then More
               else if n = 22 then To_Address (address_v6 (take 16 (drop 4 bs))) (be_half (drop 20 bs))
               else Reject IllegalRequest)
         else Reject IllegalRequest)"

definition accept_endpoint :: "endpoint \<Rightarrow> u16 \<Rightarrow> 'h socks5_server \<Rightarrow> 'h socks5_server" where
  "accept_endpoint ep w s =
     s\<lparr>ss_session := (ss_session s)\<lparr>session_endpoint :=
          Some (ep\<lparr>resolver := session_resolver (ss_session s), port := w\<rparr>)\<rparr>,
       ss_machine := (ss_machine s)\<lparr>state := Established\<rparr>\<rparr>"

fun act_on ::
  "(string \<Rightarrow> ip_address option) \<Rightarrow> (ip_address \<Rightarrow> string) \<Rightarrow> cancelable \<Rightarrow> cancelable \<Rightarrow> 'h \<Rightarrow>
   verdict \<Rightarrow> 'h socks5_server \<Rightarrow> 'h socks5_server \<times> ('h, 'h socks5_server_task) action list" where
  "act_on parse show_ip new tok h More s = (s\<lparr>read_cancelable := tok\<rparr>, [Do_Read Negotiate])"
| "act_on parse show_ip new tok h (Reject c) s =
     (s\<lparr>ss_machine := errored (ss_machine s)\<rparr>, [Give h (Inl (socks5_server_error c))])"
| "act_on parse show_ip new tok h (To_Address a w) s =
     (accept_endpoint (endpoint_with_address show_ip a 0 new) w s, [Give h (Inr ())])"
| "act_on parse show_ip new tok h (To_Host d w) s =
     (accept_endpoint (endpoint_with_host parse d 0 new) w s, [Give h (Inr ())])"

lemma take_in_prefix: "i + k \<le> n \<Longrightarrow> take k (drop i (take n p)) = take k (drop i p)"
  by (simp add: drop_take min_def)

lemma drop_in_prefix: "n = i + k \<Longrightarrow> drop i (take n p) = take k (drop i p)"
  by (simp add: drop_take)

lemma finish_request_ok:
  assumes "i + 2 \<le> length p" "state (ss_machine s) = Establishing" "ss_handler s = Some h"
  shows "finish_request e p i ep s =
           Inr (accept_endpoint ep (be_half (take 2 (drop i p))) s, [Give h (Inr ())])"
  using assms
  by (simp add: finish_request_def accept_endpoint_def session_set_endpoint_def connected_def Let_def)

lemma read_request_verdict:
  assumes "pending_auth s = Some p" "length p = server_buffer_size"
    and "pending_auth_length s \<le> server_buffer_size"
    and "state (ss_machine s) = Establishing" "ss_handler s = Some h"
  shows "read_request e parse show_ip new tok p s =
           Inr (act_on parse show_ip new tok h (request_verdict (pending s)) s)"
proof -
  let ?n = "pending_auth_length s"
  have pend: "pending s = take ?n p" and len: "length (pending s) = ?n"
    using assms by (auto simp: pending_def)
  show ?thesis
  proof (cases "?n < 10")
    case True
    then show ?thesis by (simp add: read_request_def request_verdict_def len negotiate_read_def)
  next
    case False
    have nth: "pending s ! i = p ! i" if "i < 10" for i
      using that False by (simp add: pend)
    note fin = finish_request_ok [OF _ assms(4,5)]
    show ?thesis
      using False assms len nth [of 0] nth [of 1] nth [of 2] nth [of 3] nth [of 4]
      by (auto simp: read_request_def request_verdict_def ss_defs Let_def fin pend server_buffer_size_def
          take_in_prefix drop_in_prefix)
  qed
qed

lemma append_ok:
  assumes "block_ok s" "pending_auth_length s + length xs \<le> server_buffer_size"
  obtains p where
    "append_to_auth_buffer xs (ensure_pending_auth_buffer s) =
       Inr (s\<lparr>pending_auth := Some p, pending_auth_length := pending_auth_length s + length xs\<rparr>)"
    "length p = server_buffer_size"
    "take (pending_auth_length s + length xs) p = pending s @ xs"
proof -
  let ?n = "pending_auth_length s"
  let ?q = "case pending_auth s of None \<Rightarrow> replicate server_buffer_size 0 | Some q \<Rightarrow> q"
  have q: "length ?q = server_buffer_size" "take ?n ?q = pending s"
    using assms(1) by (auto simp: block_ok_def pending_def split: option.splits)
  have np: "length (pending s) = ?n" using assms(1) q(1) by (auto simp: q(2) [symmetric] block_ok_def)
  have ens: "ensure_pending_auth_buffer s = s\<lparr>pending_auth := Some ?q\<rparr>"
    by (cases "pending_auth s"; cases s) (simp_all add: ensure_pending_auth_buffer_def)
  have fit: "?n + length xs \<le> length ?q" using assms(2) q(1) by simp
  show ?thesis
    by (rule that [of "take ?n ?q @ xs @ drop (?n + length xs) ?q"])
      (use fit assms(2) q np in \<open>simp_all add: ens append_to_auth_buffer_def\<close>)
qed

lemma on_negotiate_request:
  assumes "block_ok s" "negotiation_state s = ReadingRequest" "ss_handler s = Some h"
    and "state (ss_machine s) = Establishing" "length (pending s @ xs) \<le> server_buffer_size"
  shows "\<exists>s'. on_negotiate e parse show_ip new tok (Inr xs) s =
           Inr (act_on parse show_ip new tok h (request_verdict (pending s @ xs)) s') \<and>
         block_ok s' \<and> pending s' = pending s @ xs \<and> ss_session s' = ss_session s \<and>
         ss_machine s' = ss_machine s \<and> ss_handler s' = ss_handler s \<and>
         negotiation_state s' = negotiation_state s"
proof -
  have len: "pending_auth_length s + length xs \<le> server_buffer_size"
    using assms(1,5) by (auto simp: block_ok_def pending_def split: option.splits)
  obtain p where p: "append_to_auth_buffer xs (ensure_pending_auth_buffer s) =
       Inr (s\<lparr>pending_auth := Some p, pending_auth_length := pending_auth_length s + length xs\<rparr>)"
    "length p = server_buffer_size" "take (pending_auth_length s + length xs) p = pending s @ xs"
    by (rule append_ok [OF assms(1) len])
  let ?s = "s\<lparr>pending_auth := Some p, pending_auth_length := pending_auth_length s + length xs\<rparr>"
  have pend: "pending ?s = pending s @ xs" using p(3) by (simp add: pending_def)
  have "pending_auth_length (ensure_pending_auth_buffer s) = pending_auth_length s"
    by (simp add: ensure_pending_auth_buffer_def split: option.splits)
  then have "on_negotiate e parse show_ip new tok (Inr xs) s =
      read_request e parse show_ip new tok p ?s"
    using len p(1) assms(2) by (simp add: on_negotiate_def Let_def)
  also have "\<dots> = Inr (act_on parse show_ip new tok h (request_verdict (pending s @ xs)) ?s)"
    using read_request_verdict [of ?s p h e parse show_ip new tok] p(2) len assms(3,4) pend by simp
  finally show ?thesis
    using p(2) pend len by (intro exI [of _ ?s]) (simp add: block_ok_def)
qed

text \<open>The negotiation fed with fragments, for as long as it asks for more.\<close>

fun feed_server ::
  "byte_order \<Rightarrow> (string \<Rightarrow> ip_address option) \<Rightarrow> (ip_address \<Rightarrow> string) \<Rightarrow> cancelable \<Rightarrow>
   cancelable \<Rightarrow> 'h socks5_server \<times> ('h, 'h socks5_server_task) action list \<Rightarrow> bytes list \<Rightarrow>
   (('h socks5_server \<times> ('h, 'h socks5_server_task) action list) \<times> bytes list) exec" where
  "feed_server e parse show_ip new tok (s, as) [] = Inr ((s, as), [])"
| "feed_server e parse show_ip new tok (s, as) (c # cs) =
     (if as = [Do_Read Negotiate]
      then exec_bind (on_negotiate e parse show_ip new tok (Inr c) s) (\<lambda>r.
           feed_server e parse show_ip new tok r cs)
      else Inr ((s, as), c # cs))"

lemma act_on_More [simp]: "block_ok (s\<lparr>read_cancelable := t\<rparr>) = block_ok s"
  "pending (s\<lparr>read_cancelable := t\<rparr>) = pending s"
  by (cases "pending_auth s"; simp add: block_ok_def pending_def)+

lemma feed_request:
  assumes "block_ok s" "negotiation_state s = ReadingRequest" "ss_handler s = Some h"
    and "state (ss_machine s) = Establishing"
    and "length (pending s @ concat cs) \<le> server_buffer_size"
    and "\<And>ys zs. ys @ zs = pending s @ concat cs \<Longrightarrow> zs \<noteq> [] \<Longrightarrow> request_verdict ys = More"
    and "[] \<notin> set cs" "cs \<noteq> []"
  shows "\<exists>s'. feed_server e parse show_ip new tok (s, [Do_Read Negotiate]) cs =
           Inr (act_on parse show_ip new tok h (request_verdict (pending s @ concat cs)) s', []) \<and>
         ss_session s' = ss_session s \<and> ss_machine s' = ss_machine s"
  using assms
proof (induction cs arbitrary: s)
  case (Cons c cs)
  have fit: "length (pending s @ c) \<le> server_buffer_size" using Cons.prems(5) by simp
  from on_negotiate_request [OF Cons.prems(1-4) fit, of e parse show_ip new tok]
  obtain s1 where s1: "on_negotiate e parse show_ip new tok (Inr c) s =
           Inr (act_on parse show_ip new tok h (request_verdict (pending s @ c)) s1)"
    "block_ok s1" "pending s1 = pending s @ c" "ss_session s1 = ss_session s"
    "ss_machine s1 = ss_machine s" "ss_handler s1 = ss_handler s"
    "negotiation_state s1 = negotiation_state s"
    by blast
  show ?case
  proof (cases "cs = []")
    case True
    then show ?thesis using s1
      by (intro exI [of _ s1])
        (cases "act_on parse show_ip new tok h (request_verdict (pending s @ c)) s1"; simp)
  next
    case False
    then have more: "request_verdict (pending s @ c) = More"
      using Cons.prems(6) [of "pending s @ c" "concat cs"] Cons.prems(7) by (cases cs) auto
    let ?s = "s1\<lparr>read_cancelable := tok\<rparr>"
    have "\<exists>s'. feed_server e parse show_ip new tok (?s, [Do_Read Negotiate]) cs =
           Inr (act_on parse show_ip new tok h (request_verdict (pending ?s @ concat cs)) s', []) \<and>
         ss_session s' = ss_session ?s \<and> ss_machine s' = ss_machine ?s"
      using Cons.prems False s1 by (intro Cons.IH) auto
    then show ?thesis using s1 more by auto
  qed
qed simp

section \<open>The hello\<close>

text \<open>
  A complete hello that offers the method without authentication, the last fragment of
  which is \<open>xs\<close>, is answered by two bytes when that fragment has at least three: the first
  byte of the fragment (5 when the hello came in one piece) and 0.  When the last fragment is
  shorter, shrinking it to two bytes stops at an assertion instead.
\<close>

theorem socks5_hello:
  assumes "block_ok s" "negotiation_state s = ReadingVersion"
    and "pending s @ xs = hello" "length hello \<le> server_buffer_size"
    and "3 \<le> length hello" "hello ! 0 = 5" "length hello = unat (hello ! 1) + 2"
    and "0 \<in> set (drop 2 hello)"
  shows "\<exists>s'. on_negotiate e parse show_ip new tok (Inr xs) s =
           (if length xs < 3 then Inl Assert_Failed
            else Inr (s', [Do_Write [hd xs, 0] Hello_Written])) \<and>
         block_ok s' \<and> pending s' = [] \<and> ss_handler s' = ss_handler s \<and>
         ss_machine s' = ss_machine s \<and> ss_session s' = ss_session s \<and>
         negotiation_state s' = ReadingVersion"
proof -
  have len: "pending_auth_length s + length xs \<le> server_buffer_size"
    and n: "pending_auth_length s + length xs = length hello"
    using assms(1,3,4) by (auto simp: block_ok_def pending_def split: option.splits)
  obtain p where p: "append_to_auth_buffer xs (ensure_pending_auth_buffer s) =
       Inr (s\<lparr>pending_auth := Some p, pending_auth_length := pending_auth_length s + length xs\<rparr>)"
    "length p = server_buffer_size" "take (pending_auth_length s + length xs) p = pending s @ xs"
    by (rule append_ok [OF assms(1) len])
  have hello: "take (length hello) p = hello" using p(3) n assms(3) by simp
  have nth: "p ! i = hello ! i" if "i < length hello" for i
    using that hello by (metis nth_take)
  have zero: "list_ex (\<lambda>i. p ! (i + 2) = 0) [0..<unat (hello ! 1)]"
  proof -
    obtain i where i: "i < length (drop 2 hello)" "drop 2 hello ! i = 0"
      using assms(8) by (auto simp: in_set_conv_nth)
    then have "i < unat (hello ! 1)" "p ! (i + 2) = 0"
      using assms(7) nth [of "i + 2"] by (auto simp: add.commute)
    then show ?thesis by (auto simp: list_ex_iff)
  qed
  let ?s = "s\<lparr>pending_auth := Some p, pending_auth_length := pending_auth_length s + length xs\<rparr>"
  have el: "pending_auth_length (ensure_pending_auth_buffer s) = pending_auth_length s"
    by (simp add: ensure_pending_auth_buffer_def split: option.splits)
  have run: "on_negotiate e parse show_ip new tok (Inr xs) s =
      exec_bind (bb_shrink_back xs (sz_sub (length xs) 2)) (\<lambda>reply.
      exec_bind (bb_put reply 1 0) (\<lambda>reply.
      Inr (?s\<lparr>pending_auth_length := 0, write_cancelable := tok\<rparr>, [Do_Write reply Hello_Written])))"
    using len p(1) assms(2,5,6,7) n el zero nth [of 0] nth [of 1]
    by (simp add: on_negotiate_def read_version_def Let_def)
  have shrink: "bb_shrink_back xs (sz_sub (length xs) 2) =
      (if length xs < 3 then Inl Assert_Failed else Inr (take 2 xs))"
  proof (cases "length xs < 3")
    case True
    then consider "length xs = 0" | "length xs = 1" | "length xs = 2" by linarith
    then show ?thesis
      by cases (simp_all add: bb_shrink_back_def bb_shrink_def sz_sub_def)
  next
    case False
    then show ?thesis by (simp add: bb_shrink_back_def bb_shrink_def delete_at_def)
  qed
  have put: "length xs \<ge> 3 \<Longrightarrow> bb_put (take 2 xs) 1 0 = Inr [hd xs, 0]"
    by (cases xs; cases "tl xs") (auto simp: bb_put_def numeral_2_eq_2)
  let ?s' = "?s\<lparr>pending_auth_length := 0, write_cancelable := tok\<rparr>"
  show ?thesis
    using p(2) put assms(2)
    by (intro exI [of _ ?s']) (simp add: run shrink block_ok_def pending_def)
qed

definition sample_server :: "nat socks5_server" where
  "sample_server = (socks5_server_new (session_new 0 None) (Some 0) (Some 1) (Some 2))
     \<lparr>ss_handler := Some 7, ss_machine := (fsm_new Local)\<lparr>state := Establishing\<rparr>\<rparr>"

theorem socks5_hello_witness:
  "\<exists>s'. on_negotiate Little_Endian (\<lambda>_. None) (\<lambda>_. []) None (Some 3) (Inr [5, 1, 0]) sample_server =
          Inr (s', [Do_Write [5, 0] Hello_Written])"
  using socks5_hello [of sample_server "[5, 1, 0]" "[5, 1, 0]" Little_Endian "\<lambda>_. None" "\<lambda>_. []" None "Some 3"]
  by (auto simp: sample_server_def socks5_server_new_def block_ok_def pending_def server_buffer_size_def)

text \<open>
  After a successful \<open>Open\<close> the flow is established, so the answer to the next hop's
  \<open>Continue\<close>, which declares it connected once more, always stops at an assertion of the state
  machine.
\<close>

theorem socks5_continue_asserts:
  assumes "state (ss_machine s) = Established" "canceled c st = Inr False"
  shows "on_continued st c (Inr ()) s = Inl Assert_Failed"
  using assms by (simp add: on_continued_def connected_def)

theorem socks5_continue_asserts_witness:
  "on_continued [False] (Some 0) (Inr ())
     (sample_server\<lparr>ss_machine := (fsm_new Local)\<lparr>state := Established\<rparr>\<rparr>) = Inl Assert_Failed"
  by (rule socks5_continue_asserts) (simp_all add: canceled_def)

end
