(* ===== verification/Socks5_Exchange.thy ===== *)
theory Socks5_Exchange
  imports Socks5_Client Socks5_Server
begin

text \<open>
  The two SOCKS5 flows against each other: what the client flow sends is what the server flow
  understands, and the server's answer is what the client reads.
\<close>

section \<open>The client's request at the server\<close>

definition request_outcome :: "endpoint \<Rightarrow> ip_address \<Rightarrow> verdict" where
  "request_outcome ep a =
     (if etype ep = Domain_Type then To_Host (host ep) (port ep) else To_Address a (port ep))"

definition host_fits :: "endpoint \<Rightarrow> bool" where
  "host_fits ep \<longleftrightarrow> (etype ep = Domain_Type \<longrightarrow> 3 \<le> length (host ep) \<and> length (host ep) \<le> 121)"

lemma length_request:
  "length (socks5_request ep a) =
     (if etype ep = Domain_Type then length (host ep) + 7 else if is_v4 a then 10 else 22)"
  by (simp add: socks5_request_def length_address_bytes)

lemma request_head:
  "i < 4 \<Longrightarrow> socks5_request ep a ! i =
     [5, 1, 0, if etype ep = Domain_Type then 3 else if is_v4 a then 1 else 4] ! i"
  "etype ep = Domain_Type \<Longrightarrow> socks5_request ep a ! 4 = of_nat (length (host ep))"
  by (auto simp: socks5_request_def less_Suc_eq numeral_eq_Suc)

lemma unat_length: "n < 256 \<Longrightarrow> unat (of_nat n :: u8) = n"
  by (simp add: unat_of_nat)

lemma request_verdict_whole:
  assumes "host_fits ep"
  shows "request_verdict (socks5_request ep a) = request_outcome ep a"
proof -
  note nth = request_head(1) [of 0 ep a] request_head(1) [of 1 ep a] request_head(1) [of 2 ep a]
    request_head(1) [of 3 ep a]
  show ?thesis
  proof (cases "etype ep = Domain_Type")
    case True
    then have "take (length (host ep)) (drop 5 (socks5_request ep a)) = bytes_of_string (host ep)"
      and "drop (5 + length (host ep)) (socks5_request ep a) = be_half_bytes (port ep)"
      using drop_append [of "5 + length (host ep)" "[5, 1, 0, 3, of_nat (length (host ep))] @
          bytes_of_string (host ep)" "be_half_bytes (port ep)"]
      by (simp_all add: socks5_request_def)
    then show ?thesis using True assms nth request_head(2) [OF True]
      by (simp add: request_verdict_def request_outcome_def length_request host_fits_def unat_length Let_def)
  next
    case False
    then show ?thesis using nth
      by (cases "is_v4 a")
        (simp_all add: request_verdict_def request_outcome_def length_request Let_def
          socks5_request_def length_address_bytes address_v4_bytes address_v6_bytes)
  qed
qed

lemma request_verdict_part:
  assumes "ys @ zs = socks5_request ep a" "zs \<noteq> []" "length (host ep) < 256"
  shows "request_verdict ys = More"
proof (cases "length ys < 10")
  case True
  then show ?thesis by (simp add: request_verdict_def)
next
  case False
  have len: "length ys < length (socks5_request ep a)"
    using assms(1,2) by (metis length_append length_greater_0_conv less_add_same_cancel1)
  have nth: "ys ! i = socks5_request ep a ! i" if "i < 5" for i
    using that False by (simp flip: assms(1) add: nth_append)
  show ?thesis
    using False len nth [of 0] nth [of 1] nth [of 2] nth [of 3] nth [of 4] assms(3)
      request_head(1) [of 0 ep a] request_head(1) [of 1 ep a] request_head(1) [of 2 ep a]
      request_head(1) [of 3 ep a] request_head(2) [of ep a]
    by (auto simp: request_verdict_def length_request unat_length Let_def split: if_splits)
qed

section \<open>Properties\<close>

text \<open>
  C23. The client's request, cut into fragments in any way, is accepted by the server flow once
  all of it has come and not before: the server's session then names the same host or address
  and the same port, and the handler is told once.  This needs a host name of 3 to 121
  characters.
\<close>

theorem request_reaches_server:
  assumes "block_ok s" "pending s = []" "negotiation_state s = ReadingRequest"
    and "ss_handler s = Some h" "state (ss_machine s) = Establishing"
    and "concat cs = socks5_request ep a" "[] \<notin> set cs" "host_fits ep"
  shows "\<exists>s' ep'. feed_server e parse show_ip new tok (s, [Do_Read Negotiate]) cs =
           Inr ((s', [Give h (Inr ())]), []) \<and>
         state (ss_machine s') = Established \<and> session_endpoint (ss_session s') = Some ep' \<and>
         port ep' = port ep \<and>
         (if etype ep = Domain_Type then host ep' = host ep
          else etype ep' = Address_Type \<and> raw_address ep' = a)"
proof -
  have len: "length (host ep) < 256 \<or> etype ep \<noteq> Domain_Type"
    and fit: "length (pending s @ concat cs) \<le> server_buffer_size"
    using assms(2,6,8) by (auto simp: host_fits_def length_request server_buffer_size_def)
  have part: "request_verdict ys = More" if "ys @ zs = pending s @ concat cs" "zs \<noteq> []" for ys zs
  proof (cases "etype ep = Domain_Type")
    case True
    then show ?thesis using that len assms(2,6) request_verdict_part by auto
  next
    case False
    have "socks5_request ep a = socks5_request (ep\<lparr>host := []\<rparr>) a"
      using False by (simp add: socks5_request_def)
    then show ?thesis
      using that assms(2,6) request_verdict_part [of ys zs "ep\<lparr>host := []\<rparr>" a] by simp
  qed
  have ne: "cs \<noteq> []" using assms(6) by (auto simp: socks5_request_def)
  have "\<exists>s'. feed_server e parse show_ip new tok (s, [Do_Read Negotiate]) cs =
      Inr (act_on parse show_ip new tok h (request_verdict (pending s @ concat cs)) s', []) \<and>
      ss_session s' = ss_session s \<and> ss_machine s' = ss_machine s"
    by (rule feed_request [OF assms(1,3,4,5) fit _ assms(7) ne]) (rule part)
  then obtain s' where
    "feed_server e parse show_ip new tok (s, [Do_Read Negotiate]) cs =
       Inr (act_on parse show_ip new tok h (request_outcome ep a) s', [])"
    using assms(2,6) request_verdict_whole [OF assms(8)] by auto
  then show ?thesis
    by (auto simp: request_outcome_def accept_endpoint_def endpoint_with_address_def
        endpoint_with_host_def Let_def split: option.splits)
qed

theorem request_reaches_server_witness:
  "\<exists>s' ep'. feed_server Little_Endian (\<lambda>_. None) (\<lambda>_. []) (Some 5) (Some 6)
          (sample_server\<lparr>negotiation_state := ReadingRequest\<rparr>, [Do_Read Negotiate])
          [[5, 1, 0, 3, 3, 97], [46, 98, 1, 187]] = Inr ((s', [Give 7 (Inr ())]), []) \<and>
        session_endpoint (ss_session s') = Some ep' \<and> host ep' = ''a.b'' \<and> port ep' = 443"
proof -
  have "concat [[5, 1, 0, 3, 3, 97], [46, 98, 1, 187]] =
      socks5_request (endpoint_with_host (\<lambda>_. None) ''a.b'' 443 None) (V4 0)"
    by (simp add: socks5_request_def endpoint_with_host_def bytes_of_string_def be_half_bytes_def
        drop_bit_eq_div)
  from request_reaches_server [OF _ _ _ _ _ this, where s =
      "sample_server\<lparr>negotiation_state := ReadingRequest\<rparr>" and h = 7 and e = Little_Endian
      and parse = "\<lambda>_. None" and show_ip = "\<lambda>_. []" and new = "Some 5" and tok = "Some 6"]
  show ?thesis
    by (auto simp: sample_server_def socks5_server_new_def block_ok_def pending_def host_fits_def
        endpoint_with_host_def server_buffer_size_def)
qed

text \<open>
  A complete request for a host name of one or two characters leaves the server flow
  waiting for more: it decides nothing before it has ten bytes, which such a request never has.
\<close>

theorem short_host_stalls:
  assumes "etype ep = Domain_Type" "length (host ep) < 3"
    and "block_ok s" "pending s = []" "negotiation_state s = ReadingRequest"
    and "ss_handler s = Some h" "state (ss_machine s) = Establishing"
  shows "\<exists>s'. on_negotiate e parse show_ip new tok (Inr (socks5_request ep a)) s =
           Inr (s', [Do_Read Negotiate])"
proof -
  have len: "length (socks5_request ep a) < 10" using assms(1,2) by (simp add: length_request)
  then have "request_verdict (socks5_request ep a) = More" by (simp add: request_verdict_def)
  moreover have "length (pending s @ socks5_request ep a) \<le> server_buffer_size"
    using len assms(4) by (simp add: server_buffer_size_def)
  ultimately show ?thesis
    using on_negotiate_request [OF assms(3,5,6,7), of "socks5_request ep a" e parse show_ip new tok]
      assms(4) by auto
qed

theorem short_host_stalls_witness:
  "\<exists>s'. on_negotiate Little_Endian (\<lambda>_. None) (\<lambda>_. []) None None
          (Inr (socks5_request (endpoint_with_host (\<lambda>_. None) ''a'' 443 None) (V4 0)))
          (sample_server\<lparr>negotiation_state := ReadingRequest\<rparr>) = Inr (s', [Do_Read Negotiate])"
  by (rule short_host_stalls [where h = 7])
    (simp_all add: sample_server_def socks5_server_new_def block_ok_def pending_def
      endpoint_with_host_def)

text \<open>
  C38. The reply the server flow sends when the remote side is connected is a well-formed
  success reply for every kind of endpoint, and the client flow that has read its first five
  bytes asks its reader for exactly the rest.
\<close>

theorem client_reads_whole_reply:
  assumes "reply_shape ep = Inr (len, t)"
  shows "\<exists>b. continue_reply len t = Inr b \<and> length b = len \<and> take 4 b = [5, 0, 0, t] \<and>
           drop 4 b = replicate (len - 4) 0 \<and>
           on_reply_head new tok c h (Inr (take 5 b)) s = ask_reader new tok (len - 5) (Reply_Tail c h) s"
proof -
  have "(len, t) = (10, 1) \<or> (len, t) = (22, 4)"
    using assms by (auto simp: reply_shape_def exec_bind_Inr split: endpoint_type.splits if_splits)
  moreover have "continue_reply 10 1 = Inr ([5, 0, 0, 1] @ replicate 6 0)"
    "continue_reply 22 4 = Inr ([5, 0, 0, 4] @ replicate 18 0)"
    by code_simp+
  ultimately show ?thesis
    by (elim disjE) (simp_all add: on_reply_head_def bb_get_def)
qed

theorem client_reads_whole_reply_witness:
  "\<exists>b. continue_reply 22 4 = Inr b \<and> length b = 22"
  using client_reads_whole_reply [of "endpoint_with_address (\<lambda>_. []) (V6 0 0 0 1) 80 None" 22 4
      None None None "0::nat"
      "socks5_client_new (endpoint_with_host (\<lambda>_. None) ''p'' 1080 None) None None None None"]
  by (auto simp: reply_shape_def endpoint_with_address_def endpoint_address_def)

text \<open>
  When the negotiation has succeeded the client flow tells its handler so, but stays in the
  state of a flow that is connecting: its state machine says that it can neither be read nor
  written.
\<close>

theorem client_never_established:
  assumes "state (sc_machine s) = Establishing" "ftype (sc_machine s) = Remote"
    and "sr_buffer (sc_reader s) = []" "canceled c st = Inr False"
  shows "\<exists>s'. on_reply e pad st new tok (Reply_Tail c h) (Inr b) s = Inr (s', [Give h (Inr ())]) \<and>
           \<not> is_readable (client_machine next_hop s') \<and> \<not> is_writable (client_machine next_hop s')"
  using assms
  by (simp add: on_reply_def unless_canceled_def on_reply_tail_def consume_remain_data_def
      client_machine_def is_readable_def is_writable_def)

theorem client_never_established_witness:
  "\<exists>s'. on_reply Little_Endian (\<lambda>n. replicate n 0) [False] None None (Reply_Tail (Some 0) (3::nat))
          (Inr [0, 0, 0, 0, 0])
          ((socks5_client_new (endpoint_with_host (\<lambda>_. None) ''p'' 1080 None) None None None None)
             \<lparr>sc_machine := (fsm_new Remote)\<lparr>state := Establishing\<rparr>\<rparr>) = Inr (s', [Give 3 (Inr ())])"
  using client_never_established
    [of "(socks5_client_new (endpoint_with_host (\<lambda>_. None) ''p'' 1080 None) None None None None)
           \<lparr>sc_machine := (fsm_new Remote)\<lparr>state := Establishing\<rparr>\<rparr>" "Some 0" "[False]"
        Little_Endian "\<lambda>n. replicate n 0" None None "3::nat" "[0, 0, 0, 0, 0]"]
  by (auto simp: socks5_client_new_def stream_reader_new_def fsm_new_def canceled_def)

end
