(* ===== verification/Http_Rewriter.thy ===== *)
theory Http_Rewriter
  imports Byte_Buffer Nekit_Error
begin

text \<open>
  \<open>utils::HttpMessageStreamRewriter\<close> (src/utils/http_message_stream_rewriter.cc): an HTTP/1
  message passes through in buffers of any size, and a delegate may look at and change the
  tokens of its head.  What cannot be passed on yet is kept for the next buffer.

  The tokenizer is the third-party \<open>http_parser\<close>, a parameter here: fed a chunk of memory, it
  makes a sequence of calls on the rewriter and returns how much it has read.  A call that
  fails or pauses the parser makes it return at once, so nothing runs between a change of the
  buffer by the delegate and the return.  Pointers passed to the calls are positions in the
  chunk.  Sizes are 64-bit words; the code's differences do wrap.
\<close>

section \<open>The parser\<close>

type_synonym size = "64 word"

datatype http_errno = HPE_OK | HPE_PAUSED | HPE_Other int

datatype parser_call =
    Message_Begin | On_Url nat nat | On_Status nat nat | On_Header_Field nat nat
  | On_Header_Value nat nat | Headers_Complete | On_Body nat nat | Message_Complete
  | Chunk_Header | Chunk_Complete

record 'p outcome =
  parsed :: nat
  after_errno :: http_errno
  after_upgrade :: bool
  after_state :: 'p

text \<open>\<open>Calls c stop continue\<close>: what follows the call \<open>c\<close>, given the code it returns.\<close>

datatype 'p script =
    Returns "'p outcome" | Calls parser_call "int \<Rightarrow> 'p outcome" "int \<Rightarrow> 'p script"

type_synonym 'p parser = "'p \<Rightarrow> bytes \<Rightarrow> 'p script"

section \<open>State\<close>

datatype rewriter_type = Request | Response

datatype rewriter_state =
    Rw_Init | Rw_Method | Rw_Url | Rw_Version | Rw_Status | Rw_HeaderField | Rw_HeaderValue | Rw_Body

record 'p rewriter =
  rw_type :: rewriter_type
  rw_parser :: 'p
  rw_errno :: http_errno
  rw_upgrade :: bool
  current_header :: "string \<times> string"
  current_token :: string
  current_token_valid :: bool
  current_header_valid :: bool
  current_buffer :: bytes
  pending_previous_buffer :: "bytes option"
  pending_buffer_length :: size
  current_buffer_offset :: size
  current_token_offset :: size
  current_token_end_offset :: size
  current_header_field_offset :: size
  current_header_field_end_offset :: size
  current_header_value_offset :: size
  current_header_value_end_offset :: size
  next_token_offset :: size
  rw_errored :: bool
  rw_stopped :: bool
  process_header_complete :: bool
  process_message_complete :: bool
  rw_state :: rewriter_state
  set_token :: bool
  step_back :: bool
  skip_body :: bool

definition rewriter_new :: "rewriter_type \<Rightarrow> 'p \<Rightarrow> 'p rewriter" where
  "rewriter_new t p =
     \<lparr>rw_type = t, rw_parser = p, rw_errno = HPE_OK, rw_upgrade = False,
      current_header = ([], []), current_token = [], current_token_valid = False,
      current_header_valid = False, current_buffer = [], pending_previous_buffer = None,
      pending_buffer_length = 0, current_buffer_offset = 0, current_token_offset = 0,
      current_token_end_offset = 0, current_header_field_offset = 0,
      current_header_field_end_offset = 0, current_header_value_offset = 0,
      current_header_value_end_offset = 0, next_token_offset = 0, rw_errored = False,
      rw_stopped = False, process_header_complete = False, process_message_complete = False,
      rw_state = Rw_Init, set_token = False, step_back = False, skip_body = False\<rparr>"

definition set_skip_body :: "bool \<Rightarrow> 'p rewriter \<Rightarrow> 'p rewriter" where
  "set_skip_body s w = w\<lparr>skip_body := s\<rparr>"

definition pause :: "'p rewriter \<Rightarrow> 'p rewriter" where
  "pause w = w\<lparr>rw_errno := HPE_PAUSED\<rparr>"

definition max_buffer_size :: size where "max_buffer_size = 8192"

datatype rewriter_error_code = ParserError | BlockTooLong | UserError

fun rewriter_code :: "rewriter_error_code \<Rightarrow> int" where
  "rewriter_code ParserError = 1"
| "rewriter_code BlockTooLong = 2"
| "rewriter_code UserError = 3"

definition rewriter_error :: "rewriter_error_code \<Rightarrow> error" where
  "rewriter_error c = error_of Http_Rewriter_Category (rewriter_code c)"

fun errno_value :: "http_errno \<Rightarrow> int" where
  "errno_value HPE_OK = 0"
| "errno_value HPE_PAUSED = 31"
| "errno_value (HPE_Other n) = n"

text \<open>The argument has the type of the bit field \<open>http_parser::http_errno\<close>, \<open>unsigned int\<close>.\<close>

definition parser_info_key :: int where "parser_info_key = 1"

definition from_parser_error :: "http_errno \<Rightarrow> error exec" where
  "from_parser_error e =
     add_info (create_info_dict (rewriter_error ParserError)) parser_info_key (Any_Unsigned (errno_value e))"

section \<open>What the delegate may do\<close>

definition get_string :: "size \<Rightarrow> size \<Rightarrow> 'p rewriter \<Rightarrow> string exec" where
  "get_string off len w =
     exec_bind (bb_get_data (current_buffer w) (unat off) (unat len)) (\<lambda>xs.
     Inr (string_of_bytes xs))"

definition rewriter_current_header ::
  "'p rewriter \<Rightarrow> ((string \<times> string) \<times> 'p rewriter) exec" where
  "rewriter_current_header w =
     (if \<not> current_header_valid w
      then exec_bind (get_string (current_header_field_offset w)
             (current_header_field_end_offset w - current_header_field_offset w) w) (\<lambda>f.
           exec_bind (get_string (current_header_value_offset w)
             (current_header_value_end_offset w - current_header_value_offset w) w) (\<lambda>v.
           Inr ((f, v), w\<lparr>current_header := (f, v)\<rparr>)))
      else Inr (current_header w, w))"

definition rewriter_current_token :: "'p rewriter \<Rightarrow> (string \<times> 'p rewriter) exec" where
  "rewriter_current_token w =
     (if \<not> current_token_valid w
      then exec_bind (get_string (current_token_offset w)
             (current_token_end_offset w - current_token_offset w) w) (\<lambda>t.
           Inr (t, w\<lparr>current_token := t\<rparr>))
      else Inr (current_token w, w))"

text \<open>The bytes an \<open>Insert\<close> adds are unspecified; the \<open>SetData\<close> that follows covers them.\<close>

definition rewrite_current_token :: "string \<Rightarrow> 'p rewriter \<Rightarrow> 'p rewriter exec" where
  "rewrite_current_token new_token w =
     (let off = current_token_offset w;
          current_len = current_token_end_offset w - off;
          diff = of_nat (length new_token) - current_len
      in exec_bind
           (if 0 <s diff
            then bb_insert (current_buffer w) (unat off) (replicate (unat diff) 0)
            else bb_shrink (current_buffer w) (unat off) (unat (- diff))) (\<lambda>b.
         exec_bind (bb_set_data b (unat off) (bytes_of_string new_token)) (\<lambda>b.
         Inr (w\<lparr>current_buffer := b,
                current_token_end_offset := current_token_end_offset w + diff,
                next_token_offset := next_token_offset w + diff,
                current_buffer_offset := current_buffer_offset w + diff\<rparr>))))"

definition rewrite_current_header :: "string \<times> string \<Rightarrow> 'p rewriter \<Rightarrow> 'p rewriter exec" where
  "rewrite_current_header h w = rewrite_current_token (fst h @ '': '' @ snd h) w"

definition delete_current_header :: "'p rewriter \<Rightarrow> 'p rewriter exec" where
  "delete_current_header w =
     (let len = current_token_end_offset w - current_token_offset w + 2
      in exec_bind (bb_shrink (current_buffer w) (unat (current_token_offset w)) (unat len)) (\<lambda>b.
         Inr (w\<lparr>current_buffer := b,
                current_buffer_offset := current_buffer_offset w - len,
                next_token_offset := next_token_offset w - len\<rparr>)))"

definition add_header_line :: "string \<Rightarrow> 'p rewriter \<Rightarrow> 'p rewriter exec" where
  "add_header_line header w =
     (let off = unat (current_token_offset w); len = length header
      in exec_bind (bb_insert (current_buffer w) off (replicate (len + 2) 0)) (\<lambda>b.
         exec_bind (bb_set_data b off (bytes_of_string header)) (\<lambda>b.
         exec_bind (bb_put b (off + len) 13) (\<lambda>b.
         exec_bind (bb_put b (off + len + 1) 10) (\<lambda>b.
         Inr (w\<lparr>current_buffer := b,
                current_buffer_offset := current_buffer_offset w + of_nat (len + 2),
                current_token_offset := current_token_offset w + of_nat (len + 2),
                next_token_offset := next_token_offset w + of_nat (len + 2)\<rparr>))))))"

definition add_header :: "string \<times> string \<Rightarrow> 'p rewriter \<Rightarrow> 'p rewriter exec" where
  "add_header h w = add_header_line (fst h @ '': '' @ snd h) w"

section \<open>The delegate\<close>

datatype delegate_call =
    D_Method | D_Url | D_Version | D_Status | D_Header_Pair | D_Header_Complete
  | D_Message_Complete size bool

type_synonym ('p, 'd) delegate =
  "delegate_call \<Rightarrow> 'd \<Rightarrow> 'p rewriter \<Rightarrow> (bool \<times> 'd \<times> 'p rewriter) exec"

type_synonym ('p, 'd) callback = "('d \<times> 'p rewriter) \<Rightarrow> (int \<times> 'd \<times> 'p rewriter) exec"

text \<open>\<open>ENSURE_CALLBACK(delegate_->...(rewriter_), -1)\<close>\<close>

definition ensure ::
  "('p, 'd) delegate \<Rightarrow> delegate_call \<Rightarrow> 'd \<times> 'p rewriter \<Rightarrow> ('p, 'd) callback \<Rightarrow>
   (int \<times> 'd \<times> 'p rewriter) exec" where
  "ensure dlg c dw k =
     exec_bind (dlg c (fst dw) (snd dw)) (\<lambda>(ok, d, w).
     if ok then k (d, w) else Inr (-1, d, w\<lparr>rw_errored := True\<rparr>))"

section \<open>The parser's calls\<close>

text \<open>
  \<open>FindLocation\<close> of a pointer into the chunk that starts at \<open>at\<close> and has \<open>n\<close> bytes; a pointer
  outside the buffer is not found, and the answer is the size of the buffer.
\<close>

definition locate :: "size \<Rightarrow> nat \<Rightarrow> nat \<Rightarrow> 'p rewriter \<Rightarrow> size" where
  "locate at n k w = (if k < n then at + of_nat k else of_nat (length (current_buffer w)))"

definition located ::
  "size \<Rightarrow> 'p rewriter \<Rightarrow> 'a exec \<Rightarrow> 'a exec" where
  "located l w k = boost_assert (l < of_nat (length (current_buffer w))) k"

definition on_message_begin :: "('p, 'd) callback" where
  "on_message_begin = (\<lambda>(d, w).
     boost_assert (rw_state w = Rw_Init)
       (Inr (0, d, pause (w\<lparr>rw_state := (if rw_type w = Request then Rw_Method else Rw_Version),
                             set_token := True, step_back := True\<rparr>))))"

text \<open>The end of a header: \<open>OnHeaderPair\<close> for the token at hand.\<close>

definition fresh_token :: "'p rewriter \<Rightarrow> 'p rewriter" where
  "fresh_token w = w\<lparr>current_token_valid := False\<rparr>"

definition fresh_header :: "'p rewriter \<Rightarrow> 'p rewriter" where
  "fresh_header w = w\<lparr>current_token_valid := False, current_header_valid := False\<rparr>"

definition finish_headers :: "('p, 'd) delegate \<Rightarrow> ('p, 'd) callback" where
  "finish_headers dlg dw =
     ensure dlg D_Header_Pair dw (\<lambda>(d, w).
     ensure dlg D_Header_Complete (d, w\<lparr>current_token_offset := next_token_offset w\<rparr>) (\<lambda>(d, w).
     Inr (if skip_body w then 1 else 0, d, (pause w)\<lparr>rw_state := Rw_Body\<rparr>)))"

definition on_headers_complete :: "('p, 'd) delegate \<Rightarrow> ('p, 'd) callback" where
  "on_headers_complete dlg = (\<lambda>(d, w).
     case rw_state w of
       Rw_HeaderValue \<Rightarrow>
         finish_headers dlg
           (d, (fresh_header w)\<lparr>next_token_offset := current_token_end_offset w + 2\<rparr>)
     | Rw_HeaderField \<Rightarrow>
         finish_headers dlg
           (d, (fresh_header w)\<lparr>current_header_value_offset := current_token_end_offset w,
                               current_header_value_end_offset := current_token_end_offset w,
                               next_token_offset := current_token_end_offset w\<rparr>)
     | Rw_Url \<Rightarrow> Inr (if skip_body w then 1 else 0, d, pause (w\<lparr>process_header_complete := True\<rparr>))
     | Rw_Status \<Rightarrow> Inr (if skip_body w then 1 else 0, d, pause (w\<lparr>process_header_complete := True\<rparr>))
     | _ \<Rightarrow> Inl Assert_Failed)"

definition on_message_complete :: "('p, 'd) callback" where
  "on_message_complete = (\<lambda>(d, w).
     boost_assert (rw_state w = Rw_Body)
       (Inr (0, d, pause (w\<lparr>rw_state := Rw_Init, set_token := True, process_message_complete := True\<rparr>))))"

definition on_chunk_header :: "('p, 'd) callback" where
  "on_chunk_header = (\<lambda>(d, w).
     boost_assert (rw_state w = Rw_Body) (Inr (0, d, w\<lparr>set_token := True\<rparr>)))"

definition on_chunk_complete :: "('p, 'd) callback" where
  "on_chunk_complete = (\<lambda>(d, w).
     boost_assert (rw_state w = Rw_Body) (Inr (0, d, w\<lparr>set_token := True\<rparr>)))"

text \<open>\<open>l\<close> is where \<open>data\<close> is in the buffer, \<open>n\<close> the length of the piece.\<close>

definition on_url :: "('p, 'd) delegate \<Rightarrow> size \<Rightarrow> size \<Rightarrow> ('p, 'd) callback" where
  "on_url dlg l n = (\<lambda>(d, w).
     case rw_state w of
       Rw_Url \<Rightarrow> Inr (0, d, w\<lparr>current_token_end_offset := current_token_end_offset w + n\<rparr>)
     | Rw_Method \<Rightarrow>
         located l w
           (ensure dlg D_Method
              (d, fresh_token (w\<lparr>next_token_offset := l, current_token_end_offset := l - 1\<rparr>)) (\<lambda>(d, w).
            Inr (0, d, (pause w)\<lparr>current_token_offset := next_token_offset w,
                                current_token_end_offset := next_token_offset w + n,
                                rw_state := Rw_Url\<rparr>)))
     | _ \<Rightarrow> Inl Assert_Failed)"

definition on_status :: "('p, 'd) delegate \<Rightarrow> size \<Rightarrow> size \<Rightarrow> ('p, 'd) callback" where
  "on_status dlg l n = (\<lambda>(d, w).
     case rw_state w of
       Rw_Version \<Rightarrow>
         located l w
           (boost_assert (4 < l)
             (ensure dlg D_Version
                (d, fresh_token (w\<lparr>next_token_offset := l - 4, current_token_end_offset := l - 5\<rparr>)) (\<lambda>(d, w).
              Inr (0, d, (pause w)\<lparr>current_token_offset := next_token_offset w,
                                  current_token_end_offset := next_token_offset w + n + 4,
                                  rw_state := Rw_Status\<rparr>))))
     | Rw_Status \<Rightarrow> Inr (0, d, w\<lparr>current_token_end_offset := current_token_end_offset w + n\<rparr>)
     | _ \<Rightarrow> Inl Assert_Failed)"

text \<open>The next header begins at \<open>next_token_offset_\<close>.\<close>

definition begin_field :: "size \<Rightarrow> ('p, 'd) callback" where
  "begin_field n = (\<lambda>(d, w).
     let off = next_token_offset w
     in Inr (0, d, (pause w)\<lparr>current_token_offset := off, current_token_end_offset := off + n,
                            current_header_field_offset := off,
                            current_header_field_end_offset := off + n,
                            rw_state := Rw_HeaderField\<rparr>))"

definition on_header_field :: "('p, 'd) delegate \<Rightarrow> size \<Rightarrow> size \<Rightarrow> ('p, 'd) callback" where
  "on_header_field dlg l n = (\<lambda>(d, w).
     case rw_state w of
       Rw_Url \<Rightarrow>
         located l w
           (ensure dlg D_Url (d, fresh_token (w\<lparr>next_token_offset := l\<rparr>)) (\<lambda>(d, w).
            ensure dlg D_Version
              (d, fresh_token (w\<lparr>current_token_offset := current_token_end_offset w + 1,
                                 current_token_end_offset := next_token_offset w - 2\<rparr>))
              (begin_field n)))
     | Rw_Status \<Rightarrow>
         located l w
           (ensure dlg D_Status (d, fresh_token (w\<lparr>next_token_offset := l\<rparr>)) (begin_field n))
     | Rw_HeaderField \<Rightarrow>
         Inr (0, d, w\<lparr>current_token_end_offset := current_token_end_offset w + n,
                      current_header_field_end_offset := current_header_field_end_offset w + n\<rparr>)
     | Rw_HeaderValue \<Rightarrow>
         located l w
           (ensure dlg D_Header_Pair
              (d, fresh_header (w\<lparr>next_token_offset := l,
                                  current_header_value_end_offset := current_token_end_offset w\<rparr>))
              (begin_field n))
     | _ \<Rightarrow> Inl Assert_Failed)"

definition on_header_value :: "size \<Rightarrow> size \<Rightarrow> ('p, 'd) callback" where
  "on_header_value l n = (\<lambda>(d, w).
     case rw_state w of
       Rw_HeaderValue \<Rightarrow>
         Inr (0, d, w\<lparr>current_token_end_offset := current_token_end_offset w + n,
                      current_header_value_end_offset := current_header_value_end_offset w + n\<rparr>)
     | Rw_HeaderField \<Rightarrow>
         located l w
           (Inr (0, d,
              (if n \<noteq> 0
               then w\<lparr>current_header_value_offset := l, current_header_value_end_offset := l + n,
                      current_token_end_offset := l + n, rw_state := Rw_HeaderValue\<rparr>
               else w\<lparr>current_header_value_offset := l - 2, current_header_value_end_offset := l - 2,
                      current_token_end_offset := l - 2, rw_state := Rw_HeaderValue\<rparr>)))
     | _ \<Rightarrow> Inl Assert_Failed)"

definition on_body :: "('p, 'd) callback" where
  "on_body = (\<lambda>(d, w). Inr (0, d, w\<lparr>set_token := True\<rparr>))"

text \<open>\<open>parser_settings_\<close>: which function serves which call.\<close>

fun parser_callback ::
  "('p, 'd) delegate \<Rightarrow> size \<Rightarrow> nat \<Rightarrow> parser_call \<Rightarrow> ('p, 'd) callback" where
  "parser_callback dlg at m Message_Begin dw = on_message_begin dw"
| "parser_callback dlg at m (On_Url k n) dw = on_url dlg (locate at m k (snd dw)) (of_nat n) dw"
| "parser_callback dlg at m (On_Status k n) dw =
     on_status dlg (locate at m k (snd dw)) (of_nat n) dw"
| "parser_callback dlg at m (On_Header_Field k n) dw =
     on_header_field dlg (locate at m k (snd dw)) (of_nat n) dw"
| "parser_callback dlg at m (On_Header_Value k n) dw =
     on_header_value (locate at m k (snd dw)) (of_nat n) dw"
| "parser_callback dlg at m Headers_Complete dw = on_headers_complete dlg dw"
| "parser_callback dlg at m (On_Body k n) dw = on_body dw"
| "parser_callback dlg at m Message_Complete dw = on_message_complete dw"
| "parser_callback dlg at m Chunk_Header dw = on_chunk_header dw"
| "parser_callback dlg at m Chunk_Complete dw = on_chunk_complete dw"

section \<open>Running the parser\<close>

text \<open>The parser returns at once when a call failed or paused it.\<close>

definition stops :: "parser_call \<Rightarrow> int \<Rightarrow> 'p rewriter \<Rightarrow> bool" where
  "stops c code w \<longleftrightarrow> rw_errno w \<noteq> HPE_OK \<or>
     (if c = Headers_Complete then code \<notin> {0, 1, 2} else code \<noteq> 0)"

definition settle :: "'p outcome \<Rightarrow> 'd \<times> 'p rewriter \<Rightarrow> (nat \<times> 'd \<times> 'p rewriter) exec" where
  "settle out dw =
     Inr (parsed out, fst dw, (snd dw)\<lparr>rw_parser := after_state out, rw_errno := after_errno out,
                                       rw_upgrade := after_upgrade out\<rparr>)"

primrec run_script ::
  "('p, 'd) delegate \<Rightarrow> size \<Rightarrow> nat \<Rightarrow> 'p script \<Rightarrow> 'd \<times> 'p rewriter \<Rightarrow>
   (nat \<times> 'd \<times> 'p rewriter) exec" where
  "run_script dlg at m (Returns out) dw = settle out dw"
| "run_script dlg at m (Calls c stop continue) dw =
     exec_bind (parser_callback dlg at m c dw) (\<lambda>(code, d, w).
     if stops c code w then settle (stop code) (d, w)
     else run_script dlg at m (continue code) (d, w))"

text \<open>\<open>if (set_token_)\<close>\<close>

definition settle_token :: "'p rewriter \<Rightarrow> 'p rewriter" where
  "settle_token w =
     (if set_token w
      then w\<lparr>current_token_offset :=
               (if step_back w then current_buffer_offset w - 1 else current_buffer_offset w),
             set_token := False, step_back := False\<rparr>
      else w)"

text \<open>\<open>if (!delegate_->...) { errored_ = true; return false; }\<close>\<close>

definition ask ::
  "('p, 'd) delegate \<Rightarrow> delegate_call \<Rightarrow> 'd \<times> 'p rewriter \<Rightarrow>
   ('d \<times> 'p rewriter \<Rightarrow> ('d \<times> 'p rewriter) exec) \<Rightarrow> ('d \<times> 'p rewriter) exec" where
  "ask dlg c dw k =
     exec_bind (dlg c (fst dw) (snd dw)) (\<lambda>(ok, d, w).
     if ok then k (d, w) else Inr (d, w\<lparr>rw_errored := True\<rparr>))"

text \<open>The end of a head without headers.\<close>

definition end_of_head :: "('p, 'd) delegate \<Rightarrow> 'd \<times> 'p rewriter \<Rightarrow> ('d \<times> 'p rewriter) exec" where
  "end_of_head dlg dw =
     ask dlg D_Header_Complete
       (fst dw, (snd dw)\<lparr>current_token_offset := current_buffer_offset (snd dw) - 1\<rparr>) (\<lambda>(d, w).
     Inr (d, w\<lparr>current_token_offset := current_buffer_offset w, rw_state := Rw_Body,
               process_header_complete := False\<rparr>))"

definition process_headers :: "('p, 'd) delegate \<Rightarrow> 'd \<times> 'p rewriter \<Rightarrow> ('d \<times> 'p rewriter) exec" where
  "process_headers dlg dw =
     (let w = snd dw
      in if \<not> process_header_complete w then Inr dw
         else case rw_state w of
                Rw_Url \<Rightarrow>
                  ask dlg D_Url (fst dw, fresh_token w) (\<lambda>(d, w).
                  ask dlg D_Version
                    (d, fresh_token (w\<lparr>current_token_offset := current_token_end_offset w + 1,
                                       current_token_end_offset := current_buffer_offset w - 3\<rparr>))
                    (end_of_head dlg))
              | Rw_Status \<Rightarrow> ask dlg D_Status (fst dw, fresh_token w) (end_of_head dlg)
              | _ \<Rightarrow> Inl Assert_Failed)"

definition check_parser ::
  "('p, 'd) delegate \<Rightarrow> 'd \<times> 'p rewriter \<Rightarrow> ('d \<times> 'p rewriter) exec" where
  "check_parser dlg dw =
     (let w = snd dw
      in if rw_errno w \<noteq> HPE_OK \<and> rw_errno w \<noteq> HPE_PAUSED
         then Inr (fst dw, w\<lparr>rw_errored := True\<rparr>)
         else process_headers dlg (fst dw, settle_token w))"

definition after_execute ::
  "('p, 'd) delegate \<Rightarrow> nat \<Rightarrow> 'd \<times> 'p rewriter \<Rightarrow> ('d \<times> 'p rewriter) exec" where
  "after_execute dlg n dw =
     (let w = (snd dw)\<lparr>current_buffer_offset := current_buffer_offset (snd dw) + of_nat n\<rparr>
      in if process_message_complete w
         then ask dlg (D_Message_Complete (current_buffer_offset w) (rw_upgrade w)) (fst dw, w) (\<lambda>(d, w).
              if rw_upgrade w then Inr (d, settle_token (w\<lparr>rw_stopped := True\<rparr>))
              else check_parser dlg (d, w\<lparr>process_message_complete := False\<rparr>))
         else check_parser dlg (fst dw, w))"

section \<open>Rewriting a buffer\<close>

text \<open>
  The loop feeds the parser the rest of one memory block at a time; \<open>blk b k\<close> is the number of
  bytes from position \<open>k\<close> to the end of its block.  A round may consume nothing, so the loop
  takes fuel and \<open>None\<close> is running out of it.
\<close>

definition rewrite_round ::
  "('p, 'd) delegate \<Rightarrow> 'p parser \<Rightarrow> cutter \<Rightarrow> 'd \<times> 'p rewriter \<Rightarrow> ('d \<times> 'p rewriter) exec" where
  "rewrite_round dlg execute blk dw =
     (let w = (snd dw)\<lparr>rw_errno := HPE_OK\<rparr>;
          at = current_buffer_offset w;
          chunk = chunk_at blk (current_buffer w) (unat at)
      in boost_assert (unat at \<le> length (current_buffer w))
           (exec_bind
              (run_script dlg at (length chunk) (execute (rw_parser w) chunk) (fst dw, w)) (\<lambda>(n, d, w).
            after_execute dlg n (d, w))))"

definition rewriting :: "'p rewriter \<Rightarrow> bool" where
  "rewriting w \<longleftrightarrow> unat (current_buffer_offset w) \<noteq> length (current_buffer w) \<and>
     \<not> rw_errored w \<and> \<not> rw_stopped w"

fun rewrite_loop ::
  "('p, 'd) delegate \<Rightarrow> 'p parser \<Rightarrow> cutter \<Rightarrow> nat \<Rightarrow> 'd \<times> 'p rewriter \<Rightarrow>
   ('d \<times> 'p rewriter) exec option" where
  "rewrite_loop dlg execute blk fuel dw =
     (if \<not> rewriting (snd dw) then Some (Inr dw)
      else case fuel of
             0 \<Rightarrow> None
           | Suc k \<Rightarrow>
               (case rewrite_round dlg execute blk dw of
                  Inl f \<Rightarrow> Some (Inl f)
                | Inr dw' \<Rightarrow> rewrite_loop dlg execute blk k dw'))"

declare rewrite_loop.simps [simp del]

definition restore_pending :: "bytes \<Rightarrow> 'p rewriter \<Rightarrow> 'p rewriter exec" where
  "restore_pending b w =
     (if pending_buffer_length w \<noteq> 0
      then exec_bind (bb_insert b 0 (replicate (unat (pending_buffer_length w)) 0)) (\<lambda>b.
           case pending_previous_buffer w of
             None \<Rightarrow> Inl Null_Deref
           | Some xs \<Rightarrow>
               exec_bind (bb_set_data b 0 (take (unat (pending_buffer_length w)) xs)) (\<lambda>b.
               Inr (w\<lparr>current_buffer_offset := pending_buffer_length w, pending_buffer_length := 0,
                      pending_previous_buffer := None, current_buffer := b\<rparr>)))
      else Inr (w\<lparr>current_buffer_offset := 0, current_buffer := b\<rparr>))"

text \<open>After the loop: the result, and the buffer as the caller has it then.\<close>

definition keep_pending :: "'p rewriter \<Rightarrow> (unit result \<times> 'p rewriter) exec" where
  "keep_pending w =
     (let b = current_buffer w; off = current_token_offset w
      in if rw_errored w
         then (if rw_errno w = HPE_OK \<or> rw_errno w = HPE_PAUSED
               then Inr (Inl (rewriter_error UserError), w)
               else exec_bind (from_parser_error (rw_errno w)) (\<lambda>e. Inr (Inl e, w)))
         else if unat off \<noteq> length b
         then (let len = of_nat (length b) - off; w = w\<lparr>pending_buffer_length := len\<rparr>
               in if max_buffer_size < len then Inr (Inl (rewriter_error BlockTooLong), w)
                  else exec_bind (bb_get_data b (unat off) (unat len)) (\<lambda>xs.
                       exec_bind (bb_shrink_back b (unat len)) (\<lambda>b.
                       Inr (Inr (), w\<lparr>pending_previous_buffer := Some xs, current_buffer := b,
                         current_token_end_offset := current_token_end_offset w - off,
                         current_header_field_offset := current_header_field_offset w - off,
                         current_header_field_end_offset := current_header_field_end_offset w - off,
                         current_header_value_offset := current_header_value_offset w - off,
                         current_header_value_end_offset := current_header_value_end_offset w - off,
                         current_token_offset := 0\<rparr>))))
         else Inr (Inr (), w))"

definition rewrite_buffer ::
  "('p, 'd) delegate \<Rightarrow> 'p parser \<Rightarrow> cutter \<Rightarrow> nat \<Rightarrow> bytes \<Rightarrow> 'd \<times> 'p rewriter \<Rightarrow>
   (unit result \<times> bytes \<times> 'd \<times> 'p rewriter) exec option" where
  "rewrite_buffer dlg execute blk fuel b dw =
     (case restore_pending b (snd dw) of
        Inl f \<Rightarrow> Some (Inl f)
      | Inr w \<Rightarrow>
          (case rewrite_loop dlg execute blk fuel (fst dw, w) of
             None \<Rightarrow> None
           | Some (Inl f) \<Rightarrow> Some (Inl f)
           | Some (Inr (d, w)) \<Rightarrow>
               Some (exec_bind (keep_pending w) (\<lambda>(r, w). Inr (r, current_buffer w, d, w)))))"

end
