(* ===== verification/Http_Rewriter_Laws.thy ===== *)
theory Http_Rewriter_Laws
  imports Http_Rewriter
begin

text \<open>
  What the rewriter does to the bytes that pass through it: with a delegate that only looks,
  nothing is lost, added or reordered; each edit does to the buffer what its name says; the
  loop ends.
\<close>

section \<open>What a delegate and the calls of the parser leave alone\<close>

text \<open>
  A relation between the rewriter before and after that the delegate keeps, and that the
  rewriter's own bookkeeping of tokens keeps: then the calls of the parser keep it.
\<close>

definition keeps ::
  "('p rewriter \<Rightarrow> 'p rewriter \<Rightarrow> bool) \<Rightarrow> (('d \<times> 'p rewriter) \<Rightarrow> ('a \<times> 'd \<times> 'p rewriter) exec) \<Rightarrow> bool" where
  "keeps R f \<longleftrightarrow> (\<forall>d w a d' w'. f (d, w) = Inr (a, d', w') \<longrightarrow> R w w')"

definition same_frame :: "'p rewriter \<Rightarrow> 'p rewriter \<Rightarrow> bool" where
  "same_frame w w' \<longleftrightarrow> current_buffer w' = current_buffer w \<and>
     pending_buffer_length w' = pending_buffer_length w \<and>
     pending_previous_buffer w' = pending_previous_buffer w \<and>
     current_buffer_offset w' = current_buffer_offset w \<and> rw_parser w' = rw_parser w"

lemma same_frame_simps [simp]:
  "same_frame w (pause w)" "same_frame w (fresh_token w)" "same_frame w (fresh_header w)"
  "same_frame w (settle_token w)" "same_frame w w"
  by (simp_all add: same_frame_def pause_def fresh_token_def fresh_header_def settle_token_def)

lemmas frame_defs = same_frame_def pause_def fresh_token_def fresh_header_def settle_token_def

text \<open>Every outcome a script may have.\<close>

primrec all_outcomes :: "('p outcome \<Rightarrow> bool) \<Rightarrow> 'p script \<Rightarrow> bool" where
  "all_outcomes P (Returns out) = P out"
| "all_outcomes P (Calls c stop continue) =
     ((\<forall>n. P (stop n)) \<and> (\<forall>n. all_outcomes P (continue n)))"

lemma all_outcomes_True: "all_outcomes (\<lambda>_. True) sc"
  by (induction sc) simp_all

locale observed_delegate =
  fixes dlg :: "('p, 'd) delegate" and R :: "'p rewriter \<Rightarrow> 'p rewriter \<Rightarrow> bool"
  assumes delegate_keeps: "dlg c d w = Inr (ok, d', w') \<Longrightarrow> R w w'"
    and frame_keeps: "same_frame w w' \<Longrightarrow> R w w'"
    and R_trans: "R u v \<Longrightarrow> R v w \<Longrightarrow> R u w"
begin

lemma through_frames: "same_frame u v \<Longrightarrow> R v w \<Longrightarrow> R u w"
  using frame_keeps R_trans by blast

lemma to_frame: "R u v \<Longrightarrow> same_frame v w \<Longrightarrow> R u w"
  using frame_keeps R_trans by blast

lemma ensure_keeps:
  assumes "keeps R k" "ensure dlg c (d, w) k = Inr (a, d', w')"
  shows "R w w'"
proof -
  obtain ok d1 w1 where 1: "dlg c d w = Inr (ok, d1, w1)"
    "(if ok then k (d1, w1) else Inr (-1, d1, w1\<lparr>rw_errored := True\<rparr>)) = Inr (a, d', w')"
    using assms(2) by (auto simp: ensure_def exec_bind_Inr)
  have "R w1 w'"
    using 1(2) assms(1) frame_keeps [of w1 "w1\<lparr>rw_errored := True\<rparr>"]
    by (auto simp: keeps_def same_frame_def split: if_splits)
  then show ?thesis using R_trans delegate_keeps [OF 1(1)] by blast
qed

lemma ask_keeps:
  assumes "\<And>d w d' w'. k (d, w) = Inr (d', w') \<Longrightarrow> R w w'"
    and "ask dlg c (d, w) k = Inr (d', w')"
  shows "R w w'"
proof -
  obtain ok d1 w1 where 1: "dlg c d w = Inr (ok, d1, w1)"
    "(if ok then k (d1, w1) else Inr (d1, w1\<lparr>rw_errored := True\<rparr>)) = Inr (d', w')"
    using assms(2) by (auto simp: ask_def exec_bind_Inr)
  have "R w1 w'"
    using 1(2) assms(1) frame_keeps [of w1 "w1\<lparr>rw_errored := True\<rparr>"]
    by (auto simp: same_frame_def split: if_splits)
  then show ?thesis using R_trans delegate_keeps [OF 1(1)] by blast
qed

lemma ask_frame:
  assumes "ask dlg c (d, v) k = Inr (d', w')" "same_frame u v"
    and "\<And>d w d' w'. k (d, w) = Inr (d', w') \<Longrightarrow> R w w'"
  shows "R u w'"
  by (rule through_frames [OF assms(2)]) (rule ask_keeps [OF assms(3,1)])

text \<open>A step of bookkeeping and then a question to the delegate.\<close>

lemma keeps_ensure:
  assumes "keeps R k" "\<And>w. same_frame w (g w)"
  shows "keeps R (\<lambda>(d, w). ensure dlg c (d, g w) k)"
  unfolding keeps_def using through_frames [OF assms(2)] ensure_keeps [OF assms(1)] by fastforce

lemma keeps_return:
  assumes "\<And>w. same_frame w (g w)"
  shows "keeps R (\<lambda>(d, w). Inr (f w, d, g w))"
  unfolding keeps_def using frame_keeps assms by auto

lemma begin_field_keeps: "keeps R (begin_field n)"
  unfolding begin_field_def Let_def by (rule keeps_return) (simp add: frame_defs)

lemma finish_headers_keeps: "keeps R (finish_headers dlg)"
proof -
  have 1: "keeps R (\<lambda>(d, w). Inr (if skip_body w then 1 else 0 :: int, d, (pause w)\<lparr>rw_state := Rw_Body\<rparr>))"
    by (rule keeps_return) (simp add: frame_defs)
  have "keeps R (\<lambda>(d, w). ensure dlg D_Header_Complete
      (d, w\<lparr>current_token_offset := next_token_offset w\<rparr>)
      (\<lambda>(d, w). Inr (if skip_body w then 1 else 0 :: int, d, (pause w)\<lparr>rw_state := Rw_Body\<rparr>)))"
    by (rule keeps_ensure [OF 1]) (simp add: frame_defs)
  from ensure_keeps [OF this] show ?thesis by (simp add: finish_headers_def keeps_def)
qed

lemma callback_keeps:
  assumes "parser_callback dlg at m c (d, w) = Inr (a, d', w')"
  shows "R w w'"
proof (cases c)
  case (On_Url k n)
  have "keeps R (\<lambda>(d, w). Inr (0 :: int, d, (pause w)\<lparr>current_token_offset := next_token_offset w,
      current_token_end_offset := next_token_offset w + of_nat n, rw_state := Rw_Url\<rparr>))"
    by (rule keeps_return) (simp add: frame_defs)
  note e = through_frames [OF _ ensure_keeps [OF this [unfolded pause_def]]]
  show ?thesis
    using assms On_Url
    by (auto simp: on_url_def located_def boost_assert_Inr frame_defs
        intro: frame_keeps elim!: e [rotated] split: rewriter_state.splits)
next
  case (On_Status k n)
  have "keeps R (\<lambda>(d, w). Inr (0 :: int, d, (pause w)\<lparr>current_token_offset := next_token_offset w,
      current_token_end_offset := next_token_offset w + of_nat n + 4, rw_state := Rw_Status\<rparr>))"
    by (rule keeps_return) (simp add: frame_defs)
  note e = through_frames [OF _ ensure_keeps [OF this [unfolded pause_def]]]
  show ?thesis
    using assms On_Status
    by (auto simp: on_status_def located_def boost_assert_Inr frame_defs
        intro: frame_keeps elim!: e [rotated] split: rewriter_state.splits)
next
  case (On_Header_Field k n)
  have "keeps R (\<lambda>(d, w). ensure dlg D_Version
      (d, fresh_token (w\<lparr>current_token_offset := current_token_end_offset w + 1,
           current_token_end_offset := next_token_offset w - 2\<rparr>)) (begin_field (of_nat n)))"
    by (rule keeps_ensure [OF begin_field_keeps]) (simp add: frame_defs)
  note e = through_frames [OF _ ensure_keeps [OF this [unfolded fresh_token_def]]]
    and e' = through_frames [OF _ ensure_keeps [OF begin_field_keeps]]
  show ?thesis
    using assms On_Header_Field
    by (auto simp: on_header_field_def located_def boost_assert_Inr frame_defs
        intro: frame_keeps elim!: e [rotated] e' [rotated] split: rewriter_state.splits)
next
  case Headers_Complete
  have e: "R u w'" if "finish_headers dlg (d, v) = Inr (a, d', w')" "same_frame u v" for u v
    using through_frames [OF that(2)] finish_headers_keeps that(1) by (auto simp: keeps_def)
  show ?thesis
    using assms Headers_Complete
    by (auto simp: on_headers_complete_def frame_defs intro: frame_keeps elim!: e
        split: rewriter_state.splits)
qed (use assms in \<open>auto simp: on_message_begin_def on_header_value_def on_body_def
    on_message_complete_def on_chunk_header_def on_chunk_complete_def boost_assert_Inr located_def
    frame_defs intro!: frame_keeps split: rewriter_state.splits if_splits\<close>)

text \<open>A run of the parser: the calls, and then one of the outcomes of its script.\<close>

lemma run_script_keeps:
  "run_script dlg at m sc (d, w) = Inr (n, d', w') \<Longrightarrow> all_outcomes P sc \<Longrightarrow>
   \<exists>w1 out. R w w1 \<and> P out \<and> n = parsed out \<and>
     w' = w1\<lparr>rw_parser := after_state out, rw_errno := after_errno out, rw_upgrade := after_upgrade out\<rparr>"
proof (induction sc arbitrary: d w)
  case (Returns out)
  then show ?case using frame_keeps [of w w] by (auto simp: settle_def)
next
  case (Calls c stop continue)
  obtain code d1 w1 where 1: "parser_callback dlg at m c (d, w) = Inr (code, d1, w1)"
    "(if stops c code w1 then settle (stop code) (d1, w1)
      else run_script dlg at m (continue code) (d1, w1)) = Inr (n, d', w')"
    using Calls.prems(1) by (auto simp: exec_bind_Inr)
  have R1: "R w w1" by (rule callback_keeps [OF 1(1)])
  show ?case
  proof (cases "stops c code w1")
    case True
    then show ?thesis using 1(2) R1 Calls.prems(2) by (auto simp: settle_def)
  next
    case False
    then show ?thesis
      using 1(2) R_trans [OF R1] Calls.IH [OF rangeI, of code d1 w1] Calls.prems(2) by fastforce
  qed
qed

lemma end_of_head_keeps:
  assumes "end_of_head dlg (d, w) = Inr (d', w')"
  shows "R w w'"
  by (rule ask_frame [OF assms [unfolded end_of_head_def]])
    (auto simp: same_frame_def intro!: frame_keeps)

lemma process_headers_keeps:
  assumes "process_headers dlg (d, w) = Inr (d', w')"
  shows "R w w'"
proof (cases "process_header_complete w")
  case False
  then show ?thesis using assms frame_keeps [of w w] by (simp add: process_headers_def Let_def)
next
  case True
  show ?thesis
  proof (cases "rw_state w = Rw_Url")
    case u: True
    have a: "ask dlg D_Url (d, fresh_token w) (\<lambda>(d, w). ask dlg D_Version
        (d, fresh_token (w\<lparr>current_token_offset := current_token_end_offset w + 1,
             current_token_end_offset := current_buffer_offset w - 3\<rparr>)) (end_of_head dlg)) = Inr (d', w')"
      using assms True u by (simp add: process_headers_def Let_def)
    show ?thesis
    proof (rule ask_frame [OF a])
      fix e u e' v'
      assume v: "(case (e, u) of (d, w) \<Rightarrow> ask dlg D_Version
        (d, fresh_token (w\<lparr>current_token_offset := current_token_end_offset w + 1,
             current_token_end_offset := current_buffer_offset w - 3\<rparr>)) (end_of_head dlg)) = Inr (e', v')"
      show "R u v'"
        by (rule ask_frame [OF v [unfolded prod.case]]) (auto simp: frame_defs intro: end_of_head_keeps)
    qed simp
  next
    case False
    then have a: "ask dlg D_Status (d, fresh_token w) (end_of_head dlg) = Inr (d', w')"
      using assms True by (cases "rw_state w") (simp_all add: process_headers_def Let_def)
    show ?thesis by (rule ask_frame [OF a]) (auto intro: end_of_head_keeps)
  qed
qed

lemma check_parser_keeps:
  assumes "check_parser dlg (d, w) = Inr (d', w')"
  shows "R w w'"
proof (cases "rw_errno w \<noteq> HPE_OK \<and> rw_errno w \<noteq> HPE_PAUSED")
  case True
  then show ?thesis
    using assms frame_keeps [of w w'] by (auto simp: check_parser_def Let_def same_frame_def)
next
  case False
  then have "R (settle_token w) w'"
    using assms process_headers_keeps by (auto simp: check_parser_def Let_def)
  then show ?thesis by (rule through_frames [rotated]) simp
qed

lemma after_execute_keeps:
  assumes "after_execute dlg n (d, w) = Inr (d', w')"
  shows "R (w\<lparr>current_buffer_offset := current_buffer_offset w + of_nat n\<rparr>) w'"
proof -
  let ?w = "w\<lparr>current_buffer_offset := current_buffer_offset w + of_nat n\<rparr>"
  show ?thesis
  proof (cases "process_message_complete w")
    case True
    then have a: "ask dlg (D_Message_Complete (current_buffer_offset ?w) (rw_upgrade w)) (d, ?w)
        (\<lambda>(d, w). if rw_upgrade w then Inr (d, settle_token (w\<lparr>rw_stopped := True\<rparr>))
           else check_parser dlg (d, w\<lparr>process_message_complete := False\<rparr>)) = Inr (d', w')"
      using assms unfolding after_execute_def Let_def by simp
    show ?thesis
    proof (rule ask_keeps [OF _ a])
      fix e u e' v'
      assume v: "(case (e, u) of (d, w) \<Rightarrow>
        if rw_upgrade w then Inr (d, settle_token (w\<lparr>rw_stopped := True\<rparr>))
        else check_parser dlg (d, w\<lparr>process_message_complete := False\<rparr>)) = Inr (e', v')"
      show "R u v'"
      proof (cases "rw_upgrade u")
        case True
        then show ?thesis using v by (auto simp: frame_defs intro!: frame_keeps)
      next
        case False
        then have "R (u\<lparr>process_message_complete := False\<rparr>) v'"
          using v check_parser_keeps by simp
        then show ?thesis by (rule through_frames [rotated]) (simp add: same_frame_def)
      qed
    qed
  next
    case False
    then show ?thesis
      using check_parser_keeps assms unfolding after_execute_def Let_def by simp
  qed
qed

end

section \<open>A delegate that only looks\<close>

text \<open>The bytes a rewriter has in hand.\<close>

definition in_hand :: "'p rewriter \<Rightarrow> bytes \<times> size \<times> bytes option" where
  "in_hand w = (current_buffer w, pending_buffer_length w, pending_previous_buffer w)"

definition looks_only :: "('p, 'd) delegate \<Rightarrow> bool" where
  "looks_only dlg \<longleftrightarrow> (\<forall>c d w ok d' w'. dlg c d w = Inr (ok, d', w') \<longrightarrow> in_hand w' = in_hand w)"

interpretation passing: observed_delegate dlg "\<lambda>w w'. looks_only dlg \<longrightarrow> in_hand w' = in_hand w"
  for dlg :: "('p, 'd) delegate"
  by unfold_locales (auto simp: looks_only_def in_hand_def same_frame_def)

lemma round_keeps:
  assumes "looks_only dlg" "rewrite_round dlg execute blk (d, w) = Inr (d', w')"
  shows "in_hand w' = in_hand w"
proof -
  let ?w = "w\<lparr>rw_errno := HPE_OK\<rparr>"
  let ?chunk = "chunk_at blk (current_buffer w) (unat (current_buffer_offset w))"
  obtain n d1 w1 where
    1: "run_script dlg (current_buffer_offset w) (length ?chunk) (execute (rw_parser w) ?chunk) (d, ?w) =
        Inr (n, d1, w1)" and
    2: "after_execute dlg n (d1, w1) = Inr (d', w')"
    using assms(2) by (auto simp: rewrite_round_def Let_def boost_assert_Inr exec_bind_Inr)
  have "in_hand w1 = in_hand ?w"
    using passing.run_script_keeps [OF 1 all_outcomes_True] assms(1) by (auto simp: in_hand_def)
  moreover have "in_hand w' = in_hand w1"
    using passing.after_execute_keeps [OF 2] assms(1) by (simp add: in_hand_def)
  ultimately show ?thesis by (simp add: in_hand_def)
qed

lemma loop_keeps:
  assumes "looks_only dlg"
  shows "rewrite_loop dlg execute blk fuel (d, w) = Some (Inr (d', w')) \<Longrightarrow> in_hand w' = in_hand w"
proof (induction fuel arbitrary: d w)
  case 0
  then show ?case by (auto simp: rewrite_loop.simps split: if_splits)
next
  case (Suc k)
  show ?case
  proof (cases "rewriting w")
    case True
    then obtain d1 w1 where r: "rewrite_round dlg execute blk (d, w) = Inr (d1, w1)"
      "rewrite_loop dlg execute blk k (d1, w1) = Some (Inr (d', w'))"
      using Suc.prems by (subst (asm) rewrite_loop.simps) (auto split: sum.splits)
    then show ?thesis using Suc.IH round_keeps [OF assms] by metis
  next
    case False
    then show ?thesis using Suc.prems by (simp add: rewrite_loop.simps)
  qed
qed

section \<open>Nothing is lost\<close>

definition held_back :: "'p rewriter \<Rightarrow> bytes" where
  "held_back w = (case pending_previous_buffer w of None \<Rightarrow> [] | Some xs \<Rightarrow> xs)"

definition pending_ok :: "'p rewriter \<Rightarrow> bool" where
  "pending_ok w \<longleftrightarrow>
     (case pending_previous_buffer w of
        None \<Rightarrow> pending_buffer_length w = 0
      | Some xs \<Rightarrow> pending_buffer_length w \<noteq> 0 \<and> length xs = unat (pending_buffer_length w))"

lemma pending_new: "pending_ok (rewriter_new t p) \<and> held_back (rewriter_new t p) = []"
  by (simp add: pending_ok_def held_back_def rewriter_new_def)

lemma restore_pending_ok:
  assumes "pending_ok w" "restore_pending b w = Inr w'"
  shows "current_buffer w' = held_back w @ b \<and> pending_buffer_length w' = 0 \<and>
         pending_previous_buffer w' = None"
  using assms
  by (cases "pending_previous_buffer w")
    (auto simp: restore_pending_def pending_ok_def held_back_def bb_insert_def bb_set_data_def
      exec_bind_Inr boost_assert_Inr splice_def)

lemma size_split:
  fixes off :: size
  assumes "n < 2 ^ 64" "unat off + unat (of_nat n - off) \<le> n"
  shows "unat off + unat (of_nat n - off) = n"
proof -
  have "unat (off + (of_nat n - off)) = unat off + unat (of_nat n - off)"
    using assms by (subst unat_add_lem [THEN iffD1]) auto
  moreover have "off + (of_nat n - off) = (of_nat n :: size)" by simp
  ultimately show ?thesis using assms(1) by (simp add: unat_of_nat)
qed

lemma keep_pending_ok:
  assumes "pending_buffer_length w = 0" "pending_previous_buffer w = None"
    and "length (current_buffer w) < 2 ^ 64" "keep_pending w = Inr (Inr (), w')"
  shows "current_buffer w' @ held_back w' = current_buffer w \<and> pending_ok w' \<and>
         length (held_back w') \<le> 8192"
proof (cases "unat (current_token_offset w) = length (current_buffer w)")
  case True
  then have "w' = w" using assms(4) by (auto simp: keep_pending_def Let_def exec_bind_Inr split: if_splits)
  then show ?thesis using assms by (simp add: held_back_def pending_ok_def)
next
  case False
  let ?off = "current_token_offset w" and ?b = "current_buffer w"
  let ?len = "of_nat (length ?b) - ?off"
  have len: "?len \<le> max_buffer_size"
    using assms(4) False by (auto simp: keep_pending_def Let_def exec_bind_Inr not_le split: if_splits)
  have in_range: "unat ?off + unat ?len \<le> length ?b"
    using assms(4) False
    by (auto simp: keep_pending_def Let_def exec_bind_Inr bb_get_data_def boost_assert_Inr split: if_splits)
  have whole: "unat ?off + unat ?len = length ?b" by (rule size_split [OF assms(3) in_range])
  then have front: "length ?b - unat ?len = unat ?off" by linarith
  have rest_len: "length ?b - unat ?off = unat ?len" using whole by linarith
  have w': "held_back w' = drop (unat ?off) ?b" "current_buffer w' = take (unat ?off) ?b"
    "pending_previous_buffer w' = Some (drop (unat ?off) ?b)" "pending_buffer_length w' = ?len"
    using assms(4) False whole front
    by (auto simp: keep_pending_def Let_def exec_bind_Inr bb_get_data_def bb_shrink_back_def bb_shrink_def
        boost_assert_Inr held_back_def delete_at_def split: if_splits)
  have "unat ?len \<le> 8192" using len by (simp add: max_buffer_size_def word_le_nat_alt)
  moreover have "?len \<noteq> 0" using whole False by auto
  ultimately show ?thesis using w' rest_len by (simp add: pending_ok_def)
qed

lemma rewrite_buffer_looks_only:
  assumes "looks_only dlg" "pending_ok w" "length (held_back w @ b) < 2 ^ 64"
    and "rewrite_buffer dlg execute blk fuel b (d, w) = Some (Inr (Inr (), b', d', w'))"
  shows "b' @ held_back w' = held_back w @ b \<and> pending_ok w' \<and> length (held_back w') \<le> 8192"
proof -
  obtain w1 d2 w2 where
    1: "restore_pending b w = Inr w1" and
    2: "rewrite_loop dlg execute blk fuel (d, w1) = Some (Inr (d2, w2))" and
    3: "keep_pending w2 = Inr (Inr (), w')" "b' = current_buffer w'"
    using assms(4)
    by (auto simp: rewrite_buffer_def exec_bind_Inr split: sum.splits option.splits)
  have "in_hand w2 = in_hand w1" by (rule loop_keeps [OF assms(1) 2])
  then have "current_buffer w2 = held_back w @ b" "pending_buffer_length w2 = 0"
    "pending_previous_buffer w2 = None"
    using restore_pending_ok [OF assms(2) 1] by (simp_all add: in_hand_def)
  then show ?thesis using keep_pending_ok [OF _ _ _ 3(1)] assms(3) 3(2) by auto
qed

text \<open>A stream of buffers: what comes out of each, as long as none fails.\<close>

fun rewrite_stream ::
  "('p, 'd) delegate \<Rightarrow> 'p parser \<Rightarrow> cutter \<Rightarrow> nat \<Rightarrow> bytes list \<Rightarrow> 'd \<times> 'p rewriter \<Rightarrow>
   (bytes list \<times> 'd \<times> 'p rewriter) option" where
  "rewrite_stream dlg execute blk fuel [] dw = Some ([], dw)"
| "rewrite_stream dlg execute blk fuel (b # bs) dw =
     (case rewrite_buffer dlg execute blk fuel b dw of
        Some (Inr (Inr _, b', dw')) \<Rightarrow>
          map_option (\<lambda>(out, dw). (b' # out, dw)) (rewrite_stream dlg execute blk fuel bs dw')
      | _ \<Rightarrow> None)"

lemma rewrite_stream_looks_only:
  assumes "looks_only dlg"
  shows "pending_ok w \<Longrightarrow> length (held_back w @ concat bs) < 2 ^ 64 \<Longrightarrow>
    rewrite_stream dlg execute blk fuel bs (d, w) = Some (out, d', w') \<Longrightarrow>
    concat out @ held_back w' = held_back w @ concat bs \<and> pending_ok w'"
proof (induction bs arbitrary: d w out)
  case (Cons b bs)
  obtain b1 d1 w1 out1 where
    1: "rewrite_buffer dlg execute blk fuel b (d, w) = Some (Inr (Inr (), b1, d1, w1))" and
    2: "rewrite_stream dlg execute blk fuel bs (d1, w1) = Some (out1, d', w')" "out = b1 # out1"
    using Cons.prems(3) by (auto split: option.splits sum.splits)
  have b: "b1 @ held_back w1 = held_back w @ b" "pending_ok w1"
    using rewrite_buffer_looks_only [OF assms Cons.prems(1) _ 1] Cons.prems(2) by auto
  have "length (b1 @ held_back w1 @ concat bs) < 2 ^ 64" using Cons.prems(2) b(1) by (metis append_assoc concat.simps(2))
  then have "concat out1 @ held_back w' = held_back w1 @ concat bs \<and> pending_ok w'"
    using Cons.IH [OF b(2) _ 2(1)] by simp
  then show ?case using b(1) 2(2) by (metis append_assoc concat.simps(2))
qed simp

text \<open>
  C8. Whatever the parser reports and wherever it pauses, a stream of buffers passed through a
  rewriter whose delegate only looks comes out unchanged: the bytes given back, followed by
  those still held, are the bytes that went in, in order.
\<close>

theorem rewriter_passes_through:
  assumes "looks_only dlg" "length (concat bs) < 2 ^ 64"
    and "rewrite_stream dlg execute blk fuel bs (d, rewriter_new t p) = Some (out, d', w')"
  shows "concat out @ held_back w' = concat bs \<and> pending_ok w'"
  using rewrite_stream_looks_only [OF assms(1) _ _ assms(3)] pending_new [of t p] assms(2) by simp

text \<open>A parser that takes every chunk for a body, for concrete cases.\<close>

definition body_parser :: "unit parser" where
  "body_parser = (\<lambda>p xs. Calls (On_Body 0 (length xs))
     (\<lambda>_. \<lparr>parsed = length xs, after_errno = HPE_PAUSED, after_upgrade = False, after_state = ()\<rparr>)
     (\<lambda>_. Returns \<lparr>parsed = length xs, after_errno = HPE_OK, after_upgrade = False, after_state = ()\<rparr>))"

definition no_delegate :: "(unit, unit) delegate" where
  "no_delegate c d w = Inr (True, d, w)"

lemma no_delegate_looks_only: "looks_only no_delegate"
  by (simp add: looks_only_def no_delegate_def)

theorem rewriter_passes_through_witness:
  "\<exists>out w'. rewrite_stream no_delegate body_parser (\<lambda>b k. 2) 10 [[1, 2, 3], [4]]
       ((), rewriter_new Response ()) = Some (out, (), w') \<and> concat out @ held_back w' = [1, 2, 3, 4]"
proof -
  have "rewrite_stream no_delegate body_parser (\<lambda>b k. 2) 10 [[1, 2, 3], [4]]
      ((), rewriter_new Response ()) \<noteq> None"
    by code_simp
  then obtain out w' where r: "rewrite_stream no_delegate body_parser (\<lambda>b k. 2) 10 [[1, 2, 3], [4]]
      ((), rewriter_new Response ()) = Some (out, (), w')" by auto
  show ?thesis using rewriter_passes_through [OF no_delegate_looks_only _ r] r by auto
qed

section \<open>The edits\<close>

lemma unat_size: "n < 2 ^ 63 \<Longrightarrow> unat (of_nat n :: size) = n"
  by (simp add: unat_of_nat)

lemma size_wraps:
  assumes "m < n" "n < 2 ^ 63"
  shows "unat (of_nat m - of_nat n :: size) = 2 ^ 64 - (n - m)"
proof -
  have "(of_nat (2 ^ 64) :: size) = 0" by simp
  moreover have "(of_nat (2 ^ 64 - (n - m)) :: size) = of_nat (2 ^ 64) - of_nat (n - m)"
    using assms by (intro of_nat_diff) simp
  ultimately have "(of_nat m - of_nat n :: size) = of_nat (2 ^ 64 - (n - m))"
    using assms by (simp add: of_nat_diff)
  moreover have "unat (of_nat (2 ^ 64 - (n - m)) :: size) = 2 ^ 64 - (n - m)"
    by (subst unat_of_nat) (use assms in simp)
  ultimately show ?thesis by (simp only:)
qed

lemma size_diff:
  assumes "n < 2 ^ 63" "m < 2 ^ 63"
  shows "0 <s (of_nat n - of_nat m :: size) \<longleftrightarrow> m < n"
    and "m \<le> n \<Longrightarrow> unat (of_nat n - of_nat m :: size) = n - m"
    and "n \<le> m \<Longrightarrow> unat (- (of_nat n - of_nat m :: size)) = m - n"
proof -
  have "(of_nat n - of_nat m :: size) = word_of_int (int n - int m)" by simp
  then have "sint (of_nat n - of_nat m :: size) = signed_take_bit 63 (int n - int m)"
    by (simp only: sint_sbintrunc') simp
  also have "\<dots> = int n - int m"
    using assms by (intro signed_take_bit_int_eq_self) simp_all
  finally show "0 <s (of_nat n - of_nat m :: size) \<longleftrightarrow> m < n" by (simp add: word_sless_alt)
  have u: "unat (of_nat k :: size) = k" if "k < 2 ^ 63" for k
    using that by (simp add: unat_of_nat)
  { assume le: "m \<le> n"
    then have "(of_nat n - of_nat m :: size) = of_nat (n - m)" by (simp add: of_nat_diff)
    then show "unat (of_nat n - of_nat m :: size) = n - m" using u [of "n - m"] assms by simp }
  { assume le: "n \<le> m"
    then have "- (of_nat n - of_nat m :: size) = of_nat (m - n)" by (simp add: of_nat_diff)
    then show "unat (- (of_nat n - of_nat m :: size)) = m - n" using u [of "m - n"] assms by simp }
qed

text \<open>
  The offsets of the token lie in the buffer, those behind it too, and the buffer is of a size
  a process can have.
\<close>

definition token_ok :: "'p rewriter \<Rightarrow> nat \<Rightarrow> nat \<Rightarrow> bool" where
  "token_ok w i j \<longleftrightarrow> current_token_offset w = of_nat i \<and> current_token_end_offset w = of_nat j \<and>
     i \<le> j \<and> j < length (current_buffer w) \<and>
     length (current_buffer w) < 2 ^ 62"

lemma rewrite_current_token_ok:
  assumes "token_ok w i j" "length t < 2 ^ 62"
  shows "rewrite_current_token t w =
     Inr (w\<lparr>current_buffer := take i (current_buffer w) @ bytes_of_string t @ drop j (current_buffer w),
            current_token_end_offset := of_nat (i + length t),
            next_token_offset := next_token_offset w + (of_nat (length t) - of_nat (j - i)),
            current_buffer_offset := current_buffer_offset w + (of_nat (length t) - of_nat (j - i))\<rparr>)"
proof -
  let ?b = "current_buffer w" and ?n = "length t" and ?d = "of_nat (length t) - of_nat (j - i) :: size"
  have b: "i \<le> j" "j < length ?b" "length ?b < 2 ^ 62"
    using assms(1) by (simp_all add: token_ok_def)
  have off: "unat (of_nat i :: size) = i" using b by (simp add: unat_of_nat)
  have len: "current_token_end_offset w - current_token_offset w = of_nat (j - i)"
    using assms(1) by (simp add: token_ok_def of_nat_diff)
  have end_off: "current_token_end_offset w + ?d = of_nat (i + ?n)"
    using assms(1) b by (simp add: token_ok_def of_nat_diff)
  note d = size_diff [of ?n "j - i"]
  have bound: "?n < 2 ^ 63" "j - i < 2 ^ 63" using b assms(2) by auto
  show ?thesis
  proof (cases "j - i < ?n")
    case True
    then have s: "0 <s ?d" "unat ?d = ?n - (j - i)" using d bound by simp_all
    have "splice (insert_at ?b i (replicate (?n - (j - i)) 0)) i (bytes_of_string t) =
        take i ?b @ bytes_of_string t @ drop j ?b"
      using b True by (simp add: splice_def insert_at_def)
    moreover have "bb_insert ?b i (replicate (?n - (j - i)) 0) = Inr (insert_at ?b i (replicate (?n - (j - i)) 0))"
      using b by (simp add: bb_insert_def)
    moreover have "bb_set_data (insert_at ?b i (replicate (?n - (j - i)) 0)) i (bytes_of_string t) =
        Inr (splice (insert_at ?b i (replicate (?n - (j - i)) 0)) i (bytes_of_string t))"
      using b True by (auto simp: bb_set_data_def boost_assert_def)
    ultimately show ?thesis
      using s off len end_off assms(1)
      by (simp add: rewrite_current_token_def Let_def token_ok_def)
  next
    case False
    then have s: "\<not> 0 <s ?d" "unat (- ?d) = j - i - ?n" using d bound by simp_all
    have "splice (delete_at ?b i (j - i - ?n)) i (bytes_of_string t) =
        take i ?b @ bytes_of_string t @ drop j ?b"
      using b False by (simp add: splice_def delete_at_def)
    moreover have "bb_shrink ?b i (j - i - ?n) = Inr (delete_at ?b i (j - i - ?n))"
      using b False by (simp add: bb_shrink_def)
    ultimately show ?thesis
      using s off len end_off assms(1) b False
      by (auto simp: rewrite_current_token_def Let_def token_ok_def bb_set_data_def boost_assert_def)
  qed
qed

lemma delete_current_header_ok:
  assumes "token_ok w i j" "j + 2 \<le> length (current_buffer w)"
  shows "delete_current_header w =
     Inr (w\<lparr>current_buffer := take i (current_buffer w) @ drop (j + 2) (current_buffer w),
            current_buffer_offset := current_buffer_offset w - of_nat (j + 2 - i),
            next_token_offset := next_token_offset w - of_nat (j + 2 - i)\<rparr>)"
proof -
  have b: "i \<le> j" "length (current_buffer w) < 2 ^ 62" using assms(1) by (simp_all add: token_ok_def)
  have len: "current_token_end_offset w - current_token_offset w + 2 = of_nat (j + 2 - i)"
    using assms(1) by (simp add: token_ok_def of_nat_diff)
  have "unat (of_nat i :: size) = i" "unat (of_nat (j + 2 - i) :: size) = j + 2 - i"
    by (rule unat_size, use b assms(2) in simp)+
  moreover have "bb_shrink (current_buffer w) i (j + 2 - i) =
      Inr (take i (current_buffer w) @ drop (j + 2) (current_buffer w))"
    using b assms by (simp add: bb_shrink_def delete_at_def token_ok_def)
  ultimately show ?thesis
    using assms(1) by (simp only: delete_current_header_def Let_def len) (simp add: token_ok_def)
qed

lemma add_header_line_ok:
  assumes "token_ok w i j"
  shows "add_header_line h w =
     Inr (w\<lparr>current_buffer :=
              take i (current_buffer w) @ bytes_of_string h @ [13, 10] @ drop i (current_buffer w),
            current_buffer_offset := current_buffer_offset w + of_nat (length h + 2),
            current_token_offset := of_nat (i + (length h + 2)),
            next_token_offset := next_token_offset w + of_nat (length h + 2)\<rparr>)"
proof -
  let ?b = "current_buffer w" and ?n = "length h"
  have b: "i < length ?b" "length ?b < 2 ^ 62" using assms by (simp_all add: token_ok_def)
  have off: "unat (of_nat i :: size) = i" using b by (simp add: unat_of_nat)
  let ?c = "take i ?b @ bytes_of_string h @ [0, 0] @ drop i ?b"
  have s: "bb_set_data (insert_at ?b i (replicate (?n + 2) 0)) i (bytes_of_string h) = Inr ?c"
  proof -
    have "replicate (?n + 2) (0 :: u8) = replicate ?n 0 @ [0, 0]"
      by (simp only: replicate_add numeral_2_eq_2 replicate_Suc replicate_0)
    then show ?thesis using b by (simp add: bb_set_data_def splice_def insert_at_def)
  qed
  have "bb_put ?c (i + ?n) 13 = Inr (take i ?b @ bytes_of_string h @ [13, 0] @ drop i ?b)"
    using b by (simp add: bb_put_def list_update_append)
  moreover have "bb_put (take i ?b @ bytes_of_string h @ [13, 0] @ drop i ?b) (Suc (i + ?n)) 10 =
      Inr (take i ?b @ bytes_of_string h @ [13, 10] @ drop i ?b)"
    using b by (simp add: bb_put_def list_update_append)
  moreover have "bb_insert ?b i (replicate (?n + 2) 0) = Inr (insert_at ?b i (replicate (?n + 2) 0))"
    using b by (simp add: bb_insert_def)
  ultimately show ?thesis
    using assms off s
    by (simp only: add_header_line_def Let_def token_ok_def) (simp add: token_ok_def)
qed



section \<open>Token offsets left behind\<close>

text \<open>
  The offset of the token is not set back when a buffer has been passed on whole.  When
  the next buffer holds nothing that moves it, such as the first bytes of a split chunk
  header, or anything at all after an upgrade has stopped the rewriter, a shorter buffer is
  rejected as too long a block, and of a longer one only as many bytes are let through as the
  old offset says.
\<close>

theorem stale_token_offset:
  assumes "\<not> rw_errored w" "pending_ok w" "pending_previous_buffer w = None"
    and "rw_stopped w \<or> \<not> process_message_complete w \<and> \<not> process_header_complete w \<and> \<not> set_token w \<and>
         execute (rw_parser w) b =
           Returns \<lparr>parsed = length b, after_errno = HPE_OK, after_upgrade = u, after_state = p\<rparr>"
    and "b \<noteq> []" "length b < 2 ^ 62" "length b \<le> blk b 0" "0 < fuel"
    and "current_token_offset w = of_nat k" "k < 2 ^ 62"
  shows "(length b < k \<longrightarrow> (\<exists>b' d' w'. rewrite_buffer dlg execute blk fuel b (d, w) =
            Some (Inr (Inl (rewriter_error BlockTooLong), b', d', w')))) \<and>
         (k < length b \<and> length b - k \<le> 8192 \<longrightarrow>
          (\<exists>d' w'. rewrite_buffer dlg execute blk fuel b (d, w) = Some (Inr (Inr (), take k b, d', w'))))"
proof -
  let ?w = "w\<lparr>current_buffer_offset := 0, current_buffer := b\<rparr>"
  have r: "restore_pending b w = Inr ?w"
    using assms(2,3) by (simp add: restore_pending_def pending_ok_def)
  obtain w2 where l: "rewrite_loop dlg execute blk fuel (d, ?w) = Some (Inr (d, w2))"
    "current_buffer w2 = b" "\<not> rw_errored w2" "current_token_offset w2 = of_nat k"
  proof (cases "rw_stopped w")
    case True
    then show ?thesis using assms(9,1) by (intro that [of ?w]) (simp_all add: rewrite_loop.simps rewriting_def)
  next
    case False
    let ?w2 = "?w\<lparr>rw_errno := HPE_OK, rw_parser := p, rw_upgrade := u,
                  current_buffer_offset := of_nat (length b)\<rparr>"
    have "chunk_at blk b 0 = b" using assms(7) by (simp add: chunk_at_def)
    then have "rewrite_round dlg execute blk (d, ?w) = Inr (d, ?w2)"
      using assms(4) False
      by (simp add: rewrite_round_def Let_def settle_def after_execute_def check_parser_def
          process_headers_def settle_token_def)
    moreover have "\<not> rewriting ?w2" using assms(6) by (simp add: rewriting_def unat_of_nat)
    moreover have "rewriting ?w" using assms(1,5) False by (simp add: rewriting_def)
    moreover obtain f where "fuel = Suc f" using assms(8) by (cases fuel) auto
    ultimately have "rewrite_loop dlg execute blk fuel (d, ?w) = Some (Inr (d, ?w2))"
      by (subst rewrite_loop.simps) (simp add: rewrite_loop.simps)
    then show ?thesis using assms(1,9) by (intro that [of ?w2]) simp_all
  qed
  have k: "unat (of_nat k :: size) = k" using assms(10) by (simp add: unat_of_nat)
  have short: "max_buffer_size < of_nat (length b) - of_nat k" if "length b < k"
  proof -
    have "unat (of_nat (length b) - of_nat k :: size) = 2 ^ 64 - (k - length b)"
      using that assms(10) by (intro size_wraps) simp_all
    then show ?thesis using that assms(10) by (simp add: max_buffer_size_def word_less_nat_alt)
  qed
  have long: "unat (of_nat (length b) - of_nat k :: size) = length b - k" if "k \<le> length b"
    using that assms(6,10) size_diff(2) [of "length b" k] by simp
  show ?thesis
    using r l k short long
    by (auto simp: rewrite_buffer_def keep_pending_def Let_def max_buffer_size_def word_less_nat_alt
        bb_get_data_def bb_shrink_back_def bb_shrink_def delete_at_def)
qed

theorem stale_token_offset_witness:
  "\<exists>b' d' w'. rewrite_buffer no_delegate
       (\<lambda>p xs. Returns \<lparr>parsed = length xs, after_errno = HPE_OK, after_upgrade = False, after_state = ()\<rparr>)
       (\<lambda>b k. length b) 1 [49]
       ((), (rewriter_new Response ())\<lparr>rw_state := Rw_Body, current_token_offset := 4\<rparr>) =
     Some (Inr (Inl (rewriter_error BlockTooLong), b', d', w'))"
  using stale_token_offset [of "(rewriter_new Response ())\<lparr>rw_state := Rw_Body, current_token_offset := 4\<rparr>"
      "\<lambda>p xs. Returns \<lparr>parsed = length xs, after_errno = HPE_OK, after_upgrade = False, after_state = ()\<rparr>"
      "[49]" False "()" "\<lambda>b k. length b" 1 4 no_delegate "()"]
  by (simp add: rewriter_new_def pending_ok_def)

section \<open>The loop ends\<close>

text \<open>
  A round may leave the buffer where it is, when the parser pauses before the first byte; then
  its state has moved on.  \<open>rank\<close>, at most \<open>K\<close>, counts such pauses.
\<close>

definition makes_progress :: "'p parser \<Rightarrow> ('p \<Rightarrow> nat) \<Rightarrow> nat \<Rightarrow> bool" where
  "makes_progress execute rank K \<longleftrightarrow> (\<forall>p xs. xs \<noteq> [] \<longrightarrow> all_outcomes (\<lambda>out.
     parsed out \<le> length xs \<and>
     (after_errno out \<noteq> HPE_OK \<and> after_errno out \<noteq> HPE_PAUSED \<or>
      rank (after_state out) \<le> K \<and> (parsed out = 0 \<longrightarrow> rank (after_state out) < rank p))) (execute p xs))"

definition in_range :: "'p rewriter \<Rightarrow> bool" where
  "in_range w \<longleftrightarrow> unat (current_buffer_offset w) \<le> length (current_buffer w) \<and>
     length (current_buffer w) < 2 ^ 64"

definition unread :: "'p rewriter \<Rightarrow> nat" where
  "unread w = length (current_buffer w) - unat (current_buffer_offset w)"

text \<open>A delegate that may edit what has been read, but leaves what has not, and the parser.\<close>

definition keeps_unread :: "('p, 'd) delegate \<Rightarrow> bool" where
  "keeps_unread dlg \<longleftrightarrow> (\<forall>c d w ok d' w'. dlg c d w = Inr (ok, d', w') \<longrightarrow>
     rw_parser w' = rw_parser w \<and> rw_errno w' = rw_errno w \<and>
     (in_range w \<longrightarrow> in_range w' \<and> unread w' = unread w))"

interpretation editing: observed_delegate dlg
  "\<lambda>w w'. keeps_unread dlg \<longrightarrow> rw_parser w' = rw_parser w \<and>
     (in_range w \<longrightarrow> in_range w' \<and> unread w' = unread w)"
  for dlg :: "('p, 'd) delegate"
  by unfold_locales (auto simp: keeps_unread_def same_frame_def in_range_def unread_def)

lemma not_rewriting [simp]:
  "\<not> rewriting (w\<lparr>rw_errored := True\<rparr>)" "\<not> rewriting (settle_token (w\<lparr>rw_stopped := True\<rparr>))"
  by (simp_all add: rewriting_def settle_token_def)

lemma check_parser_error_ends:
  assumes "rw_errno w \<noteq> HPE_OK" "rw_errno w \<noteq> HPE_PAUSED" "check_parser dlg (d, w) = Inr (d', w')"
  shows "\<not> rewriting w'"
  using assms by (auto simp: check_parser_def Let_def)

lemma parser_error_ends:
  assumes "keeps_unread dlg" "rw_errno w \<noteq> HPE_OK" "rw_errno w \<noteq> HPE_PAUSED"
    and "after_execute dlg n (d, w) = Inr (d', w')"
  shows "\<not> rewriting w'"
proof (cases "process_message_complete w")
  case False
  then have "check_parser dlg (d, w\<lparr>current_buffer_offset := current_buffer_offset w + of_nat n\<rparr>) = Inr (d', w')"
    using assms(4) unfolding after_execute_def Let_def by simp
  then show ?thesis using assms(2,3) by (intro check_parser_error_ends) auto
next
  case True
  let ?w = "w\<lparr>current_buffer_offset := current_buffer_offset w + of_nat n\<rparr>"
  have "ask dlg (D_Message_Complete (current_buffer_offset ?w) (rw_upgrade w)) (d, ?w)
        (\<lambda>(d, w). if rw_upgrade w then Inr (d, settle_token (w\<lparr>rw_stopped := True\<rparr>))
           else check_parser dlg (d, w\<lparr>process_message_complete := False\<rparr>)) = Inr (d', w')"
    using assms(4) True unfolding after_execute_def Let_def by simp
  then obtain c ok d1 w1 where 1: "dlg c d ?w = Inr (ok, d1, w1)"
    "(if ok then if rw_upgrade w1 then Inr (d1, settle_token (w1\<lparr>rw_stopped := True\<rparr>))
        else check_parser dlg (d1, w1\<lparr>process_message_complete := False\<rparr>)
      else Inr (d1, w1\<lparr>rw_errored := True\<rparr>)) = Inr (d', w')"
    unfolding ask_def exec_bind_Inr by fastforce
  have e: "rw_errno w1 = rw_errno w"
    using assms(1) 1(1) unfolding keeps_unread_def by fastforce
  show ?thesis
  proof (cases "ok \<and> \<not> rw_upgrade w1")
    case True
    then have "check_parser dlg (d1, w1\<lparr>process_message_complete := False\<rparr>) = Inr (d', w')"
      using 1(2) by simp
    then show ?thesis using assms(2,3) e by (intro check_parser_error_ends) auto
  next
    case False
    then show ?thesis using 1(2) by (cases ok) auto
  qed
qed

lemma advance_in_range:
  assumes "in_range w" "n \<le> unread w"
  shows "in_range (w\<lparr>current_buffer_offset := current_buffer_offset w + of_nat n\<rparr>)"
    "unread (w\<lparr>current_buffer_offset := current_buffer_offset w + of_nat n\<rparr>) = unread w - n"
proof -
  have le: "unat (current_buffer_offset w) + n < 2 ^ 64"
    "unat (current_buffer_offset w) + n \<le> length (current_buffer w)"
    using assms by (auto simp: in_range_def unread_def)
  have n: "unat (of_nat n :: size) = n" using le by (simp add: unat_of_nat)
  have "unat (current_buffer_offset w + of_nat n) = unat (current_buffer_offset w) + n"
    using unat_add_lem [of "current_buffer_offset w" "of_nat n"] le(1) n by simp
  then show "in_range (w\<lparr>current_buffer_offset := current_buffer_offset w + of_nat n\<rparr>)"
    "unread (w\<lparr>current_buffer_offset := current_buffer_offset w + of_nat n\<rparr>) = unread w - n"
    using assms le by (auto simp: in_range_def unread_def)
qed

lemma round_progress:
  fixes w :: "'p rewriter"
  assumes "keeps_unread dlg" "makes_progress execute rank K"
    and "in_range w" "rewriting w" "rewrite_round dlg execute blk (d, w) = Inr (d', w')"
  shows "\<not> rewriting w' \<or> in_range w' \<and> rank (rw_parser w') \<le> K \<and>
     (unread w' < unread w \<or> unread w' = unread w \<and> rank (rw_parser w') < rank (rw_parser w))"
proof -
  let ?w = "w\<lparr>rw_errno := HPE_OK\<rparr>"
  let ?chunk = "chunk_at blk (current_buffer w) (unat (current_buffer_offset w))"
  have chunk: "?chunk \<noteq> []" "length ?chunk \<le> unread w"
    using assms(3,4) by (simp_all add: chunk_at_def in_range_def rewriting_def unread_def)
  obtain n d1 w1 where
    1: "run_script dlg (current_buffer_offset w) (length ?chunk) (execute (rw_parser w) ?chunk) (d, ?w) =
        Inr (n, d1, w1)" and
    2: "after_execute dlg n (d1, w1) = Inr (d', w')"
    using assms(5) by (auto simp: rewrite_round_def Let_def boost_assert_Inr exec_bind_Inr)
  have "all_outcomes (\<lambda>out. parsed out \<le> length ?chunk \<and>
     (after_errno out \<noteq> HPE_OK \<and> after_errno out \<noteq> HPE_PAUSED \<or>
      rank (after_state out) \<le> K \<and> (parsed out = 0 \<longrightarrow> rank (after_state out) < rank (rw_parser w))))
      (execute (rw_parser w) ?chunk)"
    using assms(2) chunk(1) by (simp add: makes_progress_def)
  from editing.run_script_keeps [OF 1 this] obtain w0 and out :: "'p outcome" where
    w0: "keeps_unread dlg \<longrightarrow> rw_parser w0 = rw_parser ?w \<and>
      (in_range ?w \<longrightarrow> in_range w0 \<and> unread w0 = unread ?w)" and
    o1: "parsed out \<le> length ?chunk" and
    o2: "after_errno out \<noteq> HPE_OK \<and> after_errno out \<noteq> HPE_PAUSED \<or>
      rank (after_state out) \<le> K \<and> (parsed out = 0 \<longrightarrow> rank (after_state out) < rank (rw_parser w))" and
    w1: "n = parsed out" "w1 = w0\<lparr>rw_parser := after_state out, rw_errno := after_errno out,
                                 rw_upgrade := after_upgrade out\<rparr>"
    by (elim exE conjE) (erule (4) that)
  note out = o1 o2
  have "in_range ?w" "unread ?w = unread w" using assms(3) by (simp_all add: in_range_def unread_def)
  then have "in_range w0" "unread w0 = unread w" using w0 assms(1) by simp_all
  then have r1: "in_range w1" "unread w1 = unread w"
    unfolding w1(2) by (simp_all add: in_range_def unread_def)
  let ?w1 = "w1\<lparr>current_buffer_offset := current_buffer_offset w1 + of_nat n\<rparr>"
  have n: "n \<le> unread w1" using out(1) chunk(2) w1(1) r1(2) by simp
  have r2: "in_range ?w1" "unread ?w1 = unread w - n"
    using advance_in_range [OF r1(1) n] r1(2) by simp_all
  show ?thesis
  proof (cases "after_errno out \<noteq> HPE_OK \<and> after_errno out \<noteq> HPE_PAUSED")
    case True
    then show ?thesis using parser_error_ends [OF assms(1) _ _ 2] w1(2) by simp
  next
    case False
    have "in_range w' \<and> unread w' = unread w - n \<and> rw_parser w' = after_state out"
      using editing.after_execute_keeps [OF 2] assms(1) r2 w1(2) by simp
    moreover have "n = 0 \<longrightarrow> rank (after_state out) < rank (rw_parser w)" "rank (after_state out) \<le> K"
      using out(2) False w1(1) by auto
    moreover have "n \<noteq> 0 \<longrightarrow> unread w - n < unread w" using n r1(2) by auto
    ultimately show ?thesis by auto
  qed
qed

lemma loop_ends:
  assumes "keeps_unread dlg" "makes_progress execute rank K"
  shows "in_range w \<Longrightarrow> rank (rw_parser w) \<le> K \<Longrightarrow> unread w * (K + 1) + rank (rw_parser w) < fuel \<Longrightarrow>
    rewrite_loop dlg execute blk fuel (d, w) \<noteq> None"
proof (induction fuel arbitrary: d w)
  case (Suc k)
  show ?case
  proof (cases "rewriting w")
    case True
    show ?thesis
    proof (cases "rewrite_round dlg execute blk (d, w)")
      case (Inr dw')
      obtain d1 w1 where dw': "dw' = (d1, w1)" by (cases dw')
      have "rewrite_loop dlg execute blk k (d1, w1) \<noteq> None"
      proof (cases "rewriting w1")
        case r: True
        have p: "in_range w1" "rank (rw_parser w1) \<le> K"
          "unread w1 < unread w \<or> unread w1 = unread w \<and> rank (rw_parser w1) < rank (rw_parser w)"
          using round_progress [OF assms Suc.prems(1) True] Inr dw' r by blast+
        have "unread w1 * (K + 1) + rank (rw_parser w1) < unread w * (K + 1) + rank (rw_parser w)"
        proof (cases "unread w1 < unread w")
          case True
          then have "(unread w1 + 1) * (K + 1) \<le> unread w * (K + 1)" by (intro mult_le_mono1) simp
          then show ?thesis using p(2) by (simp add: algebra_simps)
        next
          case False
          then show ?thesis using p(3) by simp
        qed
        then show ?thesis using Suc.IH [OF p(1,2)] Suc.prems(3) by simp
      next
        case False
        then show ?thesis by (simp add: rewrite_loop.simps)
      qed
      then show ?thesis using True Inr dw' by (subst rewrite_loop.simps) simp
    qed (use True in \<open>simp add: rewrite_loop.simps\<close>)
  qed (simp add: rewrite_loop.simps)
qed simp


lemma no_delegate_keeps_unread: "keeps_unread no_delegate"
  by (simp add: keeps_unread_def no_delegate_def)


end
