(* ===== verification/Http_Url.thy ===== *)
theory Http_Url
  imports Nekit_Prelude
begin

text \<open>
  The URL parser of the bundled \<open>http_parser\<close> (third_party/http_parser/http_parser.c, from
  \<open>parse_url_char\<close> and \<open>http_parse_host_char\<close> up to \<open>http_parser_parse_url\<close>), compiled in its
  strict mode.  Offsets and lengths are 16-bit fields, kept at their width.
\<close>

unbundle bit_operations_syntax

section \<open>Characters\<close>

definition char_code :: "char \<Rightarrow> nat" where
  "char_code c = of_char c"

definition lower_code :: "char \<Rightarrow> nat" where
  "lower_code c = char_code c OR 32"

definition is_alpha :: "char \<Rightarrow> bool" where
  "is_alpha c \<longleftrightarrow> 97 \<le> lower_code c \<and> lower_code c \<le> 122"

definition is_num :: "char \<Rightarrow> bool" where
  "is_num c \<longleftrightarrow> 48 \<le> char_code c \<and> char_code c \<le> 57"

definition is_alphanum :: "char \<Rightarrow> bool" where
  "is_alphanum c \<longleftrightarrow> is_alpha c \<or> is_num c"

definition is_hex :: "char \<Rightarrow> bool" where
  "is_hex c \<longleftrightarrow> is_num c \<or> 97 \<le> lower_code c \<and> lower_code c \<le> 102"

definition is_mark :: "char \<Rightarrow> bool" where
  "is_mark c \<longleftrightarrow> c \<in> set ''-_.!~*'' \<or> char_code c = 39 \<or> c = CHR ''('' \<or> c = CHR '')''"

definition is_userinfo_char :: "char \<Rightarrow> bool" where
  "is_userinfo_char c \<longleftrightarrow> is_alphanum c \<or> is_mark c \<or> c \<in> set ''%;:&=+$,''"

text \<open>The table \<open>normal_url_char\<close>: the printable characters but \<open>#\<close> and \<open>?\<close>.\<close>

definition is_url_char :: "char \<Rightarrow> bool" where
  "is_url_char c \<longleftrightarrow> 33 \<le> char_code c \<and> char_code c \<le> 126 \<and> c \<noteq> CHR ''#'' \<and> c \<noteq> CHR ''?''"

definition is_host_char :: "char \<Rightarrow> bool" where
  "is_host_char c \<longleftrightarrow> is_alphanum c \<or> c = CHR ''.'' \<or> c = CHR ''-''"

lemmas char_class_defs = char_code_def lower_code_def is_alpha_def is_num_def is_alphanum_def
  is_hex_def is_mark_def is_userinfo_char_def is_url_char_def is_host_char_def

section \<open>The fields of a URL\<close>

datatype url_field = UF_SCHEMA | UF_HOST | UF_PORT | UF_PATH | UF_QUERY | UF_FRAGMENT | UF_USERINFO

fun url_bit :: "url_field \<Rightarrow> nat" where
  "url_bit UF_SCHEMA = 0"
| "url_bit UF_HOST = 1"
| "url_bit UF_PORT = 2"
| "url_bit UF_PATH = 3"
| "url_bit UF_QUERY = 4"
| "url_bit UF_FRAGMENT = 5"
| "url_bit UF_USERINFO = 6"

record url =
  field_set :: u16
  url_port :: u16
  field_off :: "url_field \<Rightarrow> u16"
  field_len :: "url_field \<Rightarrow> u16"

definition http_parser_url_init :: url where
  "http_parser_url_init =
     \<lparr>field_set = 0, url_port = 0, field_off = (\<lambda>_. 0), field_len = (\<lambda>_. 0)\<rparr>"

definition has_field :: "url_field \<Rightarrow> url \<Rightarrow> bool" where
  "has_field f u \<longleftrightarrow> field_set u AND push_bit (url_bit f) 1 \<noteq> 0"

definition mark_field :: "url_field \<Rightarrow> url \<Rightarrow> url" where
  "mark_field f u = u\<lparr>field_set := field_set u OR push_bit (url_bit f) 1\<rparr>"

definition start_field :: "url_field \<Rightarrow> nat \<Rightarrow> u16 \<Rightarrow> url \<Rightarrow> url" where
  "start_field f i n u =
     u\<lparr>field_off := (field_off u)(f := of_nat i), field_len := (field_len u)(f := n)\<rparr>"

definition grow_field :: "url_field \<Rightarrow> url \<Rightarrow> url" where
  "grow_field f u = u\<lparr>field_len := (field_len u)(f := field_len u f + 1)\<rparr>"

lemmas url_defs = has_field_def mark_field_def start_field_def grow_field_def

section \<open>The characters of a URL\<close>

datatype url_state =
    S_Dead | S_Req_Spaces_Before_Url | S_Req_Schema | S_Req_Schema_Slash | S_Req_Schema_Slash_Slash
  | S_Req_Server_Start | S_Req_Server | S_Req_Server_With_At | S_Req_Path
  | S_Req_Query_String_Start | S_Req_Query_String | S_Req_Fragment_Start | S_Req_Fragment

definition server_char :: "char \<Rightarrow> url_state" where
  "server_char c =
     (if c = CHR ''/'' then S_Req_Path
      else if c = CHR ''?'' then S_Req_Query_String_Start
      else if c = CHR ''@'' then S_Req_Server_With_At
      else if is_userinfo_char c \<or> c = CHR ''['' \<or> c = CHR '']'' then S_Req_Server
      else S_Dead)"

definition parse_url_char :: "url_state \<Rightarrow> char \<Rightarrow> url_state" where
  "parse_url_char s c =
     (if c = CHR '' '' \<or> char_code c \<in> {13, 10, 9, 12} then S_Dead
      else case s of
        S_Req_Spaces_Before_Url \<Rightarrow>
          (if c = CHR ''/'' \<or> c = CHR ''*'' then S_Req_Path
           else if is_alpha c then S_Req_Schema else S_Dead)
      | S_Req_Schema \<Rightarrow>
          (if is_alpha c then S_Req_Schema
           else if c = CHR '':'' then S_Req_Schema_Slash else S_Dead)
      | S_Req_Schema_Slash \<Rightarrow> (if c = CHR ''/'' then S_Req_Schema_Slash_Slash else S_Dead)
      | S_Req_Schema_Slash_Slash \<Rightarrow> (if c = CHR ''/'' then S_Req_Server_Start else S_Dead)
      | S_Req_Server_With_At \<Rightarrow> (if c = CHR ''@'' then S_Dead else server_char c)
      | S_Req_Server_Start \<Rightarrow> server_char c
      | S_Req_Server \<Rightarrow> server_char c
      | S_Req_Path \<Rightarrow>
          (if is_url_char c then S_Req_Path
           else if c = CHR ''?'' then S_Req_Query_String_Start
           else if c = CHR ''#'' then S_Req_Fragment_Start else S_Dead)
      | S_Req_Query_String_Start \<Rightarrow>
          (if is_url_char c \<or> c = CHR ''?'' then S_Req_Query_String
           else if c = CHR ''#'' then S_Req_Fragment_Start else S_Dead)
      | S_Req_Query_String \<Rightarrow>
          (if is_url_char c \<or> c = CHR ''?'' then S_Req_Query_String
           else if c = CHR ''#'' then S_Req_Fragment_Start else S_Dead)
      | S_Req_Fragment_Start \<Rightarrow>
          (if is_url_char c \<or> c = CHR ''?'' then S_Req_Fragment
           else if c = CHR ''#'' then S_Req_Fragment_Start else S_Dead)
      | S_Req_Fragment \<Rightarrow>
          (if is_url_char c \<or> c = CHR ''?'' \<or> c = CHR ''#'' then S_Req_Fragment else S_Dead)
      | S_Dead \<Rightarrow> S_Dead)"

text \<open>What \<open>http_parser_parse_url\<close> does with a character, by the state it led to.\<close>

datatype url_action = Url_Fail | Url_Skip | Url_In url_field | Url_Unexpected

fun url_action_of :: "url_state \<Rightarrow> url_action" where
  "url_action_of S_Dead = Url_Fail"
| "url_action_of S_Req_Schema_Slash = Url_Skip"
| "url_action_of S_Req_Schema_Slash_Slash = Url_Skip"
| "url_action_of S_Req_Server_Start = Url_Skip"
| "url_action_of S_Req_Query_String_Start = Url_Skip"
| "url_action_of S_Req_Fragment_Start = Url_Skip"
| "url_action_of S_Req_Schema = Url_In UF_SCHEMA"
| "url_action_of S_Req_Server_With_At = Url_In UF_HOST"
| "url_action_of S_Req_Server = Url_In UF_HOST"
| "url_action_of S_Req_Path = Url_In UF_PATH"
| "url_action_of S_Req_Query_String = Url_In UF_QUERY"
| "url_action_of S_Req_Fragment = Url_In UF_FRAGMENT"
| "url_action_of S_Req_Spaces_Before_Url = Url_Unexpected"

text \<open>
  The loop, at position \<open>i\<close>: \<open>old\<close> is the field of the previous character and \<open>found\<close> whether
  an at-sign has been seen.
\<close>

fun url_loop ::
  "nat \<Rightarrow> url_state \<Rightarrow> url_field option \<Rightarrow> bool \<Rightarrow> url \<Rightarrow> string \<Rightarrow> (bool \<times> url) option exec" where
  "url_loop i s old found u [] = Inr (Some (found, u))"
| "url_loop i s old found u (c # cs) =
     (let s = parse_url_char s c
      in case url_action_of s of
           Url_Fail \<Rightarrow> Inr None
         | Url_Unexpected \<Rightarrow> Inl Assert_Failed
         | Url_Skip \<Rightarrow> url_loop (i + 1) s old found u cs
         | Url_In f \<Rightarrow>
             url_loop (i + 1) s (Some f) (found \<or> s = S_Req_Server_With_At)
               (if Some f = old then grow_field f u else mark_field f (start_field f i 1 u)) cs)"

section \<open>The host\<close>

datatype host_state =
    H_Dead | H_Userinfo_Start | H_Userinfo | H_Host_Start | H_V6_Start | H_Host | H_V6 | H_V6_End
  | H_V6_Zone_Start | H_V6_Zone | H_Port_Start | H_Port

definition http_parse_host_char :: "host_state \<Rightarrow> char \<Rightarrow> host_state" where
  "http_parse_host_char s c =
     (let userinfo = if c = CHR ''@'' then H_Host_Start
                     else if is_userinfo_char c then H_Userinfo else H_Dead;
          after_host = if c = CHR '':'' then H_Port_Start else H_Dead;
          v6 = if is_hex c \<or> c = CHR '':'' \<or> c = CHR ''.'' then H_V6
               else if s = H_V6 \<and> c = CHR ''%'' then H_V6_Zone_Start else H_Dead;
          zone = if is_alphanum c \<or> c \<in> set ''%.-_~'' then H_V6_Zone else H_Dead;
          digits = if is_num c then H_Port else H_Dead
      in case s of
           H_Userinfo \<Rightarrow> userinfo
         | H_Userinfo_Start \<Rightarrow> userinfo
         | H_Host_Start \<Rightarrow>
             (if c = CHR ''['' then H_V6_Start else if is_host_char c then H_Host else H_Dead)
         | H_Host \<Rightarrow> (if is_host_char c then H_Host else after_host)
         | H_V6_End \<Rightarrow> after_host
         | H_V6 \<Rightarrow> (if c = CHR '']'' then H_V6_End else v6)
         | H_V6_Start \<Rightarrow> v6
         | H_V6_Zone \<Rightarrow> (if c = CHR '']'' then H_V6_End else zone)
         | H_V6_Zone_Start \<Rightarrow> zone
         | H_Port \<Rightarrow> digits
         | H_Port_Start \<Rightarrow> digits
         | H_Dead \<Rightarrow> H_Dead)"

text \<open>What a character at position \<open>i\<close> does to the fields, between states \<open>s\<close> and \<open>s'\<close>.\<close>

definition host_step :: "nat \<Rightarrow> host_state \<Rightarrow> host_state \<Rightarrow> url \<Rightarrow> url" where
  "host_step i s s' u =
     (let moved = \<lambda>f. u\<lparr>field_off := (field_off u)(f := of_nat i)\<rparr>;
          begun = \<lambda>f. mark_field f (start_field f i 0 u)
      in case s' of
           H_Host \<Rightarrow> grow_field UF_HOST (if s \<noteq> H_Host then moved UF_HOST else u)
         | H_V6 \<Rightarrow> grow_field UF_HOST (if s \<noteq> H_V6 then moved UF_HOST else u)
         | H_V6_Zone_Start \<Rightarrow> grow_field UF_HOST u
         | H_V6_Zone \<Rightarrow> grow_field UF_HOST u
         | H_Port \<Rightarrow> grow_field UF_PORT (if s \<noteq> H_Port then begun UF_PORT else u)
         | H_Userinfo \<Rightarrow> grow_field UF_USERINFO (if s \<noteq> H_Userinfo then begun UF_USERINFO else u)
         | _ \<Rightarrow> u)"

fun host_loop :: "nat \<Rightarrow> host_state \<Rightarrow> url \<Rightarrow> string \<Rightarrow> (host_state \<times> url) option" where
  "host_loop i s u [] = Some (s, u)"
| "host_loop i s u (c # cs) =
     (let s' = http_parse_host_char s c
      in if s' = H_Dead then None else host_loop (i + 1) s' (host_step i s s' u) cs)"

definition http_parse_host :: "string \<Rightarrow> url \<Rightarrow> bool \<Rightarrow> url option" where
  "http_parse_host buf u found =
     (let off = unat (field_off u UF_HOST); len = unat (field_len u UF_HOST)
      in case host_loop off (if found then H_Userinfo_Start else H_Host_Start)
                (u\<lparr>field_len := (field_len u)(UF_HOST := 0)\<rparr>) (take len (drop off buf)) of
           None \<Rightarrow> None
         | Some (s, u) \<Rightarrow>
             (if s \<in> {H_Host_Start, H_V6_Start, H_V6, H_V6_Zone_Start, H_V6_Zone, H_Port_Start,
                      H_Userinfo, H_Userinfo_Start}
              then None else Some u))"

section \<open>Parsing a URL\<close>

text \<open>The value of the digits, or \<open>None\<close> once it exceeds 16 bits.\<close>

fun port_value :: "nat \<Rightarrow> string \<Rightarrow> nat option" where
  "port_value v [] = Some v"
| "port_value v (c # cs) =
     (let v = v * 10 + (char_code c - 48) in if 65535 < v then None else port_value v cs)"

definition url_with_port :: "string \<Rightarrow> url \<Rightarrow> url option exec" where
  "url_with_port buf u =
     (if \<not> has_field UF_PORT u then Inr (Some u)
      else let off = unat (field_off u UF_PORT); len = unat (field_len u UF_PORT)
           in boost_assert (off + len \<le> length buf)
                (Inr (map_option (\<lambda>v. u\<lparr>url_port := of_nat v\<rparr>) (port_value 0 (take len (drop off buf))))))"

text \<open>\<open>None\<close> is the nonzero return value.\<close>

definition http_parser_parse_url :: "string \<Rightarrow> bool \<Rightarrow> url \<Rightarrow> url option exec" where
  "http_parser_parse_url buf is_connect u =
     exec_bind
       (url_loop 0 (if is_connect then S_Req_Server_Start else S_Req_Spaces_Before_Url) None False
          (u\<lparr>url_port := 0, field_set := 0\<rparr>) buf) (\<lambda>r.
     case r of
       None \<Rightarrow> Inr None
     | Some (found, u) \<Rightarrow>
         (if has_field UF_SCHEMA u \<and> \<not> has_field UF_HOST u then Inr None
          else case (if has_field UF_HOST u then http_parse_host buf u found else Some u) of
                 None \<Rightarrow> Inr None
               | Some u \<Rightarrow>
                   (if is_connect \<and>
                       field_set u \<noteq> push_bit (url_bit UF_HOST) 1 OR push_bit (url_bit UF_PORT) 1
                    then Inr None
                    else url_with_port buf u)))"

section \<open>Runs of one kind of characters\<close>

definition add_len :: "url_field \<Rightarrow> nat \<Rightarrow> url \<Rightarrow> url" where
  "add_len f n u = u\<lparr>field_len := (field_len u)(f := field_len u f + of_nat n)\<rparr>"

lemma grow_field_add_len: "grow_field f u = add_len f 1 u"
  by (simp add: grow_field_def add_len_def)

lemma add_len_add: "add_len f n (add_len f m u) = add_len f (m + n) u"
  by (simp add: add_len_def ac_simps)

lemma add_len_0 [simp]: "add_len f 0 u = u"
  by (simp add: add_len_def)

lemma url_loop_run:
  assumes "url_action_of s = Url_In f" "s \<noteq> S_Req_Server_With_At"
    and "\<forall>c\<in>set cs. parse_url_char s c = s"
  shows "url_loop i s (Some f) found u (cs @ rest) =
    url_loop (i + length cs) s (Some f) found (add_len f (length cs) u) rest"
  using assms
  by (induction cs arbitrary: i u)
    (simp_all add: Let_def grow_field_add_len add_len_add)

lemma host_loop_run:
  assumes "s = H_Host \<and> f = UF_HOST \<or> s = H_Port \<and> f = UF_PORT"
    and "\<forall>c\<in>set cs. http_parse_host_char s c = s"
  shows "host_loop i s u (cs @ rest) =
    host_loop (i + length cs) s (add_len f (length cs) u) rest"
  using assms
  by (induction cs arbitrary: i u)
    (auto simp: Let_def host_step_def grow_field_add_len add_len_add)

lemma alpha_not_space:
  "is_alpha c \<Longrightarrow> c \<noteq> CHR '' '' \<and> char_code c \<notin> {13, 10, 9, 12}"
  by (auto simp: is_alpha_def lower_code_def char_code_def)

lemma num_not_space: "is_num c \<Longrightarrow> c \<noteq> CHR '' '' \<and> char_code c \<notin> {13, 10, 9, 12}"
  by (auto simp: is_num_def char_code_def)

lemma url_char_not_space: "is_url_char c \<Longrightarrow> c \<noteq> CHR '' '' \<and> char_code c \<notin> {13, 10, 9, 12}"
  by (auto simp: is_url_char_def char_code_def)

lemma schema_run: "is_alpha c \<Longrightarrow> parse_url_char S_Req_Schema c = S_Req_Schema"
  using alpha_not_space [of c] by (simp add: parse_url_char_def)

lemma schema_start:
  "is_alpha c \<Longrightarrow> parse_url_char S_Req_Spaces_Before_Url c = S_Req_Schema"
  using alpha_not_space [of c]
  by (auto simp: parse_url_char_def is_alpha_def lower_code_def char_code_def)

lemma host_start:
  "is_host_char c \<Longrightarrow> http_parse_host_char H_Host_Start c = H_Host"
  by (auto simp: http_parse_host_char_def is_host_char_def is_alphanum_def
      is_alpha_def is_num_def lower_code_def char_code_def)

lemma host_char_server:
  assumes "is_host_char c \<or> c = CHR '':''"
  shows "parse_url_char S_Req_Server c = S_Req_Server"
    "parse_url_char S_Req_Server_Start c = S_Req_Server"
proof -
  have "c \<noteq> CHR '' '' \<and> char_code c \<notin> {13, 10, 9, 12}"
    using assms alpha_not_space [of c] num_not_space [of c]
    by (auto simp: is_host_char_def is_alphanum_def char_code_def)
  moreover have "server_char c = S_Req_Server"
    using assms
    by (auto simp: server_char_def is_host_char_def is_userinfo_char_def is_mark_def
        is_alphanum_def is_alpha_def is_num_def lower_code_def char_code_def)
  ultimately show "parse_url_char S_Req_Server c = S_Req_Server"
    "parse_url_char S_Req_Server_Start c = S_Req_Server"
    by (simp_all add: parse_url_char_def)
qed

lemma num_host_char: "is_num c \<Longrightarrow> is_host_char c"
  by (simp add: is_host_char_def is_alphanum_def)

lemma path_run: "is_url_char c \<Longrightarrow> parse_url_char S_Req_Path c = S_Req_Path"
  using url_char_not_space [of c] by (simp add: parse_url_char_def)

section \<open>An absolute URL\<close>

text \<open>The part from the colon of the port on, if there is one.\<close>

definition port_part :: "string option \<Rightarrow> string" where
  "port_part p = (case p of None \<Rightarrow> [] | Some ds \<Rightarrow> CHR '':'' # ds)"

lemma port_part_run:
  assumes "\<forall>c\<in>set (case p of None \<Rightarrow> [] | Some ds \<Rightarrow> ds). is_num c"
  shows "\<forall>c\<in>set (port_part p). is_host_char c \<or> c = CHR '':''"
  using assms num_host_char by (auto simp: port_part_def split: option.splits)

lemma absolute_url_loop:
  assumes "\<forall>c\<in>set (a # sc). is_alpha c" "\<forall>c\<in>set (b # h). is_host_char c"
    and "\<forall>c\<in>set (case p of None \<Rightarrow> [] | Some ds \<Rightarrow> ds). is_num c" "\<forall>c\<in>set path. is_url_char c"
  shows "url_loop 0 S_Req_Spaces_Before_Url None False u
      (a # sc @ ''://'' @ b # h @ port_part p @ CHR ''/'' # path) =
    Inr (Some (False,
      add_len UF_PATH (length path) (mark_field UF_PATH (start_field UF_PATH
        (5 + length sc + length h + length (port_part p)) 1
      (add_len UF_HOST (length h + length (port_part p)) (mark_field UF_HOST (start_field UF_HOST
        (4 + length sc) 1
      (add_len UF_SCHEMA (length sc) (mark_field UF_SCHEMA (start_field UF_SCHEMA 0 1 u))))))))))"
    (is "_ = Inr (Some (False, ?u))")
proof -
  have a: "parse_url_char S_Req_Spaces_Before_Url a = S_Req_Schema"
    using assms(1) schema_start by simp
  have sl: "parse_url_char S_Req_Schema CHR '':'' = S_Req_Schema_Slash"
    "parse_url_char S_Req_Schema_Slash CHR ''/'' = S_Req_Schema_Slash_Slash"
    "parse_url_char S_Req_Schema_Slash_Slash CHR ''/'' = S_Req_Server_Start"
    "parse_url_char S_Req_Server CHR ''/'' = S_Req_Path"
    by (simp_all add: parse_url_char_def server_char_def is_alpha_def lower_code_def char_code_def)
  have b: "parse_url_char S_Req_Server_Start b = S_Req_Server"
    using host_char_server(2) assms(2) by simp
  have sc: "\<forall>c\<in>set sc. parse_url_char S_Req_Schema c = S_Req_Schema"
    using assms(1) schema_run by simp
  have hp: "\<forall>c\<in>set (h @ port_part p). parse_url_char S_Req_Server c = S_Req_Server"
    using assms(2) port_part_run [OF assms(3)] by (simp add: ball_Un host_char_server(1))
  have pa: "\<forall>c\<in>set path. parse_url_char S_Req_Path c = S_Req_Path"
    using assms(4) path_run by simp
  have h: "url_loop i S_Req_Server (Some UF_HOST) False v (h @ port_part p @ CHR ''/'' # path) =
      url_loop (i + length (h @ port_part p)) S_Req_Server (Some UF_HOST) False
        (add_len UF_HOST (length (h @ port_part p)) v) (CHR ''/'' # path)" for i v
    using url_loop_run [of S_Req_Server UF_HOST "h @ port_part p", OF _ _ hp] by simp
  have e: "url_loop i S_Req_Path (Some UF_PATH) False v path =
      Inr (Some (False, add_len UF_PATH (length path) v))" for i v
    using url_loop_run [of S_Req_Path UF_PATH path i False v "[]", OF _ _ pa] by simp
  let ?u1 = "mark_field UF_SCHEMA (start_field UF_SCHEMA 0 1 u)"
  let ?u2 = "add_len UF_SCHEMA (length sc) ?u1"
  let ?u3 = "mark_field UF_HOST (start_field UF_HOST (4 + length sc) 1 ?u2)"
  let ?u4 = "add_len UF_HOST (length (h @ port_part p)) ?u3"
  let ?n = "5 + length sc + length (h @ port_part p)"
  let ?u5 = "mark_field UF_PATH (start_field UF_PATH ?n 1 ?u4)"
  let ?rest = "b # h @ port_part p @ CHR ''/'' # path"
  have "url_loop 0 S_Req_Spaces_Before_Url None False u (a # sc @ ''://'' @ ?rest) =
      url_loop 1 S_Req_Schema (Some UF_SCHEMA) False ?u1 (sc @ ''://'' @ ?rest)"
    by (simp add: a Let_def)
  also have "\<dots> = url_loop (1 + length sc) S_Req_Schema (Some UF_SCHEMA) False ?u2 (''://'' @ ?rest)"
    by (rule url_loop_run [OF _ _ sc]) simp_all
  also have "\<dots> = url_loop (4 + length sc) S_Req_Server_Start (Some UF_SCHEMA) False ?u2 ?rest"
    by (simp add: sl b Let_def add.commute [of _ "length sc"] eval_nat_numeral)
  also have "\<dots> = url_loop (5 + length sc) S_Req_Server (Some UF_HOST) False ?u3
      (h @ port_part p @ CHR ''/'' # path)"
    by (simp add: b Let_def eval_nat_numeral)
  also have "\<dots> = url_loop ?n S_Req_Server (Some UF_HOST) False ?u4 (CHR ''/'' # path)"
    by (rule h)
  also have "\<dots> = url_loop (?n + 1) S_Req_Path (Some UF_PATH) False ?u5 path"
    by (simp add: sl Let_def)
  also have "\<dots> = Inr (Some (False, add_len UF_PATH (length path) ?u5))"
    by (rule e)
  finally show ?thesis by (simp only: append_Cons append_Nil length_append add.assoc)
qed

lemma absolute_host_loop:
  assumes "\<forall>c\<in>set (b # h). is_host_char c"
    and "p = None \<or> p = Some (d # ds) \<and> (\<forall>c\<in>set (d # ds). is_num c)"
  shows "host_loop i H_Host_Start u (b # h @ port_part p) =
    (let v = add_len UF_HOST (Suc (length h)) (u\<lparr>field_off := (field_off u)(UF_HOST := of_nat i)\<rparr>)
     in if p = None then Some (H_Host, v)
        else Some (H_Port, add_len UF_PORT (Suc (length ds))
               (mark_field UF_PORT (start_field UF_PORT (i + 2 + length h) 0 v))))"
proof -
  have b: "http_parse_host_char H_Host_Start b = H_Host"
    using assms(1) host_start by simp
  have h: "\<forall>c\<in>set h. http_parse_host_char H_Host c = H_Host"
    using assms(1) by (simp add: http_parse_host_char_def)
  have colon: "http_parse_host_char H_Host CHR '':'' = H_Port_Start"
    by (simp add: http_parse_host_char_def is_host_char_def is_alphanum_def is_alpha_def is_num_def
        lower_code_def char_code_def)
  note run = host_loop_run [where s = H_Host, OF _ h]
  show ?thesis
  proof (cases p)
    case None
    then show ?thesis
      using run [of UF_HOST _ _ "[]"]
      by (simp add: b port_part_def Let_def host_step_def grow_field_add_len add_len_add)
  next
    case (Some q)
    have d: "http_parse_host_char H_Port_Start d = H_Port" and
      ds: "\<forall>c\<in>set ds. http_parse_host_char H_Port c = H_Port"
      using assms(2) Some by (simp_all add: http_parse_host_char_def)
    note run' = host_loop_run [where s = H_Port and rest = "[]", OF _ ds]
    show ?thesis
      using assms(2) Some run [of UF_HOST _ _ "CHR '':'' # d # ds"] run' [of UF_PORT]
      by (simp add: b port_part_def Let_def host_step_def grow_field_add_len add_len_add colon d
          add.commute add.left_commute)
  qed
qed

text \<open>What the parser reports of \<open>scheme://host[:port]/path\<close>.\<close>

definition reports_url :: "string \<Rightarrow> string \<Rightarrow> string option \<Rightarrow> nat \<Rightarrow> url \<Rightarrow> bool" where
  "reports_url sc h p v u \<longleftrightarrow>
     field_set u = (if p = None then 11 else 15) \<and> url_port u = of_nat v \<and>
     unat (field_off u UF_SCHEMA) = 0 \<and> unat (field_len u UF_SCHEMA) = length sc \<and>
     unat (field_off u UF_HOST) = length sc + 3 \<and> unat (field_len u UF_HOST) = length h \<and>
     unat (field_off u UF_PATH) = length sc + 3 + length h + length (port_part p)"

definition absolute_url :: "string \<Rightarrow> string \<Rightarrow> string option \<Rightarrow> string \<Rightarrow> string" where
  "absolute_url sc h p path = sc @ ''://'' @ h @ port_part p @ CHR ''/'' # path"

definition port_ok :: "string option \<Rightarrow> nat \<Rightarrow> bool" where
  "port_ok p v \<longleftrightarrow>
     (case p of
        None \<Rightarrow> v = 0
      | Some ds \<Rightarrow> ds \<noteq> [] \<and> (\<forall>c\<in>set ds. is_num c) \<and> port_value 0 ds = Some v)"

definition url_parts_ok :: "string \<Rightarrow> string \<Rightarrow> string option \<Rightarrow> string \<Rightarrow> nat \<Rightarrow> bool" where
  "url_parts_ok sc h p path v \<longleftrightarrow>
     sc \<noteq> [] \<and> (\<forall>c\<in>set sc. is_alpha c) \<and> h \<noteq> [] \<and> (\<forall>c\<in>set h. is_host_char c) \<and> port_ok p v \<and>
     (\<forall>c\<in>set path. is_url_char c) \<and> length (absolute_url sc h p path) < 2 ^ 16"

lemma unat_u16: "n < 2 ^ 16 \<Longrightarrow> unat (of_nat n :: u16) = n"
  by (simp add: unat_of_nat)

lemma take_drop_append: "length xs = i \<Longrightarrow> length ys = n \<Longrightarrow> take n (drop i (xs @ ys @ zs)) = ys"
  by simp

lemma url_with_port_ok:
  assumes "field_set u \<in> {6, 15}" "unat (field_off u UF_PORT) = i" "unat (field_len u UF_PORT) = length ds"
    and "take (length ds) (drop i buf) = ds" "i + length ds \<le> length buf" "port_value 0 ds = Some v"
  shows "url_with_port buf u = Inr (Some (u\<lparr>url_port := of_nat v\<rparr>))"
  using assms by (auto simp: url_with_port_def has_field_def)

lemma http_parse_host_ok:
  assumes "unat (field_off u UF_HOST) = i" "unat (field_len u UF_HOST) = n" "take n (drop i buf) = cs"
    and "host_loop i H_Host_Start (u\<lparr>field_len := (field_len u)(UF_HOST := 0)\<rparr>) cs = Some (s, v)"
    and "s = H_Host \<or> s = H_Port"
  shows "http_parse_host buf u False = Some v"
  using assms by (auto simp: http_parse_host_def)

text \<open>The host and the port as the second parser leaves them.\<close>

definition host_set :: "nat \<Rightarrow> nat \<Rightarrow> url \<Rightarrow> url" where
  "host_set i n u = add_len UF_HOST n
     (u\<lparr>field_len := (field_len u)(UF_HOST := 0), field_off := (field_off u)(UF_HOST := of_nat i)\<rparr>)"

definition port_set :: "nat \<Rightarrow> nat \<Rightarrow> url \<Rightarrow> url" where
  "port_set i n u = add_len UF_PORT n (mark_field UF_PORT (start_field UF_PORT i 0 u))"

lemma host_set_fields:
  assumes "i < 2 ^ 16" "n < 2 ^ 16"
  shows "unat (field_off (host_set i n u) UF_HOST) = i" "unat (field_len (host_set i n u) UF_HOST) = n"
    "f \<noteq> UF_HOST \<Longrightarrow> field_off (host_set i n u) f = field_off u f"
    "f \<noteq> UF_HOST \<Longrightarrow> field_len (host_set i n u) f = field_len u f"
    "field_set (host_set i n u) = field_set u" "url_port (host_set i n u) = url_port u"
  using unat_u16 [OF assms(1)] unat_u16 [OF assms(2)] by (simp_all add: host_set_def add_len_def)

lemma port_set_fields:
  assumes "i < 2 ^ 16" "n < 2 ^ 16"
  shows "unat (field_off (port_set i n u) UF_PORT) = i" "unat (field_len (port_set i n u) UF_PORT) = n"
    "f \<noteq> UF_PORT \<Longrightarrow> field_off (port_set i n u) f = field_off u f"
    "f \<noteq> UF_PORT \<Longrightarrow> field_len (port_set i n u) f = field_len u f"
    "field_set u = 2 \<Longrightarrow> field_set (port_set i n u) = 6" "field_set u = 11 \<Longrightarrow> field_set (port_set i n u) = 15"
    "url_port (port_set i n u) = url_port u"
  using unat_u16 [OF assms(1)] unat_u16 [OF assms(2)]
  by (simp_all add: port_set_def add_len_def mark_field_def start_field_def)

lemma parse_host_sets:
  assumes "unat (field_off u UF_HOST) = i" "unat (field_len u UF_HOST) = length (h @ port_part p)"
    and "take (length (h @ port_part p)) (drop i buf) = h @ port_part p"
    and "h \<noteq> []" "\<forall>c\<in>set h. is_host_char c" "port_ok p v"
  shows "http_parse_host buf u False =
    Some (case p of None \<Rightarrow> host_set i (length h) u
                  | Some ds \<Rightarrow> port_set (i + 1 + length h) (length ds) (host_set i (length h) u))"
proof -
  obtain b h' where h: "h = b # h'" using assms(4) by (cases h) auto
  obtain d ds where p: "p = None \<or> p = Some (d # ds) \<and> (\<forall>c\<in>set (d # ds). is_num c)"
    using assms(6) by (auto simp: port_ok_def neq_Nil_conv split: option.splits)
  have hc: "\<forall>c\<in>set (b # h'). is_host_char c" using assms(5) h by simp
  let ?v = "u\<lparr>field_len := (field_len u)(UF_HOST := 0)\<rparr>"
  have run: "host_loop i H_Host_Start ?v (h @ port_part p) =
      Some (case p of None \<Rightarrow> (H_Host, host_set i (length h) u)
        | Some ds \<Rightarrow> (H_Port, port_set (i + 1 + length h) (length ds) (host_set i (length h) u)))"
    using absolute_host_loop [OF hc p, of i ?v] p
    unfolding h append_Cons by (auto simp: Let_def host_set_def port_set_def simp del: host_loop.simps)
  show ?thesis using p run http_parse_host_ok [OF assms(1-3)] by auto
qed

lemma url_with_port_set:
  assumes "field_set u = 2 \<or> field_set u = 11" "i < 2 ^ 16" "length ds < 2 ^ 16"
    and "take (length ds) (drop i buf) = ds" "i + length ds \<le> length buf" "port_value 0 ds = Some v"
  shows "url_with_port buf (port_set i (length ds) u) =
    Inr (Some (port_set i (length ds) u\<lparr>url_port := of_nat v\<rparr>))"
proof (rule url_with_port_ok [OF _ _ _ assms(4-6)])
  note fields = port_set_fields [OF assms(2,3)]
  show "field_set (port_set i (length ds) u) \<in> {6, 15}" using assms(1) fields(5,6) [where u = u] by auto
  show "unat (field_off (port_set i (length ds) u) UF_PORT) = i"
    "unat (field_len (port_set i (length ds) u) UF_PORT) = length ds" by (rule fields)+
qed

text \<open>What the first parser reports of an absolute URL.\<close>

lemma absolute_url_fields:
  assumes "url_parts_ok sc h p path v"
  obtains u where "url_loop 0 S_Req_Spaces_Before_Url None False (u0\<lparr>url_port := 0, field_set := 0\<rparr>)
      (absolute_url sc h p path) = Inr (Some (False, u))"
    and "field_set u = 11" "url_port u = 0" "unat (field_off u UF_SCHEMA) = 0" "unat (field_len u UF_SCHEMA) = length sc"
    and "unat (field_off u UF_HOST) = length sc + 3" "unat (field_len u UF_HOST) = length (h @ port_part p)"
    and "unat (field_off u UF_PATH) = length sc + 3 + length h + length (port_part p)"
proof -
  obtain a sc' b h' where sh: "sc = a # sc'" "h = b # h'"
    using assms by (auto simp: url_parts_ok_def neq_Nil_conv)
  have nums: "\<forall>c\<in>set (case p of None \<Rightarrow> [] | Some ds \<Rightarrow> ds). is_num c"
    using assms by (auto simp: url_parts_ok_def port_ok_def split: option.splits)
  let ?m = "length h' + length (port_part p)" and ?k = "5 + length sc' + length h' + length (port_part p)"
  let ?init = "u0\<lparr>url_port := 0, field_set := 0\<rparr>"
  let ?u = "add_len UF_PATH (length path) (mark_field UF_PATH (start_field UF_PATH ?k 1
      (add_len UF_HOST ?m (mark_field UF_HOST (start_field UF_HOST (4 + length sc') 1
      (add_len UF_SCHEMA (length sc') (mark_field UF_SCHEMA (start_field UF_SCHEMA 0 1 ?init))))))))"
  have len: "Suc (length sc') < 2 ^ 16" "4 + length sc' < 2 ^ 16" "Suc ?m < 2 ^ 16" "?k < 2 ^ 16"
    using assms sh by (auto simp: url_parts_ok_def absolute_url_def)
  have loop: "url_loop 0 S_Req_Spaces_Before_Url None False ?init (absolute_url sc h p path) = Inr (Some (False, ?u))"
    unfolding absolute_url_def sh append_Cons append_Nil
    using absolute_url_loop [of a sc' b h' p path ?init] assms sh nums
    by (simp add: url_parts_ok_def)
  show thesis
    by (rule that [OF loop])
      (use unat_u16 [OF len(1)] unat_u16 [OF len(2)] unat_u16 [OF len(3)] unat_u16 [OF len(4)] sh in
        \<open>simp_all add: add_len_def mark_field_def start_field_def\<close>)
qed

lemma parse_absolute_url:
  assumes "url_parts_ok sc h p path v"
  shows "\<exists>u. http_parser_parse_url (absolute_url sc h p path) False u0 = Inr (Some u) \<and>
             reports_url sc h p v u"
proof -
  let ?buf = "absolute_url sc h p path" and ?i = "length sc + 3"
  let ?j = "?i + 1 + length h"
  have parts: "h \<noteq> []" "\<forall>c\<in>set h. is_host_char c" "port_ok p v" "?i < 2 ^ 16" "length h < 2 ^ 16"
    using assms by (auto simp: url_parts_ok_def absolute_url_def)
  obtain u where u: "url_loop 0 S_Req_Spaces_Before_Url None False (u0\<lparr>url_port := 0, field_set := 0\<rparr>) ?buf =
      Inr (Some (False, u))" "field_set u = 11" "url_port u = 0" "unat (field_off u UF_SCHEMA) = 0"
    "unat (field_len u UF_SCHEMA) = length sc" "unat (field_off u UF_HOST) = ?i"
    "unat (field_len u UF_HOST) = length (h @ port_part p)"
    "unat (field_off u UF_PATH) = length sc + 3 + length h + length (port_part p)"
    by (rule absolute_url_fields [OF assms])
  have chars: "take (length (h @ port_part p)) (drop ?i ?buf) = h @ port_part p"
    using take_drop_append [of "sc @ ''://''" ?i "h @ port_part p" _ "CHR ''/'' # path"]
    by (simp add: absolute_url_def)
  note host = parse_host_sets [OF u(6,7) chars parts(1-3)]
  let ?w = "host_set ?i (length h) u"
  note w = host_set_fields [OF parts(4,5), where u = u]
  have parse: "http_parser_parse_url ?buf False u0 =
      url_with_port ?buf (case p of None \<Rightarrow> ?w | Some ds \<Rightarrow> port_set ?j (length ds) ?w)"
    by (simp add: http_parser_parse_url_def u(1,2) host has_field_def)
  show ?thesis
  proof (cases p)
    case None
    then show ?thesis
      using parse w u parts(3) by (simp add: url_with_port_def has_field_def reports_url_def port_ok_def port_part_def)
  next
    case (Some ds)
    have pv: "port_value 0 ds = Some v" using parts(3) Some by (simp add: port_ok_def)
    have short: "?j < 2 ^ 16" "length ds < 2 ^ 16" "?j + length ds \<le> length ?buf"
      using assms Some by (auto simp: url_parts_ok_def absolute_url_def port_part_def)
    have at: "take (length ds) (drop ?j ?buf) = ds"
      using take_drop_append [of "sc @ ''://'' @ h @ '':''" ?j ds "length ds" "CHR ''/'' # path"] Some
      by (simp add: absolute_url_def port_part_def)
    note x = port_set_fields [OF short(1,2), where u = ?w]
    have "url_with_port ?buf (port_set ?j (length ds) ?w) = Inr (Some (port_set ?j (length ds) ?w\<lparr>url_port := of_nat v\<rparr>))"
      using w u(2) by (intro url_with_port_set [OF _ short(1,2) at short(3) pv]) simp
    moreover have "reports_url sc h p v (port_set ?j (length ds) ?w\<lparr>url_port := of_nat v\<rparr>)"
      using Some w x u by (simp add: reports_url_def port_part_def)
    ultimately show ?thesis using parse Some by auto
  qed
qed

section \<open>The other forms of a target\<close>

lemma port_value_bound: "port_value a ds = Some v \<Longrightarrow> a < 2 ^ 16 \<Longrightarrow> v < 2 ^ 16"
  by (induction ds arbitrary: a) (auto simp: Let_def split: if_splits)

lemma port_ok_bound: "port_ok p v \<Longrightarrow> v < 2 ^ 16"
  using port_value_bound [of 0] by (fastforce simp: port_ok_def split: option.splits)

text \<open>A target that is only a path, \<open>/path\<close>.\<close>

lemma parse_path_url:
  assumes "\<forall>c\<in>set path. is_url_char c"
  shows "http_parser_parse_url (CHR ''/'' # path) False http_parser_url_init =
           Inr (Some (http_parser_url_init\<lparr>field_set := 8,
             field_len := (\<lambda>_. 0)(UF_PATH := 1 + of_nat (length path))\<rparr>))"
proof -
  let ?u = "mark_field UF_PATH (start_field UF_PATH 0 1 http_parser_url_init)"
  have init: "http_parser_url_init\<lparr>url_port := 0, field_set := 0\<rparr> = http_parser_url_init"
    by (simp add: http_parser_url_init_def)
  have run: "\<forall>c\<in>set path. parse_url_char S_Req_Path c = S_Req_Path"
    using assms path_run by simp
  have s: "parse_url_char S_Req_Spaces_Before_Url CHR ''/'' = S_Req_Path"
    by (simp add: parse_url_char_def char_code_def)
  have "url_loop 0 S_Req_Spaces_Before_Url None False http_parser_url_init (CHR ''/'' # path) =
      url_loop 1 S_Req_Path (Some UF_PATH) False ?u path"
    by (simp add: s Let_def)
  also have "\<dots> = Inr (Some (False, add_len UF_PATH (length path) ?u))"
    using url_loop_run [of S_Req_Path UF_PATH path 1 False ?u "[]", OF _ _ run] by simp
  finally have "http_parser_parse_url (CHR ''/'' # path) False http_parser_url_init =
      Inr (Some (add_len UF_PATH (length path) ?u))"
    unfolding http_parser_parse_url_def init
    by (simp add: has_field_def add_len_def mark_field_def start_field_def url_with_port_def
        http_parser_url_init_def)
  then show ?thesis
    by (simp add: add_len_def mark_field_def start_field_def http_parser_url_init_def fun_eq_iff)
qed

text \<open>The target of a \<open>CONNECT\<close> request, \<open>host:port\<close>; without a port it is refused.\<close>

lemma connect_url_fields:
  assumes "h \<noteq> []" "\<forall>c\<in>set h. is_host_char c" "port_ok p v" "length (h @ port_part p) < 2 ^ 16"
  obtains u where "url_loop 0 S_Req_Server_Start None False (u0\<lparr>url_port := 0, field_set := 0\<rparr>) (h @ port_part p) =
      Inr (Some (False, u))"
    and "field_set u = 2" "url_port u = 0" "field_off u UF_HOST = 0" "unat (field_len u UF_HOST) = length (h @ port_part p)"
proof -
  obtain b h' where h: "h = b # h'" using assms(1) by (cases h) auto
  let ?init = "u0\<lparr>url_port := 0, field_set := 0\<rparr>" and ?m = "length h' + length (port_part p)"
  let ?u = "add_len UF_HOST ?m (mark_field UF_HOST (start_field UF_HOST 0 1 ?init))"
  have nums: "\<forall>c\<in>set (case p of None \<Rightarrow> [] | Some ds \<Rightarrow> ds). is_num c"
    using assms(3) by (auto simp: port_ok_def split: option.splits)
  have run: "\<forall>c\<in>set (h' @ port_part p). parse_url_char S_Req_Server c = S_Req_Server"
    using assms(2) h port_part_run [OF nums] by (simp add: ball_Un host_char_server(1))
  have s: "parse_url_char S_Req_Server_Start b = S_Req_Server"
    using host_char_server(2) assms(2) h by simp
  have "url_loop 0 S_Req_Server_Start None False ?init (h @ port_part p) =
      url_loop 1 S_Req_Server (Some UF_HOST) False (mark_field UF_HOST (start_field UF_HOST 0 1 ?init))
        (h' @ port_part p)"
    by (simp add: h s Let_def)
  also have "\<dots> = Inr (Some (False, ?u))"
    using url_loop_run [of S_Req_Server UF_HOST "h' @ port_part p" 1 False _ "[]", OF _ _ run] by simp
  finally have loop: "url_loop 0 S_Req_Server_Start None False ?init (h @ port_part p) = Inr (Some (False, ?u))" .
  have len: "Suc ?m < 2 ^ 16" using assms(4) h by simp
  show thesis
    by (rule that [OF loop]) (use unat_u16 [OF len] h in \<open>simp_all add: add_len_def mark_field_def start_field_def\<close>)
qed

lemma parse_connect_url:
  assumes "h \<noteq> []" "\<forall>c\<in>set h. is_host_char c" "port_ok p v" "length (h @ port_part p) < 2 ^ 16"
  shows "case p of
      None \<Rightarrow> http_parser_parse_url (h @ port_part p) True u0 = Inr None
    | Some ds \<Rightarrow> \<exists>u. http_parser_parse_url (h @ port_part p) True u0 = Inr (Some u) \<and>
        field_set u = 6 \<and> url_port u = of_nat v \<and> field_off u UF_HOST = 0 \<and>
        unat (field_len u UF_HOST) = length h"
proof -
  let ?buf = "h @ port_part p" and ?j = "0 + 1 + length h"
  obtain u where u: "url_loop 0 S_Req_Server_Start None False (u0\<lparr>url_port := 0, field_set := 0\<rparr>) ?buf =
      Inr (Some (False, u))" "field_set u = 2" "url_port u = 0" "field_off u UF_HOST = 0"
    "unat (field_len u UF_HOST) = length ?buf"
    by (rule connect_url_fields [OF assms])
  have off: "unat (field_off u UF_HOST) = 0" "take (length ?buf) (drop 0 ?buf) = ?buf" using u(4) by simp_all
  note host = parse_host_sets [OF off(1) u(5) off(2) assms(1-3)]
  let ?w = "host_set 0 (length h) u"
  have short: "(0::nat) < 2 ^ 16" "length h < 2 ^ 16" using assms(4) by simp_all
  note w = host_set_fields [OF short, where u = u]
  have parse: "http_parser_parse_url ?buf True u0 =
      (let x = (case p of None \<Rightarrow> ?w | Some ds \<Rightarrow> port_set ?j (length ds) ?w)
       in if field_set x \<noteq> 6 then Inr None else url_with_port ?buf x)"
    unfolding http_parser_parse_url_def by (simp add: u(1,2) host has_field_def Let_def)
  show ?thesis
  proof (cases p)
    case None
    then show ?thesis using w(5) u(2) parse by simp
  next
    case (Some ds)
    have pv: "port_value 0 ds = Some v" using assms(3) Some by (simp add: port_ok_def)
    have len: "?j < 2 ^ 16" "length ds < 2 ^ 16" "?j + length ds \<le> length ?buf" "take (length ds) (drop ?j ?buf) = ds"
      using assms(4) Some by (auto simp: port_part_def)
    note x = port_set_fields [OF len(1,2), where u = ?w]
    have "url_with_port ?buf (port_set ?j (length ds) ?w) = Inr (Some (port_set ?j (length ds) ?w\<lparr>url_port := of_nat v\<rparr>))"
      using w u(2) by (intro url_with_port_set [OF _ len(1,2,4,3) pv]) simp
    then have "http_parser_parse_url ?buf True u0 = Inr (Some (port_set ?j (length ds) ?w\<lparr>url_port := of_nat v\<rparr>))"
      using parse x(5) w(5) u(2) Some by (simp add: Let_def)
    moreover have "field_off ?w UF_HOST = 0" by (simp add: host_set_def add_len_def)
    ultimately show ?thesis using Some x w u(2) by simp
  qed
qed

end
