(* ===== verification/Http_Server.thy ===== *)
theory Http_Server
  imports Flow_Interface Http_Rewriter_Laws Http_Url
begin

text \<open>
  \<open>data_flow::HttpServerDataFlow\<close> (src/data_flow/http_server_data_flow.cc): the server side of
  an HTTP proxy over the next local hop.  The head of the first request says where to connect;
  a \<open>CONNECT\<close> request opens a plain relay, any other request is rewritten and passed on.
\<close>

section \<open>State\<close>

datatype http_server_error_code = DataBeforeConnectRequestFinish | InvalidRequest

fun http_server_code :: "http_server_error_code \<Rightarrow> int" where
  "http_server_code DataBeforeConnectRequestFinish = 1"
| "http_server_code InvalidRequest = 2"

definition http_server_error :: "http_server_error_code \<Rightarrow> error" where
  "http_server_error c = error_of Http_Server_Category (http_server_code c)"

text \<open>The members the delegate of the rewriter reads and changes.\<close>

record http_front =
  hs_session :: session
  is_connect :: bool
  has_read_method :: bool
  reading_first_header :: bool
  first_header_offset :: size

record ('h, 'p) http_server =
  front :: http_front
  hs_machine :: fsm
  hs_open_cancelable :: cancelable
  hs_read_cancelable :: cancelable
  hs_write_cancelable :: cancelable
  first_header :: bytes
  hs_rewriter :: "'p rewriter"
  hs_handler :: "'h option"

datatype 'h http_server_task =
    Hs_Read 'h | Hs_Posted cancelable 'h | Hs_Written 'h | Hs_Write_Closed 'h
  | Hs_Opened | Hs_Negotiate | Hs_Response_Written 'h | Hs_Continued cancelable 'h

type_synonym ('h, 'p) hs_reaction = "(('h, 'p) http_server, 'h, 'h http_server_task) reaction"

text \<open>
  What the flow relies on: the parser of IP addresses, \<open>http_parser\<close>, the blocks of the
  buffers and the fuel of the rewriter's loop.
\<close>

record 'p http_env =
  env_address :: "string \<Rightarrow> ip_address option"
  env_execute :: "'p parser"
  env_blocks :: cutter
  env_fuel :: nat

definition http_front_new :: "session \<Rightarrow> http_front" where
  "http_front_new s =
     \<lparr>hs_session = s, is_connect = False, has_read_method = False, reading_first_header = True,
      first_header_offset = 0\<rparr>"

definition http_server_new ::
  "session \<Rightarrow> cancelable \<Rightarrow> cancelable \<Rightarrow> cancelable \<Rightarrow> 'p \<Rightarrow> ('h, 'p) http_server" where
  "http_server_new s oc rc wc p =
     \<lparr>front = http_front_new s, hs_machine = fsm_new Local, hs_open_cancelable = oc,
      hs_read_cancelable = rc, hs_write_cancelable = wc, first_header = [],
      hs_rewriter = rewriter_new Request p, hs_handler = None\<rparr>"

definition http_server_destroy ::
  "('h, 'p) http_server \<Rightarrow> ('h, 'h http_server_task) action list" where
  "http_server_destroy s =
     [Cancel_Token (hs_open_cancelable s), Cancel_Token (hs_read_cancelable s),
      Cancel_Token (hs_write_cancelable s)]"

section \<open>The delegate\<close>

text \<open>\<open>std::string{s + off}\<close>, up to the first zero byte, and \<open>std::string{s + off, len}\<close>.\<close>

definition c_string :: "u16 \<Rightarrow> string \<Rightarrow> string exec" where
  "c_string off s =
     (if unat off \<le> length s then Inr (takeWhile (\<lambda>c. char_code c \<noteq> 0) (drop (unat off) s))
      else Inl Out_Of_Bounds)"

definition c_piece :: "u16 \<Rightarrow> u16 \<Rightarrow> string \<Rightarrow> string exec" where
  "c_piece off len s =
     (if unat off + unat len \<le> length s then Inr (take (unat len) (drop (unat off) s))
      else Inl Out_Of_Bounds)"

text \<open>\<open>boost::iequals\<close> in the classic locale.\<close>

definition upper_code :: "char \<Rightarrow> nat" where
  "upper_code c =
     (if 97 \<le> char_code c \<and> char_code c \<le> 122 then char_code c - 32 else char_code c)"

definition iequals :: "string \<Rightarrow> string \<Rightarrow> bool" where
  "iequals s t \<longleftrightarrow> map upper_code s = map upper_code t"

text \<open>\<open>url_parser_.field_set >> f\<close>, as a truth value.\<close>

definition shifted_field :: "url_field \<Rightarrow> url \<Rightarrow> bool" where
  "shifted_field f u \<longleftrightarrow> drop_bit (url_bit f) (field_set u) \<noteq> 0"

definition hs_set_target ::
  "(string \<Rightarrow> ip_address option) \<Rightarrow> cancelable \<Rightarrow> string \<Rightarrow> u16 \<Rightarrow> http_front \<Rightarrow> http_front" where
  "hs_set_target parse new h p f =
     f\<lparr>hs_session := session_set_endpoint (endpoint_with_host parse h p new) (hs_session f)\<rparr>"

definition hs_on_method :: "http_front \<Rightarrow> 'p rewriter \<Rightarrow> (bool \<times> http_front \<times> 'p rewriter) exec" where
  "hs_on_method f w =
     (if has_read_method f then Inr (True, f, w)
      else exec_bind (rewriter_current_token w) (\<lambda>(t, w).
           let f = f\<lparr>has_read_method := True\<rparr>
           in Inr (True, if t = ''CONNECT'' then f\<lparr>is_connect := True\<rparr> else f, w)))"

definition hs_connect_url ::
  "(string \<Rightarrow> ip_address option) \<Rightarrow> cancelable \<Rightarrow> string \<Rightarrow> url \<Rightarrow> http_front \<Rightarrow> 'p rewriter \<Rightarrow>
   (bool \<times> http_front \<times> 'p rewriter) exec" where
  "hs_connect_url parse new t u f w =
     (if \<not> (shifted_field UF_HOST u \<and> shifted_field UF_PORT u) then Inr (False, f, w)
      else exec_bind (c_piece (field_off u UF_HOST) (field_len u UF_HOST) t) (\<lambda>h.
           Inr (True, hs_set_target parse new h (url_port u) f, w)))"

definition hs_port :: "string \<Rightarrow> url \<Rightarrow> u16 exec" where
  "hs_port t u =
     (if shifted_field UF_PORT u then Inr (if url_port u \<noteq> 0 then url_port u else 80)
      else if shifted_field UF_SCHEMA u
      then exec_bind (c_piece (field_off u UF_SCHEMA) (field_len u UF_SCHEMA) t) (\<lambda>sc.
           Inr (if iequals ''https'' sc then 443 else 80))
      else Inr 80)"

definition hs_plain_url ::
  "(string \<Rightarrow> ip_address option) \<Rightarrow> cancelable \<Rightarrow> string \<Rightarrow> url \<Rightarrow> http_front \<Rightarrow> 'p rewriter \<Rightarrow>
   (bool \<times> http_front \<times> 'p rewriter) exec" where
  "hs_plain_url parse new t u f w =
     exec_bind (if shifted_field UF_PATH u then c_string (field_off u UF_PATH) t else Inr ''/'') (\<lambda>new_url.
     let finish = \<lambda>f. exec_bind (rewrite_current_token new_url w) (\<lambda>w. Inr (True, f, w))
     in if reading_first_header f
        then if \<not> shifted_field UF_HOST u then Inr (False, f, w)
             else exec_bind (c_piece (field_off u UF_HOST) (field_len u UF_HOST) t) (\<lambda>h.
                  exec_bind (hs_port t u) (\<lambda>p. finish (hs_set_target parse new h p f)))
        else finish f)"

definition hs_on_url ::
  "(string \<Rightarrow> ip_address option) \<Rightarrow> cancelable \<Rightarrow> http_front \<Rightarrow> 'p rewriter \<Rightarrow>
   (bool \<times> http_front \<times> 'p rewriter) exec" where
  "hs_on_url parse new f w =
     boost_assert (is_connect f \<longrightarrow> reading_first_header f)
       (exec_bind (rewriter_current_token w) (\<lambda>(t, w).
        exec_bind (http_parser_parse_url t (is_connect f) http_parser_url_init) (\<lambda>r.
        case r of
          None \<Rightarrow> Inr (False, f, w)
        | Some u \<Rightarrow> (if is_connect f then hs_connect_url parse new t u f w
                     else hs_plain_url parse new t u f w))))"

definition hs_on_header_pair ::
  "http_front \<Rightarrow> 'p rewriter \<Rightarrow> (bool \<times> http_front \<times> 'p rewriter) exec" where
  "hs_on_header_pair f w =
     (if is_connect f then Inr (True, f, w)
      else exec_bind (rewriter_current_header w) (\<lambda>(h, w).
           exec_bind (if iequals (fst h) ''Proxy-Authorization'' then delete_current_header w
                      else Inr w) (\<lambda>w.
           exec_bind (rewriter_current_header w) (\<lambda>(h, w).
           if iequals (fst h) ''Proxy-Connection''
           then exec_bind (rewriter_current_header w) (\<lambda>(h, w).
                exec_bind (rewrite_current_header (''Connection'', snd h) w) (\<lambda>w.
                Inr (True, f, w)))
           else Inr (True, f, w)))))"

definition hs_on_message_complete :: "size \<Rightarrow> http_front \<Rightarrow> http_front" where
  "hs_on_message_complete off f = f\<lparr>first_header_offset := off, reading_first_header := False\<rparr>"

definition hs_delegate ::
  "(string \<Rightarrow> ip_address option) \<Rightarrow> cancelable \<Rightarrow> ('p, http_front) delegate" where
  "hs_delegate parse new c f w =
     (case c of
        D_Method \<Rightarrow> hs_on_method f w
      | D_Url \<Rightarrow> hs_on_url parse new f w
      | D_Version \<Rightarrow> Inr (True, f, w)
      | D_Status \<Rightarrow> Inr (True, f, w)
      | D_Header_Pair \<Rightarrow> hs_on_header_pair f w
      | D_Header_Complete \<Rightarrow> Inr (True, f, w)
      | D_Message_Complete off up \<Rightarrow> Inr (True, hs_on_message_complete off f, w))"

text \<open>\<open>rewriter_.RewriteBuffer(&*buffer)\<close> on the flow; \<open>new\<close> is the flag of an endpoint made.\<close>

definition hs_rewrite ::
  "'p http_env \<Rightarrow> cancelable \<Rightarrow> bytes \<Rightarrow> ('h, 'p) http_server \<Rightarrow>
   (unit result \<times> bytes \<times> ('h, 'p) http_server) exec option" where
  "hs_rewrite env new b s =
     map_option (\<lambda>m. exec_bind m (\<lambda>(r, b, f, w). Inr (r, b, s\<lparr>front := f, hs_rewriter := w\<rparr>)))
       (rewrite_buffer (hs_delegate (env_address env) new) (env_execute env) (env_blocks env)
          (env_fuel env) b (front s, hs_rewriter s))"

section \<open>The relay\<close>

text \<open>\<open>tok\<close> is the flag of the new \<open>Cancelable\<close> of a posted read, or the token of the next hop.\<close>

definition hs_read :: "cancelable \<Rightarrow> 'h \<Rightarrow> ('h, 'p) http_server \<Rightarrow> ('h, 'p) hs_reaction" where
  "hs_read tok h s =
     exec_bind (read_begin (hs_machine s)) (\<lambda>m.
     Inr (s\<lparr>hs_machine := m, hs_read_cancelable := tok\<rparr>,
          [if first_header s \<noteq> [] then Do_Post (Hs_Posted tok h) else Do_Read (Hs_Read h)]))"

definition hs_on_posted ::
  "cancel_store \<Rightarrow> cancelable \<Rightarrow> 'h \<Rightarrow> ('h, 'p) http_server \<Rightarrow> ('h, 'p) hs_reaction" where
  "hs_on_posted st c h s =
     unless_canceled st c s
       (exec_bind (read_end (hs_machine s)) (\<lambda>m.
        Inr (s\<lparr>hs_machine := m, first_header := []\<rparr>, [Give_Data h (Inr (first_header s))])))"

definition hs_on_read ::
  "'p http_env \<Rightarrow> cancelable \<Rightarrow> 'h \<Rightarrow> bytes result \<Rightarrow> ('h, 'p) http_server \<Rightarrow>
   ('h, 'p) hs_reaction option" where
  "hs_on_read env new h r s =
     (case read_end (hs_machine s) of
        Inl x \<Rightarrow> Some (Inl x)
      | Inr m \<Rightarrow>
          (let s = s\<lparr>hs_machine := m\<rparr>
           in case r of
                Inl e \<Rightarrow>
                  Some (if is_eof e
                        then exec_bind (read_close m) (\<lambda>m. Inr (s\<lparr>hs_machine := m\<rparr>, [Give_Data h r]))
                        else Inr (s\<lparr>hs_machine := errored m\<rparr>,
                                  [Cancel_Token (hs_write_cancelable s), Give_Data h r]))
              | Inr b \<Rightarrow>
                  (if is_connect (front s) then Some (Inr (s, [Give_Data h r]))
                   else map_option (\<lambda>x. exec_bind x (\<lambda>(res, b, s).
                          case res of
                            Inl e \<Rightarrow> Inr (s\<lparr>hs_machine := errored (hs_machine s)\<rparr>, [Give_Data h (Inl e)])
                          | Inr _ \<Rightarrow> Inr (s, [Give_Data h (Inr b)])))
                          (hs_rewrite env new b s))))"

definition hs_write ::
  "cancelable \<Rightarrow> bytes \<Rightarrow> 'h \<Rightarrow> ('h, 'p) http_server \<Rightarrow> ('h, 'p) hs_reaction" where
  "hs_write tok xs h s =
     exec_bind (write_begin (hs_machine s)) (\<lambda>m.
     Inr (s\<lparr>hs_machine := m, hs_write_cancelable := tok\<rparr>, [Do_Write xs (Hs_Written h)]))"

definition hs_on_written ::
  "'h \<Rightarrow> unit result \<Rightarrow> ('h, 'p) http_server \<Rightarrow> ('h, 'p) hs_reaction" where
  "hs_on_written h r s =
     exec_bind (write_end (hs_machine s)) (\<lambda>m.
     Inr (s\<lparr>hs_machine := (case r of Inl e \<Rightarrow> errored m | Inr _ \<Rightarrow> m)\<rparr>, [Give h r]))"

definition hs_close_write ::
  "cancelable \<Rightarrow> 'h \<Rightarrow> ('h, 'p) http_server \<Rightarrow> ('h, 'p) hs_reaction" where
  "hs_close_write tok h s =
     exec_bind (write_close_begin (hs_machine s)) (\<lambda>m.
     Inr (s\<lparr>hs_machine := m, hs_write_cancelable := tok\<rparr>, [Do_Close_Write (Hs_Write_Closed h)]))"

definition hs_on_write_closed ::
  "'h \<Rightarrow> unit result \<Rightarrow> ('h, 'p) http_server \<Rightarrow> ('h, 'p) hs_reaction" where
  "hs_on_write_closed h r s =
     exec_bind (write_close_end (hs_machine s)) (\<lambda>m.
     Inr (s\<lparr>hs_machine := (case r of Inl e \<Rightarrow> errored m | Inr _ \<Rightarrow> m)\<rparr>, [Give h r]))"

section \<open>The negotiation\<close>

definition hs_negotiate_read :: "cancelable \<Rightarrow> ('h, 'p) http_server \<Rightarrow> ('h, 'p) hs_reaction" where
  "hs_negotiate_read tok s = Inr (s\<lparr>hs_read_cancelable := tok\<rparr>, [Do_Read Hs_Negotiate])"

definition hs_open :: "cancelable \<Rightarrow> 'h \<Rightarrow> ('h, 'p) http_server \<Rightarrow> ('h, 'p) hs_reaction" where
  "hs_open tok h s =
     exec_bind (connect_begin (hs_machine s)) (\<lambda>m.
     Inr (s\<lparr>hs_machine := m, hs_handler := Some h, hs_open_cancelable := tok\<rparr>, [Do_Open Hs_Opened]))"

text \<open>\<open>state_machine_.Errored(); handler_(error); return;\<close>\<close>

definition hs_fail :: "error \<Rightarrow> ('h, 'p) http_server \<Rightarrow> ('h, 'p) hs_reaction" where
  "hs_fail e s =
     call_handler (hs_handler s) (\<lambda>h.
       Inr (s\<lparr>hs_machine := errored (hs_machine s)\<rparr>, [Give h (Inl e)]))"

definition hs_succeed :: "('h, 'p) http_server \<Rightarrow> ('h, 'p) hs_reaction" where
  "hs_succeed s = call_handler (hs_handler s) (\<lambda>h. Inr (s, [Give h (Inr ())]))"

definition hs_on_opened ::
  "cancelable \<Rightarrow> unit result \<Rightarrow> ('h, 'p) http_server \<Rightarrow> ('h, 'p) hs_reaction" where
  "hs_on_opened tok r s = (case r of Inl e \<Rightarrow> hs_fail e s | Inr _ \<Rightarrow> hs_negotiate_read tok s)"

text \<open>What follows a buffer of the first request that the rewriter has accepted.\<close>

definition hs_proceed ::
  "cancelable \<Rightarrow> bytes \<Rightarrow> ('h, 'p) http_server \<Rightarrow> ('h, 'p) hs_reaction" where
  "hs_proceed tok b s =
     (if has_read_method (front s) \<and> is_connect (front s)
      then if reading_first_header (front s) then hs_negotiate_read tok s
           else if length b \<noteq> unat (first_header_offset (front s))
           then hs_fail (http_server_error DataBeforeConnectRequestFinish) s
           else hs_succeed s
      else let s = s\<lparr>first_header := first_header s @ b\<rparr>
           in if reading_first_header (front s) then hs_negotiate_read tok s else hs_succeed s)"

definition hs_on_negotiate ::
  "'p http_env \<Rightarrow> cancelable \<Rightarrow> cancelable \<Rightarrow> bytes result \<Rightarrow> ('h, 'p) http_server \<Rightarrow>
   ('h, 'p) hs_reaction option" where
  "hs_on_negotiate env new tok r s =
     (case r of
        Inl e \<Rightarrow> Some (hs_fail e s)
      | Inr b \<Rightarrow>
          map_option (\<lambda>x. exec_bind x (\<lambda>(res, b, s).
            case res of Inl e \<Rightarrow> hs_fail e s | Inr _ \<Rightarrow> hs_proceed tok b s))
            (hs_rewrite env new b s))"

section \<open>Continuing after the remote side is connected\<close>

definition crlf :: string where
  "crlf = [char_of (13 :: nat), char_of (10 :: nat)]"

definition connect_response_header :: string where
  "connect_response_header = ''HTTP/1.1 200 Connection Established'' @ crlf @ crlf"

definition hs_continue :: "cancelable \<Rightarrow> 'h \<Rightarrow> ('h, 'p) http_server \<Rightarrow> ('h, 'p) hs_reaction" where
  "hs_continue tok h s =
     (if is_connect (front s)
      then exec_bind (bb_set_data (replicate (length connect_response_header) 0) 0
                        (bytes_of_string connect_response_header)) (\<lambda>b.
           Inr (s\<lparr>hs_open_cancelable := tok\<rparr>, [Do_Write b (Hs_Response_Written h)]))
      else Inr (s\<lparr>hs_open_cancelable := tok\<rparr>, [Do_Continue (Hs_Continued (hs_open_cancelable s) h)]))"

definition hs_on_response_written ::
  "cancelable \<Rightarrow> 'h \<Rightarrow> unit result \<Rightarrow> ('h, 'p) http_server \<Rightarrow> ('h, 'p) hs_reaction" where
  "hs_on_response_written tok h r s =
     (case r of
        Inl e \<Rightarrow> Inr (s\<lparr>hs_machine := errored (hs_machine s)\<rparr>, [Give h r])
      | Inr _ \<Rightarrow> Inr (s\<lparr>hs_write_cancelable := tok\<rparr>,
                     [Do_Continue (Hs_Continued (hs_open_cancelable s) h)]))"

definition hs_on_continued ::
  "cancel_store \<Rightarrow> cancelable \<Rightarrow> 'h \<Rightarrow> unit result \<Rightarrow> ('h, 'p) http_server \<Rightarrow> ('h, 'p) hs_reaction" where
  "hs_on_continued st c h r s =
     unless_canceled st c s
       (case r of
          Inl e \<Rightarrow> Inr (s\<lparr>hs_machine := errored (hs_machine s)\<rparr>, [Give h r])
        | Inr _ \<Rightarrow>
            exec_bind (connected (hs_machine s)) (\<lambda>m. Inr (s\<lparr>hs_machine := m\<rparr>, [Give h r])))"

end
