(* ===== verification/Http_Server_Laws.thy ===== *)
theory Http_Server_Laws
  imports Http_Server
begin

text \<open>
  What \<open>HttpServerDataFlow\<close> makes of a request: the target it takes from the URL, the headers
  it changes and what each buffer of the negotiation reports.
\<close>

section \<open>The target of a request\<close>

text \<open>The token at hand is the text \<open>t\<close>, at position \<open>i\<close> of the buffer.\<close>

definition token_text :: "'p rewriter \<Rightarrow> nat \<Rightarrow> string \<Rightarrow> bool" where
  "token_text w i t \<longleftrightarrow> token_ok w i (i + length t) \<and> \<not> current_token_valid w \<and>
     take (length t) (drop i (current_buffer w)) = bytes_of_string t"

lemma current_token_text:
  assumes "token_text w i t"
  shows "rewriter_current_token w = Inr (t, w\<lparr>current_token := t\<rparr>)"
proof -
  have b: "i + length t < length (current_buffer w)" "length (current_buffer w) < 2 ^ 62"
    using assms by (simp_all add: token_text_def token_ok_def)
  have "unat (current_token_offset w) = i"
    "unat (current_token_end_offset w - current_token_offset w) = length t"
    using assms unat_size [of i] unat_size [of "length t"] b
    by (simp_all add: token_text_def token_ok_def)
  then show ?thesis
    using assms b
    by (simp add: rewriter_current_token_def get_string_def bb_get_data_def token_text_def)
qed

lemma rewrite_token_text:
  assumes "token_text w i t" "length t' < 2 ^ 62"
  shows "\<exists>w'. rewrite_current_token t' (w\<lparr>current_token := t\<rparr>) = Inr w' \<and>
     current_buffer w' =
       take i (current_buffer w) @ bytes_of_string t' @ drop (i + length t) (current_buffer w)"
  using rewrite_current_token_ok [of "w\<lparr>current_token := t\<rparr>" i "i + length t" t'] assms
  by (simp add: token_text_def token_ok_def)

lemma c_piece_ok:
  "unat off = length xs \<Longrightarrow> unat len = length ys \<Longrightarrow> c_piece off len (xs @ ys @ zs) = Inr ys"
  by (simp add: c_piece_def)

lemma url_char_nonzero: "is_url_char c \<Longrightarrow> char_code c \<noteq> 0"
  by (simp add: is_url_char_def)

lemma c_string_path:
  assumes "unat off = length xs" "\<forall>c\<in>set path. is_url_char c"
  shows "c_string off (xs @ CHR ''/'' # path) = Inr (CHR ''/'' # path)"
proof -
  have "\<forall>c\<in>set (CHR ''/'' # path). char_code c \<noteq> 0"
    using assms(2) url_char_nonzero by (auto simp: char_code_def)
  then have "takeWhile (\<lambda>c. char_code c \<noteq> 0) (CHR ''/'' # path) = CHR ''/'' # path"
    by (simp only: takeWhile_eq_all_conv)
  then show ?thesis using assms(1) by (simp add: c_string_def)
qed

lemma port_or_80:
  assumes "port_ok p v"
  shows "(if (of_nat v :: u16) \<noteq> 0 then of_nat v else 80) = (of_nat (if v = 0 then 80 else v) :: u16)"
proof -
  have "unat (of_nat v :: u16) = v" using port_ok_bound [OF assms] by (rule unat_u16)
  with unat_eq_zero [of "of_nat v :: u16"] have "(of_nat v :: u16) = 0 \<longleftrightarrow> v = 0" by (simp only:)
  then show ?thesis by (cases "v = 0") simp_all
qed

lemma plain_absolute_url:
  assumes "url_parts_ok sc h p path v" "reports_url sc h p v u"
    and "token_text w i (absolute_url sc h p path)"
  shows "\<exists>w'. hs_plain_url parse new (absolute_url sc h p path) u f
              (w\<lparr>current_token := absolute_url sc h p path\<rparr>) =
            Inr (True, if reading_first_header f
                       then hs_set_target parse new h (of_nat (if v = 0 then 80 else v)) f else f, w') \<and>
     current_buffer w' = take i (current_buffer w) @ bytes_of_string (CHR ''/'' # path) @
       drop (i + length (absolute_url sc h p path)) (current_buffer w)"
proof -
  let ?t = "absolute_url sc h p path"
  have sh: "shifted_field UF_PATH u" "shifted_field UF_HOST u" "shifted_field UF_PORT u"
    using assms(2) by (cases "p = None"; simp add: shifted_field_def reports_url_def)+
  have 1: "c_string (field_off u UF_PATH) ?t = Inr (CHR ''/'' # path)"
    using c_string_path [of "field_off u UF_PATH" "sc @ ''://'' @ h @ port_part p" path] assms(1,2)
    by (simp add: absolute_url_def reports_url_def url_parts_ok_def)
  have 2: "c_piece (field_off u UF_HOST) (field_len u UF_HOST) ?t = Inr h"
    using c_piece_ok [of "field_off u UF_HOST" "sc @ ''://''" "field_len u UF_HOST" h] assms(2)
    by (simp add: absolute_url_def reports_url_def)
  have 3: "hs_port ?t u = Inr (of_nat (if v = 0 then 80 else v))"
  proof -
    have "port_ok p v" "url_port u = of_nat v"
      using assms(1,2) by (simp_all add: url_parts_ok_def reports_url_def)
    then show ?thesis using sh(3) port_or_80 by (simp only: hs_port_def if_True)
  qed
  have len: "length (CHR ''/'' # path) < 2 ^ 62" using assms(1) by (simp add: url_parts_ok_def absolute_url_def)
  from rewrite_token_text [OF assms(3) this] show ?thesis
    by (auto simp: hs_plain_url_def 1 2 3 sh Let_def)
qed

text \<open>
  C9. The target of a request in absolute form, \<open>scheme://host[:port]/path\<close>: the URL in the
  buffer is replaced by its path, and for the first request the session's endpoint becomes the
  host with the port of the URL, or 80 when there is none or it is 0 - whatever the scheme.
\<close>

theorem http_request_target:
  assumes "url_parts_ok sc h p path v" "token_text w i (absolute_url sc h p path)" "\<not> is_connect f"
  shows "\<exists>w'. hs_on_url parse new f w =
            Inr (True, if reading_first_header f
                       then hs_set_target parse new h (of_nat (if v = 0 then 80 else v)) f else f, w') \<and>
     current_buffer w' = take i (current_buffer w) @ bytes_of_string (CHR ''/'' # path) @
       drop (i + length (absolute_url sc h p path)) (current_buffer w)"
proof -
  obtain u where u: "http_parser_parse_url (absolute_url sc h p path) False http_parser_url_init = Inr (Some u)"
    "reports_url sc h p v u"
    using parse_absolute_url [OF assms(1)] by blast
  show ?thesis
    using plain_absolute_url [OF assms(1) u(2) assms(2)] assms(3)
    by (simp add: hs_on_url_def current_token_text [OF assms(2)] u(1))
qed

text \<open>An https URL without a port, in the middle of a buffer.\<close>

definition sample_request :: "unit rewriter" where
  "sample_request = (rewriter_new Request ())
     \<lparr>current_buffer := bytes_of_string ''GET https://a.b/c HTTP/1.1'', current_token_offset := 4,
      current_token_end_offset := 17\<rparr>"

theorem http_request_target_witness:
  "\<exists>w'. hs_on_url (\<lambda>_. None) None (http_front_new (session_new 0 None)) sample_request =
          Inr (True, hs_set_target (\<lambda>_. None) None ''a.b'' 80 (http_front_new (session_new 0 None)), w') \<and>
        current_buffer w' = bytes_of_string ''GET /c HTTP/1.1''"
proof -
  have p: "url_parts_ok ''https'' ''a.b'' None ''c'' 0"
    by (simp add: url_parts_ok_def port_ok_def char_class_defs absolute_url_def port_part_def)
  have t: "token_text sample_request 4 (absolute_url ''https'' ''a.b'' None ''c'')"
    by (simp add: token_text_def token_ok_def sample_request_def absolute_url_def port_part_def
        bytes_of_string_def rewriter_new_def)
  show ?thesis
    using http_request_target [OF p t, of "http_front_new (session_new 0 None)" "\<lambda>_. None" None]
    by (simp add: http_front_new_def sample_request_def absolute_url_def port_part_def
        bytes_of_string_def)
qed

text \<open>
  The tests of \<open>OnUrl\<close> shift the field mask instead of testing a bit: a target that is only a
  path passes the test for a host, and the session's endpoint becomes the empty host.
\<close>

theorem origin_form_accepted:
  assumes "\<forall>c\<in>set path. is_url_char c" "token_text w i (CHR ''/'' # path)"
    and "\<not> is_connect f" "reading_first_header f"
  shows "\<exists>w'. hs_on_url parse new f w = Inr (True, hs_set_target parse new [] 80 f, w') \<and>
              current_buffer w' = current_buffer w"
proof -
  let ?t = "CHR ''/'' # path"
  let ?u = "http_parser_url_init\<lparr>field_set := 8, field_len := (\<lambda>_. 0)(UF_PATH := 1 + of_nat (length path))\<rparr>"
  have init: "field_off http_parser_url_init f = 0" "field_len http_parser_url_init f = 0"
    "url_port http_parser_url_init = 0" for f
    by (simp_all add: http_parser_url_init_def)
  have 1: "c_string 0 ?t = Inr ?t" using c_string_path [of 0 "[]" path] assms(1) by simp
  have 2: "c_piece 0 0 ?t = Inr []" by (simp add: c_piece_def)
  have "length ?t < 2 ^ 62" using assms(2) by (simp add: token_text_def token_ok_def)
  from rewrite_token_text [OF assms(2) this] obtain w' where
    w': "rewrite_current_token ?t (w\<lparr>current_token := ?t\<rparr>) = Inr w'"
    "current_buffer w' = take i (current_buffer w) @ bytes_of_string ?t @ drop (i + length ?t) (current_buffer w)"
    by blast
  have "current_buffer w' = current_buffer w"
    using w'(2) assms(2) by (simp add: token_text_def) (metis append_take_drop_id drop_drop add.commute add_Suc_right)
  then show ?thesis
    using w'(1) assms(3,4)
    by (simp add: hs_on_url_def current_token_text [OF assms(2)] parse_path_url [OF assms(1)]
        hs_plain_url_def shifted_field_def init 1 2 hs_port_def Let_def)
qed

text \<open>
  The target of a \<open>CONNECT\<close> request: \<open>host:port\<close> sets the session's endpoint to that host
  and port and leaves the buffer alone; without a port the request is refused.
\<close>

theorem connect_request_target:
  assumes "h \<noteq> []" "\<forall>c\<in>set h. is_host_char c" "port_ok p v" "length (h @ port_part p) < 2 ^ 16"
    and "token_text w i (h @ port_part p)" "is_connect f" "reading_first_header f"
  shows "hs_on_url parse new f w =
     Inr (case p of
            None \<Rightarrow> (False, f, w\<lparr>current_token := h\<rparr>)
          | Some ds \<Rightarrow> (True, hs_set_target parse new h (of_nat v) f, w\<lparr>current_token := h @ CHR '':'' # ds\<rparr>))"
proof (cases p)
  case None
  then show ?thesis
    using parse_connect_url [OF assms(1-4), of http_parser_url_init] assms(5-7)
    by (simp add: hs_on_url_def current_token_text [OF assms(5)] port_part_def)
next
  case (Some ds)
  obtain u where u: "http_parser_parse_url (h @ port_part p) True http_parser_url_init = Inr (Some u)"
    "field_set u = 6" "url_port u = of_nat v" "field_off u UF_HOST = 0" "unat (field_len u UF_HOST) = length h"
    using parse_connect_url [OF assms(1-4), of http_parser_url_init] Some by auto
  have "c_piece 0 (field_len u UF_HOST) (h @ port_part p) = Inr h"
    using c_piece_ok [of 0 "[]" "field_len u UF_HOST" h "port_part p"] u(5) by simp
  then show ?thesis
    using u Some assms(6,7)
    by (simp add: hs_on_url_def current_token_text [OF assms(5)] hs_connect_url_def shifted_field_def
        port_part_def)
qed

theorem connect_request_target_witness:
  "hs_on_url (\<lambda>_. None) None ((http_front_new (session_new 0 None))\<lparr>is_connect := True\<rparr>)
     ((rewriter_new Request ())\<lparr>current_buffer := bytes_of_string ''CONNECT a.b:443 HTTP'',
        current_token_offset := 8, current_token_end_offset := 15\<rparr>) =
   Inr (True, hs_set_target (\<lambda>_. None) None ''a.b'' 443
                ((http_front_new (session_new 0 None))\<lparr>is_connect := True\<rparr>),
        (rewriter_new Request ())\<lparr>current_buffer := bytes_of_string ''CONNECT a.b:443 HTTP'',
        current_token_offset := 8, current_token_end_offset := 15, current_token := ''a.b:443''\<rparr>)"
  using connect_request_target [of "''a.b''" "Some ''443''" 443
      "(rewriter_new Request ())\<lparr>current_buffer := bytes_of_string ''CONNECT a.b:443 HTTP'',
        current_token_offset := 8, current_token_end_offset := 15\<rparr>" 8
      "(http_front_new (session_new 0 None))\<lparr>is_connect := True\<rparr>" "\<lambda>_. None" None]
  by (simp add: port_ok_def char_class_defs port_part_def token_text_def token_ok_def
      bytes_of_string_def rewriter_new_def http_front_new_def Let_def)

section \<open>The headers of a proxy\<close>

text \<open>The header at hand is \<open>name: val\<close>, at position \<open>i\<close>; its length is \<open>header_length\<close>.\<close>

definition header_length :: "string \<Rightarrow> string \<Rightarrow> nat" where
  "header_length name val = length name + 2 + length val"

definition header_text :: "'p rewriter \<Rightarrow> nat \<Rightarrow> string \<Rightarrow> string \<Rightarrow> bool" where
  "header_text w i name val \<longleftrightarrow>
     token_ok w i (i + header_length name val) \<and> \<not> current_header_valid w \<and>
     current_header_field_offset w = of_nat i \<and>
     current_header_field_end_offset w = of_nat (i + length name) \<and>
     current_header_value_offset w = of_nat (i + length name + 2) \<and>
     current_header_value_end_offset w = of_nat (i + header_length name val) \<and>
     take (header_length name val) (drop i (current_buffer w)) = bytes_of_string (name @ '': '' @ val)"

lemma get_string_at:
  assumes "k + n \<le> length (current_buffer w)" "k < length (current_buffer w)"
    and "length (current_buffer w) < 2 ^ 62"
  shows "get_string (of_nat k) (of_nat (k + n) - of_nat k) w =
           Inr (string_of_bytes (take n (drop k (current_buffer w))))"
  using unat_size [of k] unat_size [of n] assms by (simp add: get_string_def bb_get_data_def)

text \<open>Reading the header where it was, in a buffer that may have changed since.\<close>

lemma current_header_at:
  assumes "\<not> current_header_valid w" "current_header_field_offset w = of_nat i"
    and "current_header_field_end_offset w = of_nat (i + n)"
    and "current_header_value_offset w = of_nat k" "current_header_value_end_offset w = of_nat (k + m)"
    and "i + n \<le> k" "k + m < length (current_buffer w)" "length (current_buffer w) < 2 ^ 62"
  shows "rewriter_current_header w =
     (let h = (string_of_bytes (take n (drop i (current_buffer w))),
               string_of_bytes (take m (drop k (current_buffer w))))
      in Inr (h, w\<lparr>current_header := h\<rparr>))"
  using get_string_at [of i n w] get_string_at [of k m w] assms
  by (simp add: rewriter_current_header_def Let_def)

lemma current_header_text:
  assumes "header_text w i name val"
  shows "rewriter_current_header w = Inr ((name, val), w\<lparr>current_header := (name, val)\<rparr>)"
proof -
  let ?b = "current_buffer w" and ?L = "header_length name val"
  have b: "i + ?L < length ?b" "length ?b < 2 ^ 62" and
    t: "take ?L (drop i ?b) = bytes_of_string (name @ '': '' @ val)"
    using assms by (simp_all add: header_text_def token_ok_def)
  have "take (length name) (drop i ?b) = take (length name) (take ?L (drop i ?b))"
    by (simp add: header_length_def min_def)
  then have n: "take (length name) (drop i ?b) = bytes_of_string name"
    by (simp add: t bytes_of_string_def)
  have "take (length val) (drop (i + length name + 2) ?b) = drop (length name + 2) (take ?L (drop i ?b))"
    by (simp add: header_length_def drop_take add.commute add.left_commute)
  then have v: "take (length val) (drop (i + length name + 2) ?b) = bytes_of_string val"
    by (simp add: t bytes_of_string_def)
  have off: "\<not> current_header_valid w" "current_header_field_offset w = of_nat i"
    "current_header_field_end_offset w = of_nat (i + length name)"
    "current_header_value_offset w = of_nat (i + length name + 2)"
    using assms unfolding header_text_def by blast+
  have end_off: "current_header_value_end_offset w = of_nat (i + length name + 2 + length val)"
    using assms unfolding header_text_def header_length_def add.assoc by blast
  have len: "i + length name + 2 + length val < length ?b" using b by (simp add: header_length_def)
  show ?thesis
    using current_header_at [OF off end_off _ len b(2)] unfolding n v by (simp add: Let_def)
qed

lemma iequals_length: "iequals s t \<Longrightarrow> length s = length t"
  unfolding iequals_def by (metis length_map)

lemma not_both_headers: "iequals s ''Proxy-Authorization'' \<Longrightarrow> \<not> iequals s ''Proxy-Connection''"
  using iequals_length [of s "''Proxy-Authorization''"] iequals_length [of s "''Proxy-Connection''"] by auto

text \<open>After \<open>Proxy-Authorization\<close> is deleted, \<open>CurrentHeader\<close> reads what has moved to its place.\<close>

lemma header_deleted:
  assumes "header_text w i name val" "i + header_length name val + 2 \<le> length (current_buffer w)"
  obtains w1 where "delete_current_header (w\<lparr>current_header := h\<rparr>) = Inr w1"
    "current_buffer w1 = take i (current_buffer w) @ drop (i + header_length name val + 2) (current_buffer w)"
    "\<not> current_header_valid w1" "current_header_field_offset w1 = of_nat i"
    "current_header_field_end_offset w1 = of_nat (i + length name)"
    "current_header_value_offset w1 = of_nat (i + length name + 2)"
    "current_header_value_end_offset w1 = of_nat (i + header_length name val)"
  using delete_current_header_ok [of "w\<lparr>current_header := h\<rparr>" i "i + header_length name val"] assms
  by (simp add: header_text_def token_ok_def)

lemma proxy_authorization_deleted:
  assumes "header_text w i name val" "\<not> is_connect f" "iequals name ''Proxy-Authorization''"
    and "i + header_length name val + 2 + header_length name val < length (current_buffer w)"
  shows "\<exists>w'. hs_on_header_pair f w = Inr (True, f, w') \<and> current_buffer w' =
     take i (current_buffer w) @ drop (i + header_length name val + 2) (current_buffer w)"
proof -
  let ?L = "header_length name val"
  obtain w1 where w1: "delete_current_header (w\<lparr>current_header := (name, val)\<rparr>) = Inr w1"
    "current_buffer w1 = take i (current_buffer w) @ drop (i + ?L + 2) (current_buffer w)"
    "\<not> current_header_valid w1" "current_header_field_offset w1 = of_nat i"
    "current_header_field_end_offset w1 = of_nat (i + length name)"
    "current_header_value_offset w1 = of_nat (i + length name + 2)"
    "current_header_value_end_offset w1 = of_nat (i + length name + 2 + length val)"
    by (rule header_deleted [OF assms(1), of "(name, val)"])
      (use assms(4) in \<open>simp_all add: header_length_def add.assoc\<close>)
  have len: "i + length name + 2 + length val < length (current_buffer w1)"
    "length (current_buffer w1) < 2 ^ 62"
    using assms(1,4)
    by (simp_all add: w1(2) header_length_def header_text_def token_ok_def less_imp_diff_less)
  let ?n = "string_of_bytes (take (length name) (drop i (current_buffer w1)))"
  have "length ?n = length name" using len by (simp add: string_of_bytes_def)
  then have "\<not> iequals ?n ''Proxy-Connection''"
    using iequals_length [of ?n "''Proxy-Connection''"] iequals_length [OF assms(3)] by auto
  then show ?thesis
    using current_header_at [OF w1(3-7) _ len] w1(1,2) assms(2,3)
    by (simp add: hs_on_header_pair_def current_header_text [OF assms(1)] Let_def)
qed



text \<open>
  When too little follows, the second \<open>CurrentHeader\<close> reads beyond the end of the buffer: a
  request whose last header is \<open>Proxy-Authorization\<close>, with at most a short body in the same
  buffer, fails an assertion.
\<close>

theorem proxy_authorization_last_asserts:
  assumes "header_text w i name val" "\<not> is_connect f" "iequals name ''Proxy-Authorization''"
    and "i + header_length name val + 2 \<le> length (current_buffer w)"
    and "length (current_buffer w) < i + header_length name val + 2 + length name"
  shows "hs_on_header_pair f w = Inl Assert_Failed"
proof -
  let ?L = "header_length name val"
  obtain w1 where w1: "delete_current_header (w\<lparr>current_header := (name, val)\<rparr>) = Inr w1"
    "current_buffer w1 = take i (current_buffer w) @ drop (i + ?L + 2) (current_buffer w)"
    "\<not> current_header_valid w1" "current_header_field_offset w1 = of_nat i"
    "current_header_field_end_offset w1 = of_nat (i + length name)"
    by (rule header_deleted [OF assms(1,4), of "(name, val)"]) blast
  have "length (current_buffer w1) < i + length name" "length (current_buffer w) < 2 ^ 62"
    using assms(1,4,5) by (simp_all add: w1(2) header_text_def token_ok_def)
  moreover have "unat (of_nat i :: size) = i" "unat (of_nat (i + length name) - of_nat i :: size) = length name"
    using assms(1) unat_size [of i] unat_size [of "length name"]
    by (simp_all add: header_text_def token_ok_def header_length_def)
  ultimately have "rewriter_current_header w1 = Inl Assert_Failed"
    using w1(3-5) by (simp add: rewriter_current_header_def get_string_def bb_get_data_def)
  then show ?thesis
    using w1(1) assms(2,3) by (simp add: hs_on_header_pair_def current_header_text [OF assms(1)])
qed

section \<open>The negotiation reports once\<close>

lemma hs_fail_gives:
  "hs_handler s = Some h \<Longrightarrow>
   hs_fail e s = Inr (s\<lparr>hs_machine := errored (hs_machine s)\<rparr>, [Give h (Inl e)])"
  by (simp add: hs_fail_def)

lemma hs_proceed_cases:
  assumes "hs_handler s = Some h" "hs_proceed tok b s = Inr (s', as)"
  shows "as = [Do_Read Hs_Negotiate] \<and> reading_first_header (front s) \<and> hs_machine s' = hs_machine s \<or>
    (\<exists>e. as = [Give h (Inl e)] \<and> hs_machine s' = errored (hs_machine s)) \<or>
    as = [Give h (Inr ())] \<and> \<not> reading_first_header (front s) \<and> hs_machine s' = hs_machine s \<and>
      (if has_read_method (front s) \<and> is_connect (front s)
       then length b = unat (first_header_offset (front s)) \<and> first_header s' = first_header s
       else first_header s' = first_header s @ b)"
  using assms
  by (auto simp: hs_proceed_def hs_negotiate_read_def hs_fail_gives hs_succeed_def Let_def
      split: if_splits)


text \<open>A parser that takes any bytes as the beginning of a head.\<close>

definition head_parser :: "unit parser" where
  "head_parser p xs =
     Returns \<lparr>parsed = length xs, after_errno = HPE_OK, after_upgrade = False, after_state = ()\<rparr>"

definition head_env :: "unit http_env" where
  "head_env = \<lparr>env_address = (\<lambda>_. None), env_execute = head_parser, env_blocks = (\<lambda>b k. length b),
               env_fuel = 1\<rparr>"

definition opened_server :: "(nat, unit) http_server" where
  "opened_server = (http_server_new (session_new 0 None) None None None ())\<lparr>hs_handler := Some 7\<rparr>"


end
