(* ===== verification/Http_Client.thy ===== *)
theory Http_Client
  imports Http_Server_Laws
begin

text \<open>
  \<open>data_flow::HttpDataFlow\<close> (src/data_flow/http_data_flow.cc) and \<open>utils::Base64\<close>
  (include/nekit/utils/base64.h): the client side of a \<open>CONNECT\<close> through an HTTP proxy, over
  the next remote hop.
\<close>

section \<open>State\<close>

datatype http_error_code = Invalid_Response | Connect_Error

fun http_code :: "http_error_code \<Rightarrow> int" where
  "http_code Invalid_Response = 1"
| "http_code Connect_Error = 2"

definition http_error :: "http_error_code \<Rightarrow> error" where
  "http_error c = error_of Http_Category (http_code c)"

record credential =
  username :: string
  password :: string

text \<open>The members the delegate of the rewriter changes.\<close>

record http_response =
  finish_response :: bool
  success_response :: bool
  header_offset :: size

record 'p http_client =
  hc_server :: endpoint
  hc_target :: "endpoint option"
  hc_machine :: fsm
  hc_credential :: "credential option"
  hc_connect_cancelable :: cancelable
  hc_action_cancelable :: cancelable
  hc_rewriter :: "'p rewriter"
  hc_response :: http_response
  pending_payload :: bytes

datatype 'h http_client_task =
    Hc_Connected cancelable 'h | Hc_Request_Written cancelable 'h | Hc_Response cancelable 'h
  | Hc_Read 'h | Hc_Written 'h | Hc_Write_Closed 'h

type_synonym ('h, 'p) hc_reaction = "('p http_client, 'h, 'h http_client_task) reaction"

definition http_client_new ::
  "endpoint \<Rightarrow> credential option \<Rightarrow> cancelable \<Rightarrow> cancelable \<Rightarrow> 'p \<Rightarrow> 'p http_client" where
  "http_client_new server cr c a p =
     \<lparr>hc_server = server, hc_target = None, hc_machine = fsm_new Remote, hc_credential = cr,
      hc_connect_cancelable = c, hc_action_cancelable = a,
      hc_rewriter = set_skip_body True (rewriter_new Response p),
      hc_response = \<lparr>finish_response = False, success_response = False, header_offset = 0\<rparr>,
      pending_payload = []\<rparr>"

definition http_client_destroy :: "'p http_client \<Rightarrow> ('h, 'h http_client_task) action list" where
  "http_client_destroy s =
     [Cancel_Token (hc_connect_cancelable s), Cancel_Token (hc_action_cancelable s)]"

definition hc_read :: "'h \<Rightarrow> 'p http_client \<Rightarrow> ('h, 'p) hc_reaction" where
  "hc_read h s = Inr (s, [Do_Read (Hc_Read h)])"

definition hc_write :: "bytes \<Rightarrow> 'h \<Rightarrow> 'p http_client \<Rightarrow> ('h, 'p) hc_reaction" where
  "hc_write xs h s = Inr (s, [Do_Write xs (Hc_Written h)])"

definition hc_close_write :: "'h \<Rightarrow> 'p http_client \<Rightarrow> ('h, 'p) hc_reaction" where
  "hc_close_write h s = Inr (s, [Do_Close_Write (Hc_Write_Closed h)])"

definition hc_state_machine :: "fsm \<Rightarrow> 'p http_client \<Rightarrow> fsm" where
  "hc_state_machine next_hop s =
     (if state (hc_machine s) \<noteq> Established then hc_machine s else next_hop)"

section \<open>The request\<close>

text \<open>\<open>Base64::Encode\<close>; \<open>sextets\<close> is what Boost's iterators make of the bytes, without padding.\<close>

definition base64_encode :: "(string \<Rightarrow> string) \<Rightarrow> string \<Rightarrow> string" where
  "base64_encode sextets s = sextets s @ replicate ((3 - length s mod 3) mod 3) (CHR ''='')"

definition basic_authentication_encode :: "(string \<Rightarrow> string) \<Rightarrow> credential \<Rightarrow> string" where
  "basic_authentication_encode sextets c = base64_encode sextets (username c @ '':'' @ password c)"

text \<open>A number written to a stream.\<close>

fun decimal :: "nat \<Rightarrow> string" where
  "decimal n = (if n < 10 then [] else decimal (n div 10)) @ [char_of (48 + n mod 10)]"

declare decimal.simps [simp del]

definition host_and_port :: "endpoint \<Rightarrow> string" where
  "host_and_port ep = host ep @ '':'' @ decimal (unat (port ep))"

definition connect_request :: "(string \<Rightarrow> string) \<Rightarrow> endpoint \<Rightarrow> credential option \<Rightarrow> string" where
  "connect_request sextets ep cr =
     ''CONNECT '' @ host_and_port ep @ '' HTTP/1.1'' @ crlf @
     ''Host: '' @ host_and_port ep @ crlf @
     (case cr of
        None \<Rightarrow> []
      | Some c \<Rightarrow> ''Proxy-Authorization: Basic '' @ basic_authentication_encode sextets c @ crlf) @
     crlf"

section \<open>Connecting\<close>

text \<open>\<open>new\<close> is the flag of the new \<open>Cancelable\<close>, \<open>tok\<close> the token of the next hop.\<close>

definition hc_connect ::
  "cancelable \<Rightarrow> cancelable \<Rightarrow> endpoint option \<Rightarrow> 'h \<Rightarrow> 'p http_client \<Rightarrow> ('h, 'p) hc_reaction" where
  "hc_connect new tok ep h s =
     boost_assert (ep \<noteq> None)
       (exec_bind (connect_begin (hc_machine s)) (\<lambda>m.
        Inr (s\<lparr>hc_target := ep, hc_machine := m, hc_connect_cancelable := new,
               hc_action_cancelable := tok\<rparr>,
             [Do_Connect (hc_server s) (Hc_Connected new h)])))"

text \<open>\<open>state_machine_.Errored(); handler(error); return;\<close>\<close>

definition hc_fail :: "error \<Rightarrow> 'h \<Rightarrow> 'p http_client \<Rightarrow> ('h, 'p) hc_reaction" where
  "hc_fail e h s = Inr (s\<lparr>hc_machine := errored (hc_machine s)\<rparr>, [Give h (Inl e)])"

definition hc_on_connected ::
  "(string \<Rightarrow> string) \<Rightarrow> cancel_store \<Rightarrow> cancelable \<Rightarrow> cancelable \<Rightarrow> 'h \<Rightarrow> unit result \<Rightarrow>
   'p http_client \<Rightarrow> ('h, 'p) hc_reaction" where
  "hc_on_connected sextets st tok c h r s =
     unless_canceled st c s
       (case r of
          Inl e \<Rightarrow> hc_fail e h s
        | Inr _ \<Rightarrow>
            (case hc_target s of
               None \<Rightarrow> Inl Null_Deref
             | Some ep \<Rightarrow>
                 (let request = connect_request sextets ep (hc_credential s)
                  in exec_bind (bb_set_data (replicate (length request) 0) 0 (bytes_of_string request)) (\<lambda>b.
                     Inr (s\<lparr>hc_action_cancelable := tok\<rparr>, [Do_Write b (Hc_Request_Written c h)])))))"

definition hc_read_response :: "cancelable \<Rightarrow> 'h \<Rightarrow> 'p http_client \<Rightarrow> ('h, 'p) hc_reaction" where
  "hc_read_response tok h s =
     Inr (s\<lparr>hc_action_cancelable := tok\<rparr>, [Do_Read (Hc_Response (hc_connect_cancelable s) h)])"

definition hc_on_request_written ::
  "cancel_store \<Rightarrow> cancelable \<Rightarrow> cancelable \<Rightarrow> 'h \<Rightarrow> unit result \<Rightarrow> 'p http_client \<Rightarrow>
   ('h, 'p) hc_reaction" where
  "hc_on_request_written st tok c h r s =
     unless_canceled st c s
       (case r of Inl e \<Rightarrow> hc_fail e h s | Inr _ \<Rightarrow> hc_read_response tok h s)"

section \<open>The response\<close>

definition istarts_with :: "string \<Rightarrow> string \<Rightarrow> bool" where
  "istarts_with s t \<longleftrightarrow> iequals (take (length t) s) t"

definition hc_on_status :: "http_response \<Rightarrow> 'p rewriter \<Rightarrow> (bool \<times> http_response \<times> 'p rewriter) exec" where
  "hc_on_status f w =
     exec_bind (rewriter_current_token w) (\<lambda>(t, w).
     Inr (True, f\<lparr>success_response := istarts_with t ''200''\<rparr>, w))"

definition hc_on_message_complete :: "size \<Rightarrow> http_response \<Rightarrow> http_response" where
  "hc_on_message_complete off f = f\<lparr>header_offset := off, finish_response := True\<rparr>"

definition hc_delegate :: "('p, http_response) delegate" where
  "hc_delegate c f w =
     (case c of
        D_Method \<Rightarrow> Inr (False, f, w)
      | D_Url \<Rightarrow> Inr (False, f, w)
      | D_Version \<Rightarrow> Inr (True, f, w)
      | D_Status \<Rightarrow> hc_on_status f w
      | D_Header_Pair \<Rightarrow> Inr (True, f, w)
      | D_Header_Complete \<Rightarrow> Inr (True, f, w)
      | D_Message_Complete off up \<Rightarrow> Inr (True, hc_on_message_complete off f, w))"

text \<open>What follows a buffer of the response that the rewriter has accepted.\<close>

definition hc_proceed :: "cancelable \<Rightarrow> bytes \<Rightarrow> 'h \<Rightarrow> 'p http_client \<Rightarrow> ('h, 'p) hc_reaction" where
  "hc_proceed tok b h s =
     (if \<not> finish_response (hc_response s) then hc_read_response tok h s
      else if \<not> success_response (hc_response s) then hc_fail (http_error Connect_Error) h s
      else exec_bind (bb_shrink_front b (unat (header_offset (hc_response s)))) (\<lambda>b.
           exec_bind (connected (hc_machine s)) (\<lambda>m.
           Inr ((if b \<noteq> [] then s\<lparr>pending_payload := b\<rparr> else s)\<lparr>hc_machine := m\<rparr>, [Give h (Inr ())]))))"

definition hc_on_response ::
  "'p http_env \<Rightarrow> cancel_store \<Rightarrow> cancelable \<Rightarrow> cancelable \<Rightarrow> 'h \<Rightarrow> bytes result \<Rightarrow> 'p http_client \<Rightarrow>
   ('h, 'p) hc_reaction option" where
  "hc_on_response env st tok c h r s =
     (case canceled c st of
        Inl x \<Rightarrow> Some (Inl x)
      | Inr True \<Rightarrow> Some (Inr (s, []))
      | Inr False \<Rightarrow>
          (case r of
             Inl e \<Rightarrow> Some (hc_fail (if is_eof e then http_error Invalid_Response else e) h s)
           | Inr b \<Rightarrow>
               map_option (\<lambda>m. exec_bind m (\<lambda>(res, b, f, w).
                 let s = s\<lparr>hc_response := f, hc_rewriter := w\<rparr>
                 in case res of Inl e \<Rightarrow> hc_fail e h s | Inr _ \<Rightarrow> hc_proceed tok b h s))
                 (rewrite_buffer hc_delegate (env_execute env) (env_blocks env) (env_fuel env) b
                    (hc_response s, hc_rewriter s))))"

section \<open>The request read by a server\<close>

lemma decimal_digits: "\<forall>c\<in>set (decimal n). is_num c"
proof (induction n rule: decimal.induct)
  case (1 n)
  have "is_num (char_of (48 + n mod 10))" by (simp add: is_num_def char_code_def)
  then show ?case using 1 by (simp add: decimal.simps [of n])
qed

lemma decimal_not_Nil [simp]: "decimal n \<noteq> []"
  by (simp add: decimal.simps [of n])

lemma port_value_append:
  "port_value a (xs @ ys) = Option.bind (port_value a xs) (\<lambda>v. port_value v ys)"
  by (induction xs arbitrary: a) (simp_all add: Let_def)

lemma port_value_decimal: "n < 2 ^ 16 \<Longrightarrow> port_value 0 (decimal n) = Some n"
proof (induction n rule: decimal.induct)
  case (1 n)
  have "char_code (char_of (48 + n mod 10)) = 48 + n mod 10" by (simp add: char_code_def)
  moreover have "port_value 0 (if n < 10 then [] else decimal (n div 10)) = Some (n div 10)"
    using 1 by simp
  ultimately show ?case
    using 1(2) by (simp add: decimal.simps [of n] port_value_append Let_def)
qed

text \<open>
  C10. The \<open>CONNECT\<close> request of the client flow names its target in a form the server flow of
  the same library reads back: for a target whose name is made of host characters the request
  begins with \<open>CONNECT host:port\<close>, and a server that meets this text as the target of a
  \<open>CONNECT\<close> request makes that host and port the endpoint of its session.
\<close>

theorem http_connect_roundtrip:
  assumes "host ep \<noteq> []" "\<forall>c\<in>set (host ep). is_host_char c" "length (host_and_port ep) < 2 ^ 16"
    and "token_text w i (host_and_port ep)" "is_connect f" "reading_first_header f"
  shows "take (8 + length (host_and_port ep)) (connect_request sextets ep cr) =
           ''CONNECT '' @ host_and_port ep \<and>
         hs_on_url parse new f w =
           Inr (True, hs_set_target parse new (host ep) (port ep) f, w\<lparr>current_token := host_and_port ep\<rparr>)"
proof -
  let ?n = "unat (port ep)"
  have n: "?n < 2 ^ 16" using unsigned_less [of "port ep"] by simp
  have t: "host_and_port ep = host ep @ port_part (Some (decimal ?n))"
    by (simp add: host_and_port_def port_part_def)
  have p: "port_ok (Some (decimal ?n)) ?n"
    using decimal_digits port_value_decimal [OF n] by (simp add: port_ok_def)
  have "hs_on_url parse new f w = Inr (True, hs_set_target parse new (host ep) (of_nat ?n) f,
      w\<lparr>current_token := host ep @ CHR '':'' # decimal ?n\<rparr>)"
    using connect_request_target [OF assms(1,2) p assms(3)[unfolded t] assms(4)[unfolded t] assms(5,6)]
    by (simp only: option.case)
  then have url: "hs_on_url parse new f w =
      Inr (True, hs_set_target parse new (host ep) (port ep) f, w\<lparr>current_token := host_and_port ep\<rparr>)"
    by (simp add: host_and_port_def)
  obtain rest where "connect_request sextets ep cr = (''CONNECT '' @ host_and_port ep) @ rest"
    by (simp add: connect_request_def)
  then have "take (length (''CONNECT '' @ host_and_port ep)) (connect_request sextets ep cr) =
      ''CONNECT '' @ host_and_port ep"
    by (metis append_eq_conv_conj)
  moreover have "length (''CONNECT '' @ host_and_port ep) = 8 + length (host_and_port ep)" by simp
  ultimately show ?thesis using url by (simp only:)
qed

theorem http_connect_roundtrip_witness:
  "take 15 (connect_request (\<lambda>s. s) (endpoint_with_host (\<lambda>_. None) ''a.b'' 443 None) None) =
     ''CONNECT a.b:443'' \<and>
   hs_on_url (\<lambda>_. None) None ((http_front_new (session_new 0 None))\<lparr>is_connect := True\<rparr>)
     ((rewriter_new Request ())\<lparr>current_buffer := bytes_of_string ''CONNECT a.b:443 HTTP'',
        current_token_offset := 8, current_token_end_offset := 15\<rparr>) =
   Inr (True, hs_set_target (\<lambda>_. None) None ''a.b'' 443
                ((http_front_new (session_new 0 None))\<lparr>is_connect := True\<rparr>),
        (rewriter_new Request ())\<lparr>current_buffer := bytes_of_string ''CONNECT a.b:443 HTTP'',
        current_token_offset := 8, current_token_end_offset := 15, current_token := ''a.b:443''\<rparr>)"
proof -
  let ?ep = "endpoint_with_host (\<lambda>_. None) ''a.b'' 443 None"
  let ?w = "(rewriter_new Request ())\<lparr>current_buffer := bytes_of_string ''CONNECT a.b:443 HTTP'',
        current_token_offset := 8, current_token_end_offset := 15\<rparr>"
  have h: "host ?ep = ''a.b''" "port ?ep = 443" by (simp_all add: endpoint_with_host_def)
  have "char_of (52 :: nat) = CHR ''4''" "char_of (51 :: nat) = CHR ''3''" by code_simp+
  then have t: "host_and_port ?ep = ''a.b:443''"
    by (simp add: host_and_port_def h decimal.simps)
  show ?thesis
    using http_connect_roundtrip [of ?ep ?w 8 "(http_front_new (session_new 0 None))\<lparr>is_connect := True\<rparr>"
        "\<lambda>s. s" None "\<lambda>_. None" None]
    by (simp add: h t char_class_defs token_text_def token_ok_def bytes_of_string_def
        rewriter_new_def http_front_new_def)
qed

text \<open>A target given by an IPv6 address is written without brackets, and is refused.\<close>

theorem ipv6_target_refused:
  "http_parser_parse_url (host_and_port (endpoint_with_address (\<lambda>_. ''::1'') (V6 0 0 0 1) 443 None)) True
     http_parser_url_init = Inr None"
proof -
  have "char_of (52 :: nat) = CHR ''4''" "char_of (51 :: nat) = CHR ''3''" by code_simp+
  then have "host_and_port (endpoint_with_address (\<lambda>_. ''::1'') (V6 0 0 0 1) 443 None) = ''::1:443''"
    by (simp add: host_and_port_def endpoint_with_address_def decimal.simps)
  moreover have "case http_parser_parse_url ''::1:443'' True http_parser_url_init of
      Inl x \<Rightarrow> False | Inr r \<Rightarrow> Option.is_none r"
    by code_simp
  ultimately show ?thesis by (simp add: Option.is_none_def split: sum.splits)
qed

section \<open>The end of the negotiation\<close>

lemma hc_proceed_cases:
  assumes "hc_proceed tok b h s = Inr (s', as)"
  shows "\<not> finish_response (hc_response s) \<and> as = [Do_Read (Hc_Response (hc_connect_cancelable s) h)] \<and>
      hc_machine s' = hc_machine s \<or>
    finish_response (hc_response s) \<and> \<not> success_response (hc_response s) \<and>
      as = [Give h (Inl (http_error Connect_Error))] \<and> hc_machine s' = errored (hc_machine s) \<or>
    finish_response (hc_response s) \<and> success_response (hc_response s) \<and> as = [Give h (Inr ())] \<and>
      connected (hc_machine s) = Inr (hc_machine s') \<and>
      (let rest = drop (unat (header_offset (hc_response s))) b
       in pending_payload s' = (if rest = [] then pending_payload s else rest))"
  using assms
  by (auto simp: hc_proceed_def hc_read_response_def hc_fail_def exec_bind_Inr bb_shrink_front_def
      bb_shrink_def boost_assert_Inr delete_at_def Let_def split: if_splits)

lemma hc_on_response_buffer:
  assumes "hc_on_response env st tok c h (Inr b) s = Some (Inr (s', as))" "canceled c st = Inr False"
  shows "\<exists>res b' f w. rewrite_buffer hc_delegate (env_execute env) (env_blocks env) (env_fuel env) b
              (hc_response s, hc_rewriter s) = Some (Inr (res, b', f, w)) \<and>
            (case res of
               Inl e \<Rightarrow> as = [Give h (Inl e)] \<and> hc_machine s' = errored (hc_machine s)
             | Inr _ \<Rightarrow>
                 if \<not> finish_response f
                 then as = [Do_Read (Hc_Response (hc_connect_cancelable s) h)] \<and> hc_machine s' = hc_machine s
                 else if success_response f
                 then as = [Give h (Inr ())] \<and> connected (hc_machine s) = Inr (hc_machine s') \<and>
                      (let rest = drop (unat (header_offset f)) b'
                       in pending_payload s' = (if rest = [] then pending_payload s else rest))
                 else as = [Give h (Inl (http_error Connect_Error))] \<and>
                      hc_machine s' = errored (hc_machine s))"
proof -
  obtain res b' f w where r: "rewrite_buffer hc_delegate (env_execute env) (env_blocks env)
      (env_fuel env) b (hc_response s, hc_rewriter s) = Some (Inr (res, b', f, w))"
    "(case res of Inl e \<Rightarrow> hc_fail e h (s\<lparr>hc_response := f, hc_rewriter := w\<rparr>)
      | Inr _ \<Rightarrow> hc_proceed tok b' h (s\<lparr>hc_response := f, hc_rewriter := w\<rparr>)) = Inr (s', as)"
    using assms by (auto simp: hc_on_response_def exec_bind_Inr Let_def)
  show ?thesis
  proof (cases res)
    case (Inl e)
    then show ?thesis using r by (auto simp: hc_fail_def)
  next
    case (Inr u)
    then have "hc_proceed tok b' h (s\<lparr>hc_response := f, hc_rewriter := w\<rparr>) = Inr (s', as)" using r(2) by simp
    from hc_proceed_cases [OF this] show ?thesis using r(1) Inr by auto
  qed
qed



text \<open>The bytes put aside are never handed out: reads go straight to the next hop.\<close>

theorem payload_never_read:
  assumes "hc_read h s = Inr (s', as)"
  shows "as = [Do_Read (Hc_Read h)] \<and> pending_payload s' = pending_payload s"
  using assms by (simp add: hc_read_def)

end
