(* ===== verification/Tls_Tunnel.thy ===== *)
theory Tls_Tunnel
  imports Byte_Buffer Nekit_Error
begin

text \<open>
  \<open>crypto::TlsTunnel\<close> (src/crypto/tls_tunnel.cc): plain text on one side, cipher text on the
  other.  OpenSSL is an argument: an \<open>engine\<close> over a state of a type \<open>'s\<close> that stands for the
  \<open>SSL\<close> object and the pair of \<open>BIO\<close>s.  The loops that wait for the engine take fuel, and
  \<open>None\<close> is running out of it.
\<close>

section \<open>OpenSSL\<close>

datatype ssl_error = Ssl_None | Ssl_Want_Read | Ssl_Want_Write | Ssl_Zero_Return | Ssl_Other int

record 's engine =
  bio_write :: "bytes \<Rightarrow> 's \<Rightarrow> int \<times> 's"
  bio_should_retry :: "'s \<Rightarrow> bool"
  bio_pending :: "'s \<Rightarrow> nat"
  bio_read :: "nat \<Rightarrow> 's \<Rightarrow> bytes \<times> 's"
  ssl_write :: "bytes \<Rightarrow> 's \<Rightarrow> int \<times> 's"
  ssl_read :: "nat \<Rightarrow> 's \<Rightarrow> (int \<times> bytes) \<times> 's"
  ssl_get_error :: "int \<Rightarrow> 's \<Rightarrow> ssl_error"
  err_get_error :: "'s \<Rightarrow> 64 word \<times> 's"
  ssl_handshake :: "bool \<Rightarrow> 's \<Rightarrow> int \<times> 's"
  ssl_set_host :: "string \<Rightarrow> 's \<Rightarrow> bool \<times> 's"

section \<open>State\<close>

datatype tls_mode = Tls_Server | Tls_Client

datatype handshake_action = Want_Io | Handshake_Success

record 's tls_tunnel =
  ssl :: 's
  tls_mode :: tls_mode
  need_cipher_input :: bool
  tls_closed :: bool
  pending_write_plain :: bytes
  pending_read_plain :: bytes
  pending_read_cipher :: bytes
  tls_error :: error

definition tls_tunnel_new :: "'s \<Rightarrow> tls_mode \<Rightarrow> 's tls_tunnel" where
  "tls_tunnel_new s m =
     \<lparr>ssl = s, tls_mode = m, need_cipher_input = False, tls_closed = False,
      pending_write_plain = [], pending_read_plain = [], pending_read_cipher = [],
      tls_error = no_error\<rparr>"

text \<open>The cast of the code of OpenSSL to \<open>int\<close> keeps its low 32 bits.\<close>

definition from_ssl_error :: "64 word \<Rightarrow> error" where
  "from_ssl_error c = error_of Tls_Tunnel_Category (sint (ucast c :: 32 word))"

definition take_ssl_error :: "'s engine \<Rightarrow> 's tls_tunnel \<Rightarrow> 's tls_tunnel" where
  "take_ssl_error eng t =
     (let (c, s) = err_get_error eng (ssl t) in t\<lparr>ssl := s, tls_error := from_ssl_error c\<rparr>)"

definition has_plain_text_data_to_read :: "'s tls_tunnel \<Rightarrow> bool" where
  "has_plain_text_data_to_read t \<longleftrightarrow> pending_read_plain t \<noteq> []"

definition finish_writing_cipher_data :: "'s tls_tunnel \<Rightarrow> bool" where
  "finish_writing_cipher_data t \<longleftrightarrow> pending_write_plain t = [] \<and> pending_read_cipher t = []"

definition has_cipher_text_data_to_read :: "'s tls_tunnel \<Rightarrow> bool" where
  "has_cipher_text_data_to_read t \<longleftrightarrow> pending_read_cipher t \<noteq> [] \<or> error_bool (tls_error t)"

text \<open>A moved-from error keeps its category and its code.\<close>

definition error_moved :: "error \<Rightarrow> error" where
  "error_moved e = e\<lparr>info := None\<rparr>"

definition read_plain_text_data :: "'s tls_tunnel \<Rightarrow> bytes result \<times> 's tls_tunnel" where
  "read_plain_text_data t =
     (if error_bool (tls_error t)
      then (Inl (tls_error t), t\<lparr>tls_error := error_moved (tls_error t)\<rparr>)
      else (Inr (pending_read_plain t), t\<lparr>pending_read_plain := []\<rparr>))"

definition read_cipher_text_data :: "'s tls_tunnel \<Rightarrow> bytes \<times> 's tls_tunnel" where
  "read_cipher_text_data t = (pending_read_cipher t, t\<lparr>pending_read_cipher := []\<rparr>)"

section \<open>Flushing\<close>

text \<open>\<open>BIO_read\<close> into every chunk of the room made; each must be filled.\<close>

fun fill_chunks :: "'s engine \<Rightarrow> bytes list \<Rightarrow> 's \<Rightarrow> (bytes \<times> 's) exec" where
  "fill_chunks eng [] s = Inr ([], s)"
| "fill_chunks eng (c # cs) s =
     (let (xs, s) = bio_read eng (length c) s
      in boost_assert (length xs = length c)
           (exec_bind (fill_chunks eng cs s) (\<lambda>(ys, s). Inr (xs @ ys, s))))"

definition flush_cipher_buffer :: "'s engine \<Rightarrow> cutter \<Rightarrow> 's tls_tunnel \<Rightarrow> 's tls_tunnel exec" where
  "flush_cipher_buffer eng blk t =
     (let pending = bio_pending eng (ssl t); b = pending_read_cipher t
      in if pending = 0 then Inr t
         else exec_bind
                (fill_chunks eng (chunks_from blk (b @ replicate pending 0) (length b)) (ssl t)) (\<lambda>(xs, s).
              Inr (t\<lparr>ssl := s, pending_read_cipher := b @ xs\<rparr>)))"

text \<open>
  \<open>SSL_read\<close> into the chunks of the room made: what has been read, and whether the walk
  stopped.
\<close>

fun read_chunks ::
  "'s engine \<Rightarrow> bytes list \<Rightarrow> bytes \<Rightarrow> 's tls_tunnel \<Rightarrow> bool \<times> bytes \<times> 's tls_tunnel" where
  "read_chunks eng [] got t = (False, got, t)"
| "read_chunks eng (c # cs) got t =
     (let ((l, xs), s) = ssl_read eng (length c) (ssl t); t = t\<lparr>ssl := s\<rparr>
      in if l \<le> 0
         then (True, got,
               case ssl_get_error eng l s of
                 Ssl_Want_Read \<Rightarrow> t
               | Ssl_Want_Write \<Rightarrow> t
               | Ssl_Zero_Return \<Rightarrow> t\<lparr>tls_closed := True\<rparr>
               | _ \<Rightarrow> take_ssl_error eng t)
         else if nat l < length c then (True, got @ xs, t)
         else read_chunks eng cs (got @ xs) t)"

fun flush_plain_loop ::
  "'s engine \<Rightarrow> cutter \<Rightarrow> nat \<Rightarrow> nat \<Rightarrow> bytes \<Rightarrow> 's tls_tunnel \<Rightarrow> (nat \<times> bytes \<times> 's tls_tunnel) option" where
  "flush_plain_loop eng blk 0 room got t = None"
| "flush_plain_loop eng blk (Suc k) room got t =
     (let (stop, got', t) =
            read_chunks eng (chunks_from blk (got @ replicate room 0) (length got)) got t
      in if stop then Some (length got + room, got', t) else flush_plain_loop eng blk k room got' t)"

definition tls_read_size :: nat where "tls_read_size = 8192"

definition flush_plain_buffer ::
  "'s engine \<Rightarrow> cutter \<Rightarrow> nat \<Rightarrow> 's tls_tunnel \<Rightarrow> 's tls_tunnel exec option" where
  "flush_plain_buffer eng blk fuel t =
     map_option (\<lambda>(size, got, t).
       exec_bind (bb_shrink_back (got @ replicate (size - length got) 0) (sz_sub size (length got))) (\<lambda>b.
       Inr (t\<lparr>pending_read_plain := b\<rparr>)))
       (flush_plain_loop eng blk fuel tls_read_size (pending_read_plain t) t)"

definition flush_buffer ::
  "'s engine \<Rightarrow> cutter \<Rightarrow> nat \<Rightarrow> 's tls_tunnel \<Rightarrow> 's tls_tunnel exec option" where
  "flush_buffer eng blk fuel t =
     (case flush_cipher_buffer eng blk t of
        Inl x \<Rightarrow> Some (Inl x)
      | Inr t \<Rightarrow> flush_plain_buffer eng blk fuel t)"

section \<open>Cipher text from the peer\<close>

text \<open>\<open>BIO_write\<close> of the chunks: the number of bytes taken.\<close>

fun write_bio_chunks :: "'s engine \<Rightarrow> bytes list \<Rightarrow> nat \<Rightarrow> 's tls_tunnel \<Rightarrow> nat \<times> 's tls_tunnel" where
  "write_bio_chunks eng [] p t = (p, t)"
| "write_bio_chunks eng (c # cs) p t =
     (let t = t\<lparr>need_cipher_input := False\<rparr>; (n, s) = bio_write eng c (ssl t); t = t\<lparr>ssl := s\<rparr>
      in if n \<le> 0
         then (p, if bio_should_retry eng s then t else take_ssl_error eng t)
         else if nat n = length c then write_bio_chunks eng cs (p + nat n) t
         else (p + nat n, t))"

fun write_cipher_loop ::
  "'s engine \<Rightarrow> cutter \<Rightarrow> nat \<Rightarrow> bytes \<Rightarrow> nat \<Rightarrow> 's tls_tunnel \<Rightarrow> 's tls_tunnel exec option" where
  "write_cipher_loop eng blk fuel b p t =
     (if p = length b \<or> error_bool (tls_error t) then Some (Inr t)
      else case fuel of
             0 \<Rightarrow> None
           | Suc k \<Rightarrow>
               if length b < p then Some (Inl Assert_Failed)
               else let (p, t) = write_bio_chunks eng (chunks_from blk b p) p t
                    in if error_bool (tls_error t) then Some (Inr t)
                       else case flush_buffer eng blk fuel t of
                              None \<Rightarrow> None
                            | Some (Inl x) \<Rightarrow> Some (Inl x)
                            | Some (Inr t) \<Rightarrow> write_cipher_loop eng blk k b p t)"

declare write_cipher_loop.simps [simp del]

definition write_cipher_text_data ::
  "'s engine \<Rightarrow> cutter \<Rightarrow> nat \<Rightarrow> bytes \<Rightarrow> 's tls_tunnel \<Rightarrow> 's tls_tunnel exec option" where
  "write_cipher_text_data eng blk fuel b t = write_cipher_loop eng blk fuel b 0 t"

section \<open>Plain text to the peer\<close>

fun write_ssl_chunks ::
  "'s engine \<Rightarrow> bytes list \<Rightarrow> nat \<Rightarrow> 's tls_tunnel \<Rightarrow> (nat \<times> 's tls_tunnel) exec" where
  "write_ssl_chunks eng [] p t = Inr (p, t)"
| "write_ssl_chunks eng (c # cs) p t =
     (let (n, s) = ssl_write eng c (ssl t); t = t\<lparr>ssl := s\<rparr>
      in if n = int (length c) then write_ssl_chunks eng cs (p + length c) t
         else if n > 0 then boost_assert (nat n < length c) (Inr (p + nat n, t))
         else Inr (p, case ssl_get_error eng n s of
                        Ssl_Want_Read \<Rightarrow> t\<lparr>need_cipher_input := True\<rparr>
                      | Ssl_Want_Write \<Rightarrow> t
                      | Ssl_Zero_Return \<Rightarrow> t\<lparr>tls_closed := True\<rparr>
                      | _ \<Rightarrow> take_ssl_error eng t))"

fun internal_plain_write ::
  "'s engine \<Rightarrow> cutter \<Rightarrow> nat \<Rightarrow> 's tls_tunnel \<Rightarrow> 's tls_tunnel exec option" where
  "internal_plain_write eng blk 0 t = None"
| "internal_plain_write eng blk (Suc k) t =
     (let b = pending_write_plain t
      in case exec_bind (write_ssl_chunks eng (chunks_from blk b 0) 0 t) (\<lambda>(p, t).
              exec_bind (bb_shrink_front b p) (\<lambda>b.
              flush_cipher_buffer eng blk (t\<lparr>pending_write_plain := b\<rparr>))) of
           Inl x \<Rightarrow> Some (Inl x)
         | Inr t \<Rightarrow>
             if pending_write_plain t \<noteq> [] \<and> \<not> need_cipher_input t \<and> \<not> tls_closed t \<and>
                \<not> error_bool (tls_error t)
             then internal_plain_write eng blk k t
             else Some (Inr t))"

definition write_plain_text_data ::
  "'s engine \<Rightarrow> cutter \<Rightarrow> nat \<Rightarrow> bytes \<Rightarrow> 's tls_tunnel \<Rightarrow>
   (unit result \<times> 's tls_tunnel) exec option" where
  "write_plain_text_data eng blk fuel b t =
     (if \<not> finish_writing_cipher_data t then Some (Inl Assert_Failed)
      else map_option (\<lambda>m. exec_bind m (\<lambda>t.
             Inr (if error_bool (tls_error t)
                  then (Inl (tls_error t), t\<lparr>tls_error := error_moved (tls_error t)\<rparr>)
                  else (Inr (), t))))
             (internal_plain_write eng blk fuel (t\<lparr>pending_write_plain := b\<rparr>)))"

section \<open>The handshake\<close>

definition set_domain :: "'s engine \<Rightarrow> string \<Rightarrow> 's tls_tunnel \<Rightarrow> unit result \<times> 's tls_tunnel" where
  "set_domain eng d t =
     (let (ok, s) = ssl_set_host eng d (ssl t)
      in if ok then (Inr (), t\<lparr>ssl := s\<rparr>)
         else let (c, s) = err_get_error eng s in (Inl (from_ssl_error c), t\<lparr>ssl := s\<rparr>))"

definition hand_shake ::
  "'s engine \<Rightarrow> cutter \<Rightarrow> 's tls_tunnel \<Rightarrow> (handshake_action result \<times> 's tls_tunnel) exec" where
  "hand_shake eng blk t =
     (let (n, s) = ssl_handshake eng (tls_mode t = Tls_Server) (ssl t); t = t\<lparr>ssl := s\<rparr>;
          want_io = exec_bind (flush_cipher_buffer eng blk t) (\<lambda>t. Inr (Inr Want_Io, t))
      in case ssl_get_error eng n s of
           Ssl_Want_Read \<Rightarrow> want_io
         | Ssl_Want_Write \<Rightarrow> want_io
         | Ssl_None \<Rightarrow> Inr (Inr Handshake_Success, t)
         | _ \<Rightarrow> (let (c, s) = err_get_error eng s in Inr (Inl (from_ssl_error c), t\<lparr>ssl := s\<rparr>)))"

end
