(* ===== verification/Tls_Tunnel_Laws.thy ===== *)
theory Tls_Tunnel_Laws
  imports Tls_Tunnel
begin

text \<open>
  What the tunnel does to the bytes that pass through it, given an engine that takes and gives
  bytes in order: nothing is lost, added or reordered on any of its four sides.
\<close>

section \<open>What the engine promises\<close>

text \<open>
  Logs of an engine: the cipher text it has taken and given, and the plain text it has taken
  and given.  \<open>engine_ok\<close> states what OpenSSL documents of the calls the tunnel makes: a call
  that returns a positive number has moved that many bytes, at most as many as it was given
  or had room for, and other calls move none.
\<close>

record 's logs =
  cipher_in :: "'s \<Rightarrow> bytes"
  cipher_out :: "'s \<Rightarrow> bytes"
  plain_in :: "'s \<Rightarrow> bytes"
  plain_out :: "'s \<Rightarrow> bytes"

definition logs_grow ::
  "'s logs \<Rightarrow> bytes \<Rightarrow> bytes \<Rightarrow> bytes \<Rightarrow> bytes \<Rightarrow> 's \<Rightarrow> 's \<Rightarrow> bool" where
  "logs_grow L ci co pin pout s s' \<longleftrightarrow>
     cipher_in L s' = cipher_in L s @ ci \<and> cipher_out L s' = cipher_out L s @ co \<and>
     plain_in L s' = plain_in L s @ pin \<and> plain_out L s' = plain_out L s @ pout"

definition engine_ok :: "'s logs \<Rightarrow> 's engine \<Rightarrow> bool" where
  "engine_ok L eng \<longleftrightarrow>
     (\<forall>c s n s'. bio_write eng c s = (n, s') \<longrightarrow>
        n \<le> int (length c) \<and> logs_grow L (take (nat n) c) [] [] [] s s') \<and>
     (\<forall>m s xs s'. bio_read eng m s = (xs, s') \<longrightarrow> logs_grow L [] xs [] [] s s') \<and>
     (\<forall>c s n s'. ssl_write eng c s = (n, s') \<longrightarrow>
        n \<le> int (length c) \<and> logs_grow L [] [] (take (nat n) c) [] s s') \<and>
     (\<forall>m s l xs s'. ssl_read eng m s = ((l, xs), s') \<longrightarrow>
        l \<le> int m \<and> (0 < l \<longrightarrow> length xs = nat l) \<and>
        logs_grow L [] [] [] (if 0 < l then xs else []) s s') \<and>
     (\<forall>s c s'. err_get_error eng s = (c, s') \<longrightarrow> logs_grow L [] [] [] [] s s') \<and>
     (\<forall>m s n s'. ssl_handshake eng m s = (n, s') \<longrightarrow> logs_grow L [] [] [] [] s s') \<and>
     (\<forall>d s ok s'. ssl_set_host eng d s = (ok, s') \<longrightarrow> logs_grow L [] [] [] [] s s')"

lemma logs_grow_refl [simp]: "logs_grow L [] [] [] [] s s"
  by (simp add: logs_grow_def)

lemma logs_grow_trans:
  "logs_grow L a b c d s s' \<Longrightarrow> logs_grow L a' b' c' d' s' s'' \<Longrightarrow>
   logs_grow L (a @ a') (b @ b') (c @ c') (d @ d') s s''"
  by (simp add: logs_grow_def)

section \<open>The walks over the chunks\<close>

lemma fill_chunks_logs:
  assumes "engine_ok L eng"
  shows "fill_chunks eng cs s = Inr (xs, s') \<Longrightarrow> logs_grow L [] xs [] [] s s'"
proof (induction cs arbitrary: s xs)
  case Nil
  then show ?case by simp
next
  case (Cons c cs)
  obtain ys s1 where r: "bio_read eng (length c) s = (ys, s1)" by (cases "bio_read eng (length c) s")
  then obtain zs where z: "fill_chunks eng cs s1 = Inr (zs, s')" "xs = ys @ zs"
    using Cons.prems by (auto simp: boost_assert_Inr exec_bind_Inr)
  have "logs_grow L [] ys [] [] s s1" using assms r by (auto simp: engine_ok_def)
  from logs_grow_trans [OF this Cons.IH [OF z(1)]] show ?case by (simp add: z(2))
qed

text \<open>The members of a tunnel that a walk leaves alone.\<close>

definition same_pending :: "'s tls_tunnel \<Rightarrow> 's tls_tunnel \<Rightarrow> bool" where
  "same_pending t t' \<longleftrightarrow> pending_write_plain t' = pending_write_plain t \<and>
     pending_read_plain t' = pending_read_plain t \<and> pending_read_cipher t' = pending_read_cipher t"

lemma same_pending_refl [simp]: "same_pending t t"
  by (simp add: same_pending_def)

lemma same_pending_trans: "same_pending t u \<Longrightarrow> same_pending u v \<Longrightarrow> same_pending t v"
  by (simp add: same_pending_def)

lemma take_ssl_error_ok:
  assumes "engine_ok L eng"
  shows "logs_grow L [] [] [] [] (ssl t) (ssl (take_ssl_error eng t)) \<and>
         same_pending t (take_ssl_error eng t)"
proof (cases "err_get_error eng (ssl t)")
  case (Pair c s)
  then have "logs_grow L [] [] [] [] (ssl t) s" using assms by (auto simp: engine_ok_def)
  then show ?thesis using Pair by (simp add: take_ssl_error_def same_pending_def)
qed

lemma read_chunks_logs:
  assumes "engine_ok L eng"
  shows "read_chunks eng cs got t = (stop, got', t') \<Longrightarrow>
    \<exists>ys. got' = got @ ys \<and> length ys \<le> length (concat cs) \<and>
         logs_grow L [] [] [] ys (ssl t) (ssl t') \<and> same_pending t t'"
proof (induction cs arbitrary: got t)
  case Nil
  then show ?case by simp
next
  case (Cons c cs)
  obtain l xs s where r: "ssl_read eng (length c) (ssl t) = ((l, xs), s)"
    by (metis surj_pair)
  let ?t = "t\<lparr>ssl := s\<rparr>"
  have e: "l \<le> int (length c)" "0 < l \<longrightarrow> length xs = nat l"
    "logs_grow L [] [] [] (if 0 < l then xs else []) (ssl t) s"
    using assms r by (auto simp: engine_ok_def)
  show ?case
  proof (cases "l \<le> 0")
    case True
    have "logs_grow L [] [] [] [] (ssl t) (ssl t') \<and> same_pending t t' \<and> got' = got"
      using Cons.prems r True e(3) logs_grow_trans [OF _ take_ssl_error_ok [OF assms, THEN conjunct1], of "[]" "[]" "[]" "[]" "ssl t" ?t]
        take_ssl_error_ok [OF assms, of ?t]
      by (auto simp: Let_def same_pending_def split: ssl_error.splits)
    then show ?thesis by (intro exI [of _ "[]"]) simp
  next
    case False
    show ?thesis
    proof (cases "nat l < length c")
      case True
      then show ?thesis
        using Cons.prems r False e by (intro exI [of _ xs]) (auto simp: Let_def same_pending_def)
    next
      case full: False
      then have "read_chunks eng cs (got @ xs) ?t = (stop, got', t')"
        using Cons.prems r False by (simp add: Let_def)
      from Cons.IH [OF this] obtain ys where ys: "got' = (got @ xs) @ ys"
        "length ys \<le> length (concat cs)" "logs_grow L [] [] [] ys s (ssl t')" "same_pending ?t t'"
        by auto
      have x: "length xs \<le> length c" "logs_grow L [] [] [] xs (ssl t) s" using e False by auto
      show ?thesis
        using ys x logs_grow_trans [OF x(2) ys(3)]
        by (intro exI [of _ "xs @ ys"]) (auto simp: same_pending_def)
    qed
  qed
qed

lemma write_bio_chunks_logs:
  assumes "engine_ok L eng"
  shows "write_bio_chunks eng cs p t = (p', t') \<Longrightarrow>
    p \<le> p' \<and> p' - p \<le> length (concat cs) \<and> same_pending t t' \<and>
    logs_grow L (take (p' - p) (concat cs)) [] [] [] (ssl t) (ssl t')"
proof (induction cs arbitrary: p t)
  case Nil
  then show ?case by simp
next
  case (Cons c cs)
  let ?u = "t\<lparr>need_cipher_input := False\<rparr>"
  obtain n s where r: "bio_write eng c (ssl t) = (n, s)" by (metis surj_pair)
  let ?t = "?u\<lparr>ssl := s\<rparr>"
  have e: "n \<le> int (length c)" "logs_grow L (take (nat n) c) [] [] [] (ssl t) s"
    using assms r by (auto simp: engine_ok_def)
  show ?case
  proof (cases "n \<le> 0")
    case True
    then have "p' = p" "t' = (if bio_should_retry eng s then ?t else take_ssl_error eng ?t)"
      using Cons.prems r by (auto simp: Let_def)
    then show ?thesis
      using e True take_ssl_error_ok [OF assms, of ?t]
        logs_grow_trans [OF e(2), of "[]" "[]" "[]" "[]" "ssl (take_ssl_error eng ?t)"]
      by (auto simp: same_pending_def)
  next
    case False
    show ?thesis
    proof (cases "nat n = length c")
      case True
      then have "write_bio_chunks eng cs (p + nat n) ?t = (p', t')"
        using Cons.prems r False by (simp add: Let_def)
      from Cons.IH [OF this] have i: "p + length c \<le> p'" "p' - (p + length c) \<le> length (concat cs)"
        "same_pending ?t t'" "logs_grow L (take (p' - (p + length c)) (concat cs)) [] [] [] s (ssl t')"
        using True by auto
      have t: "take (p' - p) (concat (c # cs)) = c @ take (p' - (p + length c)) (concat cs)"
        using i(1) by simp
      show ?thesis
        unfolding t using i e(2) True logs_grow_trans [OF e(2) i(4)]
        by (auto simp: same_pending_def)
    next
      case part: False
      then have "p' = p + nat n" "t' = ?t" using Cons.prems r False by (auto simp: Let_def)
      then show ?thesis using e by (auto simp: same_pending_def)
    qed
  qed
qed

lemma write_ssl_chunks_logs:
  assumes "engine_ok L eng"
  shows "write_ssl_chunks eng cs p t = Inr (p', t') \<Longrightarrow>
    p \<le> p' \<and> p' - p \<le> length (concat cs) \<and> same_pending t t' \<and>
    logs_grow L [] [] (take (p' - p) (concat cs)) [] (ssl t) (ssl t')"
proof (induction cs arbitrary: p t)
  case Nil
  then show ?case by simp
next
  case (Cons c cs)
  obtain n s where r: "ssl_write eng c (ssl t) = (n, s)" by (metis surj_pair)
  let ?t = "t\<lparr>ssl := s\<rparr>"
  have e: "n \<le> int (length c)" "logs_grow L [] [] (take (nat n) c) [] (ssl t) s"
    using assms r by (auto simp: engine_ok_def)
  consider "n = int (length c)" | "n \<noteq> int (length c)" "0 < n" | "n \<noteq> int (length c)" "n \<le> 0"
    by linarith
  then show ?case
  proof cases
    case 1
    then have "write_ssl_chunks eng cs (p + length c) ?t = Inr (p', t')"
      using Cons.prems r by (simp add: Let_def)
    from Cons.IH [OF this] have i: "p + length c \<le> p'" "p' - (p + length c) \<le> length (concat cs)"
      "same_pending ?t t'" "logs_grow L [] [] (take (p' - (p + length c)) (concat cs)) [] s (ssl t')"
      by auto
    have t: "take (p' - p) (concat (c # cs)) = c @ take (p' - (p + length c)) (concat cs)"
      using i(1) by simp
    show ?thesis
      unfolding t using i e(2) 1 logs_grow_trans [OF e(2) i(4)]
      by (auto simp: same_pending_def)
  next
    case 2
    then have "p' = p + nat n" "t' = ?t"
      using Cons.prems r by (auto simp: Let_def boost_assert_Inr)
    then show ?thesis using e by (auto simp: same_pending_def)
  next
    case 3
    then have "p' = p" and t': "t' = (case ssl_get_error eng n s of
        Ssl_Want_Read \<Rightarrow> ?t\<lparr>need_cipher_input := True\<rparr> | Ssl_Want_Write \<Rightarrow> ?t
      | Ssl_Zero_Return \<Rightarrow> ?t\<lparr>tls_closed := True\<rparr> | _ \<Rightarrow> take_ssl_error eng ?t)"
      using Cons.prems r by (auto simp: Let_def)
    have "logs_grow L [] [] [] [] (ssl t) s" using e(2) 3 by simp
    then show ?thesis
      using \<open>p' = p\<close> t' take_ssl_error_ok [OF assms, of ?t]
        logs_grow_trans [of L "[]" "[]" "[]" "[]" "ssl t" s "[]" "[]" "[]" "[]" "ssl (take_ssl_error eng ?t)"]
      by (auto simp: same_pending_def split: ssl_error.splits)
  qed
qed

section \<open>The operations\<close>

text \<open>
  What the engine has given is in the buffers, and what was to be written is with the engine
  or still pending; \<open>ci\<close> is the cipher text it has taken.
\<close>

definition conserves :: "'s logs \<Rightarrow> bytes \<Rightarrow> 's tls_tunnel \<Rightarrow> 's tls_tunnel \<Rightarrow> bool" where
  "conserves L ci t t' \<longleftrightarrow>
     (\<exists>co pin pout. logs_grow L ci co pin pout (ssl t) (ssl t') \<and>
        pending_read_cipher t' = pending_read_cipher t @ co \<and>
        pending_read_plain t' = pending_read_plain t @ pout \<and>
        pin @ pending_write_plain t' = pending_write_plain t)"

lemma conserves_refl [simp]: "conserves L [] t t"
  unfolding conserves_def by (intro exI [of _ "[]"]) simp

lemma conserves_trans:
  assumes "conserves L a t u" "conserves L b u v"
  shows "conserves L (a @ b) t v"
proof -
  obtain co pin pout where 1: "logs_grow L a co pin pout (ssl t) (ssl u)"
    "pending_read_cipher u = pending_read_cipher t @ co" "pending_read_plain u = pending_read_plain t @ pout"
    "pin @ pending_write_plain u = pending_write_plain t"
    using assms(1) by (auto simp: conserves_def)
  obtain co' pin' pout' where 2: "logs_grow L b co' pin' pout' (ssl u) (ssl v)"
    "pending_read_cipher v = pending_read_cipher u @ co'" "pending_read_plain v = pending_read_plain u @ pout'"
    "pin' @ pending_write_plain v = pending_write_plain u"
    using assms(2) by (auto simp: conserves_def)
  show ?thesis
    unfolding conserves_def
    by (rule exI [of _ "co @ co'"], rule exI [of _ "pin @ pin'"], rule exI [of _ "pout @ pout'"])
      (use 1 2 logs_grow_trans [OF 1(1) 2(1)] in simp)
qed

lemma flush_cipher_buffer_conserves:
  assumes "engine_ok L eng" "flush_cipher_buffer eng blk t = Inr t'"
  shows "conserves L [] t t' \<and> pending_write_plain t' = pending_write_plain t \<and>
         tls_error t' = tls_error t"
proof (cases "bio_pending eng (ssl t) = 0")
  case True
  then show ?thesis using assms(2) by (simp add: flush_cipher_buffer_def Let_def)
next
  case False
  then obtain xs s where "fill_chunks eng (chunks_from blk
        (pending_read_cipher t @ replicate (bio_pending eng (ssl t)) 0) (length (pending_read_cipher t)))
        (ssl t) = Inr (xs, s)"
    and t': "t' = t\<lparr>ssl := s, pending_read_cipher := pending_read_cipher t @ xs\<rparr>"
    using assms(2) by (auto simp: flush_cipher_buffer_def Let_def exec_bind_Inr)
  from fill_chunks_logs [OF assms(1) this(1)] show ?thesis
    unfolding conserves_def t'
    by (intro conjI exI [of _ xs] exI [of _ "[]"]) simp_all
qed

lemma flush_plain_loop_logs:
  assumes "engine_ok L eng"
  shows "flush_plain_loop eng blk fuel room got t = Some (sz, got', t') \<Longrightarrow>
    \<exists>ys. got' = got @ ys \<and> length got' \<le> sz \<and>
         logs_grow L [] [] [] ys (ssl t) (ssl t') \<and> same_pending t t'"
proof (induction fuel arbitrary: got t)
  case 0
  then show ?case by simp
next
  case (Suc k)
  let ?cs = "chunks_from blk (got @ replicate room 0) (length got)"
  obtain stop got1 t1 where r: "read_chunks eng ?cs got t = (stop, got1, t1)"
    by (metis surj_pair)
  obtain ys where ys: "got1 = got @ ys" "length ys \<le> length (concat ?cs)"
    "logs_grow L [] [] [] ys (ssl t) (ssl t1)" "same_pending t t1"
    using read_chunks_logs [OF assms r] by blast
  have len: "length ys \<le> room" using ys(2) by (simp add: concat_chunks_from)
  show ?case
  proof (cases stop)
    case True
    then have "sz = length got + room" "got' = got1" "t' = t1"
      using Suc.prems r by (simp_all add: Let_def)
    then show ?thesis using ys len by auto
  next
    case False
    then have "flush_plain_loop eng blk k room got1 t1 = Some (sz, got', t')"
      using Suc.prems r by (simp add: Let_def)
    from Suc.IH [OF this] obtain zs where zs: "got' = got1 @ zs" "length got' \<le> sz"
      "logs_grow L [] [] [] zs (ssl t1) (ssl t')" "same_pending t1 t'" by blast
    show ?thesis
      using zs ys same_pending_trans [OF ys(4) zs(4)] logs_grow_trans [OF ys(3) zs(3)]
      by (intro exI [of _ "ys @ zs"]) simp
  qed
qed

lemma flush_plain_buffer_conserves:
  assumes "engine_ok L eng" "flush_plain_buffer eng blk fuel t = Some (Inr t')"
  shows "conserves L [] t t' \<and> pending_write_plain t' = pending_write_plain t"
proof -
  obtain sz got t1 b where l: "flush_plain_loop eng blk fuel tls_read_size (pending_read_plain t) t =
      Some (sz, got, t1)" and
    b: "bb_shrink_back (got @ replicate (sz - length got) 0) (sz_sub sz (length got)) = Inr b" and
    t': "t' = t1\<lparr>pending_read_plain := b\<rparr>"
    using assms(2) by (auto simp: flush_plain_buffer_def exec_bind_Inr)
  obtain ys where ys: "got = pending_read_plain t @ ys" "length got \<le> sz"
    "logs_grow L [] [] [] ys (ssl t) (ssl t1)" "same_pending t t1"
    using flush_plain_loop_logs [OF assms(1) l] by blast
  have "b = got"
    using b ys(2) by (auto simp: bb_shrink_back_def bb_shrink_def boost_assert_Inr delete_at_def)
  then show ?thesis
    unfolding conserves_def t' using ys
    by (intro conjI exI [of _ "[]"] exI [of _ ys]) (simp_all add: same_pending_def)
qed

lemma flush_buffer_conserves:
  assumes "engine_ok L eng" "flush_buffer eng blk fuel t = Some (Inr t')"
  shows "conserves L [] t t' \<and> pending_write_plain t' = pending_write_plain t"
proof -
  obtain t1 where 1: "flush_cipher_buffer eng blk t = Inr t1" "flush_plain_buffer eng blk fuel t1 = Some (Inr t')"
    using assms(2) by (auto simp: flush_buffer_def split: sum.splits)
  show ?thesis
    using conserves_trans [of L "[]" t t1 "[]" t'] flush_cipher_buffer_conserves [OF assms(1) 1(1)]
      flush_plain_buffer_conserves [OF assms(1) 1(2)] by simp
qed

lemma same_pending_conserves:
  "same_pending t t' \<Longrightarrow> logs_grow L ci [] [] [] (ssl t) (ssl t') \<Longrightarrow> conserves L ci t t'"
  unfolding conserves_def same_pending_def by (intro exI [of _ "[]"]) simp

lemma write_cipher_loop_conserves:
  assumes "engine_ok L eng"
  shows "write_cipher_loop eng blk fuel b p t = Some (Inr t') \<Longrightarrow> p \<le> length b \<Longrightarrow>
    \<exists>n. conserves L (take n (drop p b)) t t' \<and> pending_write_plain t' = pending_write_plain t \<and>
        (\<not> error_bool (tls_error t') \<longrightarrow> n = length b - p)"
proof (induction fuel arbitrary: p t)
  case 0
  then show ?case
    by (intro exI [of _ 0]) (auto simp: write_cipher_loop.simps split: if_splits)
next
  case (Suc k)
  show ?case
  proof (cases "p = length b \<or> error_bool (tls_error t)")
    case True
    then show ?thesis
      using Suc.prems by (intro exI [of _ 0]) (auto simp: write_cipher_loop.simps)
  next
    case False
    obtain p1 t1 where w: "write_bio_chunks eng (chunks_from blk b p) p t = (p1, t1)"
      by (metis surj_pair)
    let ?xs = "take (p1 - p) (drop p b)"
    have l: "p \<le> p1" "p1 - p \<le> length b - p" "same_pending t t1"
      "logs_grow L ?xs [] [] [] (ssl t) (ssl t1)"
      using write_bio_chunks_logs [OF assms w] Suc.prems(2) by (simp_all add: concat_chunks_from)
    have c: "conserves L ?xs t t1" by (rule same_pending_conserves [OF l(3,4)])
    have step: "(if error_bool (tls_error t1) then Some (Inr t1)
        else case flush_buffer eng blk (Suc k) t1 of None \<Rightarrow> None | Some (Inl x) \<Rightarrow> Some (Inl x)
             | Some (Inr t) \<Rightarrow> write_cipher_loop eng blk k b p1 t) = Some (Inr t')"
      using Suc.prems False w by (simp add: write_cipher_loop.simps [of _ _ "Suc k"])
    show ?thesis
    proof (cases "error_bool (tls_error t1)")
      case True
      then show ?thesis
        using step c l(3) by (intro exI [of _ "p1 - p"]) (auto simp: same_pending_def)
    next
      case ne: False
      then obtain t2 where t2: "flush_buffer eng blk (Suc k) t1 = Some (Inr t2)"
        "write_cipher_loop eng blk k b p1 t2 = Some (Inr t')"
        using step by (auto split: option.splits sum.splits)
      have "p1 \<le> length b" using l(1,2) Suc.prems(2) by simp
      from Suc.IH [OF t2(2) this] obtain n where n: "conserves L (take n (drop p1 b)) t2 t'"
        "pending_write_plain t' = pending_write_plain t2" "\<not> error_bool (tls_error t') \<longrightarrow> n = length b - p1"
        by blast
      note f = flush_buffer_conserves [OF assms t2(1)]
      have "?xs @ take n (drop p1 b) = take (p1 - p + n) (drop p b)"
        using l(1) take_add [of "p1 - p" n "drop p b"] by simp
      moreover have "conserves L (?xs @ take n (drop p1 b)) t t'"
        using conserves_trans [OF conserves_trans [OF c] n(1)] f by fastforce
      ultimately show ?thesis
        using n(2,3) f l(3) \<open>p1 \<le> length b\<close> l(1)
        by (intro exI [of _ "p1 - p + n"]) (auto simp: same_pending_def)
    qed
  qed
qed

lemma internal_plain_write_conserves:
  assumes "engine_ok L eng"
  shows "internal_plain_write eng blk fuel t = Some (Inr t') \<Longrightarrow> conserves L [] t t'"
proof (induction fuel arbitrary: t)
  case 0
  then show ?case by simp
next
  case (Suc k)
  let ?b = "pending_write_plain t"
  obtain t2 where 2: "exec_bind (write_ssl_chunks eng (chunks_from blk ?b 0) 0 t) (\<lambda>(p, t).
      exec_bind (bb_shrink_front ?b p) (\<lambda>b.
      flush_cipher_buffer eng blk (t\<lparr>pending_write_plain := b\<rparr>))) = Inr t2"
    "(if pending_write_plain t2 \<noteq> [] \<and> \<not> need_cipher_input t2 \<and> \<not> tls_closed t2 \<and>
         \<not> error_bool (tls_error t2)
      then internal_plain_write eng blk k t2 else Some (Inr t2)) = Some (Inr t')"
    using Suc.prems by (auto simp: Let_def split: sum.splits)
  obtain p t1 b where 1: "write_ssl_chunks eng (chunks_from blk ?b 0) 0 t = Inr (p, t1)"
    "bb_shrink_front ?b p = Inr b" "flush_cipher_buffer eng blk (t1\<lparr>pending_write_plain := b\<rparr>) = Inr t2"
    using 2(1) by (auto simp: exec_bind_Inr)
  have l: "p \<le> length ?b" "same_pending t t1" "logs_grow L [] [] (take p ?b) [] (ssl t) (ssl t1)"
    using write_ssl_chunks_logs [OF assms 1(1)] by (simp_all add: concat_chunks_from)
  have b: "b = drop p ?b"
    using 1(2) by (auto simp: bb_shrink_front_def bb_shrink_def boost_assert_Inr delete_at_def)
  have "conserves L [] t (t1\<lparr>pending_write_plain := b\<rparr>)"
    unfolding conserves_def
    by (rule exI [of _ "[]"], rule exI [of _ "take p ?b"], rule exI [of _ "[]"])
      (use l b in \<open>simp add: same_pending_def\<close>)
  then have "conserves L [] t t2"
    using conserves_trans flush_cipher_buffer_conserves [OF assms 1(3)] by fastforce
  then show ?case
    using 2(2) Suc.IH [of t2] conserves_trans [of L "[]" t t2 "[]" t'] by (auto split: if_splits)
qed

section \<open>A run of the tunnel\<close>

text \<open>
  The calls a user makes, and what has gone in and out on the user's side: plain text written
  and read, cipher text received and sent, and whether an error has been seen after a call.  A
  call that reports an error hands no bytes out.
\<close>

datatype tls_op = Put_Plain bytes | Get_Plain | Put_Cipher bytes | Get_Cipher | Shake

record tls_trace =
  tr_written :: bytes
  tr_read :: bytes
  tr_received :: bytes
  tr_sent :: bytes
  tr_failed :: bool

definition tls_op_run ::
  "'s engine \<Rightarrow> cutter \<Rightarrow> nat \<Rightarrow> tls_op \<Rightarrow> tls_trace \<Rightarrow> 's tls_tunnel \<Rightarrow>
   (tls_trace \<times> 's tls_tunnel) exec option" where
  "tls_op_run eng blk fuel op tr t =
     (case op of
        Put_Plain b \<Rightarrow>
          map_option (\<lambda>m. exec_bind m (\<lambda>(r, t). Inr (tr\<lparr>tr_written := tr_written tr @ b\<rparr>, t)))
            (write_plain_text_data eng blk fuel b t)
      | Get_Plain \<Rightarrow>
          (let (r, t) = read_plain_text_data t
           in Some (Inr (tr\<lparr>tr_read := tr_read tr @ (case r of Inl e \<Rightarrow> [] | Inr xs \<Rightarrow> xs)\<rparr>, t)))
      | Put_Cipher b \<Rightarrow>
          map_option (\<lambda>m. exec_bind m (\<lambda>t. Inr (tr\<lparr>tr_received := tr_received tr @ b\<rparr>, t)))
            (write_cipher_text_data eng blk fuel b t)
      | Get_Cipher \<Rightarrow>
          (let (xs, t) = read_cipher_text_data t in Some (Inr (tr\<lparr>tr_sent := tr_sent tr @ xs\<rparr>, t)))
      | Shake \<Rightarrow> Some (exec_bind (hand_shake eng blk t) (\<lambda>(r, t). Inr (tr, t))))"

fun tls_run ::
  "'s engine \<Rightarrow> cutter \<Rightarrow> nat \<Rightarrow> tls_op list \<Rightarrow> tls_trace \<Rightarrow> 's tls_tunnel \<Rightarrow>
   (tls_trace \<times> 's tls_tunnel) exec option" where
  "tls_run eng blk fuel [] tr t = Some (Inr (tr, t))"
| "tls_run eng blk fuel (op # ops) tr t =
     (case tls_op_run eng blk fuel op tr t of
        Some (Inr (tr, t)) \<Rightarrow>
          tls_run eng blk fuel ops (tr\<lparr>tr_failed := tr_failed tr \<or> error_bool (tls_error t)\<rparr>) t
      | r \<Rightarrow> r)"

text \<open>The books of a tunnel balance.\<close>

definition balanced :: "'s logs \<Rightarrow> tls_trace \<Rightarrow> 's tls_tunnel \<Rightarrow> bool" where
  "balanced L tr t \<longleftrightarrow>
     tr_sent tr @ pending_read_cipher t = cipher_out L (ssl t) \<and>
     tr_read tr @ pending_read_plain t = plain_out L (ssl t) \<and>
     plain_in L (ssl t) @ pending_write_plain t = tr_written tr \<and>
     (\<not> tr_failed tr \<longrightarrow> cipher_in L (ssl t) = tr_received tr)"

lemma balanced_conserves:
  assumes "conserves L ci t t'" "balanced L tr t"
    and "\<not> tr_failed tr \<and> \<not> error_bool (tls_error t') \<longrightarrow> ci = xs"
  shows "balanced L (tr\<lparr>tr_received := tr_received tr @ xs,
           tr_failed := tr_failed tr \<or> error_bool (tls_error t')\<rparr>) t'"
proof -
  obtain co pin pout where "logs_grow L ci co pin pout (ssl t) (ssl t')"
    "pending_read_cipher t' = pending_read_cipher t @ co" "pending_read_plain t' = pending_read_plain t @ pout"
    "pin @ pending_write_plain t' = pending_write_plain t"
    using assms(1) by (auto simp: conserves_def)
  then show ?thesis using assms(2,3) by (auto simp: balanced_def logs_grow_def)
qed

lemma hand_shake_conserves:
  assumes "engine_ok L eng" "hand_shake eng blk t = Inr (r, t')"
  shows "conserves L [] t t'"
proof -
  obtain n s where h: "ssl_handshake eng (tls_mode t = Tls_Server) (ssl t) = (n, s)" by (metis surj_pair)
  let ?t = "t\<lparr>ssl := s\<rparr>"
  have "conserves L [] t ?t"
    using assms(1) h by (intro same_pending_conserves) (auto simp: engine_ok_def same_pending_def)
  moreover have "conserves L [] ?t t'"
  proof (cases "ssl_get_error eng n s = Ssl_Want_Read \<or> ssl_get_error eng n s = Ssl_Want_Write")
    case True
    then have "flush_cipher_buffer eng blk ?t = Inr t'"
      using assms(2) h by (auto simp: hand_shake_def Let_def exec_bind_Inr)
    from flush_cipher_buffer_conserves [OF assms(1) this] show ?thesis by simp
  next
    case False
    obtain c s' where e: "err_get_error eng s = (c, s')" by (metis surj_pair)
    have "t' = ?t \<or> t' = t\<lparr>ssl := s'\<rparr>"
      using assms(2) h e False by (cases "ssl_get_error eng n s") (auto simp: hand_shake_def Let_def)
    moreover have "conserves L [] ?t (t\<lparr>ssl := s'\<rparr>)"
      using assms(1) e by (intro same_pending_conserves) (auto simp: engine_ok_def same_pending_def)
    ultimately show ?thesis by auto
  qed
  ultimately show ?thesis using conserves_trans [of L "[]" t ?t "[]" t'] by simp
qed

lemma tls_op_balanced:
  assumes "engine_ok L eng" "balanced L tr t" "tls_op_run eng blk fuel op tr t = Some (Inr (tr', t'))"
  shows "balanced L (tr'\<lparr>tr_failed := tr_failed tr' \<or> error_bool (tls_error t')\<rparr>) t'"
proof (cases op)
  case (Put_Plain b)
  then obtain r where w: "write_plain_text_data eng blk fuel b t = Some (Inr (r, t'))"
    and tr': "tr' = tr\<lparr>tr_written := tr_written tr @ b\<rparr>"
    using assms(3) by (auto simp: tls_op_run_def exec_bind_Inr)
  have f: "finish_writing_cipher_data t"
    using w by (auto simp: write_plain_text_data_def split: if_splits)
  obtain t1 where i: "internal_plain_write eng blk fuel (t\<lparr>pending_write_plain := b\<rparr>) = Some (Inr t1)"
    using w f by (auto simp: write_plain_text_data_def exec_bind_Inr)
  then have "t' = (if error_bool (tls_error t1) then t1\<lparr>tls_error := error_moved (tls_error t1)\<rparr> else t1)"
    using w f by (auto simp: write_plain_text_data_def split: if_splits)
  note t1 = i this
  have "balanced L tr' (t\<lparr>pending_write_plain := b\<rparr>)"
    using assms(2) f tr' by (auto simp: balanced_def finish_writing_cipher_data_def)
  from balanced_conserves [OF internal_plain_write_conserves [OF assms(1) t1(1)] this, of "[]"]
  have "balanced L (tr'\<lparr>tr_failed := tr_failed tr' \<or> error_bool (tls_error t1)\<rparr>) t1" by simp
  moreover have "error_bool (tls_error t') = error_bool (tls_error t1)"
    using t1(2) by (simp add: error_bool_def error_moved_def)
  ultimately show ?thesis using t1(2) by (auto simp: balanced_def)
next
  case Get_Plain
  then show ?thesis
    using assms(2,3) by (auto simp: tls_op_run_def read_plain_text_data_def balanced_def split: if_splits)
next
  case (Put_Cipher b)
  then have w: "write_cipher_text_data eng blk fuel b t = Some (Inr t')"
    and tr': "tr' = tr\<lparr>tr_received := tr_received tr @ b\<rparr>"
    using assms(3) by (auto simp: tls_op_run_def exec_bind_Inr)
  obtain n where n: "conserves L (take n b) t t'" "\<not> error_bool (tls_error t') \<longrightarrow> n = length b"
    using write_cipher_loop_conserves [OF assms(1) w [unfolded write_cipher_text_data_def]] by auto
  have "\<not> tr_failed tr \<and> \<not> error_bool (tls_error t') \<longrightarrow> take n b = b" using n(2) by simp
  from balanced_conserves [OF n(1) assms(2) this] show ?thesis by (simp add: tr')
next
  case Get_Cipher
  then show ?thesis
    using assms(2,3) by (auto simp: tls_op_run_def read_cipher_text_data_def balanced_def)
next
  case Shake
  then obtain r where "hand_shake eng blk t = Inr (r, t')" "tr' = tr"
    using assms(3) by (auto simp: tls_op_run_def exec_bind_Inr)
  then show ?thesis
    using balanced_conserves [OF hand_shake_conserves [OF assms(1)] assms(2), of blk r t' "[]"] by simp
qed

lemma tls_run_balanced:
  assumes "engine_ok L eng"
  shows "tls_run eng blk fuel ops tr t = Some (Inr (tr', t')) \<Longrightarrow> balanced L tr t \<Longrightarrow> balanced L tr' t'"
proof (induction ops arbitrary: tr t)
  case (Cons op ops)
  then show ?case
    using tls_op_balanced [OF assms] by (fastforce split: option.splits sum.splits)
qed simp

definition no_trace :: tls_trace where
  "no_trace = \<lparr>tr_written = [], tr_read = [], tr_received = [], tr_sent = [], tr_failed = False\<rparr>"

text \<open>
  C5. Nothing is lost in a tunnel: after any sequence of its operations, on any block structure
  of the buffers, the cipher text sent and still held is exactly what the engine has produced,
  in order; the plain text read and still held is what the engine has decrypted; the plain
  text given to the engine and still waiting is what was written; and as long as no error has
  been seen, every byte of cipher text received has been given to the engine.
\<close>

theorem tls_tunnel_conserves:
  assumes "engine_ok L eng"
    and "cipher_in L s = []" "cipher_out L s = []" "plain_in L s = []" "plain_out L s = []"
    and "tls_run eng blk fuel ops no_trace (tls_tunnel_new s m) = Some (Inr (tr, t))"
  shows "tr_sent tr @ pending_read_cipher t = cipher_out L (ssl t) \<and>
         tr_read tr @ pending_read_plain t = plain_out L (ssl t) \<and>
         plain_in L (ssl t) @ pending_write_plain t = tr_written tr \<and>
         (\<not> tr_failed tr \<longrightarrow> cipher_in L (ssl t) = tr_received tr)"
proof -
  have "balanced L no_trace (tls_tunnel_new s m)"
    using assms(2-5) by (simp add: balanced_def no_trace_def tls_tunnel_new_def)
  from tls_run_balanced [OF assms(1,6) this] show ?thesis by (simp add: balanced_def)
qed

text \<open>An engine that encrypts nothing: what is written on one side is read on the other.\<close>

record null_ssl =
  null_to_plain :: bytes
  null_to_cipher :: bytes
  null_logs :: "bytes \<times> bytes \<times> bytes \<times> bytes"

definition null_log :: "bytes \<Rightarrow> bytes \<Rightarrow> bytes \<Rightarrow> bytes \<Rightarrow> null_ssl \<Rightarrow> null_ssl" where
  "null_log ci co pin pout s =
     (let (a, b, c, d) = null_logs s in s\<lparr>null_logs := (a @ ci, b @ co, c @ pin, d @ pout)\<rparr>)"

definition null_engine :: "null_ssl engine" where
  "null_engine =
     \<lparr>bio_write = (\<lambda>c s. (int (length c), null_log c [] [] [] (s\<lparr>null_to_plain := null_to_plain s @ c\<rparr>))),
      bio_should_retry = (\<lambda>s. True),
      bio_pending = (\<lambda>s. length (null_to_cipher s)),
      bio_read = (\<lambda>n s. let xs = take n (null_to_cipher s)
        in (xs, null_log [] xs [] [] (s\<lparr>null_to_cipher := drop n (null_to_cipher s)\<rparr>))),
      ssl_write = (\<lambda>c s. (int (length c), null_log [] [] c [] (s\<lparr>null_to_cipher := null_to_cipher s @ c\<rparr>))),
      ssl_read = (\<lambda>m s. let xs = take m (null_to_plain s)
        in if xs = [] then ((-1, []), s)
           else ((int (length xs), xs),
                 null_log [] [] [] xs (s\<lparr>null_to_plain := drop m (null_to_plain s)\<rparr>))),
      ssl_get_error = (\<lambda>n s. if n \<le> 0 then Ssl_Want_Read else Ssl_None),
      err_get_error = (\<lambda>s. (1, s)), ssl_handshake = (\<lambda>m s. (1, s)), ssl_set_host = (\<lambda>d s. (True, s))\<rparr>"

definition null_accounts :: "null_ssl logs" where
  "null_accounts =
     \<lparr>cipher_in = (\<lambda>s. fst (null_logs s)), cipher_out = (\<lambda>s. fst (snd (null_logs s))),
      plain_in = (\<lambda>s. fst (snd (snd (null_logs s)))), plain_out = (\<lambda>s. snd (snd (snd (null_logs s))))\<rparr>"

definition null_ssl_new :: null_ssl where
  "null_ssl_new = \<lparr>null_to_plain = [], null_to_cipher = [], null_logs = ([], [], [], [])\<rparr>"

lemma null_log_grows: "logs_grow null_accounts ci co pin pout s (null_log ci co pin pout s)"
  by (cases "null_logs s") (simp add: logs_grow_def null_accounts_def null_log_def)

lemma null_log_same:
  "null_logs s' = null_logs s \<Longrightarrow> logs_grow null_accounts ci co pin pout s' t \<Longrightarrow>
   logs_grow null_accounts ci co pin pout s t"
  by (simp add: logs_grow_def null_accounts_def)

lemma null_engine_ok: "engine_ok null_accounts null_engine"
  unfolding engine_ok_def null_engine_def
  by (auto simp: Let_def intro!: null_log_same [OF _ null_log_grows] split: if_splits)

theorem tls_tunnel_conserves_witness:
  "\<exists>tr t. tls_run null_engine (\<lambda>b k. length b) 1 [Put_Plain [1, 2], Get_Cipher, Shake] no_trace
       (tls_tunnel_new null_ssl_new Tls_Client) = Some (Inr (tr, t)) \<and>
     tr_sent tr = cipher_out null_accounts (ssl t) \<and> tr_sent tr = [1, 2] \<and>
     plain_in null_accounts (ssl t) = [1, 2]"
proof -
  obtain tr t where r: "tls_run null_engine (\<lambda>b k. length b) 1 [Put_Plain [1, 2], Get_Cipher, Shake] no_trace
       (tls_tunnel_new null_ssl_new Tls_Client) = Some (Inr (tr, t))"
    "tr_sent tr = [1, 2]" "tr_written tr = [1, 2]" "pending_read_cipher t = []" "pending_write_plain t = []"
    by (simp add: tls_op_run_def write_plain_text_data_def finish_writing_cipher_data_def Let_def
        tls_tunnel_new_def null_engine_def null_log_def null_ssl_new_def chunks_from.simps chunk_at_def
        bb_shrink_front_def bb_shrink_def flush_cipher_buffer_def delete_at_def no_error_def error_of_def
        error_bool_def read_cipher_text_data_def hand_shake_def no_trace_def)
  have "cipher_in null_accounts null_ssl_new = []" "cipher_out null_accounts null_ssl_new = []"
    "plain_in null_accounts null_ssl_new = []" "plain_out null_accounts null_ssl_new = []"
    by (simp_all add: null_accounts_def null_ssl_new_def)
  from tls_tunnel_conserves [OF null_engine_ok this r(1)] r show ?thesis by auto
qed

section \<open>Plain text left over\<close>

lemma hand_shake_keeps_plain:
  assumes "engine_ok L eng" "hand_shake eng blk t = Inr (r, t')"
  shows "pending_write_plain t' = pending_write_plain t"
proof -
  obtain n s where h: "ssl_handshake eng (tls_mode t = Tls_Server) (ssl t) = (n, s)" by (metis surj_pair)
  obtain c s' where e: "err_get_error eng s = (c, s')" by (metis surj_pair)
  have "flush_cipher_buffer eng blk (t\<lparr>ssl := s\<rparr>) = Inr t' \<Longrightarrow> ?thesis"
    using flush_cipher_buffer_conserves [OF assms(1)] by fastforce
  then show ?thesis
    using assms(2) h e
    by (cases "ssl_get_error eng n s") (auto simp: hand_shake_def Let_def exec_bind_Inr)
qed

lemma tls_op_leftover:
  assumes "engine_ok L eng" "pending_write_plain t \<noteq> []"
    and "tls_op_run eng blk fuel op tr t = Some (Inr (tr', t'))"
  shows "pending_write_plain t' = pending_write_plain t"
proof (cases op)
  case (Put_Plain b)
  then show ?thesis
    using assms(2,3) by (simp add: tls_op_run_def write_plain_text_data_def finish_writing_cipher_data_def)
next
  case Get_Plain
  then show ?thesis using assms(3) by (auto simp: tls_op_run_def read_plain_text_data_def split: if_splits)
next
  case (Put_Cipher b)
  then have "write_cipher_loop eng blk fuel b 0 t = Some (Inr t')"
    using assms(3) by (auto simp: tls_op_run_def exec_bind_Inr write_cipher_text_data_def)
  then show ?thesis using write_cipher_loop_conserves [OF assms(1)] by fastforce
next
  case Get_Cipher
  then show ?thesis using assms(3) by (auto simp: tls_op_run_def read_cipher_text_data_def)
next
  case Shake
  then show ?thesis
    using assms(3) hand_shake_keeps_plain [OF assms(1)] by (auto simp: tls_op_run_def exec_bind_Inr)
qed

text \<open>
  Plain text that \<open>SSL_write\<close> did not take at once, because it wanted to read first, stays
  in the tunnel for ever: no later operation gives it to the engine, so the tunnel never again
  counts as having finished writing, and another write fails an assertion.
\<close>

theorem leftover_plain_text_stuck:
  assumes "engine_ok L eng" "pending_write_plain t \<noteq> []"
    and "tls_run eng blk fuel ops tr t = Some (Inr (tr', t'))"
  shows "pending_write_plain t' = pending_write_plain t \<and> \<not> finish_writing_cipher_data t' \<and>
         write_plain_text_data eng blk fuel b t' = Some (Inl Assert_Failed)"
proof -
  have "pending_write_plain t' = pending_write_plain t"
    using assms(2,3)
  proof (induction ops arbitrary: tr t)
    case Nil
    then show ?case by simp
  next
    case (Cons op ops)
    obtain tr1 t1 where 1: "tls_op_run eng blk fuel op tr t = Some (Inr (tr1, t1))"
      "tls_run eng blk fuel ops (tr1\<lparr>tr_failed := tr_failed tr1 \<or> error_bool (tls_error t1)\<rparr>) t1 =
        Some (Inr (tr', t'))"
      using Cons.prems(2) by (auto split: option.splits sum.splits)
    have "pending_write_plain t1 = pending_write_plain t"
      by (rule tls_op_leftover [OF assms(1) Cons.prems(1) 1(1)])
    then show ?case using Cons.IH [OF _ 1(2)] Cons.prems(1) by simp
  qed
  then show ?thesis
    using assms(2) by (simp add: finish_writing_cipher_data_def write_plain_text_data_def)
qed

theorem leftover_plain_text_stuck_witness:
  "write_plain_text_data null_engine (\<lambda>b k. length b) 1 [3]
     ((tls_tunnel_new null_ssl_new Tls_Client)\<lparr>pending_write_plain := [1, 2]\<rparr>) = Some (Inl Assert_Failed)"
  using leftover_plain_text_stuck [OF null_engine_ok, of
      "(tls_tunnel_new null_ssl_new Tls_Client)\<lparr>pending_write_plain := [1, 2]\<rparr>" "\<lambda>b k. length b" 1 "[]"
      no_trace no_trace _ "[3]"]
  by simp

text \<open>
  A handshake that has just succeeded does not flush: cipher text the engine has ready, such as
  the client's last flight, stays with it.
\<close>

theorem handshake_success_unflushed:
  assumes "ssl_handshake eng (tls_mode t = Tls_Server) (ssl t) = (n, s)" "ssl_get_error eng n s = Ssl_None"
  shows "hand_shake eng blk t = Inr (Inr Handshake_Success, t\<lparr>ssl := s\<rparr>)"
  using assms by (simp add: hand_shake_def)

end
