(* ===== verification/Tls_Flow.thy ===== *)
theory Tls_Flow
  imports Flow_Interface Tls_Tunnel_Laws
begin

text \<open>
  \<open>data_flow::TlsDataFlow\<close> (src/data_flow/tls_data_flow.cc): a TLS client over the next remote
  hop.  Reads and writes of the user are served from the tunnel, which is fed and drained by
  reads and writes of the next hop that the flow makes on its own.
\<close>

section \<open>State\<close>

record ('h, 's) tls_flow =
  tf_session :: session
  tf_connect_to :: "endpoint option"
  tf_read_cancelable :: cancelable
  tf_write_cancelable :: cancelable
  tf_connect_cancelable :: cancelable
  tf_next_read_cancelable :: cancelable
  tf_next_write_cancelable :: cancelable
  tf_machine :: fsm
  tf_pending_error :: error
  tf_error_reported :: bool
  tf_read_handler :: "'h option"
  tf_connect_handler :: "'h option"
  tf_write_handler :: "'h option"
  tf_tunnel :: "'s tls_tunnel"

datatype 'h tls_task =
    Tf_Connected cancelable | Tf_Shake_Written cancelable | Tf_Shake_Read cancelable
  | Tf_Deliver 'h cancelable "bytes result" | Tf_Write_Done 'h cancelable
  | Tf_Next_Read cancelable | Tf_Next_Written cancelable

type_synonym ('h, 's) tf_reaction = "(('h, 's) tls_flow, 'h, 'h tls_task) reaction"

text \<open>OpenSSL, the blocks of the buffers and the fuel of the tunnel's loops.\<close>

record 's tls_env =
  te_engine :: "'s engine"
  te_blocks :: cutter
  te_fuel :: nat

text \<open>
  What a handler finds of the next hop: whether it is reading or writing, and the tokens its
  calls return.
\<close>

record next_hop =
  nh_reading :: bool
  nh_writing :: bool
  nh_read_token :: cancelable
  nh_write_token :: cancelable

definition tls_flow_new ::
  "session \<Rightarrow> cancelable \<Rightarrow> cancelable \<Rightarrow> cancelable \<Rightarrow> cancelable \<Rightarrow> cancelable \<Rightarrow> 's \<Rightarrow>
   ('h, 's) tls_flow" where
  "tls_flow_new ses rc wc cc nr nw s =
     \<lparr>tf_session = ses, tf_connect_to = None, tf_read_cancelable = rc, tf_write_cancelable = wc,
      tf_connect_cancelable = cc, tf_next_read_cancelable = nr, tf_next_write_cancelable = nw,
      tf_machine = fsm_new Remote, tf_pending_error = no_error, tf_error_reported = False,
      tf_read_handler = None, tf_connect_handler = None, tf_write_handler = None,
      tf_tunnel = tls_tunnel_new s Tls_Client\<rparr>"

definition tls_flow_destroy :: "('h, 's) tls_flow \<Rightarrow> ('h, 'h tls_task) action list" where
  "tls_flow_destroy s =
     [Cancel_Token (tf_read_cancelable s), Cancel_Token (tf_write_cancelable s),
      Cancel_Token (tf_connect_cancelable s), Cancel_Token (tf_next_read_cancelable s),
      Cancel_Token (tf_next_write_cancelable s)]"

section \<open>Reporting an error\<close>

definition tf_read_report_error ::
  "error \<Rightarrow> ('h, 's) tls_flow \<Rightarrow> bool \<times> ('h, 's) tls_flow \<times> ('h, 'h tls_task) action list" where
  "tf_read_report_error e s =
     (case tf_read_handler s of
        None \<Rightarrow> (False, s, [])
      | Some h \<Rightarrow> (True, s\<lparr>tf_read_handler := None\<rparr>, [Give_Data h (Inl e)]))"

definition tf_write_report_error ::
  "error \<Rightarrow> ('h, 's) tls_flow \<Rightarrow> bool \<times> ('h, 's) tls_flow \<times> ('h, 'h tls_task) action list" where
  "tf_write_report_error e s =
     (case tf_write_handler s of
        None \<Rightarrow> (False, s, [])
      | Some h \<Rightarrow> (True, s\<lparr>tf_write_handler := None\<rparr>, [Give h (Inl e)]))"

definition tf_report_error ::
  "error \<Rightarrow> bool \<Rightarrow> ('h, 's) tls_flow \<Rightarrow>
   bool \<times> ('h, 's) tls_flow \<times> ('h, 'h tls_task) action list" where
  "tf_report_error e read_first s =
     (let (first, second) = if read_first then (tf_read_report_error e, tf_write_report_error e)
                            else (tf_write_report_error e, tf_read_report_error e);
          (ok, s', as) = first s
      in if ok then (True, s', as) else second s')"

text \<open>\<open>if (!ReportError(...)) pending_error_ = ...; else error_reported_ = true;\<close>\<close>

definition tf_report_or_keep :: "error \<Rightarrow> bool \<Rightarrow> ('h, 's) tls_flow \<Rightarrow> ('h, 's) tf_reaction" where
  "tf_report_or_keep e read_first s =
     (let (ok, s, as) = tf_report_error e read_first s
      in Inr (if ok then s\<lparr>tf_error_reported := True\<rparr> else s\<lparr>tf_pending_error := e\<rparr>, as))"

section \<open>Moving data\<close>

definition tf_try_read_next_hop :: "next_hop \<Rightarrow> ('h, 's) tls_flow \<Rightarrow>
   ('h, 's) tls_flow \<times> ('h, 'h tls_task) action list" where
  "tf_try_read_next_hop nh s =
     (if nh_reading nh then (s, [])
      else (s\<lparr>tf_next_read_cancelable := nh_read_token nh\<rparr>,
            [Do_Read (Tf_Next_Read (tf_read_cancelable s))]))"

definition tf_try_read :: "next_hop \<Rightarrow> ('h, 's) tls_flow \<Rightarrow>
   ('h, 's) tls_flow \<times> ('h, 'h tls_task) action list" where
  "tf_try_read nh s =
     (case tf_read_handler s of
        Some h \<Rightarrow>
          (if has_plain_text_data_to_read (tf_tunnel s)
           then let (r, t) = read_plain_text_data (tf_tunnel s);
                    s' = s\<lparr>tf_tunnel := t, tf_read_handler := None\<rparr>;
                    (s'', as) = if need_cipher_input t then tf_try_read_next_hop nh s' else (s', [])
                in (s'', Do_Post (Tf_Deliver h (tf_read_cancelable s) r) # as)
           else tf_try_read_next_hop nh s)
      | None \<Rightarrow> (if need_cipher_input (tf_tunnel s) then tf_try_read_next_hop nh s else (s, [])))"

definition tf_try_write_next_hop :: "next_hop \<Rightarrow> ('h, 's) tls_flow \<Rightarrow>
   ('h, 's) tls_flow \<times> ('h, 'h tls_task) action list" where
  "tf_try_write_next_hop nh s =
     (if nh_writing nh \<or> finish_writing_cipher_data (tf_tunnel s) then (s, [])
      else let (b, t) = read_cipher_text_data (tf_tunnel s)
           in (s\<lparr>tf_tunnel := t, tf_next_write_cancelable := nh_write_token nh\<rparr>,
               [Do_Write b (Tf_Next_Written (tf_write_cancelable s))]))"

definition tf_try_write :: "next_hop \<Rightarrow> ('h, 's) tls_flow \<Rightarrow>
   ('h, 's) tls_flow \<times> ('h, 'h tls_task) action list" where
  "tf_try_write nh s =
     (case tf_write_handler s of
        Some h \<Rightarrow>
          (if finish_writing_cipher_data (tf_tunnel s)
           then (s\<lparr>tf_write_handler := None\<rparr>, [Do_Post (Tf_Write_Done h (tf_write_cancelable s))])
           else tf_try_write_next_hop nh s)
      | None \<Rightarrow> (if \<not> finish_writing_cipher_data (tf_tunnel s) then tf_try_write_next_hop nh s
                else (s, [])))"

definition tf_process :: "next_hop \<Rightarrow> ('h, 's) tls_flow \<Rightarrow> ('h, 's) tf_reaction" where
  "tf_process nh s =
     (if tf_error_reported s then Inr (s, [])
      else if error_bool (tf_pending_error s)
      then let (ok, s', as) = tf_report_error (tf_pending_error s) True s
           in Inr (if ok then s'\<lparr>tf_pending_error := error_moved (tf_pending_error s),
                                tf_error_reported := True\<rparr>
                   else s', as)
      else let (s1, as) = tf_try_read nh s; (s2, bs) = tf_try_write nh s1 in Inr (s2, as @ bs))"

definition tf_on_next_read ::
  "'s tls_env \<Rightarrow> cancel_store \<Rightarrow> next_hop \<Rightarrow> cancelable \<Rightarrow> bytes result \<Rightarrow> ('h, 's) tls_flow \<Rightarrow>
   ('h, 's) tf_reaction option" where
  "tf_on_next_read env st nh c r s =
     (case canceled c st of
        Inl x \<Rightarrow> Some (Inl x)
      | Inr True \<Rightarrow> Some (Inr (s, []))
      | Inr False \<Rightarrow>
          (case r of
             Inl e \<Rightarrow> Some (tf_report_or_keep e True s)
           | Inr b \<Rightarrow>
               map_option (\<lambda>m. exec_bind m (\<lambda>t. tf_process nh (s\<lparr>tf_tunnel := t\<rparr>)))
                 (write_cipher_text_data (te_engine env) (te_blocks env) (te_fuel env) b (tf_tunnel s))))"

definition tf_on_next_written ::
  "cancel_store \<Rightarrow> next_hop \<Rightarrow> cancelable \<Rightarrow> unit result \<Rightarrow> ('h, 's) tls_flow \<Rightarrow> ('h, 's) tf_reaction" where
  "tf_on_next_written st nh c r s =
     unless_canceled st c s
       (case r of Inl e \<Rightarrow> tf_report_or_keep e False s | Inr _ \<Rightarrow> tf_process nh s)"

section \<open>The user's calls\<close>

definition tf_read :: "next_hop \<Rightarrow> cancelable \<Rightarrow> 'h \<Rightarrow> ('h, 's) tls_flow \<Rightarrow> ('h, 's) tf_reaction" where
  "tf_read nh new h s =
     boost_assert (\<not> tf_error_reported s)
       (exec_bind (read_begin (tf_machine s)) (\<lambda>m.
        tf_process nh (s\<lparr>tf_read_cancelable := new, tf_read_handler := Some h, tf_machine := m\<rparr>)))"

definition tf_on_deliver ::
  "cancel_store \<Rightarrow> cancelable \<Rightarrow> 'h \<Rightarrow> bytes result \<Rightarrow> ('h, 's) tls_flow \<Rightarrow> ('h, 's) tf_reaction" where
  "tf_on_deliver st c h r s =
     unless_canceled st c s
       (exec_bind (read_end (tf_machine s)) (\<lambda>m.
        Inr (s\<lparr>tf_machine := (case r of Inl e \<Rightarrow> errored m | Inr _ \<Rightarrow> m)\<rparr>, [Give_Data h r])))"

text \<open>The result of \<open>WritePlainTextData\<close> is not looked at.\<close>

definition tf_write ::
  "'s tls_env \<Rightarrow> next_hop \<Rightarrow> cancelable \<Rightarrow> bytes \<Rightarrow> 'h \<Rightarrow> ('h, 's) tls_flow \<Rightarrow>
   ('h, 's) tf_reaction option" where
  "tf_write env nh new b h s =
     (if tf_error_reported s then Some (Inl Assert_Failed)
      else case write_begin (tf_machine s) of
             Inl x \<Rightarrow> Some (Inl x)
           | Inr m \<Rightarrow>
               map_option (\<lambda>x. exec_bind x (\<lambda>(_, t).
                   tf_process nh (s\<lparr>tf_write_cancelable := new, tf_write_handler := Some h,
                                   tf_machine := m, tf_tunnel := t\<rparr>)))
                 (write_plain_text_data (te_engine env) (te_blocks env) (te_fuel env) b (tf_tunnel s)))"

definition tf_on_write_done ::
  "cancel_store \<Rightarrow> cancelable \<Rightarrow> 'h \<Rightarrow> ('h, 's) tls_flow \<Rightarrow> ('h, 's) tf_reaction" where
  "tf_on_write_done st c h s =
     unless_canceled st c s
       (exec_bind (write_end (tf_machine s)) (\<lambda>m. Inr (s\<lparr>tf_machine := m\<rparr>, [Give h (Inr ())])))"

definition tf_close_write :: "'h \<Rightarrow> ('h, 's) tls_flow \<Rightarrow> ('h, 's) tf_reaction" where
  "tf_close_write h s = Inr (s, [])"

section \<open>Connecting\<close>

definition tf_connect ::
  "'s tls_env \<Rightarrow> cancelable \<Rightarrow> endpoint \<Rightarrow> 'h \<Rightarrow> ('h, 's) tls_flow \<Rightarrow> ('h, 's) tf_reaction" where
  "tf_connect env new ep h s =
     (let (_, t) = set_domain (te_engine env) (host ep) (tf_tunnel s)
      in exec_bind (connect_begin (tf_machine s)) (\<lambda>m.
         Inr (s\<lparr>tf_connect_cancelable := new, tf_connect_to := Some ep, tf_tunnel := t,
                tf_connect_handler := Some h, tf_machine := m\<rparr>,
              [Do_Connect ep (Tf_Connected new)])))"

text \<open>\<open>state_machine_.Errored(); connect_handler_(error); return;\<close>\<close>

definition tf_connect_fail :: "error \<Rightarrow> ('h, 's) tls_flow \<Rightarrow> ('h, 's) tf_reaction" where
  "tf_connect_fail e s =
     call_handler (tf_connect_handler s) (\<lambda>h.
       Inr (s\<lparr>tf_machine := errored (tf_machine s)\<rparr>, [Give h (Inl e)]))"

definition tf_hand_shake ::
  "'s tls_env \<Rightarrow> cancelable \<Rightarrow> ('h, 's) tls_flow \<Rightarrow> ('h, 's) tf_reaction" where
  "tf_hand_shake env tok s =
     exec_bind (hand_shake (te_engine env) (te_blocks env) (tf_tunnel s)) (\<lambda>(r, t).
     let (b, t') = read_cipher_text_data t;
         send = Inr (s\<lparr>tf_tunnel := t', tf_write_cancelable := tok\<rparr>,
                     [Do_Write b (Tf_Shake_Written (tf_connect_cancelable s))])
     in case r of
          Inl e \<Rightarrow> tf_connect_fail e (s\<lparr>tf_tunnel := t\<rparr>)
        | Inr Handshake_Success \<Rightarrow>
            (if b \<noteq> [] then send
             else exec_bind (connected (tf_machine s)) (\<lambda>m.
                  call_handler (tf_connect_handler s) (\<lambda>h.
                  Inr (s\<lparr>tf_tunnel := t', tf_machine := m, tf_connect_handler := None\<rparr>,
                       [Give h (Inr ())]))))
        | Inr Want_Io \<Rightarrow>
            (if b \<noteq> [] then send
             else Inr (s\<lparr>tf_tunnel := t', tf_read_cancelable := tok\<rparr>,
                       [Do_Read (Tf_Shake_Read (tf_connect_cancelable s))])))"

text \<open>A failed connection is reported without \<open>Errored()\<close>.\<close>

definition tf_on_connected ::
  "'s tls_env \<Rightarrow> cancel_store \<Rightarrow> cancelable \<Rightarrow> cancelable \<Rightarrow> unit result \<Rightarrow> ('h, 's) tls_flow \<Rightarrow>
   ('h, 's) tf_reaction" where
  "tf_on_connected env st tok c r s =
     unless_canceled st c s
       (case r of
          Inl e \<Rightarrow> call_handler (tf_connect_handler s) (\<lambda>h. Inr (s, [Give h (Inl e)]))
        | Inr _ \<Rightarrow> tf_hand_shake env tok s)"

definition tf_on_shake_written ::
  "'s tls_env \<Rightarrow> cancel_store \<Rightarrow> cancelable \<Rightarrow> cancelable \<Rightarrow> unit result \<Rightarrow> ('h, 's) tls_flow \<Rightarrow>
   ('h, 's) tf_reaction" where
  "tf_on_shake_written env st tok c r s =
     unless_canceled st c s
       (case r of Inl e \<Rightarrow> tf_connect_fail e s | Inr _ \<Rightarrow> tf_hand_shake env tok s)"

definition tf_on_shake_read ::
  "'s tls_env \<Rightarrow> cancel_store \<Rightarrow> cancelable \<Rightarrow> cancelable \<Rightarrow> bytes result \<Rightarrow> ('h, 's) tls_flow \<Rightarrow>
   ('h, 's) tf_reaction option" where
  "tf_on_shake_read env st tok c r s =
     (case canceled c st of
        Inl x \<Rightarrow> Some (Inl x)
      | Inr True \<Rightarrow> Some (Inr (s, []))
      | Inr False \<Rightarrow>
          (case r of
             Inl e \<Rightarrow> Some (tf_connect_fail e s)
           | Inr b \<Rightarrow>
               map_option (\<lambda>m. exec_bind m (\<lambda>t. tf_hand_shake env tok (s\<lparr>tf_tunnel := t\<rparr>)))
                 (write_cipher_text_data (te_engine env) (te_blocks env) (te_fuel env) b (tf_tunnel s))))"

section \<open>Every handler is answered at most once\<close>

text \<open>The answers a reaction gives, or posts, to the reader and to the writer.\<close>

fun settles_read :: "('h, 'h tls_task) action \<Rightarrow> bool" where
  "settles_read (Give_Data h r) = True"
| "settles_read (Do_Post (Tf_Deliver h c r)) = True"
| "settles_read _ = False"

fun settles_write :: "('h, 'h tls_task) action \<Rightarrow> bool" where
  "settles_write (Give h r) = True"
| "settles_write (Do_Post (Tf_Write_Done h c)) = True"
| "settles_write _ = False"

definition count_if :: "('a \<Rightarrow> bool) \<Rightarrow> 'a list \<Rightarrow> nat" where
  "count_if P xs = length (List.filter P xs)"

lemma count_if_simps [simp]:
  "count_if P [] = 0" "count_if P (x # xs) = (if P x then 1 else 0) + count_if P xs"
  "count_if P (xs @ ys) = count_if P xs + count_if P ys"
  by (simp_all add: count_if_def)

definition owed :: "'h option \<Rightarrow> nat" where
  "owed h = (case h of None \<Rightarrow> 0 | Some _ \<Rightarrow> 1)"

lemma owed_simps [simp]: "owed None = 0" "owed (Some h) = 1"
  by (simp_all add: owed_def)

fun reads_hop :: "('h, 'k) action \<Rightarrow> bool" where
  "reads_hop (Do_Read k) = True"
| "reads_hop _ = False"

fun writes_hop :: "('h, 'k) action \<Rightarrow> bool" where
  "writes_hop (Do_Write b k) = True"
| "writes_hop _ = False"

text \<open>
  A reaction that settles what it owes, and makes at most one call of each kind on the next
  hop, and none on a hop that is busy.
\<close>

definition tidy ::
  "next_hop \<Rightarrow> ('h, 's) tls_flow \<Rightarrow> ('h, 's) tls_flow \<times> ('h, 'h tls_task) action list \<Rightarrow> bool" where
  "tidy nh s x \<longleftrightarrow>
     (let (s', as) = x
      in owed (tf_read_handler s') + count_if settles_read as = owed (tf_read_handler s) \<and>
         owed (tf_write_handler s') + count_if settles_write as = owed (tf_write_handler s) \<and>
         count_if reads_hop as \<le> (if nh_reading nh then 0 else 1) \<and>
         count_if writes_hop as \<le> (if nh_writing nh then 0 else 1))"

lemma tf_report_error_tidy:
  "tf_report_error e b s = (ok, s', as) \<Longrightarrow> tidy nh s (s', as)"
  by (auto simp: tf_report_error_def tf_read_report_error_def tf_write_report_error_def tidy_def
      Let_def split: option.splits if_splits)

lemma tf_try_read_next_hop_tidy:
  "tf_try_read_next_hop nh s = (s', as) \<Longrightarrow>
   tidy nh s (s', as) \<and> count_if writes_hop as = 0 \<and> count_if settles_write as = 0 \<and>
   tf_write_handler s' = tf_write_handler s"
  by (auto simp: tf_try_read_next_hop_def tidy_def split: if_splits)

lemma tf_try_read_tidy:
  assumes "tf_try_read nh s = (s', as)"
  shows "tidy nh s (s', as) \<and> count_if writes_hop as = 0 \<and> count_if settles_write as = 0 \<and>
         tf_write_handler s' = tf_write_handler s"
proof (cases "tf_read_handler s")
  case None
  then show ?thesis
    using assms tf_try_read_next_hop_tidy [of nh s s' as]
    by (auto simp: tf_try_read_def tidy_def split: if_splits)
next
  case (Some h)
  show ?thesis
  proof (cases "has_plain_text_data_to_read (tf_tunnel s)")
    case False
    then show ?thesis
      using assms Some tf_try_read_next_hop_tidy [of nh s s' as] by (simp add: tf_try_read_def)
  next
    case True
    obtain r t where r: "read_plain_text_data (tf_tunnel s) = (r, t)" by (metis surj_pair)
    let ?s = "s\<lparr>tf_tunnel := t, tf_read_handler := None\<rparr>"
    obtain bs where bs: "as = Do_Post (Tf_Deliver h (tf_read_cancelable s) r) # bs"
      "(s', bs) = (if need_cipher_input t then tf_try_read_next_hop nh ?s else (?s, []))"
      using assms Some True r by (auto simp: tf_try_read_def Let_def split: prod.splits)
    then show ?thesis
      using tf_try_read_next_hop_tidy [of nh ?s s' bs] Some
      by (auto simp: tidy_def split: if_splits)
  qed
qed

lemma tf_try_write_tidy:
  "tf_try_write nh s = (s', as) \<Longrightarrow>
   tidy nh s (s', as) \<and> count_if reads_hop as = 0 \<and> count_if settles_read as = 0 \<and>
   tf_read_handler s' = tf_read_handler s"
  by (auto simp: tf_try_write_def tf_try_write_next_hop_def read_cipher_text_data_def tidy_def Let_def
      split: option.splits if_splits)

lemma tf_process_cases:
  assumes "tf_process nh s = Inr (s', as)"
  obtains "tf_error_reported s" "s' = s" "as = []"
  | ok s1 where "\<not> tf_error_reported s" "error_bool (tf_pending_error s)"
      "tf_report_error (tf_pending_error s) True s = (ok, s1, as)"
      "s' = (if ok then s1\<lparr>tf_pending_error := error_moved (tf_pending_error s),
                          tf_error_reported := True\<rparr> else s1)"
  | s1 a1 a2 where "\<not> tf_error_reported s" "\<not> error_bool (tf_pending_error s)"
      "tf_try_read nh s = (s1, a1)" "tf_try_write nh s1 = (s', a2)" "as = a1 @ a2"
proof -
  consider "tf_error_reported s" | "\<not> tf_error_reported s" "error_bool (tf_pending_error s)"
    | "\<not> tf_error_reported s" "\<not> error_bool (tf_pending_error s)" by blast
  then show thesis
  proof cases
    case 1
    then have "s' = s" "as = []" using assms by (simp_all add: tf_process_def)
    then show ?thesis by (rule that(1) [OF 1])
  next
    case 2
    obtain ok s1 a1 where r: "tf_report_error (tf_pending_error s) True s = (ok, s1, a1)"
      by (metis surj_pair)
    then have "a1 = as" and s': "s' = (if ok then s1\<lparr>tf_pending_error := error_moved (tf_pending_error s),
        tf_error_reported := True\<rparr> else s1)"
      using assms 2 by (simp_all add: tf_process_def)
    show ?thesis by (rule that(2) [OF 2 r [unfolded \<open>a1 = as\<close>] s'])
  next
    case 3
    obtain s1 a1 where 1: "tf_try_read nh s = (s1, a1)" by (metis surj_pair)
    obtain s2 a2 where 2: "tf_try_write nh s1 = (s2, a2)" by (metis surj_pair)
    have "s2 = s'" "as = a1 @ a2" using assms 3 1 2 by (simp_all add: tf_process_def)
    from that(3) [OF 3 1 2 [unfolded this(1)] this(2)] show ?thesis .
  qed
qed

lemma tidy_refl [simp]: "tidy nh s (s, [])"
  by (simp add: tidy_def)

lemma tidy_members:
  "tidy nh s (s1, as) \<Longrightarrow> tf_read_handler s' = tf_read_handler s1 \<Longrightarrow>
   tf_write_handler s' = tf_write_handler s1 \<Longrightarrow> tidy nh s (s', as)"
  by (simp add: tidy_def)

lemma tf_process_tidy:
  assumes "tf_process nh s = Inr (s', as)"
  shows "tidy nh s (s', as)"
  using assms
proof (cases rule: tf_process_cases)
  case 1
  then show ?thesis by (simp add: tidy_def)
next
  case (2 ok s1)
  then show ?thesis
    using tidy_members [OF tf_report_error_tidy [OF 2(3)], of s' nh] by simp
next
  case (3 s1 a1 a2)
  then show ?thesis
    using tf_try_read_tidy [OF 3(3)] tf_try_write_tidy [OF 3(4)] by (auto simp: tidy_def)
qed

lemma tf_report_or_keep_tidy:
  assumes "tf_report_or_keep e b s = Inr (s', as)"
  shows "tidy nh s (s', as)"
proof -
  obtain ok s1 a1 where r: "tf_report_error e b s = (ok, s1, a1)" by (metis surj_pair)
  then have "a1 = as" "s' = (if ok then s1\<lparr>tf_error_reported := True\<rparr> else s1\<lparr>tf_pending_error := e\<rparr>)"
    using assms by (simp_all add: tf_report_or_keep_def)
  then show ?thesis using tidy_members [OF tf_report_error_tidy [OF r], of s' nh] by simp
qed

lemma tf_on_next_read_tidy:
  assumes "tf_on_next_read env st nh c r s = Some (Inr x)"
  shows "tidy nh s x"
proof -
  obtain s' as where x: "x = (s', as)" by (cases x)
  consider "canceled c st = Inr True" | "canceled c st = Inr False"
    using assms by (cases "canceled c st") (auto simp: tf_on_next_read_def)
  then show ?thesis
  proof cases
    case 1
    then show ?thesis using assms by (auto simp: tf_on_next_read_def)
  next
    case 2
    show ?thesis
    proof (cases r)
      case (Inl e)
      then show ?thesis using assms x 2 tf_report_or_keep_tidy by (simp add: tf_on_next_read_def)
    next
      case (Inr b)
      then obtain t where "tf_process nh (s\<lparr>tf_tunnel := t\<rparr>) = Inr (s', as)"
        using assms x 2 by (auto simp: tf_on_next_read_def exec_bind_Inr)
      from tf_process_tidy [OF this] show ?thesis by (simp add: tidy_def x)
    qed
  qed
qed

lemma tf_on_next_written_tidy:
  assumes "tf_on_next_written st nh c r s = Inr x"
  shows "tidy nh s x"
proof -
  obtain s' as where "x = (s', as)" by (cases x)
  then show ?thesis
    using assms tf_report_or_keep_tidy tf_process_tidy
    by (auto simp: tf_on_next_written_def unless_canceled_def exec_bind_Inr split: sum.splits if_splits)
qed

lemma tf_read_tidy:
  assumes "tf_read nh new h s = Inr x"
  shows "tidy nh (s\<lparr>tf_read_handler := Some h\<rparr>) x"
proof -
  obtain s' as where x: "x = (s', as)" by (cases x)
  obtain m where "tf_process nh (s\<lparr>tf_read_cancelable := new, tf_read_handler := Some h, tf_machine := m\<rparr>) =
      Inr (s', as)"
    using assms x by (auto simp: tf_read_def boost_assert_Inr exec_bind_Inr)
  from tf_process_tidy [OF this] show ?thesis by (simp add: tidy_def x)
qed

lemma tf_write_tidy:
  assumes "tf_write env nh new b h s = Some (Inr x)"
  shows "tidy nh (s\<lparr>tf_write_handler := Some h\<rparr>) x"
proof -
  obtain s' as where x: "x = (s', as)" by (cases x)
  obtain m t where "tf_process nh (s\<lparr>tf_write_cancelable := new, tf_write_handler := Some h,
      tf_machine := m, tf_tunnel := t\<rparr>) = Inr (s', as)"
    using assms x by (auto simp: tf_write_def exec_bind_Inr split: if_splits sum.splits)
  from tf_process_tidy [OF this] show ?thesis by (simp add: tidy_def x)
qed

text \<open>
  C21. Whatever the next hop answers, the flow settles each request of its user at most once:
  a reaction to an answer of the next hop gives or posts one answer for a read handler it lets
  go of and none for one it keeps, and likewise for writes; a new read or write is kept or
  settled at once.  No reaction starts a second read or a second write on a busy next hop.
\<close>

theorem tls_flow_answers_once:
  "(tf_on_next_read env st nh c r s = Some (Inr x1) \<longrightarrow> tidy nh s x1) \<and>
   (tf_on_next_written st nh c r' s = Inr x2 \<longrightarrow> tidy nh s x2) \<and>
   (tf_read nh new h s = Inr x3 \<longrightarrow> tidy nh (s\<lparr>tf_read_handler := Some h\<rparr>) x3) \<and>
   (tf_write env nh new b h s = Some (Inr x4) \<longrightarrow> tidy nh (s\<lparr>tf_write_handler := Some h\<rparr>) x4)"
  using tf_on_next_read_tidy tf_on_next_written_tidy tf_read_tidy tf_write_tidy by metis

text \<open>A flow with two bytes of plain text to read, and its reader.\<close>

definition sample_flow :: "(nat, null_ssl) tls_flow" where
  "sample_flow = (tls_flow_new (session_new 0 None) None None None None None null_ssl_new)
     \<lparr>tf_machine := (fsm_new Remote)\<lparr>state := Established\<rparr>,
      tf_tunnel := (tls_tunnel_new null_ssl_new Tls_Client)\<lparr>pending_read_plain := [1, 2]\<rparr>\<rparr>"

definition idle_hop :: next_hop where
  "idle_hop = \<lparr>nh_reading = False, nh_writing = False, nh_read_token = None, nh_write_token = None\<rparr>"

theorem tls_flow_answers_once_witness:
  "\<exists>s'. tf_read idle_hop (Some 0) 7 sample_flow =
          Inr (s', [Do_Post (Tf_Deliver 7 (Some 0) (Inr [1, 2]))]) \<and>
        tidy idle_hop (sample_flow\<lparr>tf_read_handler := Some 7\<rparr>)
          (s', [Do_Post (Tf_Deliver 7 (Some 0) (Inr [1, 2]))])"
proof -
  obtain s' where r: "tf_read idle_hop (Some 0) 7 sample_flow =
      Inr (s', [Do_Post (Tf_Deliver 7 (Some 0) (Inr [1, 2]))])"
    by (simp add: tf_read_def sample_flow_def tls_flow_new_def fsm_new_def read_begin_def is_readable_def
        tf_process_def tf_try_read_def tf_try_write_def has_plain_text_data_to_read_def
        read_plain_text_data_def tls_tunnel_new_def no_error_def error_of_def error_bool_def
        finish_writing_cipher_data_def)
  then show ?thesis
    using tls_flow_answers_once [of undefined undefined idle_hop undefined undefined sample_flow undefined
        undefined undefined "Some 0" 7 "(s', [Do_Post (Tf_Deliver 7 (Some 0) (Inr [1, 2]))])"]
    by blast
qed

section \<open>Errors\<close>

text \<open>
  An error of OpenSSL is never reported to a reader: once the tunnel has failed with no
  plain text left, each buffer the next hop delivers is dropped, the handler is kept, and the
  flow reads on.
\<close>

theorem tls_error_silent:
  assumes "error_bool (tls_error (tf_tunnel s))" "pending_read_plain (tf_tunnel s) = []"
    and "tf_read_handler s = Some h" "finish_writing_cipher_data (tf_tunnel s)" "tf_write_handler s = None"
    and "\<not> tf_error_reported s" "\<not> error_bool (tf_pending_error s)" "canceled c st = Inr False"
    and "\<not> nh_reading nh"
  shows "tf_on_next_read env st nh c (Inr b) s =
     Some (Inr (s\<lparr>tf_next_read_cancelable := nh_read_token nh\<rparr>,
                [Do_Read (Tf_Next_Read (tf_read_cancelable s))]))"
  using assms
  by (simp add: tf_on_next_read_def write_cipher_text_data_def write_cipher_loop.simps tf_process_def
      tf_try_read_def has_plain_text_data_to_read_def tf_try_read_next_hop_def tf_try_write_def)

theorem tls_error_silent_witness:
  "let s = sample_flow\<lparr>tf_read_handler := Some 7, tf_read_cancelable := Some 0,
       tf_tunnel := (tls_tunnel_new null_ssl_new Tls_Client)\<lparr>tls_error := from_ssl_error 1\<rparr>\<rparr>
   in tf_on_next_read \<lparr>te_engine = null_engine, te_blocks = (\<lambda>b k. length b), te_fuel = 0\<rparr> [False] idle_hop
        (Some 0) (Inr [5, 6]) s =
      Some (Inr (s\<lparr>tf_next_read_cancelable := None\<rparr>, [Do_Read (Tf_Next_Read (Some 0))]))"
proof -
  let ?s = "sample_flow\<lparr>tf_read_handler := Some 7, tf_read_cancelable := Some 0,
       tf_tunnel := (tls_tunnel_new null_ssl_new Tls_Client)\<lparr>tls_error := from_ssl_error 1\<rparr>\<rparr>"
  show ?thesis
    using tls_error_silent [of ?s 7 "Some 0" "[False]" idle_hop
        "\<lparr>te_engine = null_engine, te_blocks = (\<lambda>b k. length b), te_fuel = 0\<rparr>" "[5, 6]"]
    by (simp add: Let_def sample_flow_def tls_flow_new_def tls_tunnel_new_def from_ssl_error_def
        error_of_def error_bool_def no_error_def finish_writing_cipher_data_def canceled_def idle_hop_def)
qed

text \<open>When a reader and a writer both wait, an error of the next hop is told to one of them.\<close>

theorem tls_error_reaches_one:
  assumes "tf_read_handler s = Some h" "tf_write_handler s = Some h'" "canceled c st = Inr False"
  shows "\<exists>s'. tf_on_next_read env st nh c (Inl e) s = Some (Inr (s', [Give_Data h (Inl e)])) \<and>
     tf_write_handler s' = Some h' \<and> (\<forall>nh'. tf_process nh' s' = Inr (s', [])) \<and>
     tf_machine s' = tf_machine s"
  using assms
  by (simp add: tf_on_next_read_def tf_report_or_keep_def tf_report_error_def tf_read_report_error_def
      tf_process_def Let_def)

end
