(* ===== verification/Speed_Flow.thy ===== *)
theory Speed_Flow
  imports Flow_Interface
begin

text \<open>
  \<open>data_flow::SpeedDataFlow\<close> (src/data_flow/speed_data_flow.cc): a race.  Each candidate flow
  starts to connect after a delay of its own, and the first that succeeds becomes the flow.
  Candidates are named by numbers of a type \<open>nat\<close>.
\<close>

section \<open>The flow\<close>

record speed_flow =
  data_flows :: "(nat \<times> int) list"
  chosen_flow :: "nat option"
  sp_machine :: fsm
  sp_target :: "endpoint option"
  connect_timers :: nat
  sp_connect_cancelable :: cancelable
  current_active_connection :: nat

datatype 'h speed_task =
    Sp_Timer nat cancelable 'h | Sp_Connected nat cancelable 'h
  | Sp_Read 'h | Sp_Written 'h | Sp_Write_Closed 'h

type_synonym 'h sp_reaction = "(speed_flow, 'h, 'h speed_task) reaction"

definition speed_flow_new :: "(nat \<times> int) list \<Rightarrow> cancelable \<Rightarrow> speed_flow" where
  "speed_flow_new fs c =
     \<lparr>data_flows = fs, chosen_flow = None, sp_machine = fsm_new Remote, sp_target = None,
      connect_timers = 0, sp_connect_cancelable = c, current_active_connection = 0\<rparr>"

definition speed_flow_destroy :: "speed_flow \<Rightarrow> ('h, 'h speed_task) action list" where
  "speed_flow_destroy s = [Cancel_Token (sp_connect_cancelable s)]"

text \<open>\<open>data_flow_->...\<close>, a null pointer until a candidate has won.\<close>

definition on_chosen_flow :: "('h, 'h speed_task) action \<Rightarrow> speed_flow \<Rightarrow> 'h sp_reaction" where
  "on_chosen_flow a s = (case chosen_flow s of None \<Rightarrow> Inl Null_Deref | Some f \<Rightarrow> Inr (s, [a]))"

definition sp_read :: "'h \<Rightarrow> speed_flow \<Rightarrow> 'h sp_reaction" where
  "sp_read h s = on_chosen_flow (Do_Read (Sp_Read h)) s"

definition sp_write :: "bytes \<Rightarrow> 'h \<Rightarrow> speed_flow \<Rightarrow> 'h sp_reaction" where
  "sp_write xs h s = on_chosen_flow (Do_Write xs (Sp_Written h)) s"

definition sp_close_write :: "'h \<Rightarrow> speed_flow \<Rightarrow> 'h sp_reaction" where
  "sp_close_write h s = on_chosen_flow (Do_Close_Write (Sp_Write_Closed h)) s"

text \<open>The state machine shown; \<open>m\<close> are those of the flows.\<close>

definition sp_state_machine :: "(nat \<Rightarrow> fsm) \<Rightarrow> speed_flow \<Rightarrow> fsm exec" where
  "sp_state_machine m s =
     (if state (sp_machine s) = Establishing \<or> state (sp_machine s) = Init \<or>
         state (sp_machine s) = Closed
      then Inr (sp_machine s)
      else case chosen_flow s of None \<Rightarrow> Inl Null_Deref | Some f \<Rightarrow> Inr (m f))"

text \<open>A timer for each candidate, started with its delay.\<close>

definition sp_connect :: "cancelable \<Rightarrow> endpoint \<Rightarrow> 'h \<Rightarrow> speed_flow \<Rightarrow> 'h sp_reaction" where
  "sp_connect new ep h s =
     exec_bind (connect_begin (sp_machine s)) (\<lambda>m.
     let n = length (data_flows s)
     in Inr (s\<lparr>sp_machine := m, sp_connect_cancelable := new, sp_target := Some ep,
               current_active_connection := n, connect_timers := connect_timers s + n\<rparr>,
             map (\<lambda>i. Do_Wait (snd (data_flows s ! i)) (Sp_Timer i new h)) [0..<n]))"

text \<open>\<open>dup\<close> copies an endpoint; a timer that \<open>connect_timers_.clear()\<close> destroyed does not fire.\<close>

definition sp_on_timer ::
  "(endpoint \<Rightarrow> endpoint) \<Rightarrow> cancel_store \<Rightarrow> nat \<Rightarrow> cancelable \<Rightarrow> 'h \<Rightarrow> speed_flow \<Rightarrow> 'h sp_reaction" where
  "sp_on_timer dup st i c h s =
     unless_canceled st c s
       (if i < length (data_flows s)
        then case sp_target s of
               None \<Rightarrow> Inl Null_Deref
             | Some ep \<Rightarrow> Inr (s, [Do_Connect (dup ep) (Sp_Connected i c h)])
        else Inl Out_Of_Bounds)"

text \<open>The flag is only read where the code means to set it.\<close>

definition sp_on_connected ::
  "cancel_store \<Rightarrow> nat \<Rightarrow> cancelable \<Rightarrow> 'h \<Rightarrow> unit result \<Rightarrow> speed_flow \<Rightarrow> 'h sp_reaction" where
  "sp_on_connected st i c h r s =
     unless_canceled st c s
       (let s = s\<lparr>current_active_connection := sz_sub (current_active_connection s) 1\<rparr>
        in case r of
             Inl e \<Rightarrow> Inr (s, if current_active_connection s = 0 then [Give h r] else [])
           | Inr _ \<Rightarrow>
               exec_bind (canceled c st) (\<lambda>_.
               if i < length (data_flows s)
               then exec_bind (connected (sp_machine s)) (\<lambda>m.
                    Inr (s\<lparr>chosen_flow := Some (fst (data_flows s ! i)), connect_timers := 0,
                           data_flows := [], sp_machine := m\<rparr>, [Give h r]))
               else Inl Out_Of_Bounds))"

section \<open>The race\<close>

text \<open>The answers of the candidates, until one wins and the others are destroyed.\<close>

fun race ::
  "cancel_store \<Rightarrow> cancelable \<Rightarrow> 'h \<Rightarrow> (nat \<times> unit result) list \<Rightarrow> speed_flow \<Rightarrow> 'h sp_reaction" where
  "race st c h [] s = Inr (s, [])"
| "race st c h ((i, r) # rs) s =
     exec_bind (sp_on_connected st i c h r s) (\<lambda>(s', as).
     if chosen_flow s' \<noteq> None then Inr (s', as)
     else exec_bind (race st c h rs s') (\<lambda>(s'', bs). Inr (s'', as @ bs)))"

fun is_success :: "nat \<times> unit result \<Rightarrow> bool" where
  "is_success (i, Inl e) = False"
| "is_success (i, Inr x) = True"

text \<open>Failures that do not exhaust the candidates are not reported.\<close>

lemma race_failures:
  assumes "canceled c st = Inr False" "chosen_flow s = None"
  shows "\<not> list_ex is_success rs \<Longrightarrow> length rs < current_active_connection s \<Longrightarrow>
    race st c h (rs @ qs) s =
      race st c h qs (s\<lparr>current_active_connection := current_active_connection s - length rs\<rparr>)"
  using assms(2)
proof (induction rs arbitrary: s)
  case Nil
  then show ?case by simp
next
  case (Cons x rs)
  obtain i r where x: "x = (i, r)" by (cases x)
  then obtain e where r: "r = Inl e" using Cons.prems(1) by (cases r) auto
  let ?s = "s\<lparr>current_active_connection := current_active_connection s - 1\<rparr>"
  have "sp_on_connected st i c h r s = Inr (?s, [])"
    using assms(1) Cons.prems(2) r by (simp add: sp_on_connected_def unless_canceled_def Let_def)
  then have "race st c h ((x # rs) @ qs) s = race st c h (rs @ qs) ?s"
    using Cons.prems(3) x by (cases "race st c h (rs @ qs) ?s") (auto split: prod.splits)
  also have "\<dots> = race st c h qs (?s\<lparr>current_active_connection := current_active_connection ?s - length rs\<rparr>)"
    by (rule Cons.IH) (use Cons.prems x r in auto)
  finally show ?case by simp
qed

lemma race_first_success:
  assumes "canceled c st = Inr False" "chosen_flow s = None" "state (sp_machine s) = Establishing"
    and "current_active_connection s = length (data_flows s)" "length rs \<le> length (data_flows s)"
    and "rs = ps @ (i, Inr u) # qs" "\<not> list_ex is_success ps" "i < length (data_flows s)"
  shows "\<exists>s'. race st c h rs s = Inr (s', [Give h (Inr u)]) \<and> chosen_flow s' = Some (fst (data_flows s ! i)) \<and>
     state (sp_machine s') = Established \<and> data_flows s' = []"
proof -
  have "length ps < length (data_flows s)" using assms(5,6) by simp
  then have "race st c h rs s = race st c h ((i, Inr u) # qs)
      (s\<lparr>current_active_connection := current_active_connection s - length ps\<rparr>)"
    using race_failures [OF assms(1,2,7), of h "(i, Inr u) # qs"] assms(4,6) by simp
  then show ?thesis
    using assms(1,3,8) by (simp add: sp_on_connected_def unless_canceled_def Let_def connected_def)
qed

lemma race_all_fail:
  assumes "canceled c st = Inr False" "chosen_flow s = None"
    and "current_active_connection s = length (data_flows s)" "length rs \<le> length (data_flows s)"
    and fails: "\<not> list_ex is_success rs"
  shows "\<exists>s' as. race st c h rs s = Inr (s', as) \<and> chosen_flow s' = None \<and> sp_machine s' = sp_machine s \<and>
     as = (if rs \<noteq> [] \<and> length rs = length (data_flows s) then [Give h (snd (last rs))] else [])"
proof (cases "rs = [] \<or> length rs < length (data_flows s)")
  case True
  then show ?thesis
    using race_failures [OF assms(1,2) fails, of h "[]"] assms(2,3) by (cases "rs = []") auto
next
  case False
  then have ne: "rs \<noteq> []" and full: "length rs = length (data_flows s)" using assms(4) by auto
  obtain i r where x: "last rs = (i, r)" by (cases "last rs")
  have rs: "rs = butlast rs @ [(i, r)]" using ne x by (metis append_butlast_last_id)
  have "(i, r) \<in> set rs" using ne x by (metis last_in_set)
  then obtain e where r: "r = Inl e" using fails by (cases r) (auto simp: list_ex_iff)
  have "\<not> list_ex is_success (butlast rs)" using fails by (auto simp: list_ex_iff dest: in_set_butlastD)
  moreover have n: "length (butlast rs) < current_active_connection s"
    "current_active_connection s - length (butlast rs) = 1"
    using ne full assms(3) by (cases rs; auto)+
  ultimately have "race st c h rs s =
      race st c h [(i, r)] (s\<lparr>current_active_connection := current_active_connection s - length (butlast rs)\<rparr>)"
    using race_failures [OF assms(1,2), of "butlast rs" h "[(i, r)]"] rs by simp
  then show ?thesis
    using n(2) assms(1,2) ne full x r by (simp add: sp_on_connected_def unless_canceled_def Let_def)
qed



text \<open>A second candidate that succeeds would index the emptied list.\<close>

theorem speed_second_success_faults:
  assumes "canceled c st = Inr False" "sp_on_connected st i c h (Inr ()) s = Inr (s', as)"
  shows "sp_on_connected st j c h (Inr ()) s' = Inl Out_Of_Bounds"
  using assms
  by (auto simp: sp_on_connected_def unless_canceled_def Let_def exec_bind_Inr split: if_splits)

end
