(* ===== verification/Tunnel.thy ===== *)
theory Tunnel
  imports Flow_Interface
begin

text \<open>
  \<open>transport::Tunnel\<close> and \<open>TunnelManager\<close> (src/transport/tunnel.cc): a tunnel opens its local
  flow, finds a rule, connects the remote flow the rule makes, and then forwards both ways
  until both flows are closed or something fails.

  The two flows are what the tunnel sees of them: their state machines, and the answers to
  the calls it makes.  A call moves the flow's machine as \<open>TcpSocket\<close> does, and its answer is
  an event.  \<open>ReleaseTunnel\<close> makes the manager delete the tunnel: its tokens are canceled,
  so no further closure runs, and any use of a member after it is a use of freed memory.
\<close>

section \<open>State\<close>

text \<open>The closures the tunnel has given away, named by what they wait for.\<close>

datatype tunnel_task =
    Local_Opened | Rule_Matched | Remote_Connected | Local_Continued
  | Local_Data | Remote_Written | Remote_Write_Closed
  | Remote_Data | Local_Written | Local_Write_Closed

record tunnel =
  local_machine :: fsm
  remote_machine :: "fsm option"
  waiting :: "tunnel_task list"
  timer_runs :: nat
  released :: bool
  from_local :: bytes
  to_remote :: bytes
  from_remote :: bytes
  to_local :: bytes

definition timeout_interval :: int where "timeout_interval = 300 * 1000"

definition tunnel_new :: "fsm \<Rightarrow> tunnel" where
  "tunnel_new lm =
     \<lparr>local_machine = lm, remote_machine = None, waiting = [], timer_runs = 0, released = False,
      from_local = [], to_remote = [], from_remote = [], to_local = []\<rparr>"

text \<open>Any use of a member: of a tunnel that was deleted, it is a use of freed memory.\<close>

definition alive :: "tunnel \<Rightarrow> 'a exec \<Rightarrow> 'a exec" where
  "alive t k = (if released t then Inl Dangling else k)"

definition with_remote :: "tunnel \<Rightarrow> (fsm \<Rightarrow> 'a exec) \<Rightarrow> 'a exec" where
  "with_remote t k = (case remote_machine t of None \<Rightarrow> Inl Null_Deref | Some m \<Rightarrow> k m)"

definition await :: "tunnel_task \<Rightarrow> tunnel \<Rightarrow> tunnel" where
  "await k t = t\<lparr>waiting := k # waiting t\<rparr>"

text \<open>\<open>ResetTimer\<close> and \<open>ReleaseTunnel\<close>; the destructor cancels all tokens.\<close>

definition reset_timer :: "tunnel \<Rightarrow> tunnel exec" where
  "reset_timer t = alive t (Inr (t\<lparr>timer_runs := timer_runs t + 1\<rparr>))"

definition release_tunnel :: "tunnel \<Rightarrow> tunnel exec" where
  "release_tunnel t = alive t (Inr (t\<lparr>released := True, waiting := []\<rparr>))"

definition check_tunnel_status :: "tunnel \<Rightarrow> tunnel exec" where
  "check_tunnel_status t =
     alive t
       (if state (local_machine t) = Closed \<and>
           (case remote_machine t of None \<Rightarrow> True | Some m \<Rightarrow> state m = Closed)
        then release_tunnel t else Inr t)"

section \<open>The calls on the flows\<close>

definition local_read :: "tunnel \<Rightarrow> tunnel exec" where
  "local_read t = exec_bind (read_begin (local_machine t)) (\<lambda>m.
     Inr (await Local_Data (t\<lparr>local_machine := m\<rparr>)))"

definition local_write :: "bytes \<Rightarrow> tunnel \<Rightarrow> tunnel exec" where
  "local_write xs t = exec_bind (write_begin (local_machine t)) (\<lambda>m.
     Inr (await Local_Written (t\<lparr>local_machine := m, to_local := to_local t @ xs\<rparr>)))"

definition local_close_write :: "tunnel \<Rightarrow> tunnel exec" where
  "local_close_write t = exec_bind (write_close_begin (local_machine t)) (\<lambda>m.
     Inr (await Local_Write_Closed (t\<lparr>local_machine := m\<rparr>)))"

definition remote_read :: "tunnel \<Rightarrow> tunnel exec" where
  "remote_read t = with_remote t (\<lambda>rm. exec_bind (read_begin rm) (\<lambda>m.
     Inr (await Remote_Data (t\<lparr>remote_machine := Some m\<rparr>))))"

definition remote_write :: "bytes \<Rightarrow> tunnel \<Rightarrow> tunnel exec" where
  "remote_write xs t = with_remote t (\<lambda>rm. exec_bind (write_begin rm) (\<lambda>m.
     Inr (await Remote_Written (t\<lparr>remote_machine := Some m, to_remote := to_remote t @ xs\<rparr>))))"

definition remote_close_write :: "tunnel \<Rightarrow> tunnel exec" where
  "remote_close_write t = with_remote t (\<lambda>rm. exec_bind (write_close_begin rm) (\<lambda>m.
     Inr (await Remote_Write_Closed (t\<lparr>remote_machine := Some m\<rparr>))))"

section \<open>Forwarding\<close>

definition forward_local :: "tunnel \<Rightarrow> tunnel exec" where
  "forward_local t =
     exec_bind (check_tunnel_status t) (\<lambda>t.
     alive t (boost_assert (is_readable (local_machine t))
       (with_remote t (\<lambda>rm. boost_assert (is_writable rm) (local_read t)))))"

definition forward_remote :: "tunnel \<Rightarrow> tunnel exec" where
  "forward_remote t =
     exec_bind (check_tunnel_status t) (\<lambda>t.
     alive t (boost_assert (is_writable (local_machine t))
       (with_remote t (\<lambda>rm. boost_assert (is_readable rm) (remote_read t)))))"

definition begin_forward :: "tunnel \<Rightarrow> tunnel exec" where
  "begin_forward t = exec_bind (forward_local t) forward_remote"

text \<open>The closures of the two directions.\<close>

definition on_local_data :: "bytes result \<Rightarrow> tunnel \<Rightarrow> tunnel exec" where
  "on_local_data r t =
     exec_bind (reset_timer t) (\<lambda>t.
     case r of
       Inl e \<Rightarrow>
         (if is_eof e
          then with_remote t (\<lambda>rm.
                 if is_write_closable rm then remote_close_write t else check_tunnel_status t)
          else release_tunnel t)
     | Inr xs \<Rightarrow> remote_write xs (t\<lparr>from_local := from_local t @ xs\<rparr>))"

definition on_remote_written :: "unit result \<Rightarrow> tunnel \<Rightarrow> tunnel exec" where
  "on_remote_written r t =
     exec_bind (reset_timer t) (\<lambda>t.
     case r of Inl e \<Rightarrow> release_tunnel t | Inr _ \<Rightarrow> forward_local t)"

definition on_remote_write_closed :: "tunnel \<Rightarrow> tunnel exec" where
  "on_remote_write_closed t = exec_bind (reset_timer t) check_tunnel_status"

definition on_remote_data :: "bytes result \<Rightarrow> tunnel \<Rightarrow> tunnel exec" where
  "on_remote_data r t =
     exec_bind (reset_timer t) (\<lambda>t.
     case r of
       Inl e \<Rightarrow>
         (if is_eof e
          then (if is_write_closable (local_machine t) then local_close_write t
                else check_tunnel_status t)
          else release_tunnel t)
     | Inr xs \<Rightarrow> local_write xs (t\<lparr>from_remote := from_remote t @ xs\<rparr>))"

definition on_local_written :: "unit result \<Rightarrow> tunnel \<Rightarrow> tunnel exec" where
  "on_local_written r t =
     exec_bind (reset_timer t) (\<lambda>t.
     case r of Inl e \<Rightarrow> release_tunnel t | Inr _ \<Rightarrow> forward_remote t)"

definition on_local_write_closed :: "tunnel \<Rightarrow> tunnel exec" where
  "on_local_write_closed t = exec_bind (reset_timer t) check_tunnel_status"

section \<open>Opening\<close>

definition tunnel_open :: "tunnel \<Rightarrow> tunnel exec" where
  "tunnel_open t = exec_bind (reset_timer t) (\<lambda>t. Inr (await Local_Opened t))"

definition match_rule :: "tunnel \<Rightarrow> tunnel exec" where
  "match_rule t = Inr (await Rule_Matched t)"

definition on_local_opened :: "unit result \<Rightarrow> tunnel \<Rightarrow> tunnel exec" where
  "on_local_opened r t =
     (case r of Inl e \<Rightarrow> release_tunnel t | Inr _ \<Rightarrow> exec_bind (reset_timer t) match_rule)"

text \<open>A matching rule makes the remote flow, whose machine is \<open>rm\<close>.\<close>

definition on_rule_matched :: "fsm result \<Rightarrow> tunnel \<Rightarrow> tunnel exec" where
  "on_rule_matched r t =
     (case r of
        Inl e \<Rightarrow> release_tunnel t
      | Inr rm \<Rightarrow> exec_bind (reset_timer (t\<lparr>remote_machine := Some rm\<rparr>)) (\<lambda>t.
                  Inr (await Remote_Connected t)))"

definition on_remote_connected :: "unit result \<Rightarrow> tunnel \<Rightarrow> tunnel exec" where
  "on_remote_connected r t =
     (case r of
        Inl e \<Rightarrow> release_tunnel t
      | Inr _ \<Rightarrow> exec_bind (reset_timer t) (\<lambda>t. Inr (await Local_Continued t)))"

definition on_local_continued :: "unit result \<Rightarrow> tunnel \<Rightarrow> tunnel exec" where
  "on_local_continued r t =
     (case r of
        Inl e \<Rightarrow> release_tunnel t
      | Inr _ \<Rightarrow> exec_bind (reset_timer t) begin_forward)"

section \<open>The manager\<close>

text \<open>Tunnels by their addresses.\<close>

type_synonym tunnel_manager = "nat \<rightharpoonup> tunnel"

definition manager_build :: "nat \<Rightarrow> fsm \<Rightarrow> tunnel_manager \<Rightarrow> tunnel_manager" where
  "manager_build a lm tm = tm(a \<mapsto> tunnel_new lm)"

definition manager_close_all :: "tunnel_manager \<Rightarrow> tunnel_manager" where
  "manager_close_all tm = Map.empty"

definition manager_notify_closed :: "nat \<Rightarrow> tunnel_manager \<Rightarrow> tunnel_manager" where
  "manager_notify_closed a tm = tm(a := None)"

section \<open>The flows' answers while forwarding\<close>

datatype relay_event =
    Local_Read_Answer "bytes result" | Remote_Write_Answer "unit result" | Remote_Close_Answer
  | Remote_Read_Answer "bytes result" | Local_Write_Answer "unit result" | Local_Close_Answer
  | Timeout

text \<open>What a flow does to its machine before it calls the tunnel's closure, as \<open>TcpSocket\<close> does.\<close>

definition read_answered :: "bytes result \<Rightarrow> fsm \<Rightarrow> fsm exec" where
  "read_answered r m =
     exec_bind (read_end m) (\<lambda>m.
     case r of Inr xs \<Rightarrow> Inr m | Inl e \<Rightarrow> if is_eof e then read_close m else Inr (errored m))"

definition write_answered :: "unit result \<Rightarrow> fsm \<Rightarrow> fsm exec" where
  "write_answered r m =
     exec_bind (write_end m) (\<lambda>m. case r of Inr _ \<Rightarrow> Inr m | Inl e \<Rightarrow> Inr (errored m))"

definition answer ::
  "tunnel_task \<Rightarrow> (tunnel \<Rightarrow> tunnel exec) \<Rightarrow> (tunnel \<Rightarrow> tunnel exec) \<Rightarrow> tunnel \<Rightarrow> tunnel exec" where
  "answer k flow closure t =
     (if k \<in> set (waiting t)
      then exec_bind (flow (t\<lparr>waiting := remove1 k (waiting t)\<rparr>)) closure
      else Inr t)"

definition on_local_machine :: "(fsm \<Rightarrow> fsm exec) \<Rightarrow> tunnel \<Rightarrow> tunnel exec" where
  "on_local_machine f t = exec_bind (f (local_machine t)) (\<lambda>m. Inr (t\<lparr>local_machine := m\<rparr>))"

definition on_remote_machine :: "(fsm \<Rightarrow> fsm exec) \<Rightarrow> tunnel \<Rightarrow> tunnel exec" where
  "on_remote_machine f t =
     with_remote t (\<lambda>rm. exec_bind (f rm) (\<lambda>m. Inr (t\<lparr>remote_machine := Some m\<rparr>)))"

text \<open>An event nobody waits for changes nothing; the timer fires only while the tunnel lives.\<close>

fun relay_step :: "tunnel \<Rightarrow> relay_event \<Rightarrow> tunnel exec" where
  "relay_step t (Local_Read_Answer r) =
     answer Local_Data (on_local_machine (read_answered r)) (on_local_data r) t"
| "relay_step t (Remote_Write_Answer r) =
     answer Remote_Written (on_remote_machine (write_answered r)) (on_remote_written r) t"
| "relay_step t Remote_Close_Answer =
     answer Remote_Write_Closed (on_remote_machine write_close_end) on_remote_write_closed t"
| "relay_step t (Remote_Read_Answer r) =
     answer Remote_Data (on_remote_machine (read_answered r)) (on_remote_data r) t"
| "relay_step t (Local_Write_Answer r) =
     answer Local_Written (on_local_machine (write_answered r)) (on_local_written r) t"
| "relay_step t Local_Close_Answer =
     answer Local_Write_Closed (on_local_machine write_close_end) on_local_write_closed t"
| "relay_step t Timeout = (if released t then Inr t else release_tunnel t)"

section \<open>The invariant of forwarding\<close>

text \<open>
  A flow that is established: its two halves are independent, and its state says which of
  them are closed.
\<close>

definition open_machine :: "fsm \<Rightarrow> bool" where
  "open_machine m \<longleftrightarrow> fsm_ok m \<and> (state m = Established \<or> state m = Closing \<or> state m = Closed)"

text \<open>One direction, from the flow read to the flow written: reading, writing, closing or done.\<close>

definition direction_ok :: "fsm \<Rightarrow> fsm \<Rightarrow> bool" where
  "direction_ok src dst \<longleftrightarrow>
     (reading src \<and> \<not> read_closed src \<and> \<not> writing dst \<and> \<not> write_closing dst \<and> \<not> write_closed dst) \<or>
     (\<not> reading src \<and> \<not> read_closed src \<and> writing dst \<and> \<not> write_closing dst \<and> \<not> write_closed dst) \<or>
     (\<not> reading src \<and> read_closed src \<and> \<not> writing dst \<and> write_closing dst \<and> \<not> write_closed dst) \<or>
     (\<not> reading src \<and> read_closed src \<and> \<not> writing dst \<and> \<not> write_closing dst \<and> write_closed dst)"

text \<open>The closures that are waiting are those the machines say.\<close>

definition waiting_ok :: "tunnel_task list \<Rightarrow> fsm \<Rightarrow> fsm \<Rightarrow> bool" where
  "waiting_ok ws lm rm \<longleftrightarrow> distinct ws \<and>
     (Local_Data \<in> set ws \<longleftrightarrow> reading lm) \<and> (Remote_Data \<in> set ws \<longleftrightarrow> reading rm) \<and>
     (Local_Written \<in> set ws \<longleftrightarrow> writing lm) \<and> (Remote_Written \<in> set ws \<longleftrightarrow> writing rm) \<and>
     (Local_Write_Closed \<in> set ws \<longleftrightarrow> write_closing lm) \<and>
     (Remote_Write_Closed \<in> set ws \<longleftrightarrow> write_closing rm) \<and>
     Local_Opened \<notin> set ws \<and> Rule_Matched \<notin> set ws \<and> Remote_Connected \<notin> set ws \<and>
     Local_Continued \<notin> set ws"

definition relay_ok :: "tunnel \<Rightarrow> bool" where
  "relay_ok t \<longleftrightarrow> to_remote t = from_local t \<and> to_local t = from_remote t \<and>
     (\<exists>rm. remote_machine t = Some rm \<and>
        (if released t then waiting t = []
         else open_machine (local_machine t) \<and> open_machine rm \<and>
              direction_ok (local_machine t) rm \<and> direction_ok rm (local_machine t) \<and>
              waiting_ok (waiting t) (local_machine t) rm \<and>
              \<not> (state (local_machine t) = Closed \<and> state rm = Closed)))"

lemma open_readable: "open_machine m \<Longrightarrow> is_readable m \<longleftrightarrow> \<not> reading m \<and> \<not> read_closed m"
  by (auto simp: open_machine_def is_readable_def fsm_ok_def)

lemma open_writable:
  "open_machine m \<Longrightarrow> is_writable m \<longleftrightarrow> \<not> writing m \<and> \<not> write_closing m \<and> \<not> write_closed m"
  by (auto simp: open_machine_def is_writable_def fsm_ok_def)

lemma open_closed: "open_machine m \<Longrightarrow> state m = Closed \<longleftrightarrow> read_closed m \<and> write_closed m"
  by (auto simp: open_machine_def fsm_ok_def)

text \<open>The half of a machine an operation leaves alone, and what it does to the other half.\<close>

definition same_write :: "fsm \<Rightarrow> fsm \<Rightarrow> bool" where
  "same_write m m' \<longleftrightarrow> writing m' = writing m \<and> write_closing m' = write_closing m \<and>
     write_closed m' = write_closed m"

definition same_read :: "fsm \<Rightarrow> fsm \<Rightarrow> bool" where
  "same_read m m' \<longleftrightarrow> reading m' = reading m \<and> read_closed m' = read_closed m"

lemma open_read_begin:
  assumes "open_machine m" "\<not> reading m" "\<not> read_closed m"
  shows "\<exists>m'. read_begin m = Inr m' \<and> open_machine m' \<and> same_write m m' \<and> reading m' \<and> \<not> read_closed m'"
proof (intro exI conjI)
  show "read_begin m = Inr (m\<lparr>reading := True\<rparr>)"
    using assms by (simp add: read_begin_def open_readable)
qed (use assms in \<open>auto simp: open_machine_def fsm_ok_def same_write_def\<close>)

lemma open_read_answered:
  assumes "open_machine m" "reading m"
  shows "\<exists>m'. read_answered r m = Inr m' \<and>
     (case r of
        Inr xs \<Rightarrow> open_machine m' \<and> same_write m m' \<and> \<not> reading m' \<and> \<not> read_closed m'
      | Inl e \<Rightarrow> is_eof e \<longrightarrow> open_machine m' \<and> same_write m m' \<and> \<not> reading m' \<and> read_closed m')"
proof -
  have "\<not> read_closed m" "state m = Established \<or> state m = Closing"
    using assms by (auto simp: open_machine_def fsm_ok_def)
  then show ?thesis
    using assms
    by (auto simp: read_answered_def read_end_def read_close_def open_machine_def fsm_ok_def
        same_write_def Let_def split: sum.splits)
qed

lemma open_write_begin:
  assumes "open_machine m" "\<not> writing m" "\<not> write_closing m" "\<not> write_closed m"
  shows "\<exists>m'. write_begin m = Inr m' \<and> open_machine m' \<and> same_read m m' \<and> writing m' \<and>
        \<not> write_closing m' \<and> \<not> write_closed m'"
proof (intro exI conjI)
  show "write_begin m = Inr (m\<lparr>writing := True\<rparr>)"
    using assms by (simp add: write_begin_def open_writable)
qed (use assms in \<open>auto simp: open_machine_def fsm_ok_def same_read_def\<close>)

lemma open_write_answered:
  assumes "open_machine m" "writing m"
  shows "\<exists>m'. write_answered r m = Inr m' \<and>
     (r = Inr () \<longrightarrow> open_machine m' \<and> same_read m m' \<and> \<not> writing m' \<and> \<not> write_closing m' \<and>
        \<not> write_closed m')"
  using assms
  by (cases r) (auto simp: write_answered_def write_end_def open_machine_def fsm_ok_def same_read_def)

lemma open_write_close_begin:
  "open_machine m \<Longrightarrow> \<not> writing m \<Longrightarrow> \<not> write_closing m \<Longrightarrow> \<not> write_closed m \<Longrightarrow>
   \<exists>m'. write_close_begin m = Inr m' \<and> open_machine m' \<and> same_read m m' \<and> \<not> writing m' \<and>
        write_closing m' \<and> \<not> write_closed m'"
  by (auto simp: write_close_begin_def open_machine_def fsm_ok_def same_read_def)

lemma open_write_close_end:
  "open_machine m \<Longrightarrow> write_closing m \<Longrightarrow>
   \<exists>m'. write_close_end m = Inr m' \<and> open_machine m' \<and> same_read m m' \<and> \<not> writing m' \<and>
        \<not> write_closing m' \<and> write_closed m'"
  by (auto simp: write_close_end_def open_machine_def fsm_ok_def same_read_def Let_def)

lemmas halves = same_write_def same_read_def

text \<open>The state in which both directions are as they should be, but for the closures waiting.\<close>

lemma relay_okI:
  assumes "to_remote t = from_local t" "to_local t = from_remote t" "remote_machine t = Some rm"
    and "\<not> released t" "open_machine (local_machine t)" "open_machine rm"
    and "direction_ok (local_machine t) rm" "direction_ok rm (local_machine t)"
    and "waiting_ok (waiting t) (local_machine t) rm"
    and "\<not> (state (local_machine t) = Closed \<and> state rm = Closed)"
  shows "relay_ok t"
  using assms by (simp add: relay_ok_def)

text \<open>
  The answers still missing until both directions are done, if the flows send nothing more:
  a write is followed by a read, its end of stream by a close.
\<close>

definition direction_work :: "fsm \<Rightarrow> fsm \<Rightarrow> nat" where
  "direction_work src dst =
     (if writing dst then 3 else if reading src then 2 else if write_closing dst then 1 else 0)"

definition work :: "tunnel \<Rightarrow> nat" where
  "work t =
     (if released t then 0
      else case remote_machine t of
             None \<Rightarrow> 0
           | Some rm \<Rightarrow> direction_work (local_machine t) rm + direction_work rm (local_machine t))"

lemma work_bound: "work t \<le> 6"
  by (simp add: work_def direction_work_def split: option.split)

text \<open>\<open>CheckTunnelStatus\<close> at the end of a closure restores the invariant.\<close>

lemma check_restores:
  assumes "to_remote t = from_local t" "to_local t = from_remote t" "remote_machine t = Some rm"
    and "\<not> released t" "open_machine (local_machine t)" "open_machine rm"
    and "direction_ok (local_machine t) rm" "direction_ok rm (local_machine t)"
    and "waiting_ok (waiting t) (local_machine t) rm"
  shows "\<exists>t'. check_tunnel_status t = Inr t' \<and> relay_ok t' \<and> work t' \<le> work t"
proof (cases "state (local_machine t) = Closed \<and> state rm = Closed")
  case True
  then show ?thesis using assms by (simp add: check_tunnel_status_def release_tunnel_def alive_def relay_ok_def work_def)
next
  case False
  then show ?thesis using assms relay_okI [OF assms False]
    by (auto simp: check_tunnel_status_def alive_def)
qed

lemma release_restores:
  assumes "to_remote t = from_local t" "to_local t = from_remote t" "remote_machine t = Some rm"
    and "\<not> released t"
  shows "\<exists>t'. release_tunnel t = Inr t' \<and> relay_ok t'"
  using assms by (simp add: release_tunnel_def alive_def relay_ok_def)

lemma waiting_remove:
  "distinct ws \<Longrightarrow> set (remove1 k ws) = set ws - {k} \<and> distinct (remove1 k ws)"
  by simp

text \<open>A tunnel that lives waits for something.\<close>

lemma relay_waits: "relay_ok t \<Longrightarrow> released t \<or> waiting t \<noteq> []"
  by (auto simp: relay_ok_def waiting_ok_def direction_ok_def open_closed split: if_splits)


definition relaying :: "tunnel \<Rightarrow> fsm \<Rightarrow> bool" where
  "relaying t rm \<longleftrightarrow> to_remote t = from_local t \<and> to_local t = from_remote t \<and>
     remote_machine t = Some rm \<and> open_machine (local_machine t) \<and> open_machine rm \<and>
     direction_ok (local_machine t) rm \<and> direction_ok rm (local_machine t) \<and>
     waiting_ok (waiting t) (local_machine t) rm \<and> \<not> released t"

lemma relaying_facts:
  assumes "relaying t rm"
  shows "to_remote t = from_local t" "to_local t = from_remote t"
    "remote_machine t = Some rm" "open_machine (local_machine t)" "open_machine rm"
    "direction_ok (local_machine t) rm" "direction_ok rm (local_machine t)"
    "waiting_ok (waiting t) (local_machine t) rm" "\<not> released t"
  using assms by (simp_all add: relaying_def)

lemma relay_live:
  assumes "relay_ok t" "k \<in> set (waiting t)"
  obtains rm where "relaying t rm"
  using assms by (auto simp: relay_ok_def relaying_def split: if_splits)

lemma idle_answer: "k \<notin> set (waiting t) \<Longrightarrow> answer k f g t = Inr t"
  by (simp add: answer_def)

lemmas closure_simps =
  answer_def on_local_machine_def on_remote_machine_def with_remote_def reset_timer_def alive_def await_def
lemmas relay_rules = halves waiting_ok_def direction_ok_def open_closed work_def direction_work_def

text \<open>The data a flow was asked for arrives: it is written to the other flow.\<close>

lemma local_data_step:
  assumes "relay_ok t" "Local_Data \<in> set (waiting t)"
  shows "\<exists>t'. relay_step t (Local_Read_Answer (Inr xs)) = Inr t' \<and> relay_ok t'"
proof (rule relay_live [OF assms])
  fix rm
  assume "relaying t rm"
  note ok = relaying_facts [OF this]
  have rd: "reading (local_machine t)" using ok(8) assms(2) by (simp add: waiting_ok_def)
  then have w: "\<not> writing rm" "\<not> write_closing rm" "\<not> write_closed rm"
    using ok(6) by (auto simp: direction_ok_def)
  obtain m where m: "read_answered (Inr xs) (local_machine t) = Inr m" "open_machine m"
    "same_write (local_machine t) m" "\<not> reading m" "\<not> read_closed m"
    using open_read_answered [OF ok(4) rd, of "Inr xs"] by auto
  obtain rm' where rm': "write_begin rm = Inr rm'" "open_machine rm'" "same_read rm rm'"
    "writing rm'" "\<not> write_closing rm'" "\<not> write_closed rm'"
    using open_write_begin [OF ok(5) w] by blast
  show ?thesis
    using m rm' ok rd w assms(2)
    by (auto simp: closure_simps on_local_data_def remote_write_def relay_rules intro!: relay_okI)
qed

lemma remote_data_step:
  assumes "relay_ok t" "Remote_Data \<in> set (waiting t)"
  shows "\<exists>t'. relay_step t (Remote_Read_Answer (Inr xs)) = Inr t' \<and> relay_ok t'"
proof (rule relay_live [OF assms])
  fix rm
  assume "relaying t rm"
  note ok = relaying_facts [OF this]
  have rd: "reading rm" using ok(8) assms(2) by (simp add: waiting_ok_def)
  then have w: "\<not> writing (local_machine t)" "\<not> write_closing (local_machine t)"
    "\<not> write_closed (local_machine t)"
    using ok(7) by (auto simp: direction_ok_def)
  obtain m where m: "read_answered (Inr xs) rm = Inr m" "open_machine m"
    "same_write rm m" "\<not> reading m" "\<not> read_closed m"
    using open_read_answered [OF ok(5) rd, of "Inr xs"] by auto
  obtain lm where lm: "write_begin (local_machine t) = Inr lm" "open_machine lm"
    "same_read (local_machine t) lm" "writing lm" "\<not> write_closing lm" "\<not> write_closed lm"
    using open_write_begin [OF ok(4) w] by blast
  show ?thesis
    using m lm ok rd w assms(2)
    by (auto simp: closure_simps on_remote_data_def local_write_def relay_rules intro!: relay_okI)
qed

text \<open>A flow ends: the other one is closed for writing.\<close>

lemma local_end_step:
  assumes "relay_ok t" "Local_Data \<in> set (waiting t)" "is_eof e"
  shows "\<exists>t'. relay_step t (Local_Read_Answer (Inl e)) = Inr t' \<and> relay_ok t' \<and> work t' < work t"
proof (rule relay_live [OF assms(1,2)])
  fix rm
  assume "relaying t rm"
  note ok = relaying_facts [OF this]
  have rd: "reading (local_machine t)" using ok(8) assms(2) by (simp add: waiting_ok_def)
  then have w: "\<not> writing rm" "\<not> write_closing rm" "\<not> write_closed rm"
    using ok(6) by (auto simp: direction_ok_def)
  obtain m where m: "read_answered (Inl e) (local_machine t) = Inr m" "open_machine m"
    "same_write (local_machine t) m" "\<not> reading m" "read_closed m"
    using open_read_answered [OF ok(4) rd, of "Inl e"] assms(3) by auto
  obtain rm' where rm': "write_close_begin rm = Inr rm'" "open_machine rm'" "same_read rm rm'"
    "\<not> writing rm'" "write_closing rm'" "\<not> write_closed rm'"
    using open_write_close_begin [OF ok(5) w] by blast
  have wc: "is_write_closable rm" using w ok(5) by (simp add: is_write_closable_def open_writable)
  show ?thesis
    using m rm' ok rd w assms(2,3) wc
    by (auto simp: closure_simps on_local_data_def remote_close_write_def relay_rules intro!: relay_okI)
qed

lemma remote_end_step:
  assumes "relay_ok t" "Remote_Data \<in> set (waiting t)" "is_eof e"
  shows "\<exists>t'. relay_step t (Remote_Read_Answer (Inl e)) = Inr t' \<and> relay_ok t' \<and> work t' < work t"
proof (rule relay_live [OF assms(1,2)])
  fix rm
  assume "relaying t rm"
  note ok = relaying_facts [OF this]
  have rd: "reading rm" using ok(8) assms(2) by (simp add: waiting_ok_def)
  then have w: "\<not> writing (local_machine t)" "\<not> write_closing (local_machine t)"
    "\<not> write_closed (local_machine t)"
    using ok(7) by (auto simp: direction_ok_def)
  obtain m where m: "read_answered (Inl e) rm = Inr m" "open_machine m"
    "same_write rm m" "\<not> reading m" "read_closed m"
    using open_read_answered [OF ok(5) rd, of "Inl e"] assms(3) by auto
  obtain lm where lm: "write_close_begin (local_machine t) = Inr lm" "open_machine lm"
    "same_read (local_machine t) lm" "\<not> writing lm" "write_closing lm" "\<not> write_closed lm"
    using open_write_close_begin [OF ok(4) w] by blast
  have wc: "is_write_closable (local_machine t)"
    using w ok(4) by (simp add: is_write_closable_def open_writable)
  show ?thesis
    using m lm ok rd w assms(2,3) wc
    by (auto simp: closure_simps on_remote_data_def local_close_write_def relay_rules intro!: relay_okI)
qed

text \<open>A write is done: the flow read before is read again.\<close>

lemma remote_written_step:
  assumes "relay_ok t" "Remote_Written \<in> set (waiting t)"
  shows "\<exists>t'. relay_step t (Remote_Write_Answer (Inr ())) = Inr t' \<and> relay_ok t' \<and> work t' < work t"
proof (rule relay_live [OF assms])
  fix rm
  assume "relaying t rm"
  note ok = relaying_facts [OF this]
  have wr: "writing rm" using ok(8) assms(2) by (simp add: waiting_ok_def)
  then have r: "\<not> reading (local_machine t)" "\<not> read_closed (local_machine t)"
    using ok(6) by (auto simp: direction_ok_def)
  obtain m where m: "write_answered (Inr ()) rm = Inr m" "open_machine m" "same_read rm m"
    "\<not> writing m" "\<not> write_closing m" "\<not> write_closed m"
    using open_write_answered [OF ok(5) wr, of "Inr ()"] by auto
  obtain lm where lm: "read_begin (local_machine t) = Inr lm" "open_machine lm"
    "same_write (local_machine t) lm" "reading lm" "\<not> read_closed lm"
    using open_read_begin [OF ok(4) r] by blast
  show ?thesis
    using m lm ok wr r assms(2)
    by (auto simp: closure_simps on_remote_written_def forward_local_def check_tunnel_status_def
        local_read_def open_readable open_writable relay_rules intro!: relay_okI)
qed

lemma local_written_step:
  assumes "relay_ok t" "Local_Written \<in> set (waiting t)"
  shows "\<exists>t'. relay_step t (Local_Write_Answer (Inr ())) = Inr t' \<and> relay_ok t' \<and> work t' < work t"
proof (rule relay_live [OF assms])
  fix rm
  assume "relaying t rm"
  note ok = relaying_facts [OF this]
  have wr: "writing (local_machine t)" using ok(8) assms(2) by (simp add: waiting_ok_def)
  then have r: "\<not> reading rm" "\<not> read_closed rm"
    using ok(7) by (auto simp: direction_ok_def)
  obtain m where m: "write_answered (Inr ()) (local_machine t) = Inr m" "open_machine m"
    "same_read (local_machine t) m" "\<not> writing m" "\<not> write_closing m" "\<not> write_closed m"
    using open_write_answered [OF ok(4) wr, of "Inr ()"] by auto
  obtain rm' where rm': "read_begin rm = Inr rm'" "open_machine rm'"
    "same_write rm rm'" "reading rm'" "\<not> read_closed rm'"
    using open_read_begin [OF ok(5) r] by blast
  show ?thesis
    using m rm' ok wr r assms(2)
    by (auto simp: closure_simps on_local_written_def forward_remote_def check_tunnel_status_def
        remote_read_def open_readable open_writable relay_rules intro!: relay_okI)
qed

text \<open>A close is done.\<close>

lemma remote_closed_step:
  assumes "relay_ok t" "Remote_Write_Closed \<in> set (waiting t)"
  shows "\<exists>t'. relay_step t Remote_Close_Answer = Inr t' \<and> relay_ok t' \<and> work t' < work t"
proof (rule relay_live [OF assms])
  fix rm
  assume "relaying t rm"
  note ok = relaying_facts [OF this]
  have wc: "write_closing rm" using ok(8) assms(2) by (simp add: waiting_ok_def)
  then have r: "\<not> reading (local_machine t)" "read_closed (local_machine t)"
    using ok(6) by (auto simp: direction_ok_def)
  obtain m where m: "write_close_end rm = Inr m" "open_machine m" "same_read rm m"
    "\<not> writing m" "\<not> write_closing m" "write_closed m"
    using open_write_close_end [OF ok(5) wc] by blast
  let ?u = "t\<lparr>waiting := remove1 Remote_Write_Closed (waiting t), remote_machine := Some m,
    timer_runs := timer_runs t + 1\<rparr>"
  have "relay_step t Remote_Close_Answer = check_tunnel_status ?u"
    using m(1) ok assms(2) by (simp add: closure_simps on_remote_write_closed_def)
  moreover have "\<exists>t'. check_tunnel_status ?u = Inr t' \<and> relay_ok t' \<and> work t' \<le> work ?u"
    using m ok wc r assms(2) by (intro check_restores [where rm = m]) (auto simp: relay_rules)
  moreover have "work ?u < work t" using m ok wc r by (auto simp: relay_rules)
  ultimately show ?thesis by auto
qed

lemma local_closed_step:
  assumes "relay_ok t" "Local_Write_Closed \<in> set (waiting t)"
  shows "\<exists>t'. relay_step t Local_Close_Answer = Inr t' \<and> relay_ok t' \<and> work t' < work t"
proof (rule relay_live [OF assms])
  fix rm
  assume "relaying t rm"
  note ok = relaying_facts [OF this]
  have wc: "write_closing (local_machine t)" using ok(8) assms(2) by (simp add: waiting_ok_def)
  then have r: "\<not> reading rm" "read_closed rm"
    using ok(7) by (auto simp: direction_ok_def)
  obtain m where m: "write_close_end (local_machine t) = Inr m" "open_machine m"
    "same_read (local_machine t) m" "\<not> writing m" "\<not> write_closing m" "write_closed m"
    using open_write_close_end [OF ok(4) wc] by blast
  let ?u = "t\<lparr>waiting := remove1 Local_Write_Closed (waiting t), local_machine := m,
    timer_runs := timer_runs t + 1\<rparr>"
  have "relay_step t Local_Close_Answer = check_tunnel_status ?u"
    using m(1) ok assms(2) by (simp add: closure_simps on_local_write_closed_def)
  moreover have "\<exists>t'. check_tunnel_status ?u = Inr t' \<and> relay_ok t' \<and> work t' \<le> work ?u"
    using m ok wc r assms(2) by (intro check_restores [where rm = rm]) (auto simp: relay_rules)
  moreover have "work ?u < work t" using m ok wc r by (auto simp: relay_rules)
  ultimately show ?thesis by auto
qed

text \<open>An error that is not the end of the stream, in either half of either flow.\<close>

lemma error_step:
  assumes "relay_ok t"
    and "ev = Local_Read_Answer (Inl e) \<and> \<not> is_eof e \<and> Local_Data \<in> set (waiting t) \<or>
         ev = Remote_Read_Answer (Inl e) \<and> \<not> is_eof e \<and> Remote_Data \<in> set (waiting t) \<or>
         ev = Local_Write_Answer (Inl e) \<and> Local_Written \<in> set (waiting t) \<or>
         ev = Remote_Write_Answer (Inl e) \<and> Remote_Written \<in> set (waiting t)"
  shows "\<exists>t'. relay_step t ev = Inr t' \<and> relay_ok t' \<and> released t'"
proof -
  obtain k where "k \<in> set (waiting t)" using assms(2) by blast
  then show ?thesis
  proof (rule relay_live [OF assms(1)])
    fix rm
    assume "relaying t rm"
    note ok = relaying_facts [OF this]
    show ?thesis
      using assms(2) ok
      by (auto simp: closure_simps waiting_ok_def read_answered_def write_answered_def read_end_def
          write_end_def on_local_data_def on_remote_data_def on_local_written_def on_remote_written_def
          release_tunnel_def relay_ok_def)
  qed
qed

lemma timeout_step: "relay_ok t \<Longrightarrow> \<exists>t'. relay_step t Timeout = Inr t' \<and> relay_ok t' \<and> released t'"
  by (auto simp: release_tunnel_def alive_def relay_ok_def split: if_splits)

lemma local_read_step:
  assumes "relay_ok t"
  shows "\<exists>t'. relay_step t (Local_Read_Answer r) = Inr t' \<and> relay_ok t'"
proof (cases "Local_Data \<in> set (waiting t)")
  case False
  then show ?thesis using assms by (simp add: idle_answer)
next
  case waits: True
  show ?thesis
  proof (cases r)
    case (Inl e)
    show ?thesis
    proof (cases "is_eof e")
      case True
      show ?thesis unfolding Inl using local_end_step [OF assms waits True] by blast
    next
      case False
      then show ?thesis
        using error_step [OF assms, of "Local_Read_Answer (Inl e)" e] waits Inl by blast
    qed
  next
    case (Inr xs)
    show ?thesis unfolding Inr by (rule local_data_step [OF assms waits])
  qed
qed

lemma local_write_step:
  assumes "relay_ok t"
  shows "\<exists>t'. relay_step t (Local_Write_Answer r) = Inr t' \<and> relay_ok t'"
proof (cases "Local_Written \<in> set (waiting t)")
  case False
  then show ?thesis using assms by (simp add: idle_answer)
next
  case waits: True
  show ?thesis
  proof (cases r)
    case (Inl e)
    then show ?thesis
      using error_step [OF assms, of "Local_Write_Answer (Inl e)" e] waits by blast
  next
    case (Inr u)
    then show ?thesis using local_written_step [OF assms waits] by auto
  qed
qed

lemma local_close_step:
  assumes "relay_ok t"
  shows "\<exists>t'. relay_step t Local_Close_Answer = Inr t' \<and> relay_ok t'"
proof (cases "Local_Write_Closed \<in> set (waiting t)")
  case False
  then show ?thesis using assms by (simp add: idle_answer)
next
  case True
  then show ?thesis using local_closed_step [OF assms] by blast
qed

lemma remote_read_step:
  assumes "relay_ok t"
  shows "\<exists>t'. relay_step t (Remote_Read_Answer r) = Inr t' \<and> relay_ok t'"
proof (cases "Remote_Data \<in> set (waiting t)")
  case False
  then show ?thesis using assms by (simp add: idle_answer)
next
  case waits: True
  show ?thesis
  proof (cases r)
    case (Inl e)
    show ?thesis
    proof (cases "is_eof e")
      case True
      show ?thesis unfolding Inl using remote_end_step [OF assms waits True] by blast
    next
      case False
      then show ?thesis
        using error_step [OF assms, of "Remote_Read_Answer (Inl e)" e] waits Inl by blast
    qed
  next
    case (Inr xs)
    show ?thesis unfolding Inr by (rule remote_data_step [OF assms waits])
  qed
qed

lemma remote_write_step:
  assumes "relay_ok t"
  shows "\<exists>t'. relay_step t (Remote_Write_Answer r) = Inr t' \<and> relay_ok t'"
proof (cases "Remote_Written \<in> set (waiting t)")
  case False
  then show ?thesis using assms by (simp add: idle_answer)
next
  case waits: True
  show ?thesis
  proof (cases r)
    case (Inl e)
    then show ?thesis
      using error_step [OF assms, of "Remote_Write_Answer (Inl e)" e] waits by blast
  next
    case (Inr u)
    then show ?thesis using remote_written_step [OF assms waits] by auto
  qed
qed

lemma remote_close_step:
  assumes "relay_ok t"
  shows "\<exists>t'. relay_step t Remote_Close_Answer = Inr t' \<and> relay_ok t'"
proof (cases "Remote_Write_Closed \<in> set (waiting t)")
  case False
  then show ?thesis using assms by (simp add: idle_answer)
next
  case True
  then show ?thesis using remote_closed_step [OF assms] by blast
qed

lemma relay_step_ok:
  assumes "relay_ok t"
  shows "\<exists>t'. relay_step t ev = Inr t' \<and> relay_ok t'"
proof (cases ev)
  case Timeout
  then show ?thesis using timeout_step [OF assms] by blast
qed (simp_all only: local_read_step [OF assms] local_write_step [OF assms] local_close_step [OF assms]
    remote_read_step [OF assms] remote_write_step [OF assms] remote_close_step [OF assms])

interpretation relay: contract_machine relay_step relay_ok "\<lambda>t e. True"
  by unfold_locales (rule relay_step_ok)

lemma relay_admissible: "admissible_run relay_step (\<lambda>t e. True) t es"
  by (induction es arbitrary: t) (auto split: sum.splits)

section \<open>Starting to forward\<close>

definition idle_machine :: "fsm \<Rightarrow> bool" where
  "idle_machine m \<longleftrightarrow> fsm_ok m \<and> state m = Established \<and> \<not> reading m \<and> \<not> writing m"

lemma begin_forward_ok:
  assumes "idle_machine (local_machine t)" "remote_machine t = Some rm" "idle_machine rm"
    and "\<not> released t" "waiting t = []" "to_remote t = from_local t" "to_local t = from_remote t"
  shows "\<exists>t'. begin_forward t = Inr t' \<and> relay_ok t'"
  using assms
  by (auto simp: begin_forward_def forward_local_def forward_remote_def check_tunnel_status_def
      closure_simps local_read_def remote_read_def idle_machine_def read_begin_def is_readable_def
      is_writable_def relay_ok_def open_machine_def direction_ok_def waiting_ok_def fsm_ok_def)

section \<open>Winding down\<close>

fun answered_task :: "relay_event \<Rightarrow> tunnel_task option" where
  "answered_task (Local_Read_Answer r) = Some Local_Data"
| "answered_task (Remote_Write_Answer r) = Some Remote_Written"
| "answered_task Remote_Close_Answer = Some Remote_Write_Closed"
| "answered_task (Remote_Read_Answer r) = Some Remote_Data"
| "answered_task (Local_Write_Answer r) = Some Local_Written"
| "answered_task Local_Close_Answer = Some Local_Write_Closed"
| "answered_task Timeout = None"

text \<open>Flows that send nothing more: reads end, writes and closes are done.\<close>

fun sends_no_more :: "relay_event \<Rightarrow> bool" where
  "sends_no_more (Local_Read_Answer (Inl e)) = is_eof e"
| "sends_no_more (Remote_Read_Answer (Inl e)) = is_eof e"
| "sends_no_more (Local_Write_Answer (Inr u)) = True"
| "sends_no_more (Remote_Write_Answer (Inr u)) = True"
| "sends_no_more Local_Close_Answer = True"
| "sends_no_more Remote_Close_Answer = True"
| "sends_no_more _ = False"

definition winds_down :: "tunnel \<Rightarrow> relay_event \<Rightarrow> bool" where
  "winds_down t ev \<longleftrightarrow> released t \<or>
     sends_no_more ev \<and> (\<exists>k \<in> set (waiting t). answered_task ev = Some k)"

lemma released_step: "relay_ok t \<Longrightarrow> released t \<Longrightarrow> relay_step t ev = Inr t"
  by (cases ev) (auto simp: relay_ok_def idle_answer)

lemma winding_step:
  assumes "relay_ok t" "\<not> released t" "winds_down t ev"
  shows "\<exists>t'. relay_step t ev = Inr t' \<and> relay_ok t' \<and> work t' < work t"
proof -
  have "sends_no_more ev" "\<exists>k \<in> set (waiting t). answered_task ev = Some k"
    using assms(2,3) by (simp_all add: winds_down_def)
  then show ?thesis
    using local_end_step [OF assms(1)] remote_end_step [OF assms(1)] local_written_step [OF assms(1)]
      remote_written_step [OF assms(1)] local_closed_step [OF assms(1)] remote_closed_step [OF assms(1)]
    by (cases ev rule: sends_no_more.cases) (simp_all del: relay_step.simps)
qed

lemma relay_work: "relay_ok t \<Longrightarrow> released t \<or> 0 < work t"
  by (auto simp: relay_ok_def relay_rules split: if_splits)

lemma winding_run:
  "relay_ok t \<Longrightarrow> admissible_run relay_step winds_down t es \<Longrightarrow>
   \<exists>t'. run relay_step t es = Inr t' \<and> relay_ok t' \<and> (released t' \<or> work t' + length es \<le> work t)"
proof (induction es arbitrary: t)
  case (Cons ev es)
  have adm: "winds_down t ev" using Cons.prems(2) by simp
  obtain s where s: "relay_step t ev = Inr s" "relay_ok s" "released t \<longrightarrow> s = t" "released t \<or> work s < work t"
  proof (cases "released t")
    case True
    then show ?thesis using that [of t] released_step Cons.prems(1) by simp
  next
    case False
    then show ?thesis using that winding_step [OF Cons.prems(1) _ adm] by blast
  qed
  then obtain t' where t': "run relay_step s es = Inr t'" "relay_ok t'"
    "released t' \<or> work t' + length es \<le> work s"
    using Cons.IH [OF s(2)] Cons.prems(2) by auto
  have "released t' \<or> work t' + length (ev # es) \<le> work t"
    using t'(2,3) s(3,4) relay_work [OF t'(2)] by (auto simp: work_def)
  then show ?case using s(1) t'(1,2) by auto
qed simp

section \<open>Properties\<close>

definition established :: "flow_type \<Rightarrow> fsm" where
  "established f = (fsm_new f)\<lparr>state := Established\<rparr>"

definition sample_tunnel :: tunnel where
  "sample_tunnel = (tunnel_new (established Local))\<lparr>remote_machine := Some (established Remote)\<rparr>"

text \<open>
  C3.  Once \<open>BeginForward\<close> has run on two established, idle flows, the tunnel survives every
  sequence of answers, errors, ends of stream and timeouts: no assertion fails and no member
  of a deleted tunnel is used; what was handed to one flow is, byte for byte and in order,
  what was received from the other; and a tunnel that was not released always waits for an
  answer and has a flow that is not closed, so it never hangs with nothing left to happen.
\<close>
theorem tunnel_relay_safe:
  assumes "idle_machine (local_machine t)" "remote_machine t = Some rm" "idle_machine rm"
    and "\<not> released t" "waiting t = []" "to_remote t = from_local t" "to_local t = from_remote t"
  shows "\<exists>t'. exec_bind (begin_forward t) (\<lambda>s. run relay_step s es) = Inr t' \<and>
     to_remote t' = from_local t' \<and> to_local t' = from_remote t' \<and>
     (released t' \<or> waiting t' \<noteq> [] \<and>
        \<not> (state (local_machine t') = Closed \<and> state (the (remote_machine t')) = Closed))"
proof -
  obtain s where s: "begin_forward t = Inr s" "relay_ok s"
    using begin_forward_ok [OF assms] by blast
  obtain t' where t': "run relay_step s es = Inr t'" "relay_ok t'"
    using relay.contract_run [OF s(2) relay_admissible] by blast
  have "released t' \<or> \<not> (state (local_machine t') = Closed \<and> state (the (remote_machine t')) = Closed)"
    using t'(2) by (auto simp: relay_ok_def split: if_splits)
  then show ?thesis using s(1) t' relay_waits [OF t'(2)] by (auto simp: relay_ok_def)
qed

theorem tunnel_relay_safe_witness:
  "\<exists>t'. exec_bind (begin_forward sample_tunnel) (\<lambda>s. run relay_step s
       [Local_Read_Answer (Inr [1, 2]), Remote_Write_Answer (Inr ()),
        Local_Read_Answer (Inl (common_error EndOfFile))]) = Inr t' \<and>
     to_remote t' = from_local t' \<and> to_local t' = from_remote t' \<and>
     (released t' \<or> waiting t' \<noteq> [] \<and>
        \<not> (state (local_machine t') = Closed \<and> state (the (remote_machine t')) = Closed))"
  by (rule tunnel_relay_safe [of _ "established Remote"])
    (simp_all add: sample_tunnel_def tunnel_new_def established_def fsm_new_def idle_machine_def fsm_ok_def)

text \<open>
  A tunnel does not outlive its flows.  Whatever happened before, once the flows send
  nothing more - every read is answered by an end of stream, every write and close is done -
  the tunnel is released after as many answers as its two directions still need, at most six.
\<close>

theorem tunnel_winds_down:
  assumes "idle_machine (local_machine t)" "remote_machine t = Some rm" "idle_machine rm"
    and "\<not> released t" "waiting t = []" "to_remote t = from_local t" "to_local t = from_remote t"
    and "exec_bind (begin_forward t) (\<lambda>s. run relay_step s before) = Inr t1"
    and "admissible_run relay_step winds_down t1 es" "work t1 \<le> length es"
  shows "work t1 \<le> 6 \<and> (\<exists>t2. run relay_step t1 es = Inr t2 \<and> released t2)"
proof -
  obtain s where s: "begin_forward t = Inr s" "relay_ok s"
    using begin_forward_ok [OF assms(1-7)] by blast
  have "relay_ok t1"
    using relay.contract_run [OF s(2) relay_admissible, of before] assms(8) s(1) by auto
  from winding_run [OF this assms(9)] obtain t2 where
    "run relay_step t1 es = Inr t2" "relay_ok t2" "released t2 \<or> work t2 + length es \<le> work t1" by blast
  then show ?thesis using relay_work [of t2] assms(10) work_bound by fastforce
qed

theorem tunnel_winds_down_witness:
  "\<exists>t1 t2. exec_bind (begin_forward sample_tunnel) (\<lambda>s. run relay_step s [Local_Read_Answer (Inr [1, 2])]) = Inr t1 \<and>
     run relay_step t1
       [Remote_Write_Answer (Inr ()), Local_Read_Answer (Inl (common_error EndOfFile)), Remote_Close_Answer,
        Remote_Read_Answer (Inl (common_error EndOfFile)), Local_Close_Answer] = Inr t2 \<and> released t2"
proof -
  let ?es = "[Remote_Write_Answer (Inr ()), Local_Read_Answer (Inl (common_error EndOfFile)), Remote_Close_Answer,
        Remote_Read_Answer (Inl (common_error EndOfFile)), Local_Close_Answer]"
  obtain t1 where t1: "exec_bind (begin_forward sample_tunnel) (\<lambda>s. run relay_step s [Local_Read_Answer (Inr [1, 2])]) = Inr t1"
    "admissible_run relay_step winds_down t1 ?es" "work t1 = 5"
    by (simp add: sample_tunnel_def tunnel_new_def established_def fsm_new_def begin_forward_def
        forward_local_def forward_remote_def check_tunnel_status_def closure_simps local_read_def
        remote_read_def fsm_defs read_answered_def write_answered_def on_local_data_def remote_write_def
        on_remote_written_def winds_down_def remote_close_write_def on_remote_write_closed_def
        on_remote_data_def local_close_write_def on_local_write_closed_def release_tunnel_def work_def
        direction_work_def Let_def)
  show ?thesis
    using tunnel_winds_down [OF _ _ _ _ _ _ _ t1(1,2), of "established Remote"] t1
    by (auto simp: sample_tunnel_def tunnel_new_def established_def fsm_new_def idle_machine_def fsm_ok_def
        simp del: run.simps)
qed

end
