(* ===== verification/Tcp_Socket.thy ===== *)
theory Tcp_Socket
  imports Flow_Interface
begin

text \<open>
  \<open>transport::TcpSocket\<close> (src/transport/tcp_socket.cc) without its connector: the flow that
  sits on a socket of Boost.Asio.  What the operating system answers to an asynchronous
  operation is an argument of the closure that receives it.
\<close>

section \<open>Errors\<close>

datatype tcp_error_code =
    ConnectionAborted | ConnectionReset | HostUnreachable | NetworkDown | NetworkReset
  | NetworkUnreachable | TimedOut

fun tcp_code :: "tcp_error_code \<Rightarrow> int" where
  "tcp_code ConnectionAborted = 1"
| "tcp_code ConnectionReset = 2"
| "tcp_code HostUnreachable = 3"
| "tcp_code NetworkDown = 4"
| "tcp_code NetworkReset = 5"
| "tcp_code NetworkUnreachable = 6"
| "tcp_code TimedOut = 7"

definition tcp_error :: "tcp_error_code \<Rightarrow> error" where
  "tcp_error c = error_of Tcp_Category (tcp_code c)"

text \<open>
  The numbers of the conditions are the platform's: \<open>basic\<close> names the ones of the system
  category the code asks for, \<open>eof\<close> is the one of the misc category.
\<close>

datatype basic_error = Operation_Aborted | Basic_Tcp tcp_error_code

record asio_codes =
  basic :: "int \<Rightarrow> basic_error option"
  eof :: int

definition convert_boost_error :: "asio_codes \<Rightarrow> boost_code \<Rightarrow> error exec" where
  "convert_boost_error codes ec =
     (if bvalue ec = 0 then Inr no_error
      else if bcategory ec = System_Category
      then (case basic codes (bvalue ec) of
              Some Operation_Aborted \<Rightarrow> Inr (common_error Cancelled)
            | Some (Basic_Tcp c) \<Rightarrow> Inr (tcp_error c)
            | None \<Rightarrow> from_boost_error ec)
      else if bcategory ec = Misc_Category \<and> bvalue ec = eof codes
      then Inr (common_error EndOfFile)
      else from_boost_error ec)"

section \<open>State\<close>

definition tcp_read_size :: nat where "tcp_read_size = 8192"

text \<open>
  \<open>read_buffer_\<close> is the list of the regions the next read fills, given by their sizes; it is
  moved into the closure of a read and moved back when the read succeeds.  \<open>write_buffer_\<close> is
  the list of the regions to write, given by their bytes.
\<close>

record tcp_socket =
  ts_session :: session
  read_buffer :: "nat list option"
  write_buffer :: "bytes list"
  ts_read_cancelable :: cancelable
  ts_write_cancelable :: cancelable
  ts_report_cancelable :: cancelable
  ts_connect_cancelable :: cancelable
  ts_machine :: fsm

datatype 'h tcp_task =
    Sock_Read cancelable 'h "nat list"
  | Sock_Written cancelable 'h nat
  | Sock_Write_Closed cancelable 'h error
  | Sock_Opened cancelable 'h
  | Sock_Continued cancelable 'h
  | Sock_Connected cancelable 'h

type_synonym 'h ts_reaction = "(tcp_socket, 'h, 'h tcp_task) reaction"

definition tcp_socket_new ::
  "flow_type \<Rightarrow> session \<Rightarrow> cancelable \<Rightarrow> cancelable \<Rightarrow> cancelable \<Rightarrow> cancelable \<Rightarrow> tcp_socket" where
  "tcp_socket_new t s rc wc pc cc =
     \<lparr>ts_session = s, read_buffer = Some [], write_buffer = [], ts_read_cancelable = rc,
      ts_write_cancelable = wc, ts_report_cancelable = pc, ts_connect_cancelable = cc,
      ts_machine = fsm_new t\<rparr>"

definition tcp_destroy :: "tcp_socket \<Rightarrow> ('h, 'h tcp_task) action list" where
  "tcp_destroy s =
     [Cancel_Token (ts_read_cancelable s), Cancel_Token (ts_write_cancelable s),
      Cancel_Token (ts_report_cancelable s), Cancel_Token (ts_connect_cancelable s)]"

section \<open>Reading\<close>

text \<open>\<open>new\<close> is the flag of the \<open>Cancelable()\<close> that the method makes.\<close>

definition tcp_read :: "cancelable \<Rightarrow> 'h \<Rightarrow> tcp_socket \<Rightarrow> 'h ts_reaction" where
  "tcp_read new h s =
     (case read_buffer s of
        None \<Rightarrow> Inl Null_Deref
      | Some regions \<Rightarrow>
          exec_bind (read_begin (ts_machine s)) (\<lambda>m.
          Inr (s\<lparr>ts_read_cancelable := new, ts_machine := m, read_buffer := None\<rparr>,
               [Do_Read (Sock_Read new h (regions @ [tcp_read_size]))])))"

text \<open>A successful read has filled the front of the buffer with \<open>xs\<close>.\<close>

definition tcp_on_read ::
  "asio_codes \<Rightarrow> cancel_store \<Rightarrow> cancelable \<Rightarrow> 'h \<Rightarrow> nat list \<Rightarrow> boost_code + bytes \<Rightarrow> tcp_socket \<Rightarrow>
   'h ts_reaction" where
  "tcp_on_read codes st c h regions r s =
     exec_bind (canceled c st) (\<lambda>stop.
     if stop then Inr (s, [])
     else exec_bind (read_end (ts_machine s)) (\<lambda>m.
     case r of
       Inl ec \<Rightarrow>
         exec_bind (convert_boost_error codes ec) (\<lambda>e.
         if is_eof e
         then exec_bind (read_close m) (\<lambda>m'. Inr (s\<lparr>ts_machine := m'\<rparr>, [Give_Data h (Inl e)]))
         else Inr (s\<lparr>ts_machine := errored m\<rparr>,
                   [Cancel_Token (ts_write_cancelable s), Give_Data h (Inl e)]))
     | Inr xs \<Rightarrow>
         exec_bind
           (if length xs \<noteq> tcp_read_size
            then bb_shrink_back (xs @ replicate (tcp_read_size - length xs) 0)
                   (sz_sub tcp_read_size (length xs))
            else Inr xs) (\<lambda>b.
         Inr (s\<lparr>ts_machine := m, read_buffer := Some []\<rparr>, [Give_Data h (Inr b)]))))"

section \<open>Writing\<close>

definition tcp_write :: "cancelable \<Rightarrow> bytes \<Rightarrow> 'h \<Rightarrow> tcp_socket \<Rightarrow> 'h ts_reaction" where
  "tcp_write new xs h s =
     (let regions = write_buffer s @ (if xs = [] then [] else [xs])
      in exec_bind (write_begin (ts_machine s)) (\<lambda>m.
         Inr (s\<lparr>ts_write_cancelable := new, write_buffer := regions, ts_machine := m\<rparr>,
              [Do_Write (concat regions) (Sock_Written new h (length xs))])))"

text \<open>\<open>n\<close> is the size of the buffer in the closure, the answer the number of bytes written.\<close>

definition tcp_on_written ::
  "asio_codes \<Rightarrow> cancel_store \<Rightarrow> cancelable \<Rightarrow> 'h \<Rightarrow> nat \<Rightarrow> boost_code + nat \<Rightarrow> tcp_socket \<Rightarrow>
   'h ts_reaction" where
  "tcp_on_written codes st c h n r s =
     exec_bind (canceled c st) (\<lambda>stop.
     if stop then Inr (s, [])
     else exec_bind (write_end (ts_machine s)) (\<lambda>m.
     case r of
       Inl ec \<Rightarrow>
         exec_bind (convert_boost_error codes ec) (\<lambda>e.
         Inr (s\<lparr>ts_machine := errored m\<rparr>,
              [Cancel_Token (ts_read_cancelable s), Give h (Inl e)]))
     | Inr k \<Rightarrow>
         boost_assert (k = n)
           (Inr (s\<lparr>ts_machine := m, write_buffer := []\<rparr>, [Give h (Inr ())]))))"

text \<open>\<open>ec\<close> is what \<open>shutdown\<close> answers at once; its error is reported by a posted task.\<close>

definition tcp_close_write ::
  "asio_codes \<Rightarrow> boost_code \<Rightarrow> cancelable \<Rightarrow> 'h \<Rightarrow> tcp_socket \<Rightarrow> 'h ts_reaction" where
  "tcp_close_write codes ec new h s =
     exec_bind (convert_boost_error codes ec) (\<lambda>e.
     exec_bind (write_close_begin (ts_machine s)) (\<lambda>m.
     Inr (s\<lparr>ts_write_cancelable := new, ts_machine := m\<rparr>, [Do_Post (Sock_Write_Closed new h e)])))"

definition tcp_on_write_closed ::
  "cancel_store \<Rightarrow> cancelable \<Rightarrow> 'h \<Rightarrow> error \<Rightarrow> tcp_socket \<Rightarrow> 'h ts_reaction" where
  "tcp_on_write_closed st c h e s =
     exec_bind (canceled c st) (\<lambda>stop.
     if stop then Inr (s, [])
     else exec_bind (write_close_end (ts_machine s)) (\<lambda>m.
       Inr (s\<lparr>ts_machine := m\<rparr>, [Give h (if error_bool e then Inl e else Inr ())])))"

section \<open>Opening and continuing\<close>

definition tcp_open :: "cancelable \<Rightarrow> 'h \<Rightarrow> tcp_socket \<Rightarrow> 'h ts_reaction" where
  "tcp_open new h s =
     exec_bind (connect_begin (ts_machine s)) (\<lambda>m.
     Inr (s\<lparr>ts_machine := m, ts_report_cancelable := new\<rparr>, [Do_Post (Sock_Opened new h)]))"

definition tcp_on_opened :: "cancel_store \<Rightarrow> cancelable \<Rightarrow> 'h \<Rightarrow> tcp_socket \<Rightarrow> 'h ts_reaction" where
  "tcp_on_opened st c h s =
     exec_bind (canceled c st) (\<lambda>stop. Inr (s, if stop then [] else [Give h (Inr ())]))"

definition tcp_continue :: "cancelable \<Rightarrow> 'h \<Rightarrow> tcp_socket \<Rightarrow> 'h ts_reaction" where
  "tcp_continue new h s =
     Inr (s\<lparr>ts_report_cancelable := new\<rparr>, [Do_Post (Sock_Continued new h)])"

definition tcp_on_continued :: "cancel_store \<Rightarrow> cancelable \<Rightarrow> 'h \<Rightarrow> tcp_socket \<Rightarrow> 'h ts_reaction" where
  "tcp_on_continued st c h s =
     exec_bind (canceled c st) (\<lambda>stop.
     if stop then Inr (s, [])
     else exec_bind (connected (ts_machine s)) (\<lambda>m. Inr (s\<lparr>ts_machine := m\<rparr>, [Give h (Inr ())])))"

text \<open>
  \<open>Connect\<close> makes a connector, which gives back the token \<open>new\<close>; the closure holds the token
  that was there before.  Its answer is a connected socket or an error.
\<close>

definition tcp_connect :: "cancelable \<Rightarrow> endpoint \<Rightarrow> 'h \<Rightarrow> tcp_socket \<Rightarrow> 'h ts_reaction" where
  "tcp_connect new ep h s =
     exec_bind (connect_begin (ts_machine s)) (\<lambda>m.
     Inr (s\<lparr>ts_machine := m, ts_connect_cancelable := new\<rparr>,
          [Do_Connect ep (Sock_Connected (ts_connect_cancelable s) h)]))"

definition tcp_on_connected ::
  "cancel_store \<Rightarrow> cancelable \<Rightarrow> 'h \<Rightarrow> unit result \<Rightarrow> tcp_socket \<Rightarrow> 'h ts_reaction" where
  "tcp_on_connected st c h r s =
     exec_bind (canceled c st) (\<lambda>stop.
     if stop then Inr (s, [])
     else case r of
            Inr _ \<Rightarrow> exec_bind (connected (ts_machine s)) (\<lambda>m.
                       Inr (s\<lparr>ts_machine := m\<rparr>, [Give h (Inr ())]))
          | Inl e \<Rightarrow> Inr (s\<lparr>ts_machine := errored (ts_machine s)\<rparr>, [Give h (Inl e)]))"

section \<open>The socket with its outstanding operations\<close>

text \<open>
  The socket, the flags of all tokens, and the closures that are waiting for an answer.  A
  call by the user makes one fresh flag; an answer runs one waiting closure.
\<close>

record 'h tcp_world =
  socket :: tcp_socket
  flags :: cancel_store
  waiting :: "'h tcp_task list"
  given :: "('h, 'h tcp_task) action list"

datatype 'h tcp_call =
    Call_Read 'h | Call_Write bytes 'h | Call_Close_Write boost_code 'h | Call_Open 'h
  | Call_Continue 'h | Call_Connect endpoint 'h | Call_Cancel cancelable

text \<open>What the system answers; a posted task has no answer.\<close>

datatype sys_answer =
    Read_Answer "boost_code + bytes" | Write_Answer "boost_code + nat"
  | Connect_Answer "unit result" | Run_Task

datatype 'h tcp_event = Call "'h tcp_call" | Answer nat sys_answer

fun tasks_of :: "('h, 'k) action \<Rightarrow> 'k list" where
  "tasks_of (Do_Read k) = [k]"
| "tasks_of (Do_Write xs k) = [k]"
| "tasks_of (Do_Post k) = [k]"
| "tasks_of (Do_Connect ep k) = [k]"
| "tasks_of _ = []"

fun flag_effect :: "('h, 'k) action \<Rightarrow> cancel_store \<Rightarrow> cancel_store" where
  "flag_effect (Cancel_Token c) st = cancel c st"
| "flag_effect _ st = st"

definition absorb ::
  "cancel_store \<Rightarrow> 'h tcp_task list \<Rightarrow> 'h tcp_world \<Rightarrow> tcp_socket \<times> ('h, 'h tcp_task) action list \<Rightarrow>
   'h tcp_world" where
  "absorb st ws w r =
     (case r of (s, as) \<Rightarrow>
        w\<lparr>socket := s, flags := fold flag_effect as st, waiting := ws @ concat (map tasks_of as),
          given := given w @ List.filter is_report as\<rparr>)"

fun run_call :: "asio_codes \<Rightarrow> cancelable \<Rightarrow> 'h tcp_call \<Rightarrow> tcp_socket \<Rightarrow> 'h ts_reaction" where
  "run_call codes new (Call_Read h) s = tcp_read new h s"
| "run_call codes new (Call_Write xs h) s = tcp_write new xs h s"
| "run_call codes new (Call_Close_Write ec h) s = tcp_close_write codes ec new h s"
| "run_call codes new (Call_Open h) s = tcp_open new h s"
| "run_call codes new (Call_Continue h) s = tcp_continue new h s"
| "run_call codes new (Call_Connect ep h) s = tcp_connect new ep h s"
| "run_call codes new (Call_Cancel c) s = Inr (s, [Cancel_Token c])"

fun run_task ::
  "asio_codes \<Rightarrow> cancel_store \<Rightarrow> 'h tcp_task \<Rightarrow> sys_answer \<Rightarrow> tcp_socket \<Rightarrow> 'h ts_reaction option" where
  "run_task codes st (Sock_Read c h rs) (Read_Answer r) s = Some (tcp_on_read codes st c h rs r s)"
| "run_task codes st (Sock_Written c h n) (Write_Answer r) s = Some (tcp_on_written codes st c h n r s)"
| "run_task codes st (Sock_Write_Closed c h e) Run_Task s = Some (tcp_on_write_closed st c h e s)"
| "run_task codes st (Sock_Opened c h) Run_Task s = Some (tcp_on_opened st c h s)"
| "run_task codes st (Sock_Continued c h) Run_Task s = Some (tcp_on_continued st c h s)"
| "run_task codes st (Sock_Connected c h) (Connect_Answer r) s = Some (tcp_on_connected st c h r s)"
| "run_task codes st _ _ s = None"

text \<open>An answer of the wrong kind, or for no closure, changes nothing.\<close>

fun tcp_step :: "asio_codes \<Rightarrow> 'h tcp_world \<Rightarrow> 'h tcp_event \<Rightarrow> 'h tcp_world exec" where
  "tcp_step codes w (Call c) =
     exec_bind (run_call codes (Some (length (flags w))) c (socket w)) (\<lambda>r.
     Inr (absorb (flags w @ [False]) (waiting w) w r))"
| "tcp_step codes w (Answer i a) =
     (if i < length (waiting w)
      then case run_task codes (flags w) (waiting w ! i) a (socket w) of
             None \<Rightarrow> Inr w
           | Some m \<Rightarrow>
               exec_bind m (\<lambda>r.
               Inr (absorb (flags w) (take i (waiting w) @ drop (Suc i) (waiting w)) w r))
      else Inr w)"

section \<open>The invariant\<close>

datatype task_kind = K_Read | K_Write | K_Close | K_Open | K_Link

fun kind :: "'h tcp_task \<Rightarrow> task_kind" where
  "kind (Sock_Read c h rs) = K_Read"
| "kind (Sock_Written c h n) = K_Write"
| "kind (Sock_Write_Closed c h e) = K_Close"
| "kind (Sock_Opened c h) = K_Open"
| "kind (Sock_Continued c h) = K_Link"
| "kind (Sock_Connected c h) = K_Link"

fun token :: "'h tcp_task \<Rightarrow> cancelable" where
  "token (Sock_Read c h rs) = c"
| "token (Sock_Written c h n) = c"
| "token (Sock_Write_Closed c h e) = c"
| "token (Sock_Opened c h) = c"
| "token (Sock_Continued c h) = c"
| "token (Sock_Connected c h) = c"

text \<open>A closure is live while its token is not canceled; \<open>live k\<close> counts those of a kind.\<close>

definition live :: "task_kind \<Rightarrow> cancel_store \<Rightarrow> 'h tcp_task list \<Rightarrow> nat" where
  "live k st ws = length (List.filter (\<lambda>t. kind t = k \<and> canceled (token t) st = Inr False) ws)"

fun task_ok :: "tcp_socket \<Rightarrow> 'h tcp_task \<Rightarrow> bool" where
  "task_ok s (Sock_Read c h rs) = (c = ts_read_cancelable s)"
| "task_ok s (Sock_Written c h n) =
     (c = ts_write_cancelable s \<and> n = length (concat (write_buffer s)))"
| "task_ok s (Sock_Write_Closed c h e) = (c = ts_write_cancelable s)"
| "task_ok s _ = True"

definition tokens_ok :: "cancel_store \<Rightarrow> 'h tcp_task list \<Rightarrow> tcp_socket \<Rightarrow> bool" where
  "tokens_ok st ws s \<longleftrightarrow> (\<forall>t \<in> set ws. handle_ok (token t) st) \<and>
     handle_ok (ts_read_cancelable s) st \<and> handle_ok (ts_write_cancelable s) st \<and>
     handle_ok (ts_connect_cancelable s) st"

definition tasks_ok :: "cancel_store \<Rightarrow> 'h tcp_task list \<Rightarrow> tcp_socket \<Rightarrow> bool" where
  "tasks_ok st ws s \<longleftrightarrow> (\<forall>t \<in> set ws. canceled (token t) st = Inr False \<longrightarrow> task_ok s t)"

definition counts_ok :: "cancel_store \<Rightarrow> 'h tcp_task list \<Rightarrow> fsm \<Rightarrow> bool" where
  "counts_ok st ws m \<longleftrightarrow>
     live K_Read st ws \<le> of_bool (reading m) \<and>
     live K_Write st ws \<le> of_bool (writing m) \<and>
     live K_Close st ws \<le> of_bool (write_closing m) \<and>
     live K_Link st ws \<le> of_bool (state m = Establishing \<and> \<not> reading m \<and> \<not> writing m)"

definition buffers_ok :: "tcp_socket \<Rightarrow> bool" where
  "buffers_ok s \<longleftrightarrow>
     (read_buffer s = None \<longrightarrow> reading (ts_machine s) \<or> read_closed (ts_machine s)) \<and>
     (write_buffer s \<noteq> [] \<longrightarrow>
        writing (ts_machine s) \<or> write_closed (ts_machine s))"

definition world_ok :: "'h tcp_world \<Rightarrow> bool" where
  "world_ok w \<longleftrightarrow>
     fsm_ok (ts_machine (socket w)) \<and> tokens_ok (flags w) (waiting w) (socket w) \<and>
     tasks_ok (flags w) (waiting w) (socket w) \<and>
     counts_ok (flags w) (waiting w) (ts_machine (socket w)) \<and> buffers_ok (socket w)"

section \<open>How the counts change\<close>

lemma live_Nil [simp]: "live k st [] = 0"
  by (simp add: live_def)

lemma live_append: "live k st (xs @ ys) = live k st xs + live k st ys"
  by (simp add: live_def)

lemma live_Cons [simp]:
  "live k st (t # ts) = of_bool (kind t = k \<and> canceled (token t) st = Inr False) + live k st ts"
  by (simp add: live_def)

lemma live_snoc [simp]:
  "live k st (ts @ [t]) = live k st ts + of_bool (kind t = k \<and> canceled (token t) st = Inr False)"
  by (simp add: live_def)

lemma le_of_bool [simp]: "(n :: nat) \<le> of_bool P \<longleftrightarrow> n = 0 \<or> P \<and> n = 1"
  by (cases P) auto

lemma live_split:
  "i < length ws \<Longrightarrow>
   live k st ws = live k st (take i ws @ drop (Suc i) ws) +
     of_bool (kind (ws ! i) = k \<and> canceled (token (ws ! i)) st = Inr False)"
  by (subst id_take_nth_drop [of i ws]) (simp_all add: live_append)

lemma set_without: "set (take i ws @ drop (Suc i) ws) \<subseteq> set ws"
  by (auto dest: in_set_takeD in_set_dropD)

lemma live_mono: "store_le st st' \<Longrightarrow> \<forall>t \<in> set ws. handle_ok (token t) st \<Longrightarrow>
  live k st' ws \<le> live k st ws"
proof (induction ws)
  case (Cons t ws)
  have "canceled (token t) st' = Inr False \<Longrightarrow> canceled (token t) st = Inr False"
    using Cons.prems canceled_mono [of st st' "token t"]
    by (auto simp: handle_ok_def canceled_def)
  moreover have "live k st' ws \<le> live k st ws" using Cons by simp
  ultimately show ?case by (auto intro: le_SucI)
qed simp

lemma live_cancel:
  "\<forall>t \<in> set ws. kind t = k \<longrightarrow> canceled (token t) st = Inr False \<longrightarrow> token t = c \<Longrightarrow>
   handle_ok c st \<Longrightarrow> live k (cancel c st) ws = 0"
  by (induction ws) (auto simp: canceled_cancel)

lemma handle_ok_append: "handle_ok c st \<Longrightarrow> handle_ok c (st @ [False])"
  by (auto simp: handle_ok_def)

lemma canceled_append: "handle_ok c st \<Longrightarrow> canceled c (st @ [False]) = canceled c st"
  by (auto simp: handle_ok_def canceled_def nth_append)

lemma canceled_new_flag [simp]: "canceled (Some (length st)) (st @ [False]) = Inr False"
  "handle_ok (Some (length st)) (st @ [False])"
  by (simp_all add: canceled_def handle_ok_def)

lemma handle_ok_cancel [simp]: "handle_ok c (cancel d st) = handle_ok c st"
  by (auto simp: handle_ok_def cancel_def split: option.splits)

lemma live_append_flag:
  "\<forall>t \<in> set ws. handle_ok (token t) st \<Longrightarrow> live k (st @ [False]) ws = live k st ws"
  by (induction ws) (auto simp: canceled_append)

section \<open>The contract of the user and of the system\<close>

definition link_pending :: "'h tcp_world \<Rightarrow> bool" where
  "link_pending w \<longleftrightarrow> live K_Link (flags w) (waiting w) > 0"

text \<open>
  The user asks the state machine before each call, does not read or write while the answer to
  \<open>Continue\<close> is pending, and closes the write side only when no write is under way.  The
  system's successful write has written everything it was given, and no read meets the end
  of the stream before the flow is established.
\<close>

fun tcp_admissible :: "asio_codes \<Rightarrow> 'h tcp_world \<Rightarrow> 'h tcp_event \<Rightarrow> bool" where
  "tcp_admissible codes w (Call (Call_Read h)) \<longleftrightarrow>
     is_readable (ts_machine (socket w)) \<and> \<not> link_pending w"
| "tcp_admissible codes w (Call (Call_Write xs h)) \<longleftrightarrow>
     is_writable (ts_machine (socket w)) \<and> \<not> link_pending w"
| "tcp_admissible codes w (Call (Call_Close_Write ec h)) \<longleftrightarrow>
     (let m = ts_machine (socket w)
      in (state m = Established \<or> state m = Closing) \<and> \<not> write_closed m \<and> \<not> write_closing m \<and>
         \<not> writing m)"
| "tcp_admissible codes w (Call (Call_Open h)) \<longleftrightarrow> state (ts_machine (socket w)) = Init"
| "tcp_admissible codes w (Call (Call_Continue h)) \<longleftrightarrow>
     (let m = ts_machine (socket w)
      in state m = Establishing \<and> \<not> reading m \<and> \<not> writing m \<and> \<not> link_pending w)"
| "tcp_admissible codes w (Call (Call_Connect ep h)) \<longleftrightarrow>
     state (ts_machine (socket w)) = Init"
| "tcp_admissible codes w (Call (Call_Cancel c)) \<longleftrightarrow> True"
| "tcp_admissible codes w (Answer i (Read_Answer r)) \<longleftrightarrow>
     (case r of
        Inl ec \<Rightarrow> convert_boost_error codes ec = Inr (common_error EndOfFile) \<longrightarrow>
                  state (ts_machine (socket w)) \<noteq> Establishing
      | Inr xs \<Rightarrow> 0 < length xs \<and> length xs \<le> tcp_read_size)"
| "tcp_admissible codes w (Answer i (Write_Answer r)) \<longleftrightarrow>
     (case r of Inl ec \<Rightarrow> True | Inr k \<Rightarrow> k = length (concat (write_buffer (socket w))))"
| "tcp_admissible codes w (Answer i (Connect_Answer r)) \<longleftrightarrow> True"
| "tcp_admissible codes w (Answer i Run_Task) \<longleftrightarrow> True"

section \<open>Every admissible step is safe\<close>

lemma live_0: "live k st ws = 0 \<Longrightarrow> t \<in> set ws \<Longrightarrow> kind t = k \<Longrightarrow> canceled (token t) st \<noteq> Inr False"
  by (auto simp: live_def filter_empty_conv)

lemma tasks_ok_change:
  assumes "tasks_ok st ws s"
    and "live K_Read st ws = 0 \<or> ts_read_cancelable s' = ts_read_cancelable s"
    and "live K_Write st ws = 0 \<or>
         ts_write_cancelable s' = ts_write_cancelable s \<and> write_buffer s' = write_buffer s"
    and "live K_Close st ws = 0 \<or> ts_write_cancelable s' = ts_write_cancelable s"
  shows "tasks_ok st ws s'"
  unfolding tasks_ok_def
proof (intro ballI impI)
  fix t assume t: "t \<in> set ws" "canceled (token t) st = Inr False"
  then have old: "task_ok s t" using assms(1) by (simp add: tasks_ok_def)
  show "task_ok s' t"
    using old t assms(2-4) live_0 [of K_Read st ws t] live_0 [of K_Write st ws t]
      live_0 [of K_Close st ws t]
    by (cases t) auto
qed

lemma frame_new:
  assumes "tokens_ok st ws s"
  shows "live k (st @ [False]) ws = live k st ws" "tokens_ok (st @ [False]) ws s"
    "tasks_ok st ws s \<Longrightarrow> tasks_ok (st @ [False]) ws s"
  using assms by (auto simp: tokens_ok_def tasks_ok_def live_append_flag handle_ok_append canceled_append)

text \<open>Taking a closure out, and canceling tokens.\<close>

abbreviation rest :: "nat \<Rightarrow> 'a list \<Rightarrow> 'a list" where
  "rest i ws \<equiv> take i ws @ drop (Suc i) ws"

lemma frame_rest:
  assumes "tokens_ok st ws s" "tasks_ok st ws s"
  shows "tokens_ok st (rest i ws) s" "tasks_ok st (rest i ws) s"
  using assms set_without [of i ws] by (auto simp: tokens_ok_def tasks_ok_def subset_iff)

lemma counts_rest:
  assumes "counts_ok st ws m" "i < length ws"
  shows "counts_ok st (rest i ws) m"
proof -
  have "live k st (rest i ws) \<le> live k st ws" for k
    using live_split [OF assms(2), of k st] by simp
  then show ?thesis using assms(1) unfolding counts_ok_def by (meson le_trans)
qed

lemma tokens_ok_cancel: "tokens_ok st ws s \<Longrightarrow> tokens_ok (cancel c st) ws s"
  by (simp add: tokens_ok_def)

lemma still_live: "handle_ok d st \<Longrightarrow> canceled d (cancel c st) = Inr False \<Longrightarrow> canceled d st = Inr False"
  using canceled_mono [OF cancel_le, of d st c] by (auto simp: handle_ok_def canceled_def)

lemma tasks_ok_cancel: "tokens_ok st ws s \<Longrightarrow> tasks_ok st ws s \<Longrightarrow> tasks_ok (cancel c st) ws s"
  using still_live by (auto simp: tasks_ok_def tokens_ok_def)

lemma live_cancel_le: "tokens_ok st ws s \<Longrightarrow> live k (cancel c st) ws \<le> live k st ws"
  by (rule live_mono) (auto simp: tokens_ok_def)

lemma counts_ok_cancel: "tokens_ok st ws s \<Longrightarrow> counts_ok st ws m \<Longrightarrow> counts_ok (cancel c st) ws m"
  unfolding counts_ok_def by (meson live_cancel_le le_trans)

lemma convert_total:
  "\<exists>e. convert_boost_error codes ec = Inr e \<and> (is_eof e \<longrightarrow> e = common_error EndOfFile)"
proof -
  have "\<not> is_eof (tcp_error c)" for c by (simp add: tcp_error_def)
  moreover have "\<not> is_eof no_error" by (simp add: no_error_def)
  ultimately show ?thesis
    by (auto simp: convert_boost_error_def split: option.split basic_error.split)
qed

lemma world_okD:
  assumes "world_ok w"
  shows "fsm_ok (ts_machine (socket w))" "tokens_ok (flags w) (waiting w) (socket w)"
    "tasks_ok (flags w) (waiting w) (socket w)" "counts_ok (flags w) (waiting w) (ts_machine (socket w))"
    "buffers_ok (socket w)"
  using assms by (simp_all add: world_ok_def)

text \<open>A call makes a new flag, which changes nothing of what is outstanding.\<close>

lemma call_frame:
  assumes "world_ok w"
  shows "live k (flags w @ [False]) (waiting w) = live k (flags w) (waiting w)"
    "tokens_ok (flags w @ [False]) (waiting w) (socket w)" "tasks_ok (flags w @ [False]) (waiting w) (socket w)"
  using frame_new [OF world_okD(2) [OF assms]] world_okD(3) [OF assms] by auto

lemma call_read_ok:
  assumes "world_ok w" "tcp_admissible codes w (Call (Call_Read h))"
  shows "\<exists>w'. tcp_step codes w (Call (Call_Read h)) = Inr w' \<and> world_ok w'"
proof -
  let ?st = "flags w" and ?ws = "waiting w" and ?s = "socket w" and ?m = "ts_machine (socket w)"
  let ?st' = "?st @ [False]" and ?new = "Some (length ?st)"
  note ok = world_okD [OF assms(1)]
  note cnt = call_frame(1) [OF assms(1)] and tok = call_frame(2) [OF assms(1)] and tsk = call_frame(3) [OF assms(1)]
  have r: "is_readable ?m" "\<not> link_pending w" using assms(2) by simp_all
  then have nr: "\<not> reading ?m" "\<not> read_closed ?m"
    using ok(1) by (auto simp: is_readable_def fsm_ok_def split: flow_state.splits)
  obtain rb where rb: "read_buffer ?s = Some rb" using ok(5) nr by (auto simp: buffers_ok_def)
  have z: "live K_Read ?st ?ws = 0" "live K_Link ?st ?ws = 0"
    using ok(4) nr(1) r(2) by (simp_all add: counts_ok_def link_pending_def)
  let ?s' = "?s\<lparr>ts_read_cancelable := ?new, ts_machine := ?m\<lparr>reading := True\<rparr>, read_buffer := None\<rparr>"
  have "fsm_ok (?m\<lparr>reading := True\<rparr>)"
    using fsm_step_ok [OF ok(1), of Read_Begin] r(1) by (simp add: read_begin_def)
  moreover have "tasks_ok ?st' ?ws ?s'"
    by (rule tasks_ok_change [OF tsk]) (simp_all add: cnt z)
  moreover have "tcp_step codes w (Call (Call_Read h)) = Inr (w\<lparr>socket := ?s', flags := ?st',
      waiting := ?ws @ [Sock_Read ?new h (rb @ [tcp_read_size])], given := given w\<rparr>)"
    using r(1) rb by (simp add: tcp_read_def read_begin_def absorb_def)
  ultimately show ?thesis
    using ok tok z by (simp add: world_ok_def tokens_ok_def tasks_ok_def counts_ok_def buffers_ok_def cnt)
qed

lemma call_write_ok:
  assumes "world_ok w" "tcp_admissible codes w (Call (Call_Write xs h))"
  shows "\<exists>w'. tcp_step codes w (Call (Call_Write xs h)) = Inr w' \<and> world_ok w'"
proof -
  let ?st = "flags w" and ?ws = "waiting w" and ?s = "socket w" and ?m = "ts_machine (socket w)"
  let ?st' = "?st @ [False]" and ?new = "Some (length ?st)"
  note ok = world_okD [OF assms(1)]
  note cnt = call_frame(1) [OF assms(1)] and tok = call_frame(2) [OF assms(1)] and tsk = call_frame(3) [OF assms(1)]
  have r: "is_writable ?m" "\<not> link_pending w" using assms(2) by simp_all
  then have nr: "\<not> writing ?m" "\<not> write_closed ?m" "\<not> write_closing ?m"
    using ok(1) by (auto simp: is_writable_def fsm_ok_def split: flow_state.splits)
  have wb: "write_buffer ?s = []" using ok(5) nr by (auto simp: buffers_ok_def)
  have z: "live K_Write ?st ?ws = 0" "live K_Link ?st ?ws = 0" "live K_Close ?st ?ws = 0"
    using ok(4) nr r(2) by (simp_all add: counts_ok_def link_pending_def)
  let ?rg = "if xs = [] then [] else [xs]"
  let ?s' = "?s\<lparr>ts_write_cancelable := ?new, write_buffer := ?rg, ts_machine := ?m\<lparr>writing := True\<rparr>\<rparr>"
  have "fsm_ok (?m\<lparr>writing := True\<rparr>)"
    using fsm_step_ok [OF ok(1), of Write_Begin] r(1) by (simp add: write_begin_def)
  moreover have "tasks_ok ?st' ?ws ?s'"
    by (rule tasks_ok_change [OF tsk]) (simp_all add: cnt z)
  moreover have "tcp_step codes w (Call (Call_Write xs h)) = Inr (w\<lparr>socket := ?s', flags := ?st',
      waiting := ?ws @ [Sock_Written ?new h (length xs)], given := given w\<rparr>)"
    using r(1) wb by (simp add: tcp_write_def write_begin_def absorb_def Let_def)
  ultimately show ?thesis
    using ok tok z by (simp add: world_ok_def tokens_ok_def tasks_ok_def counts_ok_def buffers_ok_def cnt)
qed

lemma call_close_write_ok:
  assumes "world_ok w" "tcp_admissible codes w (Call (Call_Close_Write ec h))"
  shows "\<exists>w'. tcp_step codes w (Call (Call_Close_Write ec h)) = Inr w' \<and> world_ok w'"
proof -
  let ?st = "flags w" and ?ws = "waiting w" and ?s = "socket w" and ?m = "ts_machine (socket w)"
  let ?st' = "?st @ [False]" and ?new = "Some (length ?st)"
  note ok = world_okD [OF assms(1)]
  note cnt = call_frame(1) [OF assms(1)] and tok = call_frame(2) [OF assms(1)] and tsk = call_frame(3) [OF assms(1)]
  have r: "state ?m = Established \<or> state ?m = Closing" "\<not> write_closed ?m"
    "\<not> write_closing ?m" "\<not> writing ?m"
    using assms(2) by (simp_all add: Let_def)
  then have wb: "write_buffer ?s = []" using ok(5) by (auto simp: buffers_ok_def)
  have z: "live K_Write ?st ?ws = 0" "live K_Link ?st ?ws = 0" "live K_Close ?st ?ws = 0"
    using ok(4) r by (auto simp: counts_ok_def)
  obtain e where e: "convert_boost_error codes ec = Inr e" using convert_total by blast
  let ?m' = "?m\<lparr>state := Closing, writing := False, write_closing := True\<rparr>"
  let ?s' = "?s\<lparr>ts_write_cancelable := ?new, ts_machine := ?m'\<rparr>"
  have "fsm_ok ?m'"
    using fsm_step_ok [OF ok(1), of Write_Close_Begin] r by (simp add: write_close_begin_def)
  moreover have "tasks_ok ?st' ?ws ?s'"
    by (rule tasks_ok_change [OF tsk]) (simp_all add: cnt z)
  moreover have "tcp_step codes w (Call (Call_Close_Write ec h)) = Inr (w\<lparr>socket := ?s', flags := ?st',
      waiting := ?ws @ [Sock_Write_Closed ?new h e], given := given w\<rparr>)"
    using r e by (simp add: tcp_close_write_def write_close_begin_def absorb_def)
  ultimately show ?thesis
    using ok tok z wb by (simp add: world_ok_def tokens_ok_def tasks_ok_def counts_ok_def buffers_ok_def cnt)
qed

lemma call_open_ok:
  assumes "world_ok w" "tcp_admissible codes w (Call (Call_Open h))"
  shows "\<exists>w'. tcp_step codes w (Call (Call_Open h)) = Inr w' \<and> world_ok w'"
proof -
  let ?st = "flags w" and ?ws = "waiting w" and ?s = "socket w" and ?m = "ts_machine (socket w)"
  let ?st' = "?st @ [False]" and ?new = "Some (length ?st)"
  note ok = world_okD [OF assms(1)]
  note cnt = call_frame(1) [OF assms(1)] and tok = call_frame(2) [OF assms(1)] and tsk = call_frame(3) [OF assms(1)]
  have r: "state ?m = Init" using assms(2) by simp
  then have nr: "\<not> reading ?m" "\<not> writing ?m" "live K_Link ?st ?ws = 0"
    using ok(1,4) by (simp_all add: fsm_ok_def counts_ok_def)
  have "fsm_ok (?m\<lparr>state := Establishing\<rparr>)"
    using fsm_step_ok [OF ok(1), of Connect_Begin] r by (simp add: connect_begin_def)
  moreover have "tasks_ok ?st' ?ws (?s\<lparr>ts_machine := ?m\<lparr>state := Establishing\<rparr>, ts_report_cancelable := ?new\<rparr>)"
    by (rule tasks_ok_change [OF tsk]) simp_all
  moreover have "tcp_step codes w (Call (Call_Open h)) = Inr (w\<lparr>socket := ?s\<lparr>ts_machine := ?m\<lparr>state := Establishing\<rparr>,
      ts_report_cancelable := ?new\<rparr>, flags := ?st', waiting := ?ws @ [Sock_Opened ?new h], given := given w\<rparr>)"
    using r by (simp add: tcp_open_def connect_begin_def absorb_def)
  ultimately show ?thesis
    using ok tok nr by (simp add: world_ok_def tokens_ok_def tasks_ok_def counts_ok_def buffers_ok_def cnt)
qed

lemma call_continue_ok:
  assumes "world_ok w" "tcp_admissible codes w (Call (Call_Continue h))"
  shows "\<exists>w'. tcp_step codes w (Call (Call_Continue h)) = Inr w' \<and> world_ok w'"
proof -
  let ?st = "flags w" and ?ws = "waiting w" and ?s = "socket w" and ?m = "ts_machine (socket w)"
  let ?st' = "?st @ [False]" and ?new = "Some (length ?st)"
  note ok = world_okD [OF assms(1)]
  note cnt = call_frame(1) [OF assms(1)] and tok = call_frame(2) [OF assms(1)] and tsk = call_frame(3) [OF assms(1)]
  have r: "state ?m = Establishing" "\<not> reading ?m" "\<not> writing ?m" "live K_Link ?st ?ws = 0"
    using assms(2) by (simp_all add: Let_def link_pending_def)
  have "tasks_ok ?st' ?ws (?s\<lparr>ts_report_cancelable := ?new\<rparr>)"
    by (rule tasks_ok_change [OF tsk]) simp_all
  moreover have "tcp_step codes w (Call (Call_Continue h)) = Inr (w\<lparr>socket := ?s\<lparr>ts_report_cancelable := ?new\<rparr>,
      flags := ?st', waiting := ?ws @ [Sock_Continued ?new h], given := given w\<rparr>)"
    by (simp add: tcp_continue_def absorb_def)
  ultimately show ?thesis
    using ok tok r by (simp add: world_ok_def tokens_ok_def tasks_ok_def counts_ok_def buffers_ok_def cnt)
qed

lemma call_connect_ok:
  assumes "world_ok w" "tcp_admissible codes w (Call (Call_Connect ep h))"
  shows "\<exists>w'. tcp_step codes w (Call (Call_Connect ep h)) = Inr w' \<and> world_ok w'"
proof -
  let ?st = "flags w" and ?ws = "waiting w" and ?s = "socket w" and ?m = "ts_machine (socket w)"
  let ?st' = "?st @ [False]" and ?new = "Some (length ?st)"
  note ok = world_okD [OF assms(1)]
  note cnt = call_frame(1) [OF assms(1)] and tok = call_frame(2) [OF assms(1)] and tsk = call_frame(3) [OF assms(1)]
  have r: "state ?m = Init" using assms(2) by simp
  then have nr: "\<not> reading ?m" "\<not> writing ?m" "live K_Link ?st ?ws = 0"
    using ok(1,4) by (simp_all add: fsm_ok_def counts_ok_def)
  have "fsm_ok (?m\<lparr>state := Establishing\<rparr>)"
    using fsm_step_ok [OF ok(1), of Connect_Begin] r by (simp add: connect_begin_def)
  moreover have "tasks_ok ?st' ?ws (?s\<lparr>ts_machine := ?m\<lparr>state := Establishing\<rparr>, ts_connect_cancelable := ?new\<rparr>)"
    by (rule tasks_ok_change [OF tsk]) simp_all
  moreover have "tcp_step codes w (Call (Call_Connect ep h)) = Inr (w\<lparr>socket := ?s\<lparr>ts_machine := ?m\<lparr>state := Establishing\<rparr>,
      ts_connect_cancelable := ?new\<rparr>, flags := ?st',
      waiting := ?ws @ [Sock_Connected (ts_connect_cancelable ?s) h], given := given w\<rparr>)"
    using r by (simp add: tcp_connect_def connect_begin_def absorb_def)
  ultimately show ?thesis
    using ok tok nr by (simp add: world_ok_def tokens_ok_def tasks_ok_def counts_ok_def buffers_ok_def cnt)
qed

lemma call_cancel_ok:
  assumes "world_ok w" "tcp_admissible codes w (Call (Call_Cancel c'))"
  shows "\<exists>w'. tcp_step codes w (Call (Call_Cancel c')) = Inr w' \<and> world_ok w'"
proof -
  let ?st = "flags w" and ?ws = "waiting w" and ?s = "socket w" and ?m = "ts_machine (socket w)"
  let ?st' = "?st @ [False]" and ?new = "Some (length ?st)"
  note ok = world_okD [OF assms(1)]
  note cnt = call_frame(1) [OF assms(1)] and tok = call_frame(2) [OF assms(1)] and tsk = call_frame(3) [OF assms(1)]
  have "counts_ok ?st' ?ws ?m" using ok(4) by (simp add: counts_ok_def cnt)
  then show ?thesis
    using ok tok tsk tokens_ok_cancel [OF tok] tasks_ok_cancel [OF tok tsk]
      counts_ok_cancel [OF tok]
    by (simp add: absorb_def world_ok_def)
qed

lemma call_ok:
  assumes "world_ok w" "tcp_admissible codes w (Call c)"
  shows "\<exists>w'. tcp_step codes w (Call c) = Inr w' \<and> world_ok w'"
proof (cases c)
  case (Call_Read h)
  then show ?thesis using call_read_ok [OF assms(1)] assms(2) by blast
next
  case (Call_Write xs h)
  then show ?thesis using call_write_ok [OF assms(1)] assms(2) by blast
next
  case (Call_Close_Write ec h)
  then show ?thesis using call_close_write_ok [OF assms(1)] assms(2) by blast
next
  case (Call_Open h)
  then show ?thesis using call_open_ok [OF assms(1)] assms(2) by blast
next
  case (Call_Continue h)
  then show ?thesis using call_continue_ok [OF assms(1)] assms(2) by blast
next
  case (Call_Connect ep h)
  then show ?thesis using call_connect_ok [OF assms(1)] assms(2) by blast
next
  case (Call_Cancel c')
  then show ?thesis using call_cancel_ok [OF assms(1)] assms(2) by blast
qed

text \<open>A closure that is not live changes nothing but leaves the list.\<close>

lemma run_task_dead:
  "run_task codes st t a s = Some m \<Longrightarrow> canceled (token t) st = Inr True \<Longrightarrow> m = Inr (s, [])"
  by (cases t; cases a)
    (auto simp: tcp_on_read_def tcp_on_written_def tcp_on_write_closed_def tcp_on_opened_def
      tcp_on_continued_def tcp_on_connected_def)

lemma drop_dead:
  assumes "world_ok w" "i < length (waiting w)"
    and "run_task codes (flags w) (waiting w ! i) a (socket w) = Some m"
    and "canceled (token (waiting w ! i)) (flags w) = Inr True"
  shows "\<exists>w'. tcp_step codes w (Answer i a) = Inr w' \<and> world_ok w'"
proof -
  have "m = Inr (socket w, [])" by (rule run_task_dead [OF assms(3,4)])
  then show ?thesis
    using assms frame_rest [of "flags w" "waiting w" "socket w" i]
      counts_rest [of "flags w" "waiting w" "ts_machine (socket w)" i]
    by (simp add: absorb_def world_ok_def)
qed

text \<open>After an error the flow is closed and the tokens of the other direction are canceled.\<close>

lemma fsm_ok_errored: "fsm_ok (errored m)"
  by (simp add: fsm_ok_def errored_def closed_def)

lemma no_live_write:
  assumes "tokens_ok st ws s" "tasks_ok st ws s" "k = K_Write \<or> k = K_Close"
  shows "live k (cancel (ts_write_cancelable s) st) ws = 0"
proof (rule live_cancel, intro ballI impI)
  fix t assume "t \<in> set ws" "kind t = k" "canceled (token t) st = Inr False"
  then have "task_ok s t" using assms(2) by (simp add: tasks_ok_def)
  with \<open>kind t = k\<close> assms(3) show "token t = ts_write_cancelable s" by (cases t) auto
qed (use assms(1) in \<open>simp add: tokens_ok_def\<close>)

lemma no_live_read:
  assumes "tokens_ok st ws s" "tasks_ok st ws s"
  shows "live K_Read (cancel (ts_read_cancelable s) st) ws = 0"
proof (rule live_cancel, intro ballI impI)
  fix t assume "t \<in> set ws" "kind t = K_Read" "canceled (token t) st = Inr False"
  then have "task_ok s t" using assms(2) by (simp add: tasks_ok_def)
  with \<open>kind t = K_Read\<close> show "token t = ts_read_cancelable s" by (cases t) auto
qed (use assms(1) in \<open>simp add: tokens_ok_def\<close>)

lemma read_answer_ok:
  assumes "world_ok w" "i < length (waiting w)" "waiting w ! i = Sock_Read c h rs"
    and "canceled c (flags w) = Inr False" "tcp_admissible codes w (Answer i (Read_Answer r))"
  shows "\<exists>w'. tcp_step codes w (Answer i (Read_Answer r)) = Inr w' \<and> world_ok w'"
proof -
  let ?st = "flags w" and ?ws = "waiting w" and ?s = "socket w" and ?m = "ts_machine (socket w)"
  let ?r = "rest i ?ws" and ?m1 = "(ts_machine (socket w))\<lparr>reading := False\<rparr>"
  note ok = world_okD [OF assms(1)]
  have tok: "tokens_ok ?st ?r ?s" and tsk: "tasks_ok ?st ?r ?s"
    using frame_rest [OF ok(2,3)] by blast+
  have cnt: "live k ?st ?ws = live k ?st ?r + of_bool (k = K_Read)" for k
    using live_split [OF assms(2), of k ?st] assms(3,4) by auto
  have m: "reading ?m" "live K_Read ?st ?r = 0" "live K_Link ?st ?r = 0"
    "live K_Write ?st ?r \<le> of_bool (writing ?m)" "live K_Close ?st ?r \<le> of_bool (write_closing ?m)"
    using ok(4) cnt by (auto simp: counts_ok_def split: if_splits)
  have m1: "fsm_ok ?m1" "read_end ?m = Inr ?m1"
    using fsm_step_ok [OF ok(1), of Read_End] m(1) by (simp_all add: read_end_def)
  have step: "tcp_step codes w (Answer i (Read_Answer r)) =
      exec_bind (tcp_on_read codes ?st c h rs r ?s) (\<lambda>r. Inr (absorb ?st ?r w r))"
    using assms(2,3) by simp
  show ?thesis
  proof (cases r)
    case (Inl ec)
    obtain e where e: "convert_boost_error codes ec = Inr e" "is_eof e \<longrightarrow> e = common_error EndOfFile"
      using convert_total by blast
    show ?thesis
    proof (cases "is_eof e")
      case True
      then have st: "state ?m = Established \<or> state ?m = Closing" "\<not> read_closed ?m"
        using assms(5) Inl e m(1) ok(1) by (cases "state ?m"; simp add: fsm_ok_def)+
      then obtain m2 where m2: "read_close ?m1 = Inr m2" "writing m2 = writing ?m"
        "write_closing m2 = write_closing ?m" "write_closed m2 = write_closed ?m" "read_closed m2"
        by (auto simp: read_close_def Let_def)
      have "fsm_ok m2" using fsm_step_ok [OF m1(1), of Read_Closed] m2(1) by simp
      moreover have "tasks_ok ?st ?r (?s\<lparr>ts_machine := m2\<rparr>)"
        by (rule tasks_ok_change [OF tsk]) simp_all
      ultimately show ?thesis
        using True e m m1 m2 ok tok assms(4) unfolding step
        by (simp add: Inl tcp_on_read_def absorb_def world_ok_def tokens_ok_def counts_ok_def buffers_ok_def)
    next
      case False
      let ?st' = "cancel (ts_write_cancelable ?s) ?st"
      have "tasks_ok ?st' ?r (?s\<lparr>ts_machine := errored ?m1\<rparr>)"
        by (rule tasks_ok_change [OF tasks_ok_cancel [OF tok tsk]]) simp_all
      moreover have "live K_Read ?st' ?r = 0" "live K_Link ?st' ?r = 0"
        using live_cancel_le [OF tok, of K_Read] live_cancel_le [OF tok, of K_Link] m by (metis le_zero_eq)+
      ultimately show ?thesis
        using False e m1 ok tok assms(4) no_live_write [OF tok tsk] unfolding step
        by (simp add: Inl tcp_on_read_def absorb_def world_ok_def tokens_ok_def counts_ok_def
            buffers_ok_def fsm_ok_errored) (simp add: errored_def closed_def)
    qed
  next
    case (Inr xs)
    then have xs: "0 < length xs" "length xs \<le> tcp_read_size" using assms(5) by simp_all
    let ?n = "length xs"
    have "bb_shrink_back (xs @ replicate (tcp_read_size - ?n) 0) (sz_sub tcp_read_size ?n) = Inr xs"
      if "?n \<noteq> tcp_read_size"
      using that xs by (simp add: bb_shrink_back_def bb_shrink_def delete_at_def)
    moreover have "tasks_ok ?st ?r (?s\<lparr>ts_machine := ?m1, read_buffer := Some []\<rparr>)"
      by (rule tasks_ok_change [OF tsk]) simp_all
    ultimately show ?thesis
      using m m1 ok tok assms(4) unfolding step
      by (auto simp: Inr tcp_on_read_def absorb_def world_ok_def tokens_ok_def counts_ok_def buffers_ok_def)
  qed
qed

lemma write_answer_ok:
  assumes "world_ok w" "i < length (waiting w)" "waiting w ! i = Sock_Written c h n"
    and "canceled c (flags w) = Inr False" "tcp_admissible codes w (Answer i (Write_Answer r))"
  shows "\<exists>w'. tcp_step codes w (Answer i (Write_Answer r)) = Inr w' \<and> world_ok w'"
proof -
  let ?st = "flags w" and ?ws = "waiting w" and ?s = "socket w" and ?m = "ts_machine (socket w)"
  let ?r = "rest i ?ws" and ?m1 = "(ts_machine (socket w))\<lparr>writing := False\<rparr>"
  note ok = world_okD [OF assms(1)]
  have tok: "tokens_ok ?st ?r ?s" and tsk: "tasks_ok ?st ?r ?s"
    using frame_rest [OF ok(2,3)] by blast+
  have "task_ok ?s (Sock_Written c h n)"
    using ok(3) assms(2-4) by (metis nth_mem tasks_ok_def token.simps(2))
  then have n: "n = length (concat (write_buffer ?s))" by simp
  have cnt: "live k ?st ?ws = live k ?st ?r + of_bool (k = K_Write)" for k
    using live_split [OF assms(2), of k ?st] assms(3,4) by auto
  have m: "writing ?m" "live K_Write ?st ?r = 0" "live K_Link ?st ?r = 0"
    "live K_Read ?st ?r \<le> of_bool (reading ?m)"
    using ok(4) cnt by (auto simp: counts_ok_def split: if_splits)
  moreover have "\<not> write_closing ?m" using m(1) ok(1) by (simp add: fsm_ok_def)
  ultimately have cl: "live K_Close ?st ?r = 0" using ok(4) cnt by (simp add: counts_ok_def)
  have m1: "fsm_ok ?m1" "write_end ?m = Inr ?m1"
    using fsm_step_ok [OF ok(1), of Write_End] m(1) by (simp_all add: write_end_def)
  have step: "tcp_step codes w (Answer i (Write_Answer r)) =
      exec_bind (tcp_on_written codes ?st c h n r ?s) (\<lambda>r. Inr (absorb ?st ?r w r))"
    using assms(2,3) by simp
  show ?thesis
  proof (cases r)
    case (Inl ec)
    obtain e where e: "convert_boost_error codes ec = Inr e" using convert_total by blast
    let ?st' = "cancel (ts_read_cancelable ?s) ?st"
    have "tasks_ok ?st' ?r (?s\<lparr>ts_machine := errored ?m1\<rparr>)"
      by (rule tasks_ok_change [OF tasks_ok_cancel [OF tok tsk]]) simp_all
    moreover have "live K_Write ?st' ?r = 0" "live K_Link ?st' ?r = 0" "live K_Close ?st' ?r = 0"
      using live_cancel_le [OF tok, of K_Write] live_cancel_le [OF tok, of K_Link]
        live_cancel_le [OF tok, of K_Close] m cl by (metis le_zero_eq)+
    ultimately show ?thesis
      using e m1 ok tok assms(4) no_live_read [OF tok tsk] unfolding step
      by (simp add: Inl tcp_on_written_def absorb_def world_ok_def tokens_ok_def counts_ok_def
          buffers_ok_def fsm_ok_errored) (simp add: errored_def closed_def)
  next
    case (Inr k)
    then have k: "k = n" using assms(5) n by simp
    have "tasks_ok ?st ?r (?s\<lparr>ts_machine := ?m1, write_buffer := []\<rparr>)"
      by (rule tasks_ok_change [OF tsk]) (simp_all add: m)
    then show ?thesis
      using k m m1 cl ok tok assms(4) unfolding step
      by (simp add: Inr tcp_on_written_def absorb_def world_ok_def tokens_ok_def counts_ok_def buffers_ok_def)
  qed
qed

text \<open>What stays when the task of an answer is taken out.\<close>

lemma answer_frame:
  assumes "world_ok w" "i < length (waiting w)" "canceled (token (waiting w ! i)) (flags w) = Inr False"
  shows "tokens_ok (flags w) (rest i (waiting w)) (socket w)"
    "tasks_ok (flags w) (rest i (waiting w)) ((socket w)\<lparr>ts_machine := m\<rparr>)"
    "tasks_ok (flags w) (rest i (waiting w)) (socket w)"
    "live k (flags w) (waiting w) = live k (flags w) (rest i (waiting w)) + of_bool (k = kind (waiting w ! i))"
proof -
  note frame = frame_rest [OF world_okD(2,3) [OF assms(1)]]
  show "tokens_ok (flags w) (rest i (waiting w)) (socket w)" using frame by blast
  show tsk: "tasks_ok (flags w) (rest i (waiting w)) (socket w)" using frame by blast
  show "tasks_ok (flags w) (rest i (waiting w)) ((socket w)\<lparr>ts_machine := m\<rparr>)"
    by (rule tasks_ok_change [OF tsk]) simp_all
  show "live k (flags w) (waiting w) = live k (flags w) (rest i (waiting w)) + of_bool (k = kind (waiting w ! i))"
    using live_split [OF assms(2), of k "flags w"] assms(3) by auto
qed

lemma write_closed_ok:
  assumes "world_ok w" "i < length (waiting w)" "waiting w ! i = Sock_Write_Closed c h e"
    and "canceled c (flags w) = Inr False"
  shows "\<exists>w'. exec_bind (tcp_on_write_closed (flags w) c h e (socket w))
      (\<lambda>r. Inr (absorb (flags w) (rest i (waiting w)) w r)) = Inr w' \<and> world_ok w'"
proof -
  let ?m = "ts_machine (socket w)" and ?st = "flags w" and ?r = "rest i (waiting w)"
  note ok = world_okD [OF assms(1)]
  note frame = answer_frame [OF assms(1,2), unfolded assms(3) token.simps, OF assms(4)]
  have m: "write_closing ?m" "live K_Close ?st ?r = 0"
    using ok(4) frame(4) [of K_Close] by (auto simp: counts_ok_def split: if_splits)
  then have n: "\<not> writing ?m" "state ?m \<noteq> Establishing"
    using ok(1) by (auto simp: fsm_ok_def)
  obtain m' where m': "write_close_end ?m = Inr m'" "writing m' = writing ?m" "reading m' = reading ?m"
    "read_closed m' = read_closed ?m" "write_closed m'"
    using m(1) by (auto simp: write_close_end_def Let_def)
  have "fsm_ok m'" using fsm_step_ok [OF ok(1), of Write_Close_End] m'(1) by simp
  then show ?thesis
    using m n m' ok frame assms(4)
    by (simp add: tcp_on_write_closed_def absorb_def world_ok_def tokens_ok_def counts_ok_def buffers_ok_def)
qed

text \<open>The two tasks that end the establishing of a connection.\<close>

lemma establishing_task:
  assumes "world_ok w" "i < length (waiting w)" "kind (waiting w ! i) = K_Link"
    and "canceled (token (waiting w ! i)) (flags w) = Inr False"
  shows "state (ts_machine (socket w)) = Establishing" "\<not> reading (ts_machine (socket w))"
    "\<not> writing (ts_machine (socket w))" "\<not> write_closing (ts_machine (socket w))"
    "live K_Link (flags w) (rest i (waiting w)) = 0" "fsm_ok ((ts_machine (socket w))\<lparr>state := Established\<rparr>)"
proof -
  let ?m = "ts_machine (socket w)"
  note ok = world_okD [OF assms(1)]
  show m: "state ?m = Establishing" "\<not> reading ?m" "\<not> writing ?m" "live K_Link (flags w) (rest i (waiting w)) = 0"
    using ok(4) answer_frame(4) [OF assms(1,2,4), of K_Link] assms(3) by (auto simp: counts_ok_def split: if_splits)
  then show "\<not> write_closing ?m" using ok(1) by (simp add: fsm_ok_def)
  show "fsm_ok (?m\<lparr>state := Established\<rparr>)"
    using fsm_step_ok [OF ok(1), of Connected] m(1) by (simp add: connected_def)
qed

lemma continued_ok:
  assumes "world_ok w" "i < length (waiting w)" "waiting w ! i = Sock_Continued c h"
    and "canceled c (flags w) = Inr False"
  shows "\<exists>w'. exec_bind (tcp_on_continued (flags w) c h (socket w))
      (\<lambda>r. Inr (absorb (flags w) (rest i (waiting w)) w r)) = Inr w' \<and> world_ok w'"
proof -
  note ok = world_okD [OF assms(1)]
  note frame = answer_frame [OF assms(1,2), unfolded assms(3) token.simps, OF assms(4)]
  have "kind (waiting w ! i) = K_Link" "canceled (token (waiting w ! i)) (flags w) = Inr False"
    using assms(3,4) by simp_all
  note m = establishing_task [OF assms(1,2) this]
  then show ?thesis
    using ok frame assms(4)
    by (simp add: tcp_on_continued_def connected_def absorb_def world_ok_def tokens_ok_def counts_ok_def buffers_ok_def)
qed

lemma connected_ok:
  assumes "world_ok w" "i < length (waiting w)" "waiting w ! i = Sock_Connected c h"
    and "canceled c (flags w) = Inr False"
  shows "\<exists>w'. exec_bind (tcp_on_connected (flags w) c h r (socket w))
      (\<lambda>r. Inr (absorb (flags w) (rest i (waiting w)) w r)) = Inr w' \<and> world_ok w'"
proof -
  note ok = world_okD [OF assms(1)]
  note frame = answer_frame [OF assms(1,2), unfolded assms(3) token.simps, OF assms(4)]
  have "kind (waiting w ! i) = K_Link" "canceled (token (waiting w ! i)) (flags w) = Inr False"
    using assms(3,4) by simp_all
  note m = establishing_task [OF assms(1,2) this]
  then show ?thesis
    using ok frame assms(4)
    by (cases r) (simp_all add: tcp_on_connected_def connected_def absorb_def world_ok_def
        tokens_ok_def counts_ok_def buffers_ok_def fsm_ok_errored, simp_all add: errored_def closed_def)
qed

lemma task_answer_ok:
  assumes "world_ok w" "i < length (waiting w)" "waiting w ! i = t"
    and "canceled (token t) (flags w) = Inr False" "kind t = K_Close \<or> kind t = K_Open \<or> kind t = K_Link"
    and "run_task codes (flags w) t a (socket w) = Some x"
  shows "\<exists>w'. tcp_step codes w (Answer i a) = Inr w' \<and> world_ok w'"
proof -
  have step: "tcp_step codes w (Answer i a) = exec_bind x (\<lambda>r. Inr (absorb (flags w) (rest i (waiting w)) w r))"
    using assms(2,3,6) by simp
  show ?thesis
  proof (cases t)
    case (Sock_Write_Closed c h e)
    then have "x = tcp_on_write_closed (flags w) c h e (socket w)" using assms(6) by (cases a) auto
    then show ?thesis using write_closed_ok [OF assms(1,2)] assms(3,4) Sock_Write_Closed step by simp
  next
    case (Sock_Opened c h)
    then have "x = tcp_on_opened (flags w) c h (socket w)" using assms(6) by (cases a) auto
    moreover note answer_frame [OF assms(1,2)] world_okD [OF assms(1)]
    ultimately show ?thesis
      using Sock_Opened assms(3,4) unfolding step
      by (simp add: tcp_on_opened_def absorb_def world_ok_def tokens_ok_def counts_ok_def)
  next
    case (Sock_Continued c h)
    then have "x = tcp_on_continued (flags w) c h (socket w)" using assms(6) by (cases a) auto
    then show ?thesis using continued_ok [OF assms(1,2)] assms(3,4) Sock_Continued step by simp
  next
    case (Sock_Connected c h)
    then obtain r where "x = tcp_on_connected (flags w) c h r (socket w)" using assms(6) by (cases a) auto
    then show ?thesis using connected_ok [OF assms(1,2)] assms(3,4) Sock_Connected step by simp
  qed (use assms(5) in auto)
qed

lemma answer_ok:
  assumes "world_ok w" "tcp_admissible codes w (Answer i a)"
  shows "\<exists>w'. tcp_step codes w (Answer i a) = Inr w' \<and> world_ok w'"
proof (cases "i < length (waiting w) \<and> run_task codes (flags w) (waiting w ! i) a (socket w) \<noteq> None")
  case False
  then show ?thesis using assms(1) by auto
next
  case True
  then obtain x where i: "i < length (waiting w)"
    and x: "run_task codes (flags w) (waiting w ! i) a (socket w) = Some x" by auto
  have "handle_ok (token (waiting w ! i)) (flags w)"
    using assms(1) i by (simp add: world_ok_def tokens_ok_def)
  then consider (dead) "canceled (token (waiting w ! i)) (flags w) = Inr True"
    | (live) "canceled (token (waiting w ! i)) (flags w) = Inr False"
    by (cases "canceled (token (waiting w ! i)) (flags w) = Inr True")
      (auto simp: handle_ok_def canceled_def)
  then show ?thesis
  proof cases
    case dead
    then show ?thesis using drop_dead [OF assms(1) i x] by simp
  next
    case live
    show ?thesis
    proof (cases "waiting w ! i")
      case (Sock_Read c h rs)
      then obtain r where "a = Read_Answer r" using x by (cases a) auto
      then show ?thesis using read_answer_ok [OF assms(1) i Sock_Read] live Sock_Read assms(2) by simp
    next
      case (Sock_Written c h n)
      then obtain r where "a = Write_Answer r" using x by (cases a) auto
      then show ?thesis using write_answer_ok [OF assms(1) i Sock_Written] live Sock_Written assms(2) by simp
    qed (use task_answer_ok [OF assms(1) i refl live _ x] in simp_all)
  qed
qed

lemma step_ok: "world_ok w \<Longrightarrow> tcp_admissible codes w e \<Longrightarrow> \<exists>w'. tcp_step codes w e = Inr w' \<and> world_ok w'"
  using call_ok answer_ok by (cases e) blast+

interpretation tcp_contract: contract_machine "tcp_step codes" world_ok "tcp_admissible codes"
  by unfold_locales (rule step_ok)

definition tcp_start :: "flow_type \<Rightarrow> session \<Rightarrow> 'h tcp_world" where
  "tcp_start t s =
     \<lparr>socket = tcp_socket_new t s (Some 0) (Some 1) (Some 2) (Some 3),
      flags = [False, False, False, False], waiting = [], given = []\<rparr>"

lemma tcp_start_ok: "world_ok (tcp_start t s)"
  by (simp add: world_ok_def tcp_start_def tcp_socket_new_def fsm_new_ok tokens_ok_def tasks_ok_def
      counts_ok_def buffers_ok_def handle_ok_def)

section \<open>Handlers are called at most once\<close>

lemma reports_filter [simp]: "reports (List.filter is_report as) = reports as"
  by (simp add: reports_def)

lemma absorb_given: "given (absorb st ws w (s, as)) = given w @ List.filter is_report as"
  and absorb_waiting: "waiting (absorb st ws w (s, as)) = ws @ concat (map tasks_of as)"
  by (simp_all add: absorb_def)

definition outstanding :: "'h tcp_world \<Rightarrow> nat" where
  "outstanding w = reports (given w) + length (waiting w)"

lemma call_outstanding:
  "tcp_step codes w (Call c) = Inr w' \<Longrightarrow> outstanding w' \<le> Suc (outstanding w)"
  by (cases c)
    (auto simp: exec_bind_Inr absorb_def outstanding_def tcp_read_def tcp_write_def Let_def
      tcp_close_write_def tcp_open_def tcp_continue_def tcp_connect_def split: option.splits)

lemma task_outstanding:
  assumes "run_task codes st t a s = Some m" "m = Inr (s', as)"
  shows "reports as \<le> 1 \<and> length (concat (map tasks_of as)) = 0"
proof (cases t)
  case (Sock_Read c h rs)
  then obtain r where "a = Read_Answer r" using assms(1) by (cases a) auto
  then show ?thesis using Sock_Read assms
    by (cases r) (auto simp: tcp_on_read_def exec_bind_Inr split: if_splits)
next
  case (Sock_Written c h n)
  then obtain r where "a = Write_Answer r" using assms(1) by (cases a) auto
  then show ?thesis using Sock_Written assms
    by (cases r) (auto simp: tcp_on_written_def exec_bind_Inr boost_assert_Inr split: if_splits)
next
  case (Sock_Connected c h)
  then obtain r where "a = Connect_Answer r" using assms(1) by (cases a) auto
  then show ?thesis using Sock_Connected assms
    by (cases r) (auto simp: tcp_on_connected_def exec_bind_Inr split: if_splits)
qed (use assms in \<open>cases a; auto simp: tcp_on_write_closed_def tcp_on_opened_def
    tcp_on_continued_def exec_bind_Inr split: if_splits\<close>)+

lemma answer_outstanding:
  "tcp_step codes w (Answer i a) = Inr w' \<Longrightarrow> outstanding w' \<le> outstanding w"
proof (cases "i < length (waiting w) \<and> run_task codes (flags w) (waiting w ! i) a (socket w) \<noteq> None")
  case False
  then have "tcp_step codes w (Answer i a) = Inr w"
    by (cases "run_task codes (flags w) (waiting w ! i) a (socket w)") auto
  then show "tcp_step codes w (Answer i a) = Inr w' \<Longrightarrow> ?thesis" by simp
next
  case True
  moreover assume "tcp_step codes w (Answer i a) = Inr w'"
  ultimately obtain m s' as where i: "i < length (waiting w)" "m = Inr (s', as)"
    and m: "run_task codes (flags w) (waiting w ! i) a (socket w) = Some m"
    and w': "w' = absorb (flags w) (rest i (waiting w)) w (s', as)"
    by (auto simp: exec_bind_Inr)
  have "length (rest i (waiting w)) = length (waiting w) - 1" using i(1) by simp
  with task_outstanding [OF m i(2)] show ?thesis
    using i(1) unfolding w' outstanding_def absorb_given absorb_waiting reports_simps
      reports_filter length_append by linarith
qed

fun is_call :: "'h tcp_event \<Rightarrow> bool" where
  "is_call (Call c) = True"
| "is_call (Answer i a) = False"

lemma run_outstanding:
  "run (tcp_step codes) w es = Inr w' \<Longrightarrow>
   outstanding w' \<le> outstanding w + length (List.filter is_call es)"
proof (induction es arbitrary: w)
  case (Cons e es)
  then obtain v where v: "tcp_step codes w e = Inr v" "run (tcp_step codes) v es = Inr w'"
    by (auto simp: exec_bind_Inr)
  then have "outstanding w' \<le> outstanding v + length (List.filter is_call es)"
    using Cons.IH by blast
  moreover have "outstanding v \<le> outstanding w + (if is_call e then 1 else 0)"
    using v(1) call_outstanding answer_outstanding by (cases e) fastforce+
  ultimately show ?case by (cases "is_call e") auto
qed simp

section \<open>Properties\<close>


definition linux_codes :: asio_codes where
  "linux_codes = \<lparr>basic = (\<lambda>n. if n = 125 then Some Operation_Aborted
     else if n = 104 then Some (Basic_Tcp ConnectionReset) else None), eof = 2\<rparr>"

definition sample_events :: "nat tcp_event list" where
  "sample_events = [Call (Call_Open 1), Answer 0 Run_Task, Call (Call_Read 2),
     Answer 0 (Read_Answer (Inr [5, 1, 0])), Call (Call_Continue 3), Answer 0 Run_Task,
     Call (Call_Read 4), Call (Call_Write [7] 5), Answer 1 (Write_Answer (Inr 1)),
     Answer 0 (Read_Answer (Inl \<lparr>bcategory = Misc_Category, bvalue = 2\<rparr>))]"


text \<open>
  A peer that ends the stream while the flow is still negotiating is not handled: the read
  that meets the end of the stream before the flow is established stops at an assertion of the
  state machine.
\<close>

theorem tcp_eof_while_establishing:
  assumes "canceled c st = Inr False" "reading (ts_machine s)" "state (ts_machine s) = Establishing"
    and "convert_boost_error codes ec = Inr (common_error EndOfFile)"
  shows "tcp_on_read codes st c h rs (Inl ec) s = Inl Assert_Failed"
  using assms by (simp add: tcp_on_read_def read_end_def read_close_def)

theorem tcp_eof_while_establishing_witness:
  "tcp_on_read linux_codes [False] (Some 0) (1::nat) [8192]
     (Inl \<lparr>bcategory = Misc_Category, bvalue = 2\<rparr>)
     ((tcp_socket_new Local (session_new 0 None) (Some 0) None None None)
        \<lparr>ts_machine := (fsm_new Local)\<lparr>state := Establishing, reading := True\<rparr>\<rparr>) =
   Inl Assert_Failed"
  by (rule tcp_eof_while_establishing)
    (simp_all add: canceled_def convert_boost_error_def linux_codes_def)

text \<open>
  Closing the write side does not cancel a write that is under way, although the interface
  says that it should: the write's answer, whatever it is, then stops at an assertion.
\<close>

theorem tcp_close_during_write:
  assumes "write_begin (ts_machine s) = Inr m" "tcp_write new xs h s = Inr (s1, as)"
    and "tcp_close_write codes ec new' h' s1 = Inr (s2, bs)"
    and "canceled new st = Inr False"
  shows "tcp_on_written codes (fold flag_effect bs st) new h (length xs) r s2 = Inl Assert_Failed"
  using assms
  by (auto simp: tcp_write_def Let_def tcp_close_write_def exec_bind_Inr write_close_begin_def
      boost_assert_Inr tcp_on_written_def write_end_def)

theorem tcp_close_during_write_witness:
  "\<exists>s1 s2 as bs.
     tcp_write (Some 0) [1] (4::nat)
       ((tcp_socket_new Local (session_new 0 None) None None None None)
          \<lparr>ts_machine := (fsm_new Local)\<lparr>state := Established\<rparr>\<rparr>) = Inr (s1, as) \<and>
     tcp_close_write linux_codes \<lparr>bcategory = System_Category, bvalue = 0\<rparr> (Some 1) (5::nat) s1 =
       Inr (s2, bs) \<and>
     tcp_on_written linux_codes (fold flag_effect bs [False, False]) (Some 0) (4::nat) 1 (Inr 1) s2 =
       Inl Assert_Failed"
proof -
  let ?s = "(tcp_socket_new Local (session_new 0 None) None None None None)
          \<lparr>ts_machine := (fsm_new Local)\<lparr>state := Established\<rparr>\<rparr>"
  obtain s1 as where s1: "tcp_write (Some 0) [1] (4::nat) ?s = Inr (s1, as)"
    "ts_machine s1 = (fsm_new Local)\<lparr>state := Established, writing := True\<rparr>"
    by (simp add: tcp_write_def write_begin_def is_writable_def fsm_new_def Let_def)
  obtain s2 bs where s2: "tcp_close_write linux_codes \<lparr>bcategory = System_Category, bvalue = 0\<rparr>
      (Some 1) (5::nat) s1 = Inr (s2, bs)"
    by (simp add: tcp_close_write_def convert_boost_error_def write_close_begin_def s1(2) fsm_new_def)
  have "write_begin (ts_machine ?s) = Inr ((fsm_new Local)\<lparr>state := Established, writing := True\<rparr>)"
    by (simp add: write_begin_def is_writable_def fsm_new_def)
  from tcp_close_during_write [OF this s1(1) s2, of "[False, False]" "Inr 1"] s1 s2
  show ?thesis by (auto simp: canceled_def)
qed

end
