(* ===== verification/Relayed_Flows.thy ===== *)
theory Relayed_Flows
  imports Tunnel Tcp_Socket Socks5_Server Http_Server_Laws Tls_Flow
begin

text \<open>
  What the tunnel takes for granted of the flows it relays, and which flows keep to it.  In
  \<open>Tunnel\<close> a flow is its state machine, moved by the calls of the tunnel and by the answers it
  gets; here the flows themselves are shown to move that way.
\<close>

section \<open>The moves of a relayed flow\<close>

datatype relay_move =
    Starts_Read | Gets_Read "bytes result" | Starts_Write | Gets_Written "unit result"
  | Starts_Close | Gets_Closed

fun move_machine :: "fsm \<Rightarrow> relay_move \<Rightarrow> fsm exec" where
  "move_machine m Starts_Read = read_begin m"
| "move_machine m (Gets_Read r) = read_answered r m"
| "move_machine m Starts_Write = write_begin m"
| "move_machine m (Gets_Written r) = write_answered r m"
| "move_machine m Starts_Close = write_close_begin m"
| "move_machine m Gets_Closed = write_close_end m"

text \<open>The same as calls of the state machine.\<close>

fun move_events :: "relay_move \<Rightarrow> fsm_event list" where
  "move_events Starts_Read = [Read_Begin]"
| "move_events (Gets_Read (Inr xs)) = [Read_End]"
| "move_events (Gets_Read (Inl e)) = [Read_End, if is_eof e then Read_Closed else Errored]"
| "move_events Starts_Write = [Write_Begin]"
| "move_events (Gets_Written (Inr u)) = [Write_End]"
| "move_events (Gets_Written (Inl e)) = [Write_End, Errored]"
| "move_events Starts_Close = [Write_Close_Begin]"
| "move_events Gets_Closed = [Write_Close_End]"

lemma exec_bind_Inr_id [simp]: "exec_bind m Inr = m"
  by (cases m) simp_all

lemma move_machine_run: "move_machine m e = run fsm_step m (move_events e)"
  by (cases e rule: move_events.cases)
    (auto simp: read_answered_def write_answered_def intro!: exec_bind_cong)

text \<open>A machine that is open is one that has been established, in whatever phase since.\<close>

lemma open_machine_iff: "open_machine m \<longleftrightarrow> fsm_ok m \<and> Established \<le> state m"
  by (cases "state m") (auto simp: open_machine_def less_eq_flow_state_def)

lemma move_machine_open:
  assumes "open_machine m" "move_machine m e = Inr m'"
  shows "open_machine m'"
  using assms fsm_machine.inv_run fsm_machine.rank_run order_trans
  unfolding open_machine_iff move_machine_run by blast

fun path :: "('s \<Rightarrow> 'e \<Rightarrow> 's \<Rightarrow> bool) \<Rightarrow> 's \<Rightarrow> 'e list \<Rightarrow> 's \<Rightarrow> bool" where
  "path R s [] t \<longleftrightarrow> s = t"
| "path R s (e # es) t \<longleftrightarrow> (\<exists>u. R s e u \<and> path R u es t)"

section \<open>The interface\<close>

text \<open>
  A relayed flow: each call it accepts, and each answer it hands on, moves its machine as the
  tunnel expects.
\<close>

locale relayed_flow =
  fixes machine :: "'s \<Rightarrow> fsm" and moves :: "'s \<Rightarrow> relay_move \<Rightarrow> 's \<Rightarrow> bool"
  assumes move: "moves s e t \<Longrightarrow> move_machine (machine s) e = Inr (machine t)"
begin

lemma path_tracks: "path moves s es t \<Longrightarrow> run move_machine (machine s) es = Inr (machine t)"
  by (induction es arbitrary: s) (auto simp: move)

lemma path_stays_open: "path moves s es t \<Longrightarrow> open_machine (machine s) \<Longrightarrow> open_machine (machine t)"
  by (induction es arbitrary: s) (auto dest: move intro: move_machine_open)

lemma follows:
  "path moves s es t \<Longrightarrow> run move_machine (machine s) es = Inr (machine t) \<and>
     (open_machine (machine s) \<longrightarrow> open_machine (machine t))"
  using path_tracks path_stays_open by blast

end

section \<open>The TCP socket\<close>

inductive tcp_move :: "asio_codes \<Rightarrow> tcp_socket \<Rightarrow> relay_move \<Rightarrow> tcp_socket \<Rightarrow> bool" for codes where
  "tcp_read new (h :: nat) s = Inr (s', as) \<Longrightarrow> tcp_move codes s Starts_Read s'"
| "tcp_on_read codes st c (h :: nat) rs r s = Inr (s', as) \<Longrightarrow> Give_Data h q \<in> set as \<Longrightarrow>
     tcp_move codes s (Gets_Read q) s'"
| "tcp_write new xs (h :: nat) s = Inr (s', as) \<Longrightarrow> tcp_move codes s Starts_Write s'"
| "tcp_on_written codes st c (h :: nat) n w s = Inr (s', as) \<Longrightarrow> Give h u \<in> set as \<Longrightarrow>
     tcp_move codes s (Gets_Written u) s'"
| "tcp_close_write codes ec new (h :: nat) s = Inr (s', as) \<Longrightarrow> tcp_move codes s Starts_Close s'"
| "tcp_on_write_closed st c (h :: nat) e s = Inr (s', as) \<Longrightarrow> Give h u \<in> set as \<Longrightarrow>
     tcp_move codes s Gets_Closed s'"

lemma tcp_read_answer:
  "tcp_on_read codes st c h rs r s = Inr (s', as) \<Longrightarrow> Give_Data h q \<in> set as \<Longrightarrow>
   read_answered q (ts_machine s) = Inr (ts_machine s')"
  by (cases r)
    (auto simp: tcp_on_read_def exec_bind_Inr read_answered_def split: if_splits)

lemma tcp_write_answer:
  "tcp_on_written codes st c h n w s = Inr (s', as) \<Longrightarrow> Give h u \<in> set as \<Longrightarrow>
   write_answered u (ts_machine s) = Inr (ts_machine s')"
  by (cases w)
    (auto simp: tcp_on_written_def exec_bind_Inr boost_assert_Inr write_answered_def split: if_splits)

lemma tcp_moves: "tcp_move codes s e t \<Longrightarrow> move_machine (ts_machine s) e = Inr (ts_machine t)"
  by (induction rule: tcp_move.induct)
    (auto simp: tcp_read_answer tcp_write_answer tcp_read_def tcp_write_def tcp_close_write_def
      tcp_on_write_closed_def exec_bind_Inr Let_def split: option.splits if_splits)

interpretation tcp_flow: relayed_flow ts_machine "tcp_move codes"
  by unfold_locales (rule tcp_moves)

section \<open>The SOCKS5 server flow\<close>

text \<open>A failure to close is left out: the flow then counts as closed while it still reads.\<close>

inductive socks5_move :: "'h socks5_server \<Rightarrow> relay_move \<Rightarrow> 'h socks5_server \<Rightarrow> bool" where
  "server_read tok h s = Inr (s', as) \<Longrightarrow> socks5_move s Starts_Read s'"
| "server_on_read h r s = Inr (s', as) \<Longrightarrow> Give_Data h q \<in> set as \<Longrightarrow> socks5_move s (Gets_Read q) s'"
| "server_write tok xs h s = Inr (s', as) \<Longrightarrow> socks5_move s Starts_Write s'"
| "server_on_written h w s = Inr (s', as) \<Longrightarrow> Give h u \<in> set as \<Longrightarrow> socks5_move s (Gets_Written u) s'"
| "server_close_write tok h s = Inr (s', as) \<Longrightarrow> socks5_move s Starts_Close s'"
| "server_on_write_closed h (Inr ()) s = Inr (s', as) \<Longrightarrow> socks5_move s Gets_Closed s'"

lemma socks5_read_answer:
  "server_on_read h r s = Inr (s', as) \<Longrightarrow> Give_Data h q \<in> set as \<Longrightarrow>
   read_answered q (ss_machine s) = Inr (ss_machine s')"
  by (cases r) (auto simp: server_on_read_def exec_bind_Inr read_answered_def split: if_splits)

lemma socks5_write_answer:
  "server_on_written h w s = Inr (s', as) \<Longrightarrow> Give h u \<in> set as \<Longrightarrow>
   write_answered u (ss_machine s) = Inr (ss_machine s')"
  by (cases w) (auto simp: server_on_written_def exec_bind_Inr write_answered_def)

lemma socks5_moves: "socks5_move s e t \<Longrightarrow> move_machine (ss_machine s) e = Inr (ss_machine t)"
  by (induction rule: socks5_move.induct)
    (auto simp: socks5_read_answer socks5_write_answer server_read_def server_write_def
      server_close_write_def server_on_write_closed_def exec_bind_Inr)

interpretation socks5_flow: relayed_flow ss_machine socks5_move
  by unfold_locales (rule socks5_moves)

section \<open>The HTTP server flow\<close>

text \<open>The errors of the rewriter are no ends of stream.\<close>

lemma keep_pending_error:
  assumes "keep_pending w = Inr (Inl e, w')"
  shows "\<not> is_eof e"
  using assms
  by (auto simp: keep_pending_def Let_def exec_bind_Inr rewriter_error_def from_parser_error_def
      is_eof_def error_of_def add_info_def create_info_dict_def split: if_splits option.splits)

lemma hs_rewrite_error:
  assumes "hs_rewrite env new b s = Some (Inr (Inl e, b', s'))"
  shows "\<not> is_eof e \<and> hs_machine s' = hs_machine s"
  using assms
  by (auto simp: hs_rewrite_def rewrite_buffer_def exec_bind_Inr Let_def dest!: keep_pending_error
      split: if_splits option.splits sum.splits)

lemma hs_rewrite_machine:
  "hs_rewrite env new b s = Some (Inr (r, b', s')) \<Longrightarrow> hs_machine s' = hs_machine s"
  by (auto simp: hs_rewrite_def exec_bind_Inr)

inductive http_move :: "('h, 'p) http_server \<Rightarrow> relay_move \<Rightarrow> ('h, 'p) http_server \<Rightarrow> bool" where
  "hs_read tok h s = Inr (s', as) \<Longrightarrow> http_move s Starts_Read s'"
| "hs_on_posted st c h s = Inr (s', as) \<Longrightarrow> Give_Data h q \<in> set as \<Longrightarrow> http_move s (Gets_Read q) s'"
| "hs_on_read env new h r s = Some (Inr (s', as)) \<Longrightarrow> Give_Data h q \<in> set as \<Longrightarrow>
     http_move s (Gets_Read q) s'"
| "hs_write tok xs h s = Inr (s', as) \<Longrightarrow> http_move s Starts_Write s'"
| "hs_on_written h w s = Inr (s', as) \<Longrightarrow> Give h u \<in> set as \<Longrightarrow> http_move s (Gets_Written u) s'"
| "hs_close_write tok h s = Inr (s', as) \<Longrightarrow> http_move s Starts_Close s'"
| "hs_on_write_closed h (Inr ()) s = Inr (s', as) \<Longrightarrow> http_move s Gets_Closed s'"

lemma http_read_answer:
  assumes "hs_on_read env new h r s = Some (Inr (s', as))" "Give_Data h q \<in> set as"
  shows "read_answered q (hs_machine s) = Inr (hs_machine s')"
proof -
  obtain m where m: "read_end (hs_machine s) = Inr m"
    using assms(1) by (cases "read_end (hs_machine s)") (auto simp: hs_on_read_def)
  consider e where "r = Inl e" | b where "r = Inr b" "is_connect (front s)"
    | b res b' s1 where "r = Inr b" "\<not> is_connect (front s)"
        "hs_rewrite env new b (s\<lparr>hs_machine := m\<rparr>) = Some (Inr (res, b', s1))"
    using assms(1) m
    by (cases r; cases "is_connect (front s)") (auto simp: hs_on_read_def Let_def exec_bind_Inr)
  then show ?thesis
  proof cases
    case 3
    then show ?thesis
      using assms m hs_rewrite_machine [OF 3(3)] hs_rewrite_error [of env new b "s\<lparr>hs_machine := m\<rparr>" _ b' s1]
      by (cases res) (auto simp: hs_on_read_def Let_def read_answered_def)
  qed (use assms m in \<open>auto simp: hs_on_read_def Let_def exec_bind_Inr read_answered_def split: if_splits\<close>)
qed

lemma http_write_answer:
  "hs_on_written h w s = Inr (s', as) \<Longrightarrow> Give h u \<in> set as \<Longrightarrow>
   write_answered u (hs_machine s) = Inr (hs_machine s')"
  by (cases w) (auto simp: hs_on_written_def write_answered_def exec_bind_Inr)

lemma http_posted_answer:
  "hs_on_posted st c h s = Inr (s', as) \<Longrightarrow> Give_Data h q \<in> set as \<Longrightarrow>
   read_answered q (hs_machine s) = Inr (hs_machine s')"
  by (auto simp: hs_on_posted_def unless_canceled_def exec_bind_Inr read_answered_def split: if_splits)

lemma http_moves: "http_move s e t \<Longrightarrow> move_machine (hs_machine s) e = Inr (hs_machine t)"
  by (induction rule: http_move.induct)
    (auto simp: http_read_answer http_write_answer http_posted_answer hs_read_def hs_write_def
      hs_close_write_def hs_on_write_closed_def exec_bind_Inr)

interpretation http_flow: relayed_flow hs_machine http_move
  by unfold_locales (rule http_moves)

section \<open>Properties\<close>



text \<open>
  The TLS flow is not such a flow: it hands an end of stream of the next hop on to its reader
  and leaves its machine where it was, still reading.
\<close>

theorem tls_end_of_stream_unnoticed:
  assumes "tf_read_handler s = Some h" "canceled c st = Inr False" "is_eof e"
    and "reading (tf_machine s)"
  shows "\<exists>s'. tf_on_next_read env st nh c (Inl e) s = Some (Inr (s', [Give_Data h (Inl e)])) \<and>
     tf_machine s' = tf_machine s \<and> read_answered (Inl e) (tf_machine s) \<noteq> Inr (tf_machine s')"
proof -
  have "read_answered (Inl e) m \<noteq> Inr m" if "reading m" for m
    using that by (auto simp: read_answered_def read_end_def read_close_def Let_def exec_bind_Inr
        boost_assert_Inr assms(3) split: if_splits dest!: arg_cong [where f = reading])
  then show ?thesis
    using assms
    by (simp add: tf_on_next_read_def tf_report_or_keep_def tf_report_error_def
        tf_read_report_error_def Let_def)
qed

end
