(* ===== verification/Tunnel_Flows.thy ===== *)
theory Tunnel_Flows
  imports Relayed_Flows
begin

text \<open>
  The flows of a tunnel as the tunnel uses them while it forwards: a flow is asked for its
  state machine, told to read, write or close, hands on answers, and is destroyed with the
  tunnel.  The interface says what the tunnel relies on; \<open>TcpSocket\<close> (src/transport/tcp_socket.cc)
  is shown to provide it, on either side.
\<close>

section \<open>The operations\<close>

text \<open>The closures the tunnel passes to the flow on one side of it.\<close>

fun data_task :: "flow_type \<Rightarrow> tunnel_task" where
  "data_task Local = Local_Data"
| "data_task Remote = Remote_Data"

fun written_task :: "flow_type \<Rightarrow> tunnel_task" where
  "written_task Local = Local_Written"
| "written_task Remote = Remote_Written"

fun closed_task :: "flow_type \<Rightarrow> tunnel_task" where
  "closed_task Local = Local_Write_Closed"
| "closed_task Remote = Remote_Write_Closed"

text \<open>A closure is called with what was read, or with how a write or a close went.\<close>

datatype flow_report = Data_Report tunnel_task "bytes result" | Done_Report tunnel_task "unit result"

text \<open>
  \<open>'a\<close> is what reaches the flow from below, \<open>'x\<close> what the system answers at once to a close.
  \<open>op_token\<close> is the token that the next call returns, \<open>op_cancel\<close> cancels a token a call has
  returned; \<open>op_sent\<close> and \<open>op_got\<close> are the bytes given to the system and delivered by it so far.
\<close>

record ('f, 'a, 'x) flow_ops =
  op_machine :: "'f \<Rightarrow> fsm"
  op_read :: "tunnel_task \<Rightarrow> 'f \<Rightarrow> 'f exec"
  op_write :: "bytes \<Rightarrow> tunnel_task \<Rightarrow> 'f \<Rightarrow> 'f exec"
  op_close :: "'x \<Rightarrow> tunnel_task \<Rightarrow> 'f \<Rightarrow> 'f exec"
  op_answer :: "'a \<Rightarrow> 'f \<Rightarrow> ('f \<times> flow_report list) exec"
  op_token :: "'f \<Rightarrow> cancelable"
  op_cancel :: "cancelable \<Rightarrow> 'f \<Rightarrow> 'f"
  op_destroy :: "'f \<Rightarrow> 'f"
  op_sent :: "'f \<Rightarrow> bytes"
  op_got :: "'f \<Rightarrow> bytes"

definition same_bytes :: "('f, 'a, 'x) flow_ops \<Rightarrow> 'f \<Rightarrow> 'f \<Rightarrow> bool" where
  "same_bytes ops f f' \<longleftrightarrow> op_sent ops f' = op_sent ops f \<and> op_got ops f' = op_got ops f"

text \<open>The move of the state machine that a report stands for.\<close>

fun report_move :: "flow_type \<Rightarrow> flow_report \<Rightarrow> relay_move option" where
  "report_move sd (Data_Report k q) = (if k = data_task sd then Some (Gets_Read q) else None)"
| "report_move sd (Done_Report k r) =
     (if k = written_task sd then Some (Gets_Written r)
      else if k = closed_task sd then Some Gets_Closed else None)"

fun report_bytes :: "flow_report \<Rightarrow> bytes" where
  "report_bytes (Data_Report k (Inr xs)) = xs"
| "report_bytes _ = []"

section \<open>The interface\<close>

text \<open>
  \<open>ok\<close> is a flow in use; \<open>held\<close> one whose tokens may have been canceled, which is only good for
  being destroyed; \<open>dead\<close> one that was, and calls nothing any more.
\<close>

locale tunnel_flow =
  fixes ops :: "('f, 'a, 'x) flow_ops" and sd :: flow_type
    and ok held dead pending :: "'f \<Rightarrow> bool" and adm :: "'f \<Rightarrow> 'a \<Rightarrow> bool"
  assumes read_law:
    "ok f \<Longrightarrow> open_machine (op_machine ops f) \<Longrightarrow> read_begin (op_machine ops f) = Inr m \<Longrightarrow>
     \<exists>f'. op_read ops (data_task sd) f = Inr f' \<and> ok f' \<and> op_machine ops f' = m \<and> same_bytes ops f f'"
  and write_law:
    "ok f \<Longrightarrow> open_machine (op_machine ops f) \<Longrightarrow> write_begin (op_machine ops f) = Inr m \<Longrightarrow>
     \<exists>f'. op_write ops xs (written_task sd) f = Inr f' \<and> ok f' \<and> op_machine ops f' = m \<and>
        op_sent ops f' = op_sent ops f @ xs \<and> op_got ops f' = op_got ops f"
  and close_law:
    "ok f \<Longrightarrow> open_machine (op_machine ops f) \<Longrightarrow> is_write_closable (op_machine ops f) \<Longrightarrow>
     write_close_begin (op_machine ops f) = Inr m \<Longrightarrow>
     \<exists>f'. op_close ops x (closed_task sd) f = Inr f' \<and> ok f' \<and> op_machine ops f' = m \<and> same_bytes ops f f'"
  and answer_law:
    "ok f \<Longrightarrow> open_machine (op_machine ops f) \<Longrightarrow> adm f a \<Longrightarrow>
     \<exists>f' rs. op_answer ops a f = Inr (f', rs) \<and> ok f' \<and> op_sent ops f' = op_sent ops f \<and>
       (rs = [] \<and> op_machine ops f' = op_machine ops f \<and> op_got ops f' = op_got ops f \<or>
        (\<exists>rp e. rs = [rp] \<and> report_move sd rp = Some e \<and>
           move_machine (op_machine ops f) e = Inr (op_machine ops f') \<and>
           op_got ops f' = op_got ops f @ report_bytes rp))"
  and cancel_law:
    "ok f \<Longrightarrow> \<not> reading (op_machine ops f) \<Longrightarrow> \<not> writing (op_machine ops f) \<Longrightarrow> \<not> write_closing (op_machine ops f) \<Longrightarrow>
     ok (op_cancel ops c f) \<and> op_machine ops (op_cancel ops c f) = op_machine ops f \<and>
     same_bytes ops f (op_cancel ops c f)"
  and held_law: "ok f \<Longrightarrow> held f"
  and held_cancel_law: "held f \<Longrightarrow> held (op_cancel ops c f) \<and> same_bytes ops f (op_cancel ops c f)"
  and destroy_law: "held f \<Longrightarrow> dead (op_destroy ops f) \<and> same_bytes ops f (op_destroy ops f)"
  and dead_law: "dead f \<Longrightarrow> \<exists>f'. op_answer ops a f = Inr (f', []) \<and> dead f' \<and> same_bytes ops f f'"
  and pending_law:
    "ok f \<Longrightarrow> reading (op_machine ops f) \<or> writing (op_machine ops f) \<or> write_closing (op_machine ops f) \<Longrightarrow>
     pending f"

section \<open>The TCP socket as a flow of the tunnel\<close>

type_synonym tunnel_action = "(tunnel_task, tunnel_task tcp_task) action"

record tcp_port =
  world :: "tunnel_task tcp_world"
  sent :: bytes
  got :: bytes

fun written_bytes :: "('h, 'k) action \<Rightarrow> bytes" where
  "written_bytes (Do_Write xs k) = xs"
| "written_bytes _ = []"

definition port_call :: "asio_codes \<Rightarrow> tunnel_task tcp_call \<Rightarrow> tcp_port \<Rightarrow> tcp_port exec" where
  "port_call codes c p =
     (let w = world p
      in exec_bind (run_call codes (Some (length (flags w))) c (socket w)) (\<lambda>r.
         Inr (p\<lparr>world := absorb (flags w @ [False]) (tcp_world.waiting w) w r,
                sent := sent p @ concat (map written_bytes (snd r))\<rparr>)))"

text \<open>What a read that is not canceled gets from the system.\<close>

fun delivered :: "tunnel_task tcp_world \<Rightarrow> nat \<Rightarrow> sys_answer \<Rightarrow> bytes" where
  "delivered w i (Read_Answer (Inr xs)) =
     (if i < length (tcp_world.waiting w) \<and> kind (tcp_world.waiting w ! i) = K_Read \<and>
         canceled (token (tcp_world.waiting w ! i)) (flags w) = Inr False
      then xs else [])"
| "delivered w i _ = []"

fun report_of :: "(tunnel_task, 'k) action \<Rightarrow> flow_report list" where
  "report_of (Give h r) = [Done_Report h r]"
| "report_of (Give_Data h q) = [Data_Report h q]"
| "report_of _ = []"

definition port_answer ::
  "asio_codes \<Rightarrow> nat \<times> sys_answer \<Rightarrow> tcp_port \<Rightarrow> (tcp_port \<times> flow_report list) exec" where
  "port_answer codes ia p =
     (case ia of (i, a) \<Rightarrow>
        exec_bind (tcp_step codes ((world p)\<lparr>given := []\<rparr>) (Answer i a)) (\<lambda>w.
        Inr (p\<lparr>world := w, got := got p @ delivered (world p) i a\<rparr>, concat (map report_of (given w)))))"

definition port_destroy :: "tcp_port \<Rightarrow> tcp_port" where
  "port_destroy p =
     (let w = world p
      in p\<lparr>world := w\<lparr>flags :=
           fold flag_effect (tcp_destroy (socket w) :: tunnel_action list) (flags w)\<rparr>\<rparr>)"

definition port_cancel :: "cancelable \<Rightarrow> tcp_port \<Rightarrow> tcp_port" where
  "port_cancel c p = (let w = world p in p\<lparr>world := w\<lparr>flags := cancel c (flags w)\<rparr>\<rparr>)"

definition tcp_ops :: "asio_codes \<Rightarrow> (tcp_port, nat \<times> sys_answer, boost_code) flow_ops" where
  "tcp_ops codes =
     \<lparr>op_machine = (\<lambda>p. ts_machine (socket (world p))),
      op_read = (\<lambda>h. port_call codes (Call_Read h)),
      op_write = (\<lambda>xs h. port_call codes (Call_Write xs h)),
      op_close = (\<lambda>ec h. port_call codes (Call_Close_Write ec h)),
      op_answer = port_answer codes,
      op_token = (\<lambda>p. Some (length (flags (world p)))),
      op_cancel = port_cancel,
      op_destroy = port_destroy,
      op_sent = sent,
      op_got = got\<rparr>"

text \<open>
  A socket in use by the tunnel: the closures that can still be called are the tunnel's, one
  for each thing the state machine says is under way.
\<close>

fun tunnel_owns :: "flow_type \<Rightarrow> tunnel_task tcp_task \<Rightarrow> bool" where
  "tunnel_owns sd (Sock_Read c h rs) = (h = data_task sd)"
| "tunnel_owns sd (Sock_Written c h n) = (h = written_task sd)"
| "tunnel_owns sd (Sock_Write_Closed c h e) = (h = closed_task sd)"
| "tunnel_owns sd _ = False"

definition live_tasks :: "tunnel_task tcp_world \<Rightarrow> tunnel_task tcp_task set" where
  "live_tasks w = {t \<in> set (tcp_world.waiting w). canceled (token t) (flags w) = Inr False}"

definition port_in_use :: "flow_type \<Rightarrow> tcp_port \<Rightarrow> bool" where
  "port_in_use sd p \<longleftrightarrow>
     (let w = world p; m = ts_machine (socket w)
      in world_ok w \<and> (\<forall>t \<in> live_tasks w. tunnel_owns sd t) \<and>
         (reading m \<longrightarrow> live K_Read (flags w) (tcp_world.waiting w) = 1) \<and>
         (writing m \<longrightarrow> live K_Write (flags w) (tcp_world.waiting w) = 1) \<and>
         (write_closing m \<longrightarrow> live K_Close (flags w) (tcp_world.waiting w) = 1))"

definition port_held :: "flow_type \<Rightarrow> tcp_port \<Rightarrow> bool" where
  "port_held sd p \<longleftrightarrow> (let w = world p in world_ok w \<and> (\<forall>t \<in> live_tasks w. tunnel_owns sd t))"

definition port_dead :: "tcp_port \<Rightarrow> bool" where
  "port_dead p \<longleftrightarrow> tokens_ok (flags (world p)) (tcp_world.waiting (world p)) (socket (world p)) \<and>
     live_tasks (world p) = {}"

definition port_pending :: "tcp_port \<Rightarrow> bool" where
  "port_pending p \<longleftrightarrow> live_tasks (world p) \<noteq> {}"

definition port_admissible :: "asio_codes \<Rightarrow> tcp_port \<Rightarrow> nat \<times> sys_answer \<Rightarrow> bool" where
  "port_admissible codes p ia = (case ia of (i, a) \<Rightarrow> tcp_admissible codes (world p) (Answer i a))"

section \<open>The calls\<close>

lemma port_in_useD:
  assumes "port_in_use sd p"
  shows "world_ok (world p)" "\<And>t. t \<in> live_tasks (world p) \<Longrightarrow> tunnel_owns sd t"
    "reading (ts_machine (socket (world p))) \<Longrightarrow> live K_Read (flags (world p)) (tcp_world.waiting (world p)) = 1"
    "writing (ts_machine (socket (world p))) \<Longrightarrow> live K_Write (flags (world p)) (tcp_world.waiting (world p)) = 1"
    "write_closing (ts_machine (socket (world p))) \<Longrightarrow>
       live K_Close (flags (world p)) (tcp_world.waiting (world p)) = 1"
    "tokens_ok (flags (world p)) (tcp_world.waiting (world p)) (socket (world p))"
    "counts_ok (flags (world p)) (tcp_world.waiting (world p)) (ts_machine (socket (world p)))"
  using assms by (auto simp: port_in_use_def Let_def world_ok_def)

lemma live_tasks_more:
  assumes "tokens_ok (flags w) (tcp_world.waiting w) s" "tcp_world.waiting w' = tcp_world.waiting w @ [t]"
    and "flags w' = flags w @ [False]" "token t = Some (length (flags w))"
  shows "live_tasks w' = insert t (live_tasks w)"
  using assms by (auto simp: live_tasks_def tokens_ok_def canceled_append)

lemma live_more:
  assumes "tokens_ok (flags w) (tcp_world.waiting w) s" "tcp_world.waiting w' = tcp_world.waiting w @ [t]"
    and "flags w' = flags w @ [False]" "token t = Some (length (flags w))"
  shows "live k (flags w') (tcp_world.waiting w') = live k (flags w) (tcp_world.waiting w) + of_bool (kind t = k)"
  using assms frame_new(1) [OF assms(1)] by (simp add: canceled_append)

text \<open>A call that makes one closure keeps the socket in use.\<close>

lemma live_at_most_one:
  assumes "world_ok w"
  shows "live K_Read (flags w) (tcp_world.waiting w) \<le> 1" "live K_Write (flags w) (tcp_world.waiting w) \<le> 1"
    "live K_Close (flags w) (tcp_world.waiting w) \<le> 1"
  using assms by (auto simp: world_ok_def counts_ok_def)

lemma in_use_more:
  assumes "port_in_use sd p" "world_ok w" "world p' = w"
    and f: "tcp_world.waiting w = tcp_world.waiting (world p) @ [t]" "flags w = flags (world p) @ [False]"
    and "token t = Some (length (flags (world p)))" "tunnel_owns sd t"
    and m: "reading (ts_machine (socket w)) \<longrightarrow> reading (ts_machine (socket (world p))) \<or> kind t = K_Read"
    "writing (ts_machine (socket w)) \<longrightarrow> writing (ts_machine (socket (world p))) \<or> kind t = K_Write"
    "write_closing (ts_machine (socket w)) \<longrightarrow> write_closing (ts_machine (socket (world p))) \<or> kind t = K_Close"
  shows "port_in_use sd p'"
proof -
  note ok = port_in_useD [OF assms(1)]
  note lv = live_more [OF ok(6) f assms(6)]
  note le = live_at_most_one [OF assms(2), unfolded lv]
  have "\<forall>u \<in> live_tasks w. tunnel_owns sd u"
    using ok(2) assms(7) by (simp add: live_tasks_more [OF ok(6) f assms(6)])
  moreover have "reading (ts_machine (socket w)) \<longrightarrow> live K_Read (flags w) (tcp_world.waiting w) = 1"
    using m(1) le(1) ok(3) unfolding lv by (cases "kind t = K_Read") simp_all
  moreover have "writing (ts_machine (socket w)) \<longrightarrow> live K_Write (flags w) (tcp_world.waiting w) = 1"
    using m(2) le(2) ok(4) unfolding lv by (cases "kind t = K_Write") simp_all
  moreover have "write_closing (ts_machine (socket w)) \<longrightarrow> live K_Close (flags w) (tcp_world.waiting w) = 1"
    using m(3) le(3) ok(5) unfolding lv by (cases "kind t = K_Close") simp_all
  ultimately show ?thesis using assms(2,3) by (simp add: port_in_use_def)
qed

lemma port_call_keeps:
  assumes "port_in_use sd p" "tcp_admissible codes (world p) (Call c)"
    and "run_call codes (Some (length (flags (world p)))) c (socket (world p)) = Inr (s, [a])"
    and "tasks_of a = [t]" "token t = Some (length (flags (world p)))" "tunnel_owns sd t"
    and "reading (ts_machine s) \<longrightarrow> reading (ts_machine (socket (world p))) \<or> kind t = K_Read"
    and "writing (ts_machine s) \<longrightarrow> writing (ts_machine (socket (world p))) \<or> kind t = K_Write"
    and "write_closing (ts_machine s) \<longrightarrow> write_closing (ts_machine (socket (world p))) \<or> kind t = K_Close"
  shows "\<exists>p'. port_call codes c p = Inr p' \<and> port_in_use sd p' \<and> socket (world p') = s \<and>
     sent p' = sent p @ written_bytes a \<and> got p' = got p"
proof -
  let ?w = "world p"
  define w' where "w' = absorb (flags ?w @ [False]) (tcp_world.waiting ?w) ?w (s, [a])"
  let ?p' = "p\<lparr>world := w', sent := sent p @ written_bytes a\<rparr>"
  note ok = port_in_useD [OF assms(1)]
  have step: "tcp_step codes ?w (Call c) = Inr w'" using assms(3) by (simp add: w'_def)
  then have w: "world_ok w'" using call_ok [OF ok(1) assms(2)] by simp
  have e: "flag_effect a st = st" for st using assms(4) by (cases a) simp_all
  have f: "tcp_world.waiting w' = tcp_world.waiting ?w @ [t]" "flags w' = flags ?w @ [False]" "socket w' = s"
    by (simp_all add: w'_def absorb_def e assms(4))
  have "port_in_use sd ?p'"
    using assms(7-9) f(3) by (intro in_use_more [OF assms(1) w _ f(1,2) assms(5,6)]) simp_all
  moreover have "port_call codes c p = Inr ?p'" using assms(3) by (simp add: port_call_def Let_def w'_def)
  ultimately show ?thesis using f by auto
qed

lemma admissible_open:
  assumes "port_in_use sd p" "open_machine (ts_machine (socket (world p)))"
  shows "\<not> link_pending (world p)"
  using port_in_useD(7) [OF assms(1)] assms(2)
  by (auto simp: link_pending_def counts_ok_def open_machine_def)

lemma port_read_ok:
  assumes "port_in_use sd p" "open_machine (ts_machine (socket (world p)))"
    and "read_begin (ts_machine (socket (world p))) = Inr m"
  shows "\<exists>p'. port_call codes (Call_Read (data_task sd)) p = Inr p' \<and> port_in_use sd p' \<and>
     ts_machine (socket (world p')) = m \<and> sent p' = sent p \<and> got p' = got p"
proof -
  let ?s = "socket (world p)" and ?new = "Some (length (flags (world p)))"
  have r: "is_readable (ts_machine ?s)" "m = (ts_machine ?s)\<lparr>reading := True\<rparr>"
    using assms(3) by (simp_all add: read_begin_def boost_assert_Inr)
  then have "\<not> reading (ts_machine ?s)" "\<not> read_closed (ts_machine ?s)"
    using open_readable [OF assms(2)] by simp_all
  then obtain rb where rb: "read_buffer ?s = Some rb"
    using port_in_useD(1) [OF assms(1)] by (auto simp: world_ok_def buffers_ok_def)
  have "\<exists>p'. port_call codes (Call_Read (data_task sd)) p = Inr p' \<and> port_in_use sd p' \<and>
      socket (world p') = ?s\<lparr>ts_read_cancelable := ?new, ts_machine := m, read_buffer := None\<rparr> \<and>
      sent p' = sent p @ written_bytes (Do_Read (Sock_Read ?new (data_task sd) (rb @ [tcp_read_size])) :: tunnel_action) \<and>
      got p' = got p"
    using r rb admissible_open [OF assms(1,2)] assms(1)
    by (intro port_call_keeps [where t = "Sock_Read ?new (data_task sd) (rb @ [tcp_read_size])"])
      (simp_all add: tcp_read_def read_begin_def)
  then show ?thesis by auto
qed

lemma port_write_ok:
  assumes "port_in_use sd p" "open_machine (ts_machine (socket (world p)))"
    and "write_begin (ts_machine (socket (world p))) = Inr m"
  shows "\<exists>p'. port_call codes (Call_Write xs (written_task sd)) p = Inr p' \<and> port_in_use sd p' \<and>
     ts_machine (socket (world p')) = m \<and> sent p' = sent p @ xs \<and> got p' = got p"
proof -
  let ?s = "socket (world p)" and ?new = "Some (length (flags (world p)))"
  let ?k = "Sock_Written ?new (written_task sd) (length xs)"
  have r: "is_writable (ts_machine ?s)" "m = (ts_machine ?s)\<lparr>writing := True\<rparr>"
    using assms(3) by (simp_all add: write_begin_def boost_assert_Inr)
  then have "\<not> writing (ts_machine ?s)" "\<not> write_closed (ts_machine ?s)"
    using open_writable [OF assms(2)] by simp_all
  then have wb: "write_buffer ?s = []"
    using port_in_useD(1) [OF assms(1)] by (auto simp: world_ok_def buffers_ok_def)
  have "\<exists>p'. port_call codes (Call_Write xs (written_task sd)) p = Inr p' \<and> port_in_use sd p' \<and>
      socket (world p') = ?s\<lparr>ts_write_cancelable := ?new, write_buffer := if xs = [] then [] else [xs],
        ts_machine := m\<rparr> \<and>
      sent p' = sent p @ written_bytes (Do_Write xs ?k :: tunnel_action) \<and> got p' = got p"
    using r wb admissible_open [OF assms(1,2)] assms(1)
    by (intro port_call_keeps [where t = ?k]) (auto simp: tcp_write_def write_begin_def)
  then show ?thesis by auto
qed

lemma port_close_ok:
  assumes "port_in_use sd p" "open_machine (ts_machine (socket (world p)))"
    and "is_write_closable (ts_machine (socket (world p)))"
    and "write_close_begin (ts_machine (socket (world p))) = Inr m"
  shows "\<exists>p'. port_call codes (Call_Close_Write ec (closed_task sd)) p = Inr p' \<and> port_in_use sd p' \<and>
     ts_machine (socket (world p')) = m \<and> sent p' = sent p \<and> got p' = got p"
proof -
  let ?s = "socket (world p)" and ?new = "Some (length (flags (world p)))"
  obtain e where e: "convert_boost_error codes ec = Inr e" using convert_total by blast
  let ?k = "Sock_Write_Closed ?new (closed_task sd) e"
  have w: "\<not> writing (ts_machine ?s)" using assms(2,3) by (simp add: is_write_closable_def open_writable)
  have r: "state (ts_machine ?s) = Established \<or> state (ts_machine ?s) = Closing"
    "\<not> write_closed (ts_machine ?s)" "\<not> write_closing (ts_machine ?s)"
    "m = (ts_machine ?s)\<lparr>state := Closing, writing := False, write_closing := True\<rparr>"
    using assms(4) by (auto simp: write_close_begin_def boost_assert_Inr)
  have "\<exists>p'. port_call codes (Call_Close_Write ec (closed_task sd)) p = Inr p' \<and> port_in_use sd p' \<and>
      socket (world p') = ?s\<lparr>ts_write_cancelable := ?new, ts_machine := m\<rparr> \<and>
      sent p' = sent p @ written_bytes (Do_Post ?k :: tunnel_action) \<and> got p' = got p"
    using r w e assms(1)
    by (intro port_call_keeps [where t = ?k]) (auto simp: tcp_close_write_def write_close_begin_def Let_def)
  then show ?thesis by auto
qed

section \<open>The answers\<close>

text \<open>What an answer leaves: one closure less, and perhaps more tokens canceled.\<close>

lemma live_tasks_rest:
  assumes "tokens_ok (flags w) (tcp_world.waiting w) s" "tcp_world.waiting w' = rest i (tcp_world.waiting w)"
    and "flags w' = flags w \<or> (\<exists>c. flags w' = cancel c (flags w))"
  shows "live_tasks w' \<subseteq> live_tasks w"
proof
  fix t assume t: "t \<in> live_tasks w'"
  then have "t \<in> set (tcp_world.waiting w)"
    using assms(2) set_without [of i "tcp_world.waiting w"] by (auto simp: live_tasks_def)
  moreover from this have "handle_ok (token t) (flags w)" using assms(1) by (simp add: tokens_ok_def)
  ultimately show "t \<in> live_tasks w" using t assms(3) still_live by (auto simp: live_tasks_def)
qed

lemma in_use_less:
  assumes "port_in_use sd p" "world_ok w" "world p' = w" "i < length (tcp_world.waiting (world p))"
    and f: "tcp_world.waiting w = rest i (tcp_world.waiting (world p))" "flags w = flags (world p)"
    and m: "reading (ts_machine (socket w)) \<longrightarrow>
              reading (ts_machine (socket (world p))) \<and> kind (tcp_world.waiting (world p) ! i) \<noteq> K_Read"
    "writing (ts_machine (socket w)) \<longrightarrow>
              writing (ts_machine (socket (world p))) \<and> kind (tcp_world.waiting (world p) ! i) \<noteq> K_Write"
    "write_closing (ts_machine (socket w)) \<longrightarrow>
              write_closing (ts_machine (socket (world p))) \<and> kind (tcp_world.waiting (world p) ! i) \<noteq> K_Close"
  shows "port_in_use sd p'"
proof -
  note ok = port_in_useD [OF assms(1)]
  have lv: "live k (flags w) (tcp_world.waiting w) = live k (flags (world p)) (tcp_world.waiting (world p))"
    if "kind (tcp_world.waiting (world p) ! i) \<noteq> k" for k
    using live_split [OF assms(4), of k "flags (world p)"] that by (simp add: f)
  have "\<forall>u \<in> live_tasks w. tunnel_owns sd u"
    using ok(2) live_tasks_rest [OF ok(6) f(1)] f(2) by blast
  moreover have "reading (ts_machine (socket w)) \<longrightarrow> live K_Read (flags w) (tcp_world.waiting w) = 1"
    using m(1) ok(3) lv [of K_Read] by auto
  moreover have "writing (ts_machine (socket w)) \<longrightarrow> live K_Write (flags w) (tcp_world.waiting w) = 1"
    using m(2) ok(4) lv [of K_Write] by auto
  moreover have "write_closing (ts_machine (socket w)) \<longrightarrow> live K_Close (flags w) (tcp_world.waiting w) = 1"
    using m(3) ok(5) lv [of K_Close] by auto
  ultimately show ?thesis using assms(2,3) by (simp add: port_in_use_def)
qed

lemma in_use_failed:
  assumes "port_in_use sd p" "world_ok w" "world p' = w"
    and "tcp_world.waiting w = rest i (tcp_world.waiting (world p))"
    and "\<exists>c. flags w = cancel c (flags (world p))" "ts_machine (socket w) = errored m"
  shows "port_in_use sd p'"
proof -
  note ok = port_in_useD [OF assms(1)]
  have "\<forall>u \<in> live_tasks w. tunnel_owns sd u"
    using ok(2) live_tasks_rest [OF ok(6) assms(4)] assms(5) by blast
  then show ?thesis using assms(2,3,6) by (simp add: port_in_use_def errored_def closed_def)
qed

lemma world_ok_given [simp]: "world_ok (w\<lparr>given := g\<rparr>) = world_ok w"
  by (simp add: world_ok_def)

text \<open>The law of an answer, for the three closures of the tunnel.\<close>

definition answered :: "flow_type \<Rightarrow> asio_codes \<Rightarrow> nat \<times> sys_answer \<Rightarrow> tcp_port \<Rightarrow> bool" where
  "answered sd codes ia p \<longleftrightarrow>
     (\<exists>p' rs. port_answer codes ia p = Inr (p', rs) \<and> port_in_use sd p' \<and> sent p' = sent p \<and>
        (rs = [] \<and> ts_machine (socket (world p')) = ts_machine (socket (world p)) \<and> got p' = got p \<or>
         (\<exists>rp e. rs = [rp] \<and> report_move sd rp = Some e \<and>
            move_machine (ts_machine (socket (world p))) e = Inr (ts_machine (socket (world p'))) \<and>
            got p' = got p @ report_bytes rp)))"

lemma live_answer:
  assumes "port_in_use sd p" "tcp_admissible codes (world p) (Answer i a)"
    and "i < length (tcp_world.waiting (world p))"
    and "run_task codes (flags (world p)) (tcp_world.waiting (world p) ! i) a (socket (world p)) = Some (Inr (s', as))"
    and "concat (map tasks_of as) = []" "concat (map report_of as) = [rp]" "report_move sd rp = Some e"
    and "move_machine (ts_machine (socket (world p))) e = Inr (ts_machine s')"
    and "delivered (world p) i a = report_bytes rp"
    and "fold flag_effect as (flags (world p)) = flags (world p) \<and>
        (reading (ts_machine s') \<longrightarrow> reading (ts_machine (socket (world p))) \<and>
           kind (tcp_world.waiting (world p) ! i) \<noteq> K_Read) \<and>
        (writing (ts_machine s') \<longrightarrow> writing (ts_machine (socket (world p))) \<and>
           kind (tcp_world.waiting (world p) ! i) \<noteq> K_Write) \<and>
        (write_closing (ts_machine s') \<longrightarrow> write_closing (ts_machine (socket (world p))) \<and>
           kind (tcp_world.waiting (world p) ! i) \<noteq> K_Close) \<or>
      (\<exists>c m. fold flag_effect as (flags (world p)) = cancel c (flags (world p)) \<and> ts_machine s' = errored m)"
  shows "answered sd codes (i, a) p"
proof -
  let ?w = "world p"
  define w where "w = absorb (flags ?w) (rest i (tcp_world.waiting ?w)) (?w\<lparr>given := []\<rparr>) (s', as)"
  let ?p' = "p\<lparr>world := w, got := got p @ delivered ?w i a\<rparr>"
  have step: "tcp_step codes (?w\<lparr>given := []\<rparr>) (Answer i a) = Inr w"
    using assms(3,4) by (simp add: w_def)
  have adm: "tcp_admissible codes (?w\<lparr>given := []\<rparr>) (Answer i a)" using assms(2) by (cases a) (simp_all split: sum.splits)
  have wok: "world_ok w"
    using answer_ok [OF _ adm] step port_in_useD(1) [OF assms(1)] by auto
  have f: "tcp_world.waiting w = rest i (tcp_world.waiting ?w)" "socket w = s'"
    "flags w = fold flag_effect as (flags ?w)" "given w = List.filter is_report as"
    using assms(5) by (simp_all add: w_def absorb_def)
  have "concat (map report_of (List.filter is_report bs)) = concat (map report_of bs)" for bs :: "tunnel_action list"
  proof (induction bs)
    case (Cons b bs)
    then show ?case by (cases b) simp_all
  qed simp
  then have "port_answer codes (i, a) p = Inr (?p', [rp])"
    using step f(4) assms(6) by (simp add: port_answer_def del: tcp_step.simps)
  moreover have "port_in_use sd ?p'"
    using assms(10)
  proof
    assume k: "fold flag_effect as (flags ?w) = flags ?w \<and>
        (reading (ts_machine s') \<longrightarrow> reading (ts_machine (socket ?w)) \<and> kind (tcp_world.waiting ?w ! i) \<noteq> K_Read) \<and>
        (writing (ts_machine s') \<longrightarrow> writing (ts_machine (socket ?w)) \<and> kind (tcp_world.waiting ?w ! i) \<noteq> K_Write) \<and>
        (write_closing (ts_machine s') \<longrightarrow>
           write_closing (ts_machine (socket ?w)) \<and> kind (tcp_world.waiting ?w ! i) \<noteq> K_Close)"
    show ?thesis
      by (rule in_use_less [OF assms(1) wok _ assms(3) f(1)]) (use k f in simp_all)
  next
    assume "\<exists>c m. fold flag_effect as (flags ?w) = cancel c (flags ?w) \<and> ts_machine s' = errored m"
    then obtain m where m: "ts_machine s' = errored m" "\<exists>c. fold flag_effect as (flags ?w) = cancel c (flags ?w)"
      by blast
    show ?thesis
      by (rule in_use_failed [OF assms(1) wok _ f(1)]) (use m f in simp_all)
  qed
  ultimately show ?thesis
    using assms(7-9) f(2) by (auto simp: answered_def)
qed


lemma read_live_answer:
  assumes "port_in_use sd p" "tcp_admissible codes (world p) (Answer i (Read_Answer r))"
    and "i < length (tcp_world.waiting (world p))" "tcp_world.waiting (world p) ! i = Sock_Read c h rs"
    and "canceled c (flags (world p)) = Inr False"
  shows "answered sd codes (i, Read_Answer r) p"
proof -
  let ?w = "world p" and ?s = "socket (world p)"
  have "Sock_Read c h rs \<in> live_tasks ?w" using assms(3-5) nth_mem by (fastforce simp: live_tasks_def)
  then have h: "h = data_task sd" using port_in_useD(2) [OF assms(1)] by fastforce
  obtain w' where "tcp_step codes ?w (Answer i (Read_Answer r)) = Inr w'"
    using answer_ok [OF port_in_useD(1) [OF assms(1)] assms(2)] by blast
  then obtain s' as where run: "tcp_on_read codes (flags ?w) c h rs r ?s = Inr (s', as)"
    using assms(3,4) by (auto simp: exec_bind_Inr)
  have sz: "bb_shrink_back (xs @ replicate (tcp_read_size - length xs) 0)
      (sz_sub tcp_read_size (length xs)) = Inr xs" if "r = Inr xs" "length xs \<noteq> tcp_read_size" for xs
    using that assms(2) by (simp add: bb_shrink_back_def bb_shrink_def delete_at_def)
  let ?kept = "\<lambda>q. as = [Give_Data h q] \<and> \<not> reading (ts_machine s') \<and>
        writing (ts_machine s') = writing (ts_machine ?s) \<and> write_closing (ts_machine s') = write_closing (ts_machine ?s)"
  let ?failed = "\<lambda>q. as = [Cancel_Token (ts_write_cancelable ?s), Give_Data h q] \<and>
        ts_machine s' = errored ((ts_machine ?s)\<lparr>reading := False\<rparr>)"
  obtain q where q: "?kept q \<or> ?failed q"
    "(case r of Inl e \<Rightarrow> [] | Inr xs \<Rightarrow> xs) = report_bytes (Data_Report h q)"
  proof (cases r)
    case (Inl ec)
    obtain e where "convert_boost_error codes ec = Inr e" using convert_total by blast
    then have "?kept (Inl e) \<or> ?failed (Inl e)"
      using run assms(5) Inl
      by (auto simp: tcp_on_read_def exec_bind_Inr read_close_def read_end_def boost_assert_Inr Let_def
          split: if_splits)
    then show ?thesis using that [of "Inl e"] Inl by simp
  next
    case (Inr xs)
    then have "?kept (Inr xs)"
      using run assms(5) sz by (auto simp: tcp_on_read_def exec_bind_Inr read_end_def boost_assert_Inr split: if_splits)
    then show ?thesis using that [of "Inr xs"] Inr by simp
  qed
  have mv: "move_machine (ts_machine ?s) (Gets_Read q) = Inr (ts_machine s')"
    using q(1) by (auto intro!: tcp_read_answer [OF run])
  show ?thesis
    using q(1)
    by (intro live_answer [OF assms(1-3), where rp = "Data_Report h q" and e = "Gets_Read q"])
      (use run assms(3-5) h mv q(2) in \<open>auto split: sum.splits\<close>)
qed

lemma write_live_answer:
  assumes "port_in_use sd p" "tcp_admissible codes (world p) (Answer i (Write_Answer r))"
    and "i < length (tcp_world.waiting (world p))" "tcp_world.waiting (world p) ! i = Sock_Written c h n"
    and "canceled c (flags (world p)) = Inr False"
  shows "answered sd codes (i, Write_Answer r) p"
proof -
  let ?w = "world p" and ?s = "socket (world p)"
  have "Sock_Written c h n \<in> live_tasks ?w" using assms(3-5) nth_mem by (fastforce simp: live_tasks_def)
  then have h: "h = written_task sd" using port_in_useD(2) [OF assms(1)] by fastforce
  obtain w' where "tcp_step codes ?w (Answer i (Write_Answer r)) = Inr w'"
    using answer_ok [OF port_in_useD(1) [OF assms(1)] assms(2)] by blast
  then obtain s' as where run: "tcp_on_written codes (flags ?w) c h n r ?s = Inr (s', as)"
    using assms(3,4) by (auto simp: exec_bind_Inr)
  obtain q where q: "as = [Give h q] \<and> writing (ts_machine s') = False \<and>
        reading (ts_machine s') = reading (ts_machine ?s) \<and> write_closing (ts_machine s') = write_closing (ts_machine ?s) \<or>
      as = [Cancel_Token (ts_read_cancelable ?s), Give h q] \<and>
        ts_machine s' = errored ((ts_machine ?s)\<lparr>writing := False\<rparr>)"
    using run assms(5)
    by (cases r) (auto simp: tcp_on_written_def exec_bind_Inr write_end_def boost_assert_Inr split: if_splits)
  have mv: "move_machine (ts_machine ?s) (Gets_Written q) = Inr (ts_machine s')"
    using q by (auto intro!: tcp_write_answer [OF run])
  have "data_task sd \<noteq> written_task sd" by (cases sd) simp_all
  then show ?thesis
    using q
    by (intro live_answer [OF assms(1-3), where rp = "Done_Report h q" and e = "Gets_Written q"])
      (use run assms(3-5) h mv in auto)
qed

lemma close_live_answer:
  assumes "port_in_use sd p" "tcp_admissible codes (world p) (Answer i Run_Task)"
    and "i < length (tcp_world.waiting (world p))" "tcp_world.waiting (world p) ! i = Sock_Write_Closed c h e"
    and "canceled c (flags (world p)) = Inr False"
  shows "answered sd codes (i, Run_Task) p"
proof -
  let ?w = "world p" and ?s = "socket (world p)"
  have "Sock_Write_Closed c h e \<in> live_tasks ?w" using assms(3-5) nth_mem by (fastforce simp: live_tasks_def)
  then have h: "h = closed_task sd" using port_in_useD(2) [OF assms(1)] by fastforce
  obtain w' where "tcp_step codes ?w (Answer i Run_Task) = Inr w'"
    using answer_ok [OF port_in_useD(1) [OF assms(1)] assms(2)] by blast
  then obtain s' as where run: "tcp_on_write_closed (flags ?w) c h e ?s = Inr (s', as)"
    using assms(3,4) by (auto simp: exec_bind_Inr)
  then obtain q m where q: "as = [Give h q]" "write_close_end (ts_machine ?s) = Inr m" "ts_machine s' = m"
    "write_closing m = False" "reading m = reading (ts_machine ?s)" "writing m = writing (ts_machine ?s)"
    using assms(5)
    by (auto simp: tcp_on_write_closed_def exec_bind_Inr write_close_end_def boost_assert_Inr Let_def)
  have "closed_task sd \<noteq> written_task sd" by (cases sd) simp_all
  then show ?thesis
    by (intro live_answer [OF assms(1-3), where rp = "Done_Report h q" and e = Gets_Closed])
      (use run assms(3-5) h q in auto)
qed

text \<open>An answer that meets no closure, or one that was canceled.\<close>

lemma idle_port_answer:
  assumes "port_in_use sd p"
    and "tcp_step codes ((world p)\<lparr>given := []\<rparr>) (Answer i a) = Inr w" "world_ok w"
    and "socket w = socket (world p)" "flags w = flags (world p)" "given w = []"
    and "tcp_world.waiting w = tcp_world.waiting (world p) \<or>
         i < length (tcp_world.waiting (world p)) \<and> tcp_world.waiting w = rest i (tcp_world.waiting (world p)) \<and>
         canceled (token (tcp_world.waiting (world p) ! i)) (flags (world p)) = Inr True"
    and "delivered (world p) i a = []"
  shows "answered sd codes (i, a) p"
proof -
  let ?p' = "p\<lparr>world := w, got := got p\<rparr>"
  note ok = port_in_useD [OF assms(1)]
  have "live_tasks w \<subseteq> live_tasks (world p)"
    using assms(5,7) live_tasks_rest [OF ok(6), of w i] by (auto simp: live_tasks_def)
  moreover have "live k (flags w) (tcp_world.waiting w) = live k (flags (world p)) (tcp_world.waiting (world p))" for k
    using assms(5,7) live_split [of i "tcp_world.waiting (world p)" k "flags (world p)"] by auto
  ultimately have "port_in_use sd ?p'"
    using ok assms(3,4) by (auto simp: port_in_use_def Let_def)
  then show ?thesis using assms(2,4,6,8) by (auto simp: answered_def port_answer_def simp del: tcp_step.simps)
qed

lemma delivered_idle:
  assumes "\<not> i < length (tcp_world.waiting w) \<or>
      run_task codes (flags w) (tcp_world.waiting w ! i) a (socket w) = None \<or>
      canceled (token (tcp_world.waiting w ! i)) (flags w) \<noteq> Inr False"
  shows "delivered w i a = []"
proof (cases a)
  case (Read_Answer r)
  then show ?thesis using assms by (cases r; cases "tcp_world.waiting w ! i") auto
qed simp_all

lemma port_answer_ok:
  assumes "port_in_use sd p" "port_admissible codes p ia"
  shows "answered sd codes ia p"
proof (cases ia)
  case (Pair i a)
  let ?w = "world p" and ?v = "(world p)\<lparr>given := []\<rparr>"
  have adm: "tcp_admissible codes ?w (Answer i a)" using assms(2) Pair by (simp add: port_admissible_def)
  note ok = port_in_useD [OF assms(1)]
  show ?thesis
  proof (cases "i < length (tcp_world.waiting ?w) \<and>
      run_task codes (flags ?w) (tcp_world.waiting ?w ! i) a (socket ?w) \<noteq> None")
    case False
    then have "tcp_step codes ?v (Answer i a) = Inr ?v" "delivered ?w i a = []"
      using delivered_idle [of i ?w codes a] by (auto split: option.splits)
    then show ?thesis
      unfolding Pair using ok(1) by (intro idle_port_answer [OF assms(1), where w = ?v]) (simp_all del: tcp_step.simps)
  next
    case True
    then have i: "i < length (tcp_world.waiting ?w)" by simp
    obtain m where m: "run_task codes (flags ?w) (tcp_world.waiting ?w ! i) a (socket ?w) = Some m"
      using True by blast
    have "handle_ok (token (tcp_world.waiting ?w ! i)) (flags ?w)" using ok(6) i by (simp add: tokens_ok_def)
    then consider (dead) "canceled (token (tcp_world.waiting ?w ! i)) (flags ?w) = Inr True"
      | (live) "canceled (token (tcp_world.waiting ?w ! i)) (flags ?w) = Inr False"
      by (cases "canceled (token (tcp_world.waiting ?w ! i)) (flags ?w) = Inr True")
        (auto simp: handle_ok_def canceled_def)
    then show ?thesis
    proof cases
      case dead
      have "m = Inr (socket ?w, [])" by (rule run_task_dead [OF m dead])
      then have s: "tcp_step codes ?v (Answer i a) =
          Inr (absorb (flags ?w) (rest i (tcp_world.waiting ?w)) ?v (socket ?w, []))"
        using m i by simp
      obtain w where w: "tcp_step codes ?v (Answer i a) = Inr w" "world_ok w"
        using drop_dead [of ?v i codes a m] ok(1) m i dead by auto
      have "delivered ?w i a = []" using dead by (simp add: delivered_idle)
      then show ?thesis
        unfolding Pair using w s i dead by (intro idle_port_answer [OF assms(1) w]) (auto simp: absorb_def)
    next
      case live
      then have "tcp_world.waiting ?w ! i \<in> live_tasks ?w" using i by (simp add: live_tasks_def)
      then have owns: "tunnel_owns sd (tcp_world.waiting ?w ! i)" by (rule ok(2))
      show ?thesis
      proof (cases "tcp_world.waiting ?w ! i")
        case (Sock_Read c h rs)
        then obtain r where "a = Read_Answer r" using m by (cases a) auto
        then show ?thesis
          using read_live_answer [OF assms(1) _ i Sock_Read] adm live Sock_Read Pair by simp
      next
        case (Sock_Written c h n)
        then obtain r where "a = Write_Answer r" using m by (cases a) auto
        then show ?thesis
          using write_live_answer [OF assms(1) _ i Sock_Written] adm live Sock_Written Pair by simp
      next
        case (Sock_Write_Closed c h e)
        then have "a = Run_Task" using m by (cases a) auto
        then show ?thesis
          using close_live_answer [OF assms(1) _ i Sock_Write_Closed] adm live Sock_Write_Closed Pair by simp
      qed (use owns in simp_all)
    qed
  qed
qed

section \<open>Destruction\<close>

lemma world_ok_cancel: "world_ok w \<Longrightarrow> world_ok (w\<lparr>flags := cancel c (flags w)\<rparr>)"
  by (auto simp: world_ok_def intro: tokens_ok_cancel tasks_ok_cancel counts_ok_cancel)

lemma live_tasks_cancel:
  assumes "world_ok w"
  shows "live_tasks (w\<lparr>flags := cancel c (flags w)\<rparr>) \<subseteq> live_tasks w"
proof
  fix t assume t: "t \<in> live_tasks (w\<lparr>flags := cancel c (flags w)\<rparr>)"
  then have "handle_ok (token t) (flags w)" using assms by (auto simp: world_ok_def tokens_ok_def live_tasks_def)
  then show "t \<in> live_tasks w" using t still_live by (auto simp: live_tasks_def)
qed

lemma port_cancel_held:
  assumes "port_held sd p"
  shows "port_held sd (port_cancel c p)"
  using assms world_ok_cancel [of "world p" c] live_tasks_cancel [of "world p" c]
  by (auto simp: port_held_def port_cancel_def Let_def)

lemma port_cancel_in_use:
  assumes "port_in_use sd p" "\<not> reading (ts_machine (socket (world p)))"
    and "\<not> writing (ts_machine (socket (world p)))" "\<not> write_closing (ts_machine (socket (world p)))"
  shows "port_in_use sd (port_cancel c p)"
  using assms world_ok_cancel [of "world p" c] live_tasks_cancel [of "world p" c]
  by (auto simp: port_in_use_def port_cancel_def Let_def)

lemma port_destroy_dead:
  assumes "port_held sd p"
  shows "port_dead (port_destroy p) \<and> sent (port_destroy p) = sent p \<and> got (port_destroy p) = got p"
proof -
  let ?w = "world p" and ?s = "socket (world p)"
  let ?st = "cancel (ts_connect_cancelable ?s) (cancel (ts_report_cancelable ?s)
      (cancel (ts_write_cancelable ?s) (cancel (ts_read_cancelable ?s) (flags ?w))))"
  have w: "world_ok ?w" "\<And>t. t \<in> live_tasks ?w \<Longrightarrow> tunnel_owns sd t"
    using assms by (auto simp: port_held_def Let_def)
  have ok6: "tokens_ok (flags ?w) (tcp_world.waiting ?w) ?s" using w(1) by (simp add: world_ok_def)
  have d: "world (port_destroy p) = ?w\<lparr>flags := ?st\<rparr>"
    by (simp add: port_destroy_def tcp_destroy_def Let_def)
  have tok: "tokens_ok ?st (tcp_world.waiting ?w) ?s" using ok6 by (intro tokens_ok_cancel)
  have "canceled (token t) ?st \<noteq> Inr False" if t: "t \<in> set (tcp_world.waiting ?w)" for t
  proof
    assume c: "canceled (token t) ?st = Inr False"
    have h: "handle_ok (token t) (flags ?w)" using ok6 t by (simp add: tokens_ok_def)
    have c4: "canceled (token t) (cancel (ts_write_cancelable ?s) (cancel (ts_read_cancelable ?s) (flags ?w))) = Inr False"
      using c h by (auto dest!: still_live [rotated])
    then have c2: "canceled (token t) (cancel (ts_read_cancelable ?s) (flags ?w)) = Inr False"
      using h by (auto dest!: still_live [rotated])
    then have c1: "canceled (token t) (flags ?w) = Inr False" using h by (auto dest!: still_live [rotated])
    then have "t \<in> live_tasks ?w" using t by (simp add: live_tasks_def)
    then have owns: "tunnel_owns sd t" by (rule w(2))
    moreover have "task_ok ?s t" using w(1) t c1 by (simp add: world_ok_def tasks_ok_def)
    ultimately show False
      using c2 c4 ok6 by (cases t) (auto simp: tokens_ok_def canceled_cancel)
  qed
  then show ?thesis
    using tok d by (auto simp: port_dead_def live_tasks_def) (simp_all add: port_destroy_def Let_def)
qed

lemma port_dead_answer:
  assumes "port_dead p"
  shows "\<exists>p'. port_answer codes ia p = Inr (p', []) \<and> port_dead p' \<and> sent p' = sent p \<and> got p' = got p"
proof (cases ia)
  case (Pair i a)
  let ?w = "world p" and ?v = "(world p)\<lparr>given := []\<rparr>"
  have tok: "tokens_ok (flags ?w) (tcp_world.waiting ?w) (socket ?w)" using assms by (simp add: port_dead_def)
  have dead: "canceled (token t) (flags ?w) = Inr True" if "t \<in> set (tcp_world.waiting ?w)" for t
    using assms that tok by (force simp: port_dead_def live_tasks_def tokens_ok_def handle_ok_def canceled_def)
  have del: "delivered ?w i a = []"
    using dead [OF nth_mem, of i] by (intro delivered_idle) auto
  show ?thesis
  proof (cases "i < length (tcp_world.waiting ?w) \<and>
      run_task codes (flags ?w) (tcp_world.waiting ?w ! i) a (socket ?w) \<noteq> None")
    case False
    then have "tcp_step codes ?v (Answer i a) = Inr ?v" by (auto split: option.splits)
    then show ?thesis using assms del Pair
      by (auto simp: port_answer_def port_dead_def live_tasks_def simp del: tcp_step.simps)
  next
    case True
    then obtain m where m: "run_task codes (flags ?w) (tcp_world.waiting ?w ! i) a (socket ?w) = Some m" by blast
    have "m = Inr (socket ?w, [])" using run_task_dead [OF m dead [OF nth_mem]] True by simp
    then have "tcp_step codes ?v (Answer i a) =
        Inr (absorb (flags ?w) (rest i (tcp_world.waiting ?w)) ?v (socket ?w, []))"
      using m True by simp
    moreover have "set (rest i (tcp_world.waiting ?w)) \<subseteq> set (tcp_world.waiting ?w)" by (rule set_without)
    ultimately show ?thesis using tok dead del Pair
      by (auto simp: port_answer_def absorb_def port_dead_def live_tasks_def tokens_ok_def simp del: tcp_step.simps)
  qed
qed

section \<open>The socket provides the interface\<close>

interpretation tcp_side: tunnel_flow "tcp_ops codes" sd "port_in_use sd" "port_held sd" port_dead
    port_pending "port_admissible codes"
proof
  fix p :: tcp_port and a
  assume "port_in_use sd p" "port_admissible codes p a"
  then have "answered sd codes a p" by (rule port_answer_ok)
  then show "\<exists>f' rs. op_answer (tcp_ops codes) a p = Inr (f', rs) \<and> port_in_use sd f' \<and>
      op_sent (tcp_ops codes) f' = op_sent (tcp_ops codes) p \<and>
      (rs = [] \<and> op_machine (tcp_ops codes) f' = op_machine (tcp_ops codes) p \<and>
         op_got (tcp_ops codes) f' = op_got (tcp_ops codes) p \<or>
       (\<exists>rp e. rs = [rp] \<and> report_move sd rp = Some e \<and>
          move_machine (op_machine (tcp_ops codes) p) e = Inr (op_machine (tcp_ops codes) f') \<and>
          op_got (tcp_ops codes) f' = op_got (tcp_ops codes) p @ report_bytes rp))"
    by (simp add: answered_def tcp_ops_def)
next
  fix p :: tcp_port
  assume p: "port_in_use sd p" "reading (op_machine (tcp_ops codes) p) \<or> writing (op_machine (tcp_ops codes) p) \<or>
    write_closing (op_machine (tcp_ops codes) p)"
  then obtain k where "live k (flags (world p)) (tcp_world.waiting (world p)) \<noteq> 0"
    using port_in_useD(3-5) [OF p(1)] that by (metis p(2) tcp_ops_def flow_ops.select_convs(1) zero_neq_one)
  then show "port_pending p" by (auto simp: port_pending_def live_tasks_def live_def filter_empty_conv)
next
  fix p :: tcp_port
  assume "port_in_use sd p"
  then show "port_held sd p" by (simp add: port_in_use_def port_held_def Let_def)
next
  fix p :: tcp_port and c
  show "port_held sd (op_cancel (tcp_ops codes) c p) \<and> same_bytes (tcp_ops codes) p (op_cancel (tcp_ops codes) c p)"
    if "port_held sd p"
    using port_cancel_held [OF that] by (simp add: tcp_ops_def same_bytes_def) (simp add: port_cancel_def Let_def)
  show "port_in_use sd (op_cancel (tcp_ops codes) c p) \<and>
      op_machine (tcp_ops codes) (op_cancel (tcp_ops codes) c p) = op_machine (tcp_ops codes) p \<and>
      same_bytes (tcp_ops codes) p (op_cancel (tcp_ops codes) c p)"
    if "port_in_use sd p" "\<not> reading (op_machine (tcp_ops codes) p)" "\<not> writing (op_machine (tcp_ops codes) p)"
      "\<not> write_closing (op_machine (tcp_ops codes) p)"
    using port_cancel_in_use [of sd p c] that by (simp add: tcp_ops_def same_bytes_def) (simp add: port_cancel_def Let_def)
qed (use port_read_ok port_write_ok port_close_ok port_destroy_dead port_dead_answer
    in \<open>simp_all add: tcp_ops_def same_bytes_def\<close>)

end
