(* ===== verification/Socket_Tunnel.thy ===== *)
theory Socket_Tunnel
  imports Tunnel_Flows
begin

text \<open>
  \<open>transport::Tunnel\<close> (src/transport/tunnel.cc) forwarding between two given flows: its
  closures call the flows' operations, and \<open>ReleaseTunnel\<close> destroys the flows with it.  It is
  shown to do what the tunnel of \<open>Tunnel\<close> does, whose flows are only state machines, for any
  two flows that keep the interface of \<open>Tunnel_Flows\<close>; TCP sockets are put in at the end.
\<close>

section \<open>The tunnel and its flows\<close>

record ('l, 'r) forwarding =
  local_flow :: 'l
  remote_flow :: 'r
  deleted :: bool

type_synonym ('l, 'a, 'x, 'r, 'b, 'y) ends = "('l, 'a, 'x) flow_ops \<times> ('r, 'b, 'y) flow_ops"

definition lop :: "('l, 'a, 'x, 'r, 'b, 'y) ends \<Rightarrow> ('l, 'a, 'x) flow_ops" where "lop E = fst E"
definition rop :: "('l, 'a, 'x, 'r, 'b, 'y) ends \<Rightarrow> ('r, 'b, 'y) flow_ops" where "rop E = snd E"

definition member :: "('l, 'r) forwarding \<Rightarrow> 'a exec \<Rightarrow> 'a exec" where
  "member t k = (if deleted t then Inl Dangling else k)"

definition on_local_flow ::
  "('l \<Rightarrow> 'l exec) \<Rightarrow> ('l, 'r) forwarding \<Rightarrow> ('l, 'r) forwarding exec" where
  "on_local_flow f t = member t (exec_bind (f (local_flow t)) (\<lambda>l. Inr (t\<lparr>local_flow := l\<rparr>)))"

definition on_remote_flow ::
  "('r \<Rightarrow> 'r exec) \<Rightarrow> ('l, 'r) forwarding \<Rightarrow> ('l, 'r) forwarding exec" where
  "on_remote_flow f t = member t (exec_bind (f (remote_flow t)) (\<lambda>r. Inr (t\<lparr>remote_flow := r\<rparr>)))"

section \<open>Forwarding\<close>

definition release :: "('l, 'a, 'x, 'r, 'b, 'y) ends \<Rightarrow> ('l, 'r) forwarding \<Rightarrow> ('l, 'r) forwarding exec" where
  "release E t =
     member t (Inr (t\<lparr>deleted := True, local_flow := op_destroy (lop E) (local_flow t),
                     remote_flow := op_destroy (rop E) (remote_flow t)\<rparr>))"

definition check_status :: "('l, 'a, 'x, 'r, 'b, 'y) ends \<Rightarrow> ('l, 'r) forwarding \<Rightarrow> ('l, 'r) forwarding exec" where
  "check_status E t =
     member t
       (if state (op_machine (lop E) (local_flow t)) = Closed \<and>
           state (op_machine (rop E) (remote_flow t)) = Closed
        then release E t else Inr t)"

definition flow_forward_local ::
  "('l, 'a, 'x, 'r, 'b, 'y) ends \<Rightarrow> ('l, 'r) forwarding \<Rightarrow> ('l, 'r) forwarding exec" where
  "flow_forward_local E t =
     exec_bind (check_status E t) (\<lambda>t.
     member t
       (boost_assert (is_readable (op_machine (lop E) (local_flow t)))
       (boost_assert (is_writable (op_machine (rop E) (remote_flow t)))
         (on_local_flow (op_read (lop E) Local_Data) t))))"

definition flow_forward_remote ::
  "('l, 'a, 'x, 'r, 'b, 'y) ends \<Rightarrow> ('l, 'r) forwarding \<Rightarrow> ('l, 'r) forwarding exec" where
  "flow_forward_remote E t =
     exec_bind (check_status E t) (\<lambda>t.
     member t
       (boost_assert (is_writable (op_machine (lop E) (local_flow t)))
       (boost_assert (is_readable (op_machine (rop E) (remote_flow t)))
         (on_remote_flow (op_read (rop E) Remote_Data) t))))"

definition flow_begin_forward ::
  "('l, 'a, 'x, 'r, 'b, 'y) ends \<Rightarrow> ('l, 'r) forwarding \<Rightarrow> ('l, 'r) forwarding exec" where
  "flow_begin_forward E t = exec_bind (flow_forward_local E t) (flow_forward_remote E)"

text \<open>The closures; the timer they set again is not part of the state.\<close>

definition local_read_done ::
  "('l, 'a, 'x, 'r, 'b, 'y) ends \<Rightarrow> 'y \<Rightarrow> bytes result \<Rightarrow> ('l, 'r) forwarding \<Rightarrow> ('l, 'r) forwarding exec" where
  "local_read_done E y q t =
     member t
       (case q of
          Inl e \<Rightarrow>
            (if is_eof e
             then if is_write_closable (op_machine (rop E) (remote_flow t))
                  then on_remote_flow (op_close (rop E) y Remote_Write_Closed) t
                  else check_status E t
             else release E t)
        | Inr xs \<Rightarrow> on_remote_flow (op_write (rop E) xs Remote_Written) t)"

definition remote_write_done ::
  "('l, 'a, 'x, 'r, 'b, 'y) ends \<Rightarrow> unit result \<Rightarrow> ('l, 'r) forwarding \<Rightarrow> ('l, 'r) forwarding exec" where
  "remote_write_done E r t =
     member t (case r of Inl e \<Rightarrow> release E t | Inr _ \<Rightarrow> flow_forward_local E t)"

definition remote_read_done ::
  "('l, 'a, 'x, 'r, 'b, 'y) ends \<Rightarrow> 'x \<Rightarrow> bytes result \<Rightarrow> ('l, 'r) forwarding \<Rightarrow> ('l, 'r) forwarding exec" where
  "remote_read_done E x q t =
     member t
       (case q of
          Inl e \<Rightarrow>
            (if is_eof e
             then if is_write_closable (op_machine (lop E) (local_flow t))
                  then on_local_flow (op_close (lop E) x Local_Write_Closed) t
                  else check_status E t
             else release E t)
        | Inr xs \<Rightarrow> on_local_flow (op_write (lop E) xs Local_Written) t)"

definition local_write_done ::
  "('l, 'a, 'x, 'r, 'b, 'y) ends \<Rightarrow> unit result \<Rightarrow> ('l, 'r) forwarding \<Rightarrow> ('l, 'r) forwarding exec" where
  "local_write_done E r t =
     member t (case r of Inl e \<Rightarrow> release E t | Inr _ \<Rightarrow> flow_forward_remote E t)"

definition write_close_done ::
  "('l, 'a, 'x, 'r, 'b, 'y) ends \<Rightarrow> ('l, 'r) forwarding \<Rightarrow> ('l, 'r) forwarding exec" where
  "write_close_done E t = member t (check_status E t)"

section \<open>Running it\<close>

text \<open>
  Something reaches one of the flows from below, which may call a closure of the tunnel; with
  it comes what the system answers if that closure closes the other flow.
\<close>

datatype ('a, 'x, 'b, 'y) forward_event = From_Local 'a 'y | From_Remote 'b 'x | Timer_Fires

fun local_report ::
  "('l, 'a, 'x, 'r, 'b, 'y) ends \<Rightarrow> 'y \<Rightarrow> ('l, 'r) forwarding \<Rightarrow> flow_report \<Rightarrow> ('l, 'r) forwarding exec" where
  "local_report E y t (Data_Report k q) = local_read_done E y q t"
| "local_report E y t (Done_Report k r) =
     (if k = Local_Written then local_write_done E r t else write_close_done E t)"

fun remote_report ::
  "('l, 'a, 'x, 'r, 'b, 'y) ends \<Rightarrow> 'x \<Rightarrow> ('l, 'r) forwarding \<Rightarrow> flow_report \<Rightarrow> ('l, 'r) forwarding exec" where
  "remote_report E x t (Data_Report k q) = remote_read_done E x q t"
| "remote_report E x t (Done_Report k r) =
     (if k = Remote_Written then remote_write_done E r t else write_close_done E t)"

fun forward_step ::
  "('l, 'a, 'x, 'r, 'b, 'y) ends \<Rightarrow> ('l, 'r) forwarding \<Rightarrow> ('a, 'x, 'b, 'y) forward_event \<Rightarrow>
   ('l, 'r) forwarding exec" where
  "forward_step E t (From_Local a y) =
     exec_bind (op_answer (lop E) a (local_flow t)) (\<lambda>lr. case lr of (l, rs) \<Rightarrow>
     run (local_report E y) (t\<lparr>local_flow := l\<rparr>) rs)"
| "forward_step E t (From_Remote b x) =
     exec_bind (op_answer (rop E) b (remote_flow t)) (\<lambda>rr. case rr of (r, rs) \<Rightarrow>
     run (remote_report E x) (t\<lparr>remote_flow := r\<rparr>) rs)"
| "forward_step E t Timer_Fires = (if deleted t then Inr t else release E t)"

text \<open>What may reach the flows while the tunnel lives; afterwards anything may.\<close>

fun admitted ::
  "('l \<Rightarrow> 'a \<Rightarrow> bool) \<Rightarrow> ('r \<Rightarrow> 'b \<Rightarrow> bool) \<Rightarrow> ('l, 'r) forwarding \<Rightarrow> ('a, 'x, 'b, 'y) forward_event \<Rightarrow> bool" where
  "admitted la ra c (From_Local a y) \<longleftrightarrow> deleted c \<or> la (local_flow c) a"
| "admitted la ra c (From_Remote b x) \<longleftrightarrow> deleted c \<or> ra (remote_flow c) b"
| "admitted la ra c Timer_Fires \<longleftrightarrow> True"

text \<open>An event that answers one of the tunnel's operations, and brings no data.\<close>

fun no_data :: "flow_report \<Rightarrow> bool" where
  "no_data (Data_Report k (Inr xs)) = False"
| "no_data _ = True"

definition only_report :: "('f \<times> flow_report list) exec \<Rightarrow> bool" where
  "only_report m = (case m of Inr (f, [rp]) \<Rightarrow> no_data rp | _ \<Rightarrow> False)"

lemma only_report_simps [simp]:
  "only_report (Inr (f, [])) = False" "only_report (Inr (f, [rp])) = no_data rp"
  by (simp_all add: only_report_def)

fun settles ::
  "('l, 'a, 'x, 'r, 'b, 'y) ends \<Rightarrow> ('l, 'r) forwarding \<Rightarrow> ('a, 'x, 'b, 'y) forward_event \<Rightarrow> bool" where
  "settles E c (From_Local a y) \<longleftrightarrow> deleted c \<or> only_report (op_answer (lop E) a (local_flow c))"
| "settles E c (From_Remote b x) \<longleftrightarrow> deleted c \<or> only_report (op_answer (rop E) b (remote_flow c))"
| "settles E c Timer_Fires \<longleftrightarrow> deleted c"

text \<open>The abstract tunnel comes nearer to its end with every such answer.\<close>

fun brings_nothing :: "relay_event \<Rightarrow> bool" where
  "brings_nothing (Local_Read_Answer (Inr xs)) = False"
| "brings_nothing (Remote_Read_Answer (Inr xs)) = False"
| "brings_nothing _ = True"

lemma settled_step:
  assumes "relay_ok t" "\<not> released t" "answered_task ev = Some k" "k \<in> set (tunnel.waiting t)"
    and "brings_nothing ev" "relay_step t ev = Inr t'"
  shows "work t' < work t"
proof (cases "sends_no_more ev")
  case True
  then show ?thesis
    using winding_step [of t ev] assms by (auto simp: winds_down_def)
next
  case False
  then have "released t'"
    using error_step [OF assms(1)] assms(3-6)
    by (cases ev rule: sends_no_more.cases) (fastforce simp del: relay_step.simps)+
  then show ?thesis using relay_work [OF assms(1)] assms(2) by (simp add: work_def)
qed

section \<open>Following the abstract tunnel\<close>

text \<open>If the specification succeeds, so does the code, with a related result.\<close>

definition follows :: "('c \<Rightarrow> 'a \<Rightarrow> bool) \<Rightarrow> 'c exec \<Rightarrow> 'a exec \<Rightarrow> bool" where
  "follows R m a \<longleftrightarrow> (\<forall>t. a = Inr t \<longrightarrow> (\<exists>c. m = Inr c \<and> R c t))"

lemma follows_Inr [simp]: "follows R (Inr c) (Inr t) = R c t"
  by (simp add: follows_def)

lemma follows_fault [simp]: "follows R m (Inl f)"
  by (simp add: follows_def)

lemma follows_bind:
  assumes "follows R m a" "\<And>c t. R c t \<Longrightarrow> follows S (f c) (g t)"
  shows "follows S (exec_bind m f) (exec_bind a g)"
  using assms by (cases a) (auto simp: follows_def exec_bind_Inr)

lemma follows_assert: "(P \<Longrightarrow> follows R m a) \<Longrightarrow> follows R (boost_assert P m) (boost_assert P a)"
  by (cases P) simp_all

locale tunnel_between =
  l: tunnel_flow lops Local lok lheld ldead lpend ladm + r: tunnel_flow rops Remote rok rheld rdead rpend radm
  for lops :: "('l, 'a, 'x) flow_ops" and lok lheld ldead lpend ladm
    and rops :: "('r, 'b, 'y) flow_ops" and rok rheld rdead rpend radm
begin

abbreviation E :: "('l, 'a, 'x, 'r, 'b, 'y) ends" where "E \<equiv> (lops, rops)"

lemma E_simps [simp]: "lop E = lops" "rop E = rops"
  by (simp_all add: lop_def rop_def)

definition logs :: "('l, 'r) forwarding \<Rightarrow> tunnel \<Rightarrow> bool" where
  "logs c t \<longleftrightarrow> op_got lops (local_flow c) = from_local t \<and> op_sent rops (remote_flow c) = to_remote t \<and>
     op_got rops (remote_flow c) = from_remote t \<and> op_sent lops (local_flow c) = to_local t"

definition sim :: "('l, 'r) forwarding \<Rightarrow> tunnel \<Rightarrow> bool" where
  "sim c t \<longleftrightarrow> deleted c = released t \<and> logs c t \<and>
     (if released t then ldead (local_flow c) \<and> rdead (remote_flow c)
      else lok (local_flow c) \<and> rok (remote_flow c) \<and>
           open_machine (local_machine t) \<and> op_machine lops (local_flow c) = local_machine t \<and>
           (\<exists>rm. remote_machine t = Some rm \<and> open_machine rm \<and> op_machine rops (remote_flow c) = rm))"

lemma sim_wait [simp]: "sim c (t\<lparr>tunnel.waiting := ws\<rparr>) = sim c t"
  "sim c (t\<lparr>timer_runs := n\<rparr>) = sim c t"
  by (simp_all add: sim_def logs_def)

lemma follows_member:
  assumes "sim c t" "\<not> released t \<Longrightarrow> follows R m a"
  shows "follows R (member c m) (alive t a)"
  using assms by (auto simp: sim_def member_def alive_def)

lemma release_follows: "sim c t \<Longrightarrow> follows sim (release E c) (release_tunnel t)"
  unfolding release_def release_tunnel_def
  by (rule follows_member)
    (auto simp: sim_def logs_def dest!: l.held_law r.held_law l.destroy_law r.destroy_law simp: same_bytes_def)

lemma check_follows: "sim c t \<Longrightarrow> follows sim (check_status E c) (check_tunnel_status t)"
  unfolding check_status_def check_tunnel_status_def
proof (rule follows_member)
  assume "sim c t" "\<not> released t"
  then show "follows sim
      (if state (op_machine (lop E) (local_flow c)) = Closed \<and> state (op_machine (rop E) (remote_flow c)) = Closed
       then release E c else Inr c)
      (if state (local_machine t) = Closed \<and>
           (case remote_machine t of None \<Rightarrow> True | Some m \<Rightarrow> state m = Closed)
       then release_tunnel t else Inr t)"
    using release_follows [of c t] by (auto simp: sim_def)
qed

text \<open>The calls.\<close>

lemma live_sim:
  assumes "sim c t" "\<not> released t"
  shows "\<not> deleted c" "lok (local_flow c)" "rok (remote_flow c)" "op_machine lops (local_flow c) = local_machine t"
    "remote_machine t = Some (op_machine rops (remote_flow c))" "open_machine (local_machine t)"
    "open_machine (op_machine rops (remote_flow c))" "logs c t"
  using assms by (auto simp: sim_def)

lemma local_call_follows:
  assumes "sim c t" "\<not> released t" "f (local_flow c) = Inr l" "lok l"
    and "move_machine (local_machine t) e = Inr (op_machine lops l)"
    and "op_sent lops l = op_sent lops (local_flow c) @ xs" "op_got lops l = op_got lops (local_flow c)"
    and "t' = t\<lparr>local_machine := op_machine lops l, to_local := to_local t @ xs\<rparr>"
  shows "follows sim (on_local_flow f c) (Inr t')"
  using live_sim [OF assms(1,2)] assms(2-4,6-8) move_machine_open [OF _ assms(5)]
  by (simp add: on_local_flow_def member_def sim_def logs_def)

lemma remote_call_follows:
  assumes "sim c t" "\<not> released t" "f (remote_flow c) = Inr r" "rok r"
    and "move_machine (op_machine rops (remote_flow c)) e = Inr (op_machine rops r)"
    and "op_sent rops r = op_sent rops (remote_flow c) @ xs" "op_got rops r = op_got rops (remote_flow c)"
    and "t' = t\<lparr>remote_machine := Some (op_machine rops r), to_remote := to_remote t @ xs\<rparr>"
  shows "follows sim (on_remote_flow f c) (Inr t')"
  using live_sim [OF assms(1,2)] assms(2-4,6-8) move_machine_open [OF _ assms(5)]
  by (simp add: on_remote_flow_def member_def sim_def logs_def)

lemma sim_await [simp]: "sim c (await k t) = sim c t"
  by (simp add: await_def)

lemma follows_await: "follows sim m (Inr t) \<Longrightarrow> follows sim m (Inr (await k t))"
  by (simp add: follows_def)

lemma local_read_follows:
  assumes "sim c t" "\<not> released t"
  shows "follows sim (on_local_flow (op_read lops Local_Data) c) (local_read t)"
proof (cases "read_begin (local_machine t)")
  case (Inr m)
  note s = live_sim [OF assms]
  obtain l where l: "op_read lops Local_Data (local_flow c) = Inr l" "lok l" "op_machine lops l = m"
    "same_bytes lops (local_flow c) l"
    using l.read_law [of "local_flow c" m] s Inr by auto
  have "follows sim (on_local_flow (op_read lops Local_Data) c) (Inr (t\<lparr>local_machine := m\<rparr>))"
    using l Inr by (intro local_call_follows [where e = Starts_Read and xs = "[]" and l = l, OF assms])
      (simp_all add: same_bytes_def)
  then show ?thesis using Inr by (simp add: local_read_def follows_await)
qed (simp add: local_read_def)

lemma remote_read_follows:
  assumes "sim c t" "\<not> released t"
  shows "follows sim (on_remote_flow (op_read rops Remote_Data) c) (remote_read t)"
proof (cases "read_begin (op_machine rops (remote_flow c))")
  case (Inr m)
  note s = live_sim [OF assms]
  obtain r where r: "op_read rops Remote_Data (remote_flow c) = Inr r" "rok r" "op_machine rops r = m"
    "same_bytes rops (remote_flow c) r"
    using r.read_law [of "remote_flow c" m] s Inr by auto
  have "follows sim (on_remote_flow (op_read rops Remote_Data) c) (Inr (t\<lparr>remote_machine := Some m\<rparr>))"
    using r Inr by (intro remote_call_follows [where e = Starts_Read and xs = "[]" and r = r, OF assms])
      (simp_all add: same_bytes_def)
  then show ?thesis using Inr s by (simp add: remote_read_def with_remote_def follows_await)
qed (use live_sim [OF assms] in \<open>simp add: remote_read_def with_remote_def\<close>)

lemma local_write_follows:
  assumes "sim c t" "\<not> released t"
  shows "follows sim (on_local_flow (op_write lops xs Local_Written) c) (local_write xs t)"
proof (cases "write_begin (local_machine t)")
  case (Inr m)
  note s = live_sim [OF assms]
  obtain l where l: "op_write lops xs Local_Written (local_flow c) = Inr l" "lok l" "op_machine lops l = m"
    "op_sent lops l = op_sent lops (local_flow c) @ xs" "op_got lops l = op_got lops (local_flow c)"
    using l.write_law [of "local_flow c" m xs] s Inr by auto
  have "follows sim (on_local_flow (op_write lops xs Local_Written) c)
      (Inr (t\<lparr>local_machine := m, to_local := to_local t @ xs\<rparr>))"
    using l Inr by (intro local_call_follows [where e = Starts_Write and xs = xs and l = l, OF assms]) simp_all
  then show ?thesis using Inr by (simp add: local_write_def follows_await)
qed (simp add: local_write_def)

lemma remote_write_follows:
  assumes "sim c t" "\<not> released t"
  shows "follows sim (on_remote_flow (op_write rops xs Remote_Written) c) (remote_write xs t)"
proof (cases "write_begin (op_machine rops (remote_flow c))")
  case (Inr m)
  note s = live_sim [OF assms]
  obtain r where r: "op_write rops xs Remote_Written (remote_flow c) = Inr r" "rok r" "op_machine rops r = m"
    "op_sent rops r = op_sent rops (remote_flow c) @ xs" "op_got rops r = op_got rops (remote_flow c)"
    using r.write_law [of "remote_flow c" m xs] s Inr by auto
  have "follows sim (on_remote_flow (op_write rops xs Remote_Written) c)
      (Inr (t\<lparr>remote_machine := Some m, to_remote := to_remote t @ xs\<rparr>))"
    using r Inr by (intro remote_call_follows [where e = Starts_Write and xs = xs and r = r, OF assms]) simp_all
  then show ?thesis using Inr s by (simp add: remote_write_def with_remote_def follows_await)
qed (use live_sim [OF assms] in \<open>simp add: remote_write_def with_remote_def\<close>)

lemma local_close_follows:
  assumes "sim c t" "\<not> released t" "is_write_closable (local_machine t)"
  shows "follows sim (on_local_flow (op_close lops x Local_Write_Closed) c) (local_close_write t)"
proof (cases "write_close_begin (local_machine t)")
  case (Inr m)
  note s = live_sim [OF assms(1,2)]
  obtain l where l: "op_close lops x Local_Write_Closed (local_flow c) = Inr l" "lok l" "op_machine lops l = m"
    "same_bytes lops (local_flow c) l"
    using l.close_law [of "local_flow c" m x] s Inr assms(3) by auto
  have "follows sim (on_local_flow (op_close lops x Local_Write_Closed) c) (Inr (t\<lparr>local_machine := m\<rparr>))"
    using l Inr by (intro local_call_follows [where e = Starts_Close and xs = "[]" and l = l, OF assms(1,2)])
      (simp_all add: same_bytes_def)
  then show ?thesis using Inr by (simp add: local_close_write_def follows_await)
qed (simp add: local_close_write_def)

lemma remote_close_follows:
  assumes "sim c t" "\<not> released t" "is_write_closable (op_machine rops (remote_flow c))"
  shows "follows sim (on_remote_flow (op_close rops y Remote_Write_Closed) c) (remote_close_write t)"
proof (cases "write_close_begin (op_machine rops (remote_flow c))")
  case (Inr m)
  note s = live_sim [OF assms(1,2)]
  obtain r where r: "op_close rops y Remote_Write_Closed (remote_flow c) = Inr r" "rok r" "op_machine rops r = m"
    "same_bytes rops (remote_flow c) r"
    using r.close_law [of "remote_flow c" m y] s Inr assms(3) by auto
  have "follows sim (on_remote_flow (op_close rops y Remote_Write_Closed) c) (Inr (t\<lparr>remote_machine := Some m\<rparr>))"
    using r Inr by (intro remote_call_follows [where e = Starts_Close and xs = "[]" and r = r, OF assms(1,2)])
      (simp_all add: same_bytes_def)
  then show ?thesis using Inr s by (simp add: remote_close_write_def with_remote_def follows_await)
qed (use live_sim [OF assms(1,2)] in \<open>simp add: remote_close_write_def with_remote_def\<close>)

text \<open>The closures.\<close>

lemma forward_local_follows: "sim c t \<Longrightarrow> follows sim (flow_forward_local E c) (forward_local t)"
  unfolding flow_forward_local_def forward_local_def
proof (rule follows_bind [OF check_follows])
  fix c t assume st: "sim c t"
  show "follows sim
     (member c (boost_assert (is_readable (op_machine (lop E) (local_flow c)))
        (boost_assert (is_writable (op_machine (rop E) (remote_flow c)))
          (on_local_flow (op_read (lop E) Local_Data) c))))
     (alive t (boost_assert (is_readable (local_machine t))
        (with_remote t (\<lambda>rm. boost_assert (is_writable rm) (local_read t)))))"
  proof (rule follows_member [OF st])
    assume "\<not> released t"
    then show "follows sim
       (boost_assert (is_readable (op_machine (lop E) (local_flow c)))
         (boost_assert (is_writable (op_machine (rop E) (remote_flow c)))
           (on_local_flow (op_read (lop E) Local_Data) c)))
       (boost_assert (is_readable (local_machine t))
         (with_remote t (\<lambda>rm. boost_assert (is_writable rm) (local_read t))))"
      using live_sim [OF st] local_read_follows [OF st] by (simp add: with_remote_def follows_assert)
  qed
qed

lemma forward_remote_follows: "sim c t \<Longrightarrow> follows sim (flow_forward_remote E c) (forward_remote t)"
  unfolding flow_forward_remote_def forward_remote_def
proof (rule follows_bind [OF check_follows])
  fix c t assume st: "sim c t"
  show "follows sim
     (member c (boost_assert (is_writable (op_machine (lop E) (local_flow c)))
        (boost_assert (is_readable (op_machine (rop E) (remote_flow c)))
          (on_remote_flow (op_read (rop E) Remote_Data) c))))
     (alive t (boost_assert (is_writable (local_machine t))
        (with_remote t (\<lambda>rm. boost_assert (is_readable rm) (remote_read t)))))"
  proof (rule follows_member [OF st])
    assume "\<not> released t"
    then show "follows sim
       (boost_assert (is_writable (op_machine (lop E) (local_flow c)))
         (boost_assert (is_readable (op_machine (rop E) (remote_flow c)))
           (on_remote_flow (op_read (rop E) Remote_Data) c)))
       (boost_assert (is_writable (local_machine t))
         (with_remote t (\<lambda>rm. boost_assert (is_readable rm) (remote_read t))))"
      using live_sim [OF st] remote_read_follows [OF st] by (simp add: with_remote_def follows_assert)
  qed
qed

lemma begin_forward_follows: "sim c t \<Longrightarrow> follows sim (flow_begin_forward E c) (begin_forward t)"
  unfolding flow_begin_forward_def begin_forward_def
  by (rule follows_bind [OF forward_local_follows forward_remote_follows])

text \<open>A closure first sets the timer again.\<close>

lemma follows_reset:
  assumes "\<And>n. \<not> released t \<Longrightarrow> follows R m (f (t\<lparr>timer_runs := n\<rparr>))" "deleted c = released t"
  shows "follows R (member c m) (exec_bind (reset_timer t) f)"
  using assms by (simp add: member_def reset_timer_def alive_def)

lemma local_read_done_follows:
  assumes "sim c (t\<lparr>from_local := from_local t @ (case q of Inl e \<Rightarrow> [] | Inr xs \<Rightarrow> xs)\<rparr>)"
  shows "follows sim (local_read_done E y q c) (on_local_data q t)"
  unfolding local_read_done_def on_local_data_def
proof (rule follows_reset)
  fix n assume nr: "\<not> released t"
  let ?t = "t\<lparr>timer_runs := n\<rparr>"
  have st: "sim c (?t\<lparr>from_local := from_local t @ (case q of Inl e \<Rightarrow> [] | Inr xs \<Rightarrow> xs)\<rparr>)"
    using assms by (cases "released t") (simp_all add: sim_def logs_def)
  show "follows sim
     (case q of
        Inl e \<Rightarrow> if is_eof e
          then if is_write_closable (op_machine (rop E) (remote_flow c))
               then on_remote_flow (op_close (rop E) y Remote_Write_Closed) c else check_status E c
          else release E c
      | Inr xs \<Rightarrow> on_remote_flow (op_write (rop E) xs Remote_Written) c)
     (case q of
        Inl e \<Rightarrow> if is_eof e
          then with_remote ?t (\<lambda>rm. if is_write_closable rm then remote_close_write ?t else check_tunnel_status ?t)
          else release_tunnel ?t
      | Inr xs \<Rightarrow> remote_write xs (?t\<lparr>from_local := from_local ?t @ xs\<rparr>))"
  proof (cases q)
    case (Inl e)
    have "sim c ?t" using st Inl by simp
    then show ?thesis
      using Inl nr live_sim [of c ?t] remote_close_follows [of c ?t] check_follows [of c ?t] release_follows [of c ?t]
      by (simp add: with_remote_def)
  next
    case (Inr xs)
    then show ?thesis using st nr remote_write_follows by simp
  qed
qed (use assms in \<open>simp add: sim_def\<close>)

lemma remote_read_done_follows:
  assumes "sim c (t\<lparr>from_remote := from_remote t @ (case q of Inl e \<Rightarrow> [] | Inr xs \<Rightarrow> xs)\<rparr>)"
  shows "follows sim (remote_read_done E x q c) (on_remote_data q t)"
  unfolding remote_read_done_def on_remote_data_def
proof (rule follows_reset)
  fix n assume nr: "\<not> released t"
  let ?t = "t\<lparr>timer_runs := n\<rparr>"
  have st: "sim c (?t\<lparr>from_remote := from_remote t @ (case q of Inl e \<Rightarrow> [] | Inr xs \<Rightarrow> xs)\<rparr>)"
    using assms by (cases "released t") (simp_all add: sim_def logs_def)
  show "follows sim
     (case q of
        Inl e \<Rightarrow> if is_eof e
          then if is_write_closable (op_machine (lop E) (local_flow c))
               then on_local_flow (op_close (lop E) x Local_Write_Closed) c else check_status E c
          else release E c
      | Inr xs \<Rightarrow> on_local_flow (op_write (lop E) xs Local_Written) c)
     (case q of
        Inl e \<Rightarrow> if is_eof e
          then if is_write_closable (local_machine ?t) then local_close_write ?t else check_tunnel_status ?t
          else release_tunnel ?t
      | Inr xs \<Rightarrow> local_write xs (?t\<lparr>from_remote := from_remote ?t @ xs\<rparr>))"
  proof (cases q)
    case (Inl e)
    have "sim c ?t" using st Inl by simp
    then show ?thesis
      using Inl nr live_sim [of c ?t] local_close_follows [of c ?t] check_follows [of c ?t] release_follows [of c ?t]
      by simp
  next
    case (Inr xs)
    then show ?thesis using st nr local_write_follows by simp
  qed
qed (use assms in \<open>simp add: sim_def\<close>)

lemma remote_write_done_follows: "sim c t \<Longrightarrow> follows sim (remote_write_done E r c) (on_remote_written r t)"
  unfolding remote_write_done_def on_remote_written_def
  by (rule follows_reset)
    (auto simp: sim_def [of c t] intro!: release_follows forward_local_follows split: sum.split)

lemma local_write_done_follows: "sim c t \<Longrightarrow> follows sim (local_write_done E r c) (on_local_written r t)"
  unfolding local_write_done_def on_local_written_def
  by (rule follows_reset)
    (auto simp: sim_def [of c t] intro!: release_follows forward_remote_follows split: sum.split)

lemma write_close_done_follows:
  "sim c t \<Longrightarrow> follows sim (write_close_done E c) (on_remote_write_closed t)"
  "sim c t \<Longrightarrow> follows sim (write_close_done E c) (on_local_write_closed t)"
  unfolding write_close_done_def on_remote_write_closed_def on_local_write_closed_def
  by (rule follows_reset, simp add: check_follows, simp add: sim_def)+

text \<open>A flow is answered, and calls a closure or none.\<close>

lemma local_answered:
  assumes "sim c t" "\<not> released t" "lok l" "move_machine (local_machine t) e = Inr (op_machine lops l)"
    and "op_sent lops l = op_sent lops (local_flow c)" "op_got lops l = op_got lops (local_flow c) @ bs"
  shows "sim (c\<lparr>local_flow := l\<rparr>)
    (t\<lparr>tunnel.waiting := ws, local_machine := op_machine lops l, from_local := from_local t @ bs\<rparr>)"
  using live_sim [OF assms(1,2)] assms(2-3,5-6) move_machine_open [OF _ assms(4)]
  by (simp add: sim_def logs_def)

lemma remote_answered:
  assumes "sim c t" "\<not> released t" "rok r"
    and "move_machine (op_machine rops (remote_flow c)) e = Inr (op_machine rops r)"
    and "op_sent rops r = op_sent rops (remote_flow c)" "op_got rops r = op_got rops (remote_flow c) @ bs"
  shows "sim (c\<lparr>remote_flow := r\<rparr>)
    (t\<lparr>tunnel.waiting := ws, remote_machine := Some (op_machine rops r), from_remote := from_remote t @ bs\<rparr>)"
  using live_sim [OF assms(1,2)] assms(2-3,5-6) move_machine_open [OF _ assms(4)]
  by (simp add: sim_def logs_def)

lemma waits_for:
  assumes "relay_ok t" "\<not> released t" "remote_machine t = Some rm"
  shows "reading (local_machine t) \<Longrightarrow> Local_Data \<in> set (tunnel.waiting t)"
    "writing (local_machine t) \<Longrightarrow> Local_Written \<in> set (tunnel.waiting t)"
    "write_closing (local_machine t) \<Longrightarrow> Local_Write_Closed \<in> set (tunnel.waiting t)"
    "reading rm \<Longrightarrow> Remote_Data \<in> set (tunnel.waiting t)"
    "writing rm \<Longrightarrow> Remote_Written \<in> set (tunnel.waiting t)"
    "write_closing rm \<Longrightarrow> Remote_Write_Closed \<in> set (tunnel.waiting t)"
  using assms by (auto simp: relay_ok_def waiting_ok_def)

lemma follows_next:
  assumes "relay_ok t" "relay_step t ev = a" "follows sim m a"
  shows "\<exists>c' t'. m = Inr c' \<and> sim c' t' \<and> relay_ok t' \<and> relay_step t ev = Inr t'"
proof -
  obtain t' where "relay_step t ev = Inr t'" "relay_ok t'" using relay_step_ok [OF assms(1)] by blast
  then show ?thesis using assms(2,3) by (auto simp: follows_def)
qed

lemma follows_settled:
  assumes "relay_ok t" "\<not> released t" "relay_step t ev = a" "follows sim m a"
    and "answered_task ev = Some k" "k \<in> set (tunnel.waiting t)" "P \<longrightarrow> brings_nothing ev"
  shows "\<exists>c' t'. m = Inr c' \<and> sim c' t' \<and> relay_ok t' \<and> (P \<longrightarrow> work t' < work t)"
proof -
  obtain c' t' where "m = Inr c'" "sim c' t'" "relay_ok t'" "relay_step t ev = Inr t'"
    using follows_next [OF assms(1,3,4)] by blast
  then show ?thesis using settled_step [OF assms(1,2,5,6)] assms(7) by blast
qed

lemma moved_by:
  "move_machine m (Gets_Read q) = Inr m' \<Longrightarrow> reading m"
  "move_machine m (Gets_Written r) = Inr m' \<Longrightarrow> writing m"
  "move_machine m Gets_Closed = Inr m' \<Longrightarrow> write_closing m"
  by (auto simp: read_answered_def write_answered_def read_end_def write_end_def write_close_end_def
      exec_bind_Inr boost_assert_Inr)

lemma local_report_next:
  assumes "relay_ok t" "sim c t" "\<not> released t" "lok l" "report_move Local rp = Some e"
    and "move_machine (local_machine t) e = Inr (op_machine lops l)"
    and "op_sent lops l = op_sent lops (local_flow c)" "op_got lops l = op_got lops (local_flow c) @ report_bytes rp"
  shows "\<exists>c' t'. local_report E y (c\<lparr>local_flow := l\<rparr>) rp = Inr c' \<and> sim c' t' \<and> relay_ok t' \<and> (no_data rp \<longrightarrow> work t' < work t)"
proof -
  let ?c = "c\<lparr>local_flow := l\<rparr>"
  let ?t = "\<lambda>k. t\<lparr>tunnel.waiting := remove1 k (tunnel.waiting t), local_machine := op_machine lops l\<rparr>"
  note waits = waits_for [OF assms(1,3) live_sim(5) [OF assms(2,3)]]
  note moved = local_answered [OF assms(2-4,6-8)]
  note step = answer_def on_local_machine_def
  show ?thesis
  proof (cases rp)
    case (Data_Report k q)
    then have e: "e = Gets_Read q" using assms(5) by (simp split: if_splits)
    then have w: "Local_Data \<in> set (tunnel.waiting t)" using assms(6) moved_by(1) waits(1) by blast
    then have s: "relay_step t (Local_Read_Answer q) = on_local_data q (?t Local_Data)"
      using assms(6) e by (simp add: step)
    have b: "report_bytes rp = (case q of Inl e \<Rightarrow> [] | Inr xs \<Rightarrow> xs)" using Data_Report by (cases q) simp_all
    have "follows sim (local_read_done E y q ?c) (on_local_data q (?t Local_Data))"
      using moved [of "remove1 Local_Data (tunnel.waiting t)"] b by (intro local_read_done_follows) simp
    then show ?thesis
      using follows_settled [OF assms(1,3) s _ _ w, where P = "no_data rp"] Data_Report by (cases q) simp_all
  next
    case (Done_Report k r)
    have m: "sim ?c (?t j)" for j using moved [of "remove1 j (tunnel.waiting t)"] Done_Report by simp
    show ?thesis
    proof (cases "k = Local_Written")
      case True
      then have e: "e = Gets_Written r" using assms(5) Done_Report by simp
      then have w: "Local_Written \<in> set (tunnel.waiting t)" using assms(6) moved_by(2) waits(2) by blast
      then have s: "relay_step t (Local_Write_Answer r) = on_local_written r (?t Local_Written)"
        using assms(6) e by (simp add: step)
      show ?thesis
        using follows_settled [OF assms(1,3) s local_write_done_follows [OF m] _ w, where P = "no_data rp"] Done_Report True by simp
    next
      case False
      then have e: "e = Gets_Closed" using assms(5) Done_Report by (simp split: if_splits)
      then have w: "Local_Write_Closed \<in> set (tunnel.waiting t)" using assms(6) moved_by(3) waits(3) by blast
      then have s: "relay_step t Local_Close_Answer = on_local_write_closed (?t Local_Write_Closed)"
        using assms(6) e by (simp add: step)
      show ?thesis
        using follows_settled [OF assms(1,3) s write_close_done_follows(2) [OF m] _ w, where P = "no_data rp"] Done_Report False by simp
    qed
  qed
qed

lemma remote_report_next:
  assumes "relay_ok t" "sim c t" "\<not> released t" "rok r" "report_move Remote rp = Some e"
    and "move_machine (op_machine rops (remote_flow c)) e = Inr (op_machine rops r)"
    and "op_sent rops r = op_sent rops (remote_flow c)"
    and "op_got rops r = op_got rops (remote_flow c) @ report_bytes rp"
  shows "\<exists>c' t'. remote_report E x (c\<lparr>remote_flow := r\<rparr>) rp = Inr c' \<and> sim c' t' \<and> relay_ok t' \<and> (no_data rp \<longrightarrow> work t' < work t)"
proof -
  let ?c = "c\<lparr>remote_flow := r\<rparr>" and ?m = "op_machine rops (remote_flow c)"
  let ?t = "\<lambda>k. t\<lparr>tunnel.waiting := remove1 k (tunnel.waiting t), remote_machine := Some (op_machine rops r)\<rparr>"
  note rm = live_sim(5) [OF assms(2,3)]
  note waits = waits_for [OF assms(1,3) rm]
  note moved = remote_answered [OF assms(2-4,6-8)]
  note step = answer_def on_remote_machine_def with_remote_def rm
  show ?thesis
  proof (cases rp)
    case (Data_Report k q)
    then have e: "e = Gets_Read q" using assms(5) by (simp split: if_splits)
    then have w: "Remote_Data \<in> set (tunnel.waiting t)" using assms(6) moved_by(1) waits(4) by blast
    then have s: "relay_step t (Remote_Read_Answer q) = on_remote_data q (?t Remote_Data)"
      using assms(6) e by (simp add: step)
    have b: "report_bytes rp = (case q of Inl e \<Rightarrow> [] | Inr xs \<Rightarrow> xs)" using Data_Report by (cases q) simp_all
    have "follows sim (remote_read_done E x q ?c) (on_remote_data q (?t Remote_Data))"
      using moved [of "remove1 Remote_Data (tunnel.waiting t)"] b by (intro remote_read_done_follows) simp
    then show ?thesis
      using follows_settled [OF assms(1,3) s _ _ w, where P = "no_data rp"] Data_Report by (cases q) simp_all
  next
    case (Done_Report k w)
    have m: "sim ?c (?t j)" for j using moved [of "remove1 j (tunnel.waiting t)"] Done_Report by simp
    show ?thesis
    proof (cases "k = Remote_Written")
      case True
      then have e: "e = Gets_Written w" using assms(5) Done_Report by simp
      then have w: "Remote_Written \<in> set (tunnel.waiting t)" using assms(6) moved_by(2) waits(5) by blast
      then have s: "relay_step t (Remote_Write_Answer w) = on_remote_written w (?t Remote_Written)"
        using assms(6) e by (simp add: step)
      show ?thesis
        using follows_settled [OF assms(1,3) s remote_write_done_follows [OF m] _ w, where P = "no_data rp"] Done_Report True by simp
    next
      case False
      then have e: "e = Gets_Closed" using assms(5) Done_Report by (simp split: if_splits)
      then have w: "Remote_Write_Closed \<in> set (tunnel.waiting t)" using assms(6) moved_by(3) waits(6) by blast
      then have s: "relay_step t Remote_Close_Answer = on_remote_write_closed (?t Remote_Write_Closed)"
        using assms(6) e by (simp add: step)
      show ?thesis
        using follows_settled [OF assms(1,3) s write_close_done_follows(1) [OF m] _ w, where P = "no_data rp"] Done_Report False by simp
    qed
  qed
qed

text \<open>One event.\<close>

definition good :: "('l, 'r) forwarding \<Rightarrow> bool" where
  "good c \<longleftrightarrow> (\<exists>t. sim c t \<and> relay_ok t)"

text \<open>The tunnel's work, read off the two flows.\<close>

definition left :: "('l, 'r) forwarding \<Rightarrow> nat" where
  "left c =
     (if deleted c then 0
      else direction_work (op_machine lops (local_flow c)) (op_machine rops (remote_flow c)) +
           direction_work (op_machine rops (remote_flow c)) (op_machine lops (local_flow c)))"

lemma left_work: "sim c t \<Longrightarrow> left c = work t"
  by (auto simp: left_def work_def sim_def)

lemma left_bound: "left c \<le> 6"
  by (simp add: left_def direction_work_def)

lemma good_left: "good c \<Longrightarrow> deleted c \<or> 0 < left c"
  using relay_work left_work by (fastforce simp: good_def sim_def)

lemma local_event_good:
  assumes "sim c t" "relay_ok t" "deleted c \<or> ladm (local_flow c) a"
  shows "\<exists>c'. forward_step E c (From_Local a y) = Inr c' \<and> good c' \<and>
     (settles E c (From_Local a y) \<longrightarrow> deleted c \<and> deleted c' \<or> left c' < left c)"
proof (cases "released t")
  case True
  then obtain l where "op_answer lops a (local_flow c) = Inr (l, [])" "ldead l" "same_bytes lops (local_flow c) l"
    using l.dead_law assms(1) by (fastforce simp: sim_def)
  moreover from this have "sim (c\<lparr>local_flow := l\<rparr>) t"
    using True assms(1) by (auto simp: sim_def logs_def same_bytes_def)
  moreover have "deleted c" using True assms(1) by (simp add: sim_def)
  ultimately show ?thesis using assms(2) by (auto simp: good_def)
next
  case False
  note s = live_sim [OF assms(1) False]
  obtain l rs where l: "op_answer lops a (local_flow c) = Inr (l, rs)" "lok l"
      "op_sent lops l = op_sent lops (local_flow c)"
    and rs: "rs = [] \<and> op_machine lops l = local_machine t \<and> op_got lops l = op_got lops (local_flow c) \<or>
        (\<exists>rp e. rs = [rp] \<and> report_move Local rp = Some e \<and>
           move_machine (local_machine t) e = Inr (op_machine lops l) \<and>
           op_got lops l = op_got lops (local_flow c) @ report_bytes rp)"
    using l.answer_law [of "local_flow c" a] s assms(3) by auto
  from rs show ?thesis
  proof
    assume n: "rs = [] \<and> op_machine lops l = local_machine t \<and> op_got lops l = op_got lops (local_flow c)"
    then have "sim (c\<lparr>local_flow := l\<rparr>) t" using l s False by (simp add: sim_def logs_def)
    then show ?thesis using l(1) n assms(2) by (auto simp: good_def)
  next
    assume "\<exists>rp e. rs = [rp] \<and> report_move Local rp = Some e \<and>
        move_machine (local_machine t) e = Inr (op_machine lops l) \<and>
        op_got lops l = op_got lops (local_flow c) @ report_bytes rp"
    then obtain rp e where rp: "rs = [rp]" "report_move Local rp = Some e"
      "move_machine (local_machine t) e = Inr (op_machine lops l)"
      "op_got lops l = op_got lops (local_flow c) @ report_bytes rp" by blast
    obtain c' t' where "local_report E y (c\<lparr>local_flow := l\<rparr>) rp = Inr c'" "sim c' t'" "relay_ok t'"
      "no_data rp \<longrightarrow> work t' < work t"
      using local_report_next [OF assms(2,1) False l(2) rp(2,3) l(3) rp(4), of y] by blast
    then show ?thesis using l(1) rp(1) s(1) left_work [OF assms(1)] left_work [of c' t'] by (auto simp: good_def)
  qed
qed

lemma remote_event_good:
  assumes "sim c t" "relay_ok t" "deleted c \<or> radm (remote_flow c) b"
  shows "\<exists>c'. forward_step E c (From_Remote b x) = Inr c' \<and> good c' \<and>
     (settles E c (From_Remote b x) \<longrightarrow> deleted c \<and> deleted c' \<or> left c' < left c)"
proof (cases "released t")
  case True
  then obtain r where "op_answer rops b (remote_flow c) = Inr (r, [])" "rdead r" "same_bytes rops (remote_flow c) r"
    using r.dead_law assms(1) by (fastforce simp: sim_def)
  moreover from this have "sim (c\<lparr>remote_flow := r\<rparr>) t"
    using True assms(1) by (auto simp: sim_def logs_def same_bytes_def)
  moreover have "deleted c" using True assms(1) by (simp add: sim_def)
  ultimately show ?thesis using assms(2) by (auto simp: good_def)
next
  case False
  note s = live_sim [OF assms(1) False]
  obtain r rs where r: "op_answer rops b (remote_flow c) = Inr (r, rs)" "rok r"
      "op_sent rops r = op_sent rops (remote_flow c)"
    and rs: "rs = [] \<and> op_machine rops r = op_machine rops (remote_flow c) \<and>
          op_got rops r = op_got rops (remote_flow c) \<or>
        (\<exists>rp e. rs = [rp] \<and> report_move Remote rp = Some e \<and>
           move_machine (op_machine rops (remote_flow c)) e = Inr (op_machine rops r) \<and>
           op_got rops r = op_got rops (remote_flow c) @ report_bytes rp)"
    using r.answer_law [of "remote_flow c" b] s assms(3) by auto
  from rs show ?thesis
  proof
    assume n: "rs = [] \<and> op_machine rops r = op_machine rops (remote_flow c) \<and>
        op_got rops r = op_got rops (remote_flow c)"
    then have "sim (c\<lparr>remote_flow := r\<rparr>) t" using r s False by (simp add: sim_def logs_def)
    then show ?thesis using r(1) n assms(2) by (auto simp: good_def)
  next
    assume "\<exists>rp e. rs = [rp] \<and> report_move Remote rp = Some e \<and>
        move_machine (op_machine rops (remote_flow c)) e = Inr (op_machine rops r) \<and>
        op_got rops r = op_got rops (remote_flow c) @ report_bytes rp"
    then obtain rp e where rp: "rs = [rp]" "report_move Remote rp = Some e"
      "move_machine (op_machine rops (remote_flow c)) e = Inr (op_machine rops r)"
      "op_got rops r = op_got rops (remote_flow c) @ report_bytes rp" by blast
    obtain c' t' where "remote_report E x (c\<lparr>remote_flow := r\<rparr>) rp = Inr c'" "sim c' t'" "relay_ok t'"
      "no_data rp \<longrightarrow> work t' < work t"
      using remote_report_next [OF assms(2,1) False r(2) rp(2,3) r(3) rp(4), of x] by blast
    then show ?thesis using r(1) rp(1) s(1) left_work [OF assms(1)] left_work [of c' t'] by (auto simp: good_def)
  qed
qed

lemma timer_good:
  assumes "sim c t" "relay_ok t"
  shows "\<exists>c'. forward_step E c Timer_Fires = Inr c' \<and> good c' \<and>
     (settles E c Timer_Fires \<longrightarrow> deleted c \<and> deleted c')"
proof -
  have "follows sim (forward_step E c Timer_Fires) (relay_step t Timeout)"
    using assms(1) release_follows [OF assms(1)] by (auto simp: sim_def)
  then show ?thesis using follows_next [OF assms(2) refl] by (fastforce simp: good_def)
qed

lemma event_good:
  assumes "good c" "admitted ladm radm c e"
  shows "\<exists>c'. forward_step E c e = Inr c' \<and> good c' \<and>
     (settles E c e \<longrightarrow> deleted c \<and> deleted c' \<or> left c' < left c)"
proof -
  obtain t where t: "sim c t" "relay_ok t" using assms(1) by (auto simp: good_def)
  show ?thesis
  proof (cases e)
    case (From_Local a y)
    then show ?thesis using local_event_good [OF t, of a y] assms(2) by simp
  next
    case (From_Remote b x)
    then show ?thesis using remote_event_good [OF t, of b x] assms(2) by simp
  next
    case Timer_Fires
    then show ?thesis using timer_good [OF t] by blast
  qed
qed

lemma good_facts:
  assumes "good c"
  shows "op_sent rops (remote_flow c) = op_got lops (local_flow c)"
    "op_sent lops (local_flow c) = op_got rops (remote_flow c)"
    "deleted c \<or> lpend (local_flow c) \<or> rpend (remote_flow c)"
proof -
  obtain t where t: "sim c t" "relay_ok t" using assms by (auto simp: good_def)
  show "op_sent rops (remote_flow c) = op_got lops (local_flow c)"
    "op_sent lops (local_flow c) = op_got rops (remote_flow c)"
    using t by (simp_all add: sim_def logs_def relay_ok_def)
  show "deleted c \<or> lpend (local_flow c) \<or> rpend (remote_flow c)"
  proof (cases "released t")
    case False
    note s = live_sim [OF t(1) False]
    let ?lm = "local_machine t" and ?rm = "op_machine rops (remote_flow c)"
    have "reading ?lm \<or> writing ?lm \<or> write_closing ?lm \<or> reading ?rm \<or> writing ?rm \<or> write_closing ?rm"
      using relay_work [OF t(2)] False s(5) by (auto simp: work_def direction_work_def split: if_splits)
    then show ?thesis using l.pending_law [OF s(2)] r.pending_law [OF s(3)] s(4) by auto
  qed (use t(1) in \<open>simp add: sim_def\<close>)
qed

text \<open>Two idle flows that have just been established, and the tunnel that begins to forward.\<close>

lemma begins_good:
  assumes "lok l" "rok r" "idle_machine (op_machine lops l)" "idle_machine (op_machine rops r)"
    and "op_sent lops l = []" "op_got lops l = []" "op_sent rops r = []" "op_got rops r = []"
  shows "\<exists>c. flow_begin_forward E \<lparr>local_flow = l, remote_flow = r, deleted = False\<rparr> = Inr c \<and> good c"
proof -
  let ?c = "\<lparr>local_flow = l, remote_flow = r, deleted = False\<rparr>"
  let ?t = "(tunnel_new (op_machine lops l))\<lparr>remote_machine := Some (op_machine rops r)\<rparr>"
  have st: "sim ?c ?t"
    using assms by (simp add: sim_def logs_def tunnel_new_def idle_machine_def open_machine_def)
  obtain t where t: "begin_forward ?t = Inr t" "relay_ok t"
    using begin_forward_ok [of ?t "op_machine rops r"] assms(3,4) by (auto simp: tunnel_new_def)
  then show ?thesis using begin_forward_follows [OF st] by (auto simp: follows_def good_def)
qed

end

sublocale tunnel_between \<subseteq> forwards: contract_machine "forward_step (lops, rops)" good "admitted ladm radm"
  by unfold_locales (use event_good in blast)

context tunnel_between
begin

text \<open>Answers without data, one after another, end the tunnel.\<close>

lemma settling_run:
  "good c \<Longrightarrow> admissible_run (forward_step E) (\<lambda>c e. admitted ladm radm c e \<and> settles E c e) c es \<Longrightarrow>
   \<exists>c'. run (forward_step E) c es = Inr c' \<and> good c' \<and> (deleted c' \<or> left c' + length es \<le> left c)"
proof (induction es arbitrary: c)
  case (Cons e es)
  obtain d where d: "forward_step E c e = Inr d" "good d" "deleted c \<and> deleted d \<or> left d < left c"
    using event_good [OF Cons.prems(1), of e] Cons.prems(2) by auto
  then obtain c' where c': "run (forward_step E) d es = Inr c'" "good c'"
    "deleted c' \<or> left c' + length es \<le> left d"
    using Cons.IH [of d] Cons.prems(2) by auto
  have "deleted c' \<or> left c' + length (e # es) \<le> left c"
    using d(3) c'(3) good_left [OF c'(2)] by (auto simp: left_def)
  then show ?case using d(1) c'(1,2) by auto
qed simp

lemma settles_down:
  assumes "good c" "6 \<le> length es"
    and "admissible_run (forward_step E) (\<lambda>c e. admitted ladm radm c e \<and> settles E c e) c es"
  shows "\<exists>c'. run (forward_step E) c es = Inr c' \<and> deleted c'"
proof -
  obtain c' where "run (forward_step E) c es = Inr c'" "good c'" "deleted c' \<or> left c' + length es \<le> left c"
    using settling_run [OF assms(1,3)] by blast
  then show ?thesis using good_left [of c'] left_bound [of c] assms(2) by auto
qed

lemma winds_down_after:
  assumes "lok l" "rok r" "idle_machine (op_machine lops l)" "idle_machine (op_machine rops r)"
    and "op_sent lops l = []" "op_got lops l = []" "op_sent rops r = []" "op_got rops r = []"
    and "flow_begin_forward E \<lparr>local_flow = l, remote_flow = r, deleted = False\<rparr> = Inr b"
    and "admissible_run (forward_step E) (admitted ladm radm) b before" "run (forward_step E) b before = Inr c"
    and "admissible_run (forward_step E) (\<lambda>c e. admitted ladm radm c e \<and> settles E c e) c es" "6 \<le> length es"
  shows "\<exists>c'. run (forward_step E) c es = Inr c' \<and> deleted c'"
proof -
  have "good b" using begins_good [OF assms(1-8)] assms(9) by auto
  then have "good c" using forwards.contract_run [OF _ assms(10)] assms(11) by auto
  then show ?thesis by (rule settles_down [OF _ assms(13,12)])
qed

lemma forwards_safely:
  assumes "lok l" "rok r" "idle_machine (op_machine lops l)" "idle_machine (op_machine rops r)"
    and "op_sent lops l = []" "op_got lops l = []" "op_sent rops r = []" "op_got rops r = []"
    and "\<And>b. flow_begin_forward E \<lparr>local_flow = l, remote_flow = r, deleted = False\<rparr> = Inr b \<Longrightarrow>
         admissible_run (forward_step E) (admitted ladm radm) b es"
  shows "\<exists>c. exec_bind (flow_begin_forward E \<lparr>local_flow = l, remote_flow = r, deleted = False\<rparr>)
       (\<lambda>b. run (forward_step E) b es) = Inr c \<and>
     op_sent rops (remote_flow c) = op_got lops (local_flow c) \<and>
     op_sent lops (local_flow c) = op_got rops (remote_flow c) \<and>
     (deleted c \<or> lpend (local_flow c) \<or> rpend (remote_flow c))"
proof -
  obtain b where b: "flow_begin_forward E \<lparr>local_flow = l, remote_flow = r, deleted = False\<rparr> = Inr b" "good b"
    using begins_good [OF assms(1-8)] by blast
  obtain c where "run (forward_step E) b es = Inr c" "good c"
    using forwards.contract_run [OF b(2) assms(9) [OF b(1)]] by blast
  then show ?thesis using b(1) good_facts by auto
qed

end

section \<open>Between two sockets\<close>

interpretation sockets: tunnel_between
    "tcp_ops codes" "port_in_use Local" "port_held Local" port_dead port_pending "port_admissible codes"
    "tcp_ops codes" "port_in_use Remote" "port_held Remote" port_dead port_pending "port_admissible codes"
  by unfold_locales

definition socket_ends ::
  "asio_codes \<Rightarrow> (tcp_port, nat \<times> sys_answer, boost_code, tcp_port, nat \<times> sys_answer, boost_code) ends" where
  "socket_ends codes = (tcp_ops codes, tcp_ops codes)"

text \<open>A socket that its user hands over to the tunnel, with nothing outstanding.\<close>

definition port_of :: "tunnel_task tcp_world \<Rightarrow> tcp_port" where
  "port_of w = \<lparr>world = w, sent = [], got = []\<rparr>"

definition handed_over :: "asio_codes \<Rightarrow> flow_type \<Rightarrow> tunnel_task tcp_world \<Rightarrow> bool" where
  "handed_over codes sd w \<longleftrightarrow>
     (\<exists>s es. admissible_run (tcp_step codes) (tcp_admissible codes) (tcp_start sd s) es \<and>
        run (tcp_step codes) (tcp_start sd s) es = Inr w) \<and>
     tcp_world.waiting w = [] \<and> idle_machine (ts_machine (socket w))"

lemma handed_over_in_use:
  assumes "handed_over codes sd w"
  shows "port_in_use sd' (port_of w)"
proof -
  have "world_ok w"
    using assms tcp_contract.contract_run [OF tcp_start_ok] by (fastforce simp: handed_over_def)
  moreover have "\<not> write_closing (ts_machine (socket w))"
    using assms by (auto simp: handed_over_def idle_machine_def fsm_ok_def)
  ultimately show ?thesis
    using assms by (auto simp: handed_over_def port_in_use_def port_of_def Let_def live_tasks_def idle_machine_def)
qed

definition begin_tunnel :: "asio_codes \<Rightarrow> tunnel_task tcp_world \<Rightarrow> tunnel_task tcp_world \<Rightarrow> (tcp_port, tcp_port) forwarding exec" where
  "begin_tunnel codes lw rw =
     flow_begin_forward (socket_ends codes) \<lparr>local_flow = port_of lw, remote_flow = port_of rw, deleted = False\<rparr>"

text \<open>
  C1. A tunnel forwards between two TCP sockets end to end.  Given two established sockets with
  nothing outstanding, and an operating system that answers their operations in any order -
  data in pieces of any size up to the read buffer, ends of stream, errors, whole writes - no
  assertion of tunnel, sockets or state machines fails, no freed object is touched and no
  closure runs that should not; what was given to the system to send on either socket is at
  every moment exactly what it delivered on the other, in order and without loss; and until
  the tunnel deletes itself some operation is outstanding whose answer it waits for.
\<close>

theorem socket_tunnel_end_to_end:
  assumes "handed_over codes Local lw" "handed_over codes Remote rw"
    and "\<And>b. begin_tunnel codes lw rw = Inr b \<Longrightarrow>
         admissible_run (forward_step (socket_ends codes))
           (admitted (port_admissible codes) (port_admissible codes)) b es"
  shows "\<exists>t. exec_bind (begin_tunnel codes lw rw) (\<lambda>b. run (forward_step (socket_ends codes)) b es) = Inr t \<and>
     sent (remote_flow t) = got (local_flow t) \<and> sent (local_flow t) = got (remote_flow t) \<and>
     (deleted t \<or> port_pending (local_flow t) \<or> port_pending (remote_flow t))"
  using sockets.forwards_safely [of "port_of lw" "port_of rw" codes es] assms
    handed_over_in_use [OF assms(1)] handed_over_in_use [OF assms(2)]
  by (simp add: socket_ends_def begin_tunnel_def handed_over_def tcp_ops_def port_of_def)

text \<open>
  C2. The same tunnel comes to its end.  After any run so far, let the answers that follow each
  settle an operation the tunnel waits for and bring no data - a read that ends or fails, a
  write or a close that is done or fails, in any order on either socket.  Then six of them are
  enough: the tunnel has deleted itself, without its timer.
\<close>

theorem socket_tunnel_winds_down:
  assumes "handed_over codes Local lw" "handed_over codes Remote rw" "begin_tunnel codes lw rw = Inr b"
    and "admissible_run (forward_step (socket_ends codes))
           (admitted (port_admissible codes) (port_admissible codes)) b before"
    and "run (forward_step (socket_ends codes)) b before = Inr t"
    and "admissible_run (forward_step (socket_ends codes))
           (\<lambda>t e. admitted (port_admissible codes) (port_admissible codes) t e \<and>
              settles (socket_ends codes) t e) t es"
    and "6 \<le> length es"
  shows "\<exists>u. run (forward_step (socket_ends codes)) t es = Inr u \<and> deleted u"
  using sockets.winds_down_after [of "port_of lw" "port_of rw" codes b before t es] assms
    handed_over_in_use [OF assms(1)] handed_over_in_use [OF assms(2)]
  by (simp add: socket_ends_def begin_tunnel_def handed_over_def tcp_ops_def port_of_def)

definition no_boost_error :: boost_code where
  "no_boost_error = \<lparr>bcategory = System_Category, bvalue = 0\<rparr>"

definition sample_local_world :: "tunnel_task tcp_world" where
  "sample_local_world =
     \<lparr>socket = (tcp_socket_new Local (session_new 0 None) (Some 0) (Some 1) (Some 5) (Some 3))
        \<lparr>ts_machine := established Local\<rparr>,
      flags = [False, False, False, False, False, False], waiting = [],
      given = [Give Local_Opened (Inr ()), Give Local_Continued (Inr ())]\<rparr>"

definition sample_remote_world :: "tunnel_task tcp_world" where
  "sample_remote_world =
     \<lparr>socket = (tcp_socket_new Remote (session_new 0 None) (Some 0) (Some 1) (Some 2) (Some 4))
        \<lparr>ts_machine := established Remote\<rparr>,
      flags = [False, False, False, False, False], waiting = [], given = [Give Remote_Connected (Inr ())]\<rparr>"

lemmas tcp_evaluate =
  tcp_start_def tcp_socket_new_def fsm_new_def fsm_defs absorb_def tcp_open_def tcp_on_opened_def
  tcp_read_def tcp_on_read_def tcp_continue_def tcp_on_continued_def tcp_connect_def tcp_on_connected_def
  tcp_write_def tcp_on_written_def canceled_def link_pending_def live_def tcp_read_size_def
  bb_shrink_back_def bb_shrink_def delete_at_def convert_boost_error_def linux_codes_def Let_def established_def

lemma sample_local: "handed_over linux_codes Local sample_local_world"
proof -
  let ?es = "[Call (Call_Open Local_Opened), Answer 0 Run_Task, Call (Call_Continue Local_Continued), Answer 0 Run_Task]"
  have "admissible_run (tcp_step linux_codes) (tcp_admissible linux_codes) (tcp_start Local (session_new 0 None)) ?es"
    "run (tcp_step linux_codes) (tcp_start Local (session_new 0 None)) ?es = Inr sample_local_world"
    by (simp_all add: tcp_evaluate sample_local_world_def)
  moreover have "tcp_world.waiting sample_local_world = []" "idle_machine (ts_machine (socket sample_local_world))"
    by (simp_all add: sample_local_world_def idle_machine_def established_def fsm_ok_def fsm_new_def)
  ultimately show ?thesis unfolding handed_over_def by blast
qed

lemma sample_remote: "handed_over linux_codes Remote sample_remote_world"
proof -
  let ?es = "[Call (Call_Connect (endpoint_with_host (\<lambda>s. None) ''a'' 1 None) Remote_Connected), Answer 0 (Connect_Answer (Inr ()))]"
  have "admissible_run (tcp_step linux_codes) (tcp_admissible linux_codes) (tcp_start Remote (session_new 0 None)) ?es"
    "run (tcp_step linux_codes) (tcp_start Remote (session_new 0 None)) ?es = Inr sample_remote_world"
    by (simp_all add: tcp_evaluate sample_remote_world_def)
  moreover have "tcp_world.waiting sample_remote_world = []" "idle_machine (ts_machine (socket sample_remote_world))"
    by (simp_all add: sample_remote_world_def idle_machine_def established_def fsm_ok_def fsm_new_def)
  ultimately show ?thesis unfolding handed_over_def by blast
qed

definition sample_forwarding :: "(nat \<times> sys_answer, boost_code, nat \<times> sys_answer, boost_code) forward_event list" where
  "sample_forwarding =
     [From_Local (0, Read_Answer (Inr [1, 2])) no_boost_error,
      From_Remote (1, Write_Answer (Inr 2)) no_boost_error,
      From_Local (0, Read_Answer (Inl \<lparr>bcategory = Misc_Category, bvalue = 2\<rparr>)) no_boost_error]"

lemmas forwarding_evaluate =
  flow_begin_forward_def flow_forward_local_def flow_forward_remote_def check_status_def member_def
  lop_def rop_def tcp_ops_def port_of_def on_local_flow_def on_remote_flow_def port_call_def
  port_answer_def port_admissible_def local_read_done_def remote_write_done_def
  sample_local_world_def sample_remote_world_def sample_forwarding_def no_boost_error_def
  tcp_close_write_def tcp_evaluate

lemma sample_admissible:
  "(case begin_tunnel linux_codes sample_local_world sample_remote_world of
      Inl f \<Rightarrow> False
    | Inr b \<Rightarrow> admissible_run (forward_step (socket_ends linux_codes))
           (admitted (port_admissible linux_codes) (port_admissible linux_codes)) b sample_forwarding)"
  by (simp add: begin_tunnel_def socket_ends_def forwarding_evaluate)

theorem socket_tunnel_end_to_end_witness:
  "\<exists>t. exec_bind (begin_tunnel linux_codes sample_local_world sample_remote_world)
       (\<lambda>b. run (forward_step (socket_ends linux_codes)) b sample_forwarding) = Inr t \<and>
     sent (remote_flow t) = got (local_flow t) \<and> sent (local_flow t) = got (remote_flow t) \<and>
     (deleted t \<or> port_pending (local_flow t) \<or> port_pending (remote_flow t))"
  by (rule socket_tunnel_end_to_end [OF sample_local sample_remote])
    (use sample_admissible in simp)

text \<open>The remote side closes, ends, and the local side closes; what comes later finds the tunnel gone.\<close>

definition sample_ending :: "(nat \<times> sys_answer, boost_code, nat \<times> sys_answer, boost_code) forward_event list" where
  "sample_ending =
     [From_Remote (1, Run_Task) no_boost_error,
      From_Remote (0, Read_Answer (Inl \<lparr>bcategory = Misc_Category, bvalue = 2\<rparr>)) no_boost_error,
      From_Local (0, Run_Task) no_boost_error, Timer_Fires, Timer_Fires, Timer_Fires]"

lemmas ending_evaluate =
  forwarding_evaluate sample_ending_def only_report_def remote_read_done_def write_close_done_def
  tcp_on_write_closed_def release_def port_destroy_def tcp_destroy_def

lemma sample_ends:
  "\<exists>b t. begin_tunnel linux_codes sample_local_world sample_remote_world = Inr b \<and>
     admissible_run (forward_step (socket_ends linux_codes))
       (admitted (port_admissible linux_codes) (port_admissible linux_codes)) b sample_forwarding \<and>
     run (forward_step (socket_ends linux_codes)) b sample_forwarding = Inr t \<and>
     admissible_run (forward_step (socket_ends linux_codes))
       (\<lambda>t e. admitted (port_admissible linux_codes) (port_admissible linux_codes) t e \<and>
          settles (socket_ends linux_codes) t e) t sample_ending"
  by (simp add: begin_tunnel_def socket_ends_def ending_evaluate)

theorem socket_tunnel_winds_down_witness:
  "\<exists>b t u. begin_tunnel linux_codes sample_local_world sample_remote_world = Inr b \<and>
     run (forward_step (socket_ends linux_codes)) b sample_forwarding = Inr t \<and>
     run (forward_step (socket_ends linux_codes)) t sample_ending = Inr u \<and> deleted u"
proof -
  obtain b t where bt: "begin_tunnel linux_codes sample_local_world sample_remote_world = Inr b"
    "admissible_run (forward_step (socket_ends linux_codes))
       (admitted (port_admissible linux_codes) (port_admissible linux_codes)) b sample_forwarding"
    "run (forward_step (socket_ends linux_codes)) b sample_forwarding = Inr t"
    "admissible_run (forward_step (socket_ends linux_codes))
       (\<lambda>t e. admitted (port_admissible linux_codes) (port_admissible linux_codes) t e \<and>
          settles (socket_ends linux_codes) t e) t sample_ending"
    using sample_ends by blast
  have "6 \<le> length sample_ending" by (simp add: sample_ending_def)
  from socket_tunnel_winds_down [OF sample_local sample_remote bt this] show ?thesis using bt(1,3) by blast
qed

end
