(* ===== verification/Layered_Flows.thy ===== *)
theory Layered_Flows
  imports Socket_Tunnel
begin

text \<open>
  Flows over flows.  A server flow sits on the next hop: once its negotiation is over it passes
  calls down and answers up, keeping a state machine of its own.  Over any next hop that keeps
  the interface of \<open>Tunnel_Flows\<close> the two together keep it again, so that a tunnel forwards
  between them; \<open>HttpServerDataFlow\<close> in \<open>CONNECT\<close> mode (src/data_flow/http_server_data_flow.cc)
  and \<open>Socks5ServerDataFlow\<close> (src/data_flow/socks5_server_data_flow.cc) are such flows.
\<close>

section \<open>A flow and its next hop\<close>

text \<open>
  The handlers of the upper flow; \<open>ly_name\<close> gives the handler of the tunnel inside a closure of
  the flow.
\<close>

record ('s, 'k) layer =
  ly_machine :: "'s \<Rightarrow> fsm"
  ly_name :: "'k \<Rightarrow> tunnel_task"
  ly_read :: "cancelable \<Rightarrow> tunnel_task \<Rightarrow> 's \<Rightarrow> ('s, tunnel_task, 'k) reaction"
  ly_on_read :: "tunnel_task \<Rightarrow> bytes result \<Rightarrow> 's \<Rightarrow> ('s, tunnel_task, 'k) reaction"
  ly_write :: "cancelable \<Rightarrow> bytes \<Rightarrow> tunnel_task \<Rightarrow> 's \<Rightarrow> ('s, tunnel_task, 'k) reaction"
  ly_on_written :: "tunnel_task \<Rightarrow> unit result \<Rightarrow> 's \<Rightarrow> ('s, tunnel_task, 'k) reaction"
  ly_close :: "cancelable \<Rightarrow> tunnel_task \<Rightarrow> 's \<Rightarrow> ('s, tunnel_task, 'k) reaction"
  ly_on_closed :: "tunnel_task \<Rightarrow> unit result \<Rightarrow> 's \<Rightarrow> ('s, tunnel_task, 'k) reaction"
  ly_destroy :: "'s \<Rightarrow> (tunnel_task, 'k) action list"

text \<open>
  The actions of a handler, carried out on the next hop: what is given to the tunnel is a
  report.  \<open>x\<close> is what the system answers at once if the handler closes the next hop.  A flow
  that passes on does nothing else.
\<close>

fun perform ::
  "('s, 'k) layer \<Rightarrow> ('f, 'a, 'x) flow_ops \<Rightarrow> 'x option \<Rightarrow> 'f \<Rightarrow> (tunnel_task, 'k) action list \<Rightarrow>
   ('f \<times> flow_report list) exec" where
  "perform ly ops x f [] = Inr (f, [])"
| "perform ly ops x f (a # as) =
     exec_bind
       (case a of
          Do_Read k \<Rightarrow> exec_bind (op_read ops (ly_name ly k) f) (\<lambda>f. Inr (f, []))
        | Do_Write xs k \<Rightarrow> exec_bind (op_write ops xs (ly_name ly k) f) (\<lambda>f. Inr (f, []))
        | Do_Close_Write k \<Rightarrow>
            (case x of
               None \<Rightarrow> Inl Null_Deref
             | Some y \<Rightarrow> exec_bind (op_close ops y (ly_name ly k) f) (\<lambda>f. Inr (f, [])))
        | Cancel_Token c \<Rightarrow> Inr (op_cancel ops c f, [])
        | Give h r \<Rightarrow> Inr (f, [Done_Report h r])
        | Give_Data h r \<Rightarrow> Inr (f, [Data_Report h r])
        | _ \<Rightarrow> Inl Null_Deref) (\<lambda>(f, rs).
     exec_bind (perform ly ops x f as) (\<lambda>(f', rs'). Inr (f', rs @ rs')))"

definition stack_call ::
  "('s, 'k) layer \<Rightarrow> ('f, 'a, 'x) flow_ops \<Rightarrow> 'x option \<Rightarrow> ('s \<Rightarrow> ('s, tunnel_task, 'k) reaction) \<Rightarrow> 's \<times> 'f \<Rightarrow>
   (('s \<times> 'f) \<times> flow_report list) exec" where
  "stack_call ly ops x f sf =
     exec_bind (f (fst sf)) (\<lambda>(s, as).
     exec_bind (perform ly ops x (snd sf) as) (\<lambda>(g, rs). Inr ((s, g), rs)))"

text \<open>The closure of the upper flow that a report of the next hop runs.\<close>

fun layer_report :: "flow_type \<Rightarrow> ('s, 'k) layer \<Rightarrow> flow_report \<Rightarrow> 's \<Rightarrow> ('s, tunnel_task, 'k) reaction" where
  "layer_report sd ly (Data_Report k q) = ly_on_read ly k q"
| "layer_report sd ly (Done_Report k r) =
     (if k = written_task sd then ly_on_written ly k r else ly_on_closed ly k r)"

fun pass_up ::
  "flow_type \<Rightarrow> ('s, 'k) layer \<Rightarrow> ('f, 'a, 'x) flow_ops \<Rightarrow> 's \<times> 'f \<Rightarrow> flow_report list \<Rightarrow>
   (('s \<times> 'f) \<times> flow_report list) exec" where
  "pass_up sd ly ops sf [] = Inr (sf, [])"
| "pass_up sd ly ops sf (rp # rps) =
     exec_bind (stack_call ly ops None (layer_report sd ly rp) sf) (\<lambda>(sf, rs).
     exec_bind (pass_up sd ly ops sf rps) (\<lambda>(sf, rs'). Inr (sf, rs @ rs')))"

fun take_cancel :: "('f, 'a, 'x) flow_ops \<Rightarrow> (tunnel_task, 'k) action \<Rightarrow> 'f \<Rightarrow> 'f" where
  "take_cancel ops (Cancel_Token c) f = op_cancel ops c f"
| "take_cancel ops _ f = f"

definition only_flow :: "('f \<times> flow_report list) exec \<Rightarrow> 'f exec" where
  "only_flow m = exec_bind m (\<lambda>x. Inr (fst x))"

definition stack_ops ::
  "flow_type \<Rightarrow> ('s, 'k) layer \<Rightarrow> ('f, 'a, 'x) flow_ops \<Rightarrow> ('s \<times> 'f, 'a, 'x) flow_ops" where
  "stack_ops sd ly ops =
     \<lparr>op_machine = (\<lambda>sf. ly_machine ly (fst sf)),
      op_read = (\<lambda>h sf. only_flow (stack_call ly ops None (ly_read ly (op_token ops (snd sf)) h) sf)),
      op_write = (\<lambda>xs h sf. only_flow (stack_call ly ops None (ly_write ly (op_token ops (snd sf)) xs h) sf)),
      op_close = (\<lambda>x h sf. only_flow (stack_call ly ops (Some x) (ly_close ly (op_token ops (snd sf)) h) sf)),
      op_answer = (\<lambda>a sf. exec_bind (op_answer ops a (snd sf)) (\<lambda>(g, rs). pass_up sd ly ops (fst sf, g) rs)),
      op_token = (\<lambda>sf. op_token ops (snd sf)),
      op_cancel = (\<lambda>c sf. (fst sf, op_cancel ops c (snd sf))),
      op_destroy = (\<lambda>sf. (fst sf, op_destroy ops (fold (take_cancel ops) (ly_destroy ly (fst sf)) (snd sf)))),
      op_sent = (\<lambda>sf. op_sent ops (snd sf)),
      op_got = (\<lambda>sf. op_got ops (snd sf))\<rparr>"

section \<open>Flows that pass on\<close>

text \<open>
  \<open>sok\<close>: the flow is past its negotiation and holds nothing back.  After an error it may cancel
  a token of the next hop.
\<close>

locale passing_layer =
  fixes ly :: "('s, 'k) layer" and sd :: flow_type and sok :: "'s \<Rightarrow> bool"
  assumes pass_read:
    "sok s \<Longrightarrow> read_begin (ly_machine ly s) = Inr m \<Longrightarrow>
     \<exists>s' k. ly_read ly c h s = Inr (s', [Do_Read k]) \<and> ly_name ly k = h \<and> sok s' \<and> ly_machine ly s' = m"
  and pass_on_read:
    "sok s \<Longrightarrow> read_answered q (ly_machine ly s) = Inr m \<Longrightarrow>
     \<exists>s' as. ly_on_read ly h q s = Inr (s', as @ [Give_Data h q]) \<and> sok s' \<and> ly_machine ly s' = m \<and>
       (as = [] \<or> (\<exists>c e. as = [Cancel_Token c] \<and> q = Inl e \<and> \<not> is_eof e))"
  and pass_write:
    "sok s \<Longrightarrow> write_begin (ly_machine ly s) = Inr m \<Longrightarrow>
     \<exists>s' k. ly_write ly c xs h s = Inr (s', [Do_Write xs k]) \<and> ly_name ly k = h \<and> sok s' \<and> ly_machine ly s' = m"
  and pass_on_written:
    "sok s \<Longrightarrow> write_answered r (ly_machine ly s) = Inr m \<Longrightarrow>
     \<exists>s' as. ly_on_written ly h r s = Inr (s', as @ [Give h r]) \<and> sok s' \<and> ly_machine ly s' = m \<and>
       (as = [] \<or> (\<exists>c e. as = [Cancel_Token c] \<and> r = Inl e))"
  and pass_close:
    "sok s \<Longrightarrow> write_close_begin (ly_machine ly s) = Inr m \<Longrightarrow>
     \<exists>s' k. ly_close ly c h s = Inr (s', [Do_Close_Write k]) \<and> ly_name ly k = h \<and> sok s' \<and> ly_machine ly s' = m"
  and pass_on_closed:
    "sok s \<Longrightarrow> write_close_end (ly_machine ly s) = Inr m \<Longrightarrow>
     \<exists>s'. ly_on_closed ly h (Inr ()) s = Inr (s', [Give h (Inr ())]) \<and> sok s' \<and> ly_machine ly s' = m"

text \<open>
  Over a next hop that closes without error: the upper flow would take a failed close for the
  end of everything.
\<close>

definition closes_cleanly :: "flow_type \<Rightarrow> ('f, 'a, 'x) flow_ops \<Rightarrow> 'f \<Rightarrow> 'a \<Rightarrow> bool" where
  "closes_cleanly sd ops f a \<longleftrightarrow> (\<forall>g e. op_answer ops a f \<noteq> Inr (g, [Done_Report (closed_task sd) (Inl e)]))"

definition stack_ok :: "('s, 'k) layer \<Rightarrow> ('f, 'a, 'x) flow_ops \<Rightarrow> ('s \<Rightarrow> bool) \<Rightarrow> ('f \<Rightarrow> bool) \<Rightarrow> 's \<times> 'f \<Rightarrow> bool" where
  "stack_ok ly ops sok ok sf \<longleftrightarrow>
     sok (fst sf) \<and> ok (snd sf) \<and> ly_machine ly (fst sf) = op_machine ops (snd sf)"

locale stacked_flow =
  up: passing_layer ly sd sok + down: tunnel_flow ops sd ok held dead pending adm
  for ly :: "('s, 'k) layer" and sd sok
    and ops :: "('f, 'a, 'x) flow_ops" and ok held dead pending adm
begin

lemmas stack_simps = stack_ops_def stack_call_def only_flow_def stack_ok_def same_bytes_def

lemma stack_read:
  assumes "stack_ok ly ops sok ok sf" "open_machine (op_machine (stack_ops sd ly ops) sf)"
    and "read_begin (op_machine (stack_ops sd ly ops) sf) = Inr m"
  shows "\<exists>sf'. op_read (stack_ops sd ly ops) (data_task sd) sf = Inr sf' \<and> stack_ok ly ops sok ok sf' \<and>
     op_machine (stack_ops sd ly ops) sf' = m \<and> same_bytes (stack_ops sd ly ops) sf sf'"
proof -
  obtain s f where sf: "sf = (s, f)" "sok s" "ok f" "ly_machine ly s = op_machine ops f"
    using assms(1) by (cases sf) (simp add: stack_ok_def)
  have m: "open_machine (op_machine ops f)" "read_begin (op_machine ops f) = Inr m"
    using assms(2,3) sf by (simp_all add: stack_ops_def)
  obtain f' where "op_read ops (data_task sd) f = Inr f'" "ok f'" "op_machine ops f' = m" "same_bytes ops f f'"
    using down.read_law [OF sf(3) m] by blast
  moreover obtain s' k where "ly_read ly (op_token ops f) (data_task sd) s = Inr (s', [Do_Read k])"
    "ly_name ly k = data_task sd" "sok s'" "ly_machine ly s' = m"
    using up.pass_read [OF sf(2), of m "op_token ops f" "data_task sd"] m(2) sf(4) by auto
  ultimately show ?thesis using sf(1) by (auto simp: stack_simps)
qed

lemma stack_write:
  assumes "stack_ok ly ops sok ok sf" "open_machine (op_machine (stack_ops sd ly ops) sf)"
    and "write_begin (op_machine (stack_ops sd ly ops) sf) = Inr m"
  shows "\<exists>sf'. op_write (stack_ops sd ly ops) xs (written_task sd) sf = Inr sf' \<and> stack_ok ly ops sok ok sf' \<and>
     op_machine (stack_ops sd ly ops) sf' = m \<and>
     op_sent (stack_ops sd ly ops) sf' = op_sent (stack_ops sd ly ops) sf @ xs \<and>
     op_got (stack_ops sd ly ops) sf' = op_got (stack_ops sd ly ops) sf"
proof -
  obtain s f where sf: "sf = (s, f)" "sok s" "ok f" "ly_machine ly s = op_machine ops f"
    using assms(1) by (cases sf) (simp add: stack_ok_def)
  have m: "open_machine (op_machine ops f)" "write_begin (op_machine ops f) = Inr m"
    using assms(2,3) sf by (simp_all add: stack_ops_def)
  obtain f' where "op_write ops xs (written_task sd) f = Inr f'" "ok f'" "op_machine ops f' = m"
    "op_sent ops f' = op_sent ops f @ xs" "op_got ops f' = op_got ops f"
    using down.write_law [OF sf(3) m] by blast
  moreover obtain s' k where "ly_write ly (op_token ops f) xs (written_task sd) s = Inr (s', [Do_Write xs k])"
    "ly_name ly k = written_task sd" "sok s'" "ly_machine ly s' = m"
    using up.pass_write [OF sf(2), of m "op_token ops f" xs "written_task sd"] m(2) sf(4) by auto
  ultimately show ?thesis using sf(1) by (auto simp: stack_simps)
qed

lemma stack_close:
  assumes "stack_ok ly ops sok ok sf" "open_machine (op_machine (stack_ops sd ly ops) sf)"
    and "is_write_closable (op_machine (stack_ops sd ly ops) sf)"
    and "write_close_begin (op_machine (stack_ops sd ly ops) sf) = Inr m"
  shows "\<exists>sf'. op_close (stack_ops sd ly ops) x (closed_task sd) sf = Inr sf' \<and> stack_ok ly ops sok ok sf' \<and>
     op_machine (stack_ops sd ly ops) sf' = m \<and> same_bytes (stack_ops sd ly ops) sf sf'"
proof -
  obtain s f where sf: "sf = (s, f)" "sok s" "ok f" "ly_machine ly s = op_machine ops f"
    using assms(1) by (cases sf) (simp add: stack_ok_def)
  have m: "open_machine (op_machine ops f)" "is_write_closable (op_machine ops f)"
    "write_close_begin (op_machine ops f) = Inr m"
    using assms(2-4) sf by (simp_all add: stack_ops_def)
  obtain f' where "op_close ops x (closed_task sd) f = Inr f'" "ok f'" "op_machine ops f' = m" "same_bytes ops f f'"
    using down.close_law [OF sf(3) m] by blast
  moreover obtain s' k where "ly_close ly (op_token ops f) (closed_task sd) s = Inr (s', [Do_Close_Write k])"
    "ly_name ly k = closed_task sd" "sok s'" "ly_machine ly s' = m"
    using up.pass_close [OF sf(2), of m "op_token ops f" "closed_task sd"] m(3) sf(4) by auto
  ultimately show ?thesis using sf(1) by (auto simp: stack_simps)
qed

text \<open>A report of the next hop becomes the same report of the flow.\<close>

lemma errored_idle:
  assumes "read_answered (Inl e) m = Inr m' \<and> \<not> is_eof e \<or> write_answered (Inl e) m = Inr m'"
  shows "\<not> reading m'" "\<not> writing m'" "\<not> write_closing m'"
  using assms by (auto simp: read_answered_def write_answered_def exec_bind_Inr errored_def closed_def)

lemma closure_passes:
  assumes "sok s" "report_move sd rp = Some e" "move_machine (ly_machine ly s) e = Inr m"
    and "\<And>x. rp \<noteq> Done_Report (closed_task sd) (Inl x)"
  shows "\<exists>s' as a. layer_report sd ly rp s = Inr (s', as @ [a]) \<and> sok s' \<and> ly_machine ly s' = m \<and>
     (a = (case rp of Data_Report k q \<Rightarrow> Give_Data k q | Done_Report k r \<Rightarrow> Give k r)) \<and>
     (as = [] \<or> (\<exists>c. as = [Cancel_Token c]) \<and> \<not> reading m \<and> \<not> writing m \<and> \<not> write_closing m)"
proof (cases rp)
  case (Data_Report k q)
  then have "read_answered q (ly_machine ly s) = Inr m" using assms(2,3) by (auto split: if_splits)
  then show ?thesis
    using up.pass_on_read [OF assms(1), of q m k] errored_idle [of _ "ly_machine ly s" m] Data_Report by fastforce
next
  case (Done_Report k r)
  show ?thesis
  proof (cases "k = written_task sd")
    case True
    then have "write_answered r (ly_machine ly s) = Inr m" using assms(2,3) Done_Report by auto
    then show ?thesis
      using up.pass_on_written [OF assms(1), of r m k] errored_idle [of _ "ly_machine ly s" m] Done_Report True
      by fastforce
  next
    case False
    then have k: "k = closed_task sd" "e = Gets_Closed" using assms(2) Done_Report by (simp_all split: if_splits)
    then have "write_close_end (ly_machine ly s) = Inr m" using assms(3) by simp
    moreover have "r = Inr ()" using assms(4) Done_Report k by (cases r) auto
    ultimately show ?thesis using up.pass_on_closed [OF assms(1), of m k] Done_Report False by fastforce
  qed
qed

lemma report_passes:
  assumes "sok s" "ok g" "report_move sd rp = Some e" "move_machine (ly_machine ly s) e = Inr (op_machine ops g)"
    and "\<And>x. rp \<noteq> Done_Report (closed_task sd) (Inl x)"
  shows "\<exists>sf. pass_up sd ly ops (s, g) [rp] = Inr (sf, [rp]) \<and> stack_ok ly ops sok ok sf \<and>
     ly_machine ly (fst sf) = op_machine ops g \<and> same_bytes ops g (snd sf)"
proof -
  let ?a = "case rp of Data_Report k q \<Rightarrow> Give_Data k q | Done_Report k r \<Rightarrow> Give k r"
  obtain s' as where up: "layer_report sd ly rp s = Inr (s', as @ [?a])" "sok s'" "ly_machine ly s' = op_machine ops g"
    "as = [] \<or> (\<exists>c. as = [Cancel_Token c]) \<and> \<not> reading (op_machine ops g) \<and> \<not> writing (op_machine ops g) \<and>
       \<not> write_closing (op_machine ops g)"
    using closure_passes [OF assms(1,3-5)] by blast
  have give: "perform ly ops None f [?a] = Inr (f, [rp])" for f by (cases rp) simp_all
  from up(4) show ?thesis
  proof
    assume "as = []"
    then show ?thesis using up give assms(2) by (auto simp: stack_simps)
  next
    assume c: "(\<exists>c. as = [Cancel_Token c]) \<and> \<not> reading (op_machine ops g) \<and> \<not> writing (op_machine ops g) \<and>
      \<not> write_closing (op_machine ops g)"
    then obtain c where "as = [Cancel_Token c]" by blast
    then show ?thesis
      using up give [of "op_cancel ops c g"] down.cancel_law [OF assms(2), of c] c by (auto simp: stack_simps)
  qed
qed

lemma stack_answer:
  assumes "stack_ok ly ops sok ok sf" "open_machine (op_machine (stack_ops sd ly ops) sf)"
    and "adm (snd sf) a" "closes_cleanly sd ops (snd sf) a"
  shows "\<exists>sf' rs. op_answer (stack_ops sd ly ops) a sf = Inr (sf', rs) \<and> stack_ok ly ops sok ok sf' \<and>
     op_sent (stack_ops sd ly ops) sf' = op_sent (stack_ops sd ly ops) sf \<and>
     (rs = [] \<and> op_machine (stack_ops sd ly ops) sf' = op_machine (stack_ops sd ly ops) sf \<and>
        op_got (stack_ops sd ly ops) sf' = op_got (stack_ops sd ly ops) sf \<or>
      (\<exists>rp e. rs = [rp] \<and> report_move sd rp = Some e \<and>
         move_machine (op_machine (stack_ops sd ly ops) sf) e = Inr (op_machine (stack_ops sd ly ops) sf') \<and>
         op_got (stack_ops sd ly ops) sf' = op_got (stack_ops sd ly ops) sf @ report_bytes rp))"
proof -
  obtain s f where sf: "sf = (s, f)" "sok s" "ok f" "ly_machine ly s = op_machine ops f"
    using assms(1) by (cases sf) (simp add: stack_ok_def)
  have m: "open_machine (op_machine ops f)" "adm f a" using assms(2,3) sf by (simp_all add: stack_ops_def)
  obtain g rs where g: "op_answer ops a f = Inr (g, rs)" "ok g" "op_sent ops g = op_sent ops f"
    and rs: "rs = [] \<and> op_machine ops g = op_machine ops f \<and> op_got ops g = op_got ops f \<or>
      (\<exists>rp e. rs = [rp] \<and> report_move sd rp = Some e \<and>
         move_machine (op_machine ops f) e = Inr (op_machine ops g) \<and> op_got ops g = op_got ops f @ report_bytes rp)"
    using down.answer_law [OF sf(3) m] by blast
  from rs show ?thesis
  proof
    assume "rs = [] \<and> op_machine ops g = op_machine ops f \<and> op_got ops g = op_got ops f"
    then show ?thesis using sf g by (simp add: stack_simps)
  next
    assume "\<exists>rp e. rs = [rp] \<and> report_move sd rp = Some e \<and>
      move_machine (op_machine ops f) e = Inr (op_machine ops g) \<and> op_got ops g = op_got ops f @ report_bytes rp"
    then obtain rp e where rp: "rs = [rp]" "report_move sd rp = Some e"
      "move_machine (op_machine ops f) e = Inr (op_machine ops g)" "op_got ops g = op_got ops f @ report_bytes rp"
      by blast
    have "rp \<noteq> Done_Report (closed_task sd) (Inl x)" for x
      using assms(4) g(1) rp(1) sf(1) by (auto simp: closes_cleanly_def)
    from report_passes [OF sf(2) g(2) rp(2) _ this] obtain sf' where
      "pass_up sd ly ops (s, g) [rp] = Inr (sf', [rp])" "stack_ok ly ops sok ok sf'"
      "ly_machine ly (fst sf') = op_machine ops g" "same_bytes ops g (snd sf')"
      using rp(3) sf(4) by auto
    then show ?thesis using sf g rp by (auto simp: stack_ops_def same_bytes_def simp del: pass_up.simps)
  qed
qed

lemma take_cancels_held:
  "held f \<Longrightarrow> held (fold (take_cancel ops) as f) \<and> same_bytes ops f (fold (take_cancel ops) as f)"
proof (induction as arbitrary: f)
  case (Cons a as)
  have "held (take_cancel ops a f) \<and> same_bytes ops f (take_cancel ops a f)"
    using down.held_cancel_law [OF Cons.prems] Cons.prems by (cases a) (simp_all add: same_bytes_def)
  then show ?case using Cons.IH [of "take_cancel ops a f"] by (simp add: same_bytes_def)
qed (simp add: same_bytes_def)

end

sublocale stacked_flow \<subseteq> stack: tunnel_flow "stack_ops sd ly ops" sd "stack_ok ly ops sok ok"
    "\<lambda>sf. held (snd sf)" "\<lambda>sf. dead (snd sf)" "\<lambda>sf. pending (snd sf)"
    "\<lambda>sf a. adm (snd sf) a \<and> closes_cleanly sd ops (snd sf) a"
proof
  fix sf :: "'s \<times> 'f" and c
  assume "stack_ok ly ops sok ok sf" "\<not> reading (op_machine (stack_ops sd ly ops) sf)"
    "\<not> writing (op_machine (stack_ops sd ly ops) sf)" "\<not> write_closing (op_machine (stack_ops sd ly ops) sf)"
  then show "stack_ok ly ops sok ok (op_cancel (stack_ops sd ly ops) c sf) \<and>
      op_machine (stack_ops sd ly ops) (op_cancel (stack_ops sd ly ops) c sf) = op_machine (stack_ops sd ly ops) sf \<and>
      same_bytes (stack_ops sd ly ops) sf (op_cancel (stack_ops sd ly ops) c sf)"
    using down.cancel_law [of "snd sf" c] by (simp add: stack_simps)
next
  fix sf :: "'s \<times> 'f"
  assume "held (snd sf)"
  from take_cancels_held [OF this, of "ly_destroy ly (fst sf)"]
  show "dead (snd (op_destroy (stack_ops sd ly ops) sf)) \<and>
      same_bytes (stack_ops sd ly ops) sf (op_destroy (stack_ops sd ly ops) sf)"
    using down.destroy_law by (fastforce simp: stack_simps)
next
  fix sf :: "'s \<times> 'f" and a
  assume "dead (snd sf)"
  from down.dead_law [OF this, of a]
  show "\<exists>f'. op_answer (stack_ops sd ly ops) a sf = Inr (f', []) \<and> dead (snd f') \<and> same_bytes (stack_ops sd ly ops) sf f'"
    by (auto simp: stack_simps)
next
  fix sf :: "'s \<times> 'f" and c
  assume "held (snd sf)"
  then show "held (snd (op_cancel (stack_ops sd ly ops) c sf)) \<and>
      same_bytes (stack_ops sd ly ops) sf (op_cancel (stack_ops sd ly ops) c sf)"
    using down.held_cancel_law [of "snd sf" c] by (simp add: stack_simps)
next
  fix sf :: "'s \<times> 'f"
  assume "stack_ok ly ops sok ok sf"
  then show "held (snd sf)" using down.held_law by (simp add: stack_ok_def)
next
  fix sf :: "'s \<times> 'f"
  assume "stack_ok ly ops sok ok sf" "reading (op_machine (stack_ops sd ly ops) sf) \<or>
    writing (op_machine (stack_ops sd ly ops) sf) \<or> write_closing (op_machine (stack_ops sd ly ops) sf)"
  then show "pending (snd sf)" using down.pending_law [of "snd sf"] by (simp add: stack_simps)
qed (use stack_read stack_write stack_close stack_answer in blast)+

section \<open>The HTTP server flow after a \<open>CONNECT\<close>\<close>

fun http_name :: "tunnel_task http_server_task \<Rightarrow> tunnel_task" where
  "http_name (Hs_Read h) = h"
| "http_name (Hs_Posted c h) = h"
| "http_name (Hs_Written h) = h"
| "http_name (Hs_Write_Closed h) = h"
| "http_name (Hs_Response_Written h) = h"
| "http_name (Hs_Continued c h) = h"
| "http_name _ = Local_Opened"

text \<open>A read whose rewriting does not end gives nothing; in \<open>CONNECT\<close> mode nothing is rewritten.\<close>

definition http_layer ::
  "'p http_env \<Rightarrow> cancelable \<Rightarrow> ((tunnel_task, 'p) http_server, tunnel_task http_server_task) layer" where
  "http_layer env new =
     \<lparr>ly_machine = hs_machine, ly_name = http_name, ly_read = hs_read,
      ly_on_read = (\<lambda>h r s. case hs_on_read env new h r s of None \<Rightarrow> Inr (s, []) | Some x \<Rightarrow> x),
      ly_write = hs_write, ly_on_written = hs_on_written,
      ly_close = hs_close_write, ly_on_closed = hs_on_write_closed, ly_destroy = http_server_destroy\<rparr>"

definition connect_mode :: "(tunnel_task, 'p) http_server \<Rightarrow> bool" where
  "connect_mode s \<longleftrightarrow> is_connect (front s) \<and> first_header s = []"

interpretation http_passing: passing_layer "http_layer (env :: 'p http_env) new" Local connect_mode
proof
  fix s :: "(tunnel_task, 'p) http_server" and m h q
  assume "connect_mode s" "read_answered q (ly_machine (http_layer env new) s) = Inr m"
  then show "\<exists>s' as. ly_on_read (http_layer env new) h q s = Inr (s', as @ [Give_Data h q]) \<and> connect_mode s' \<and>
      ly_machine (http_layer env new) s' = m \<and>
      (as = [] \<or> (\<exists>c e. as = [Cancel_Token c] \<and> q = Inl e \<and> \<not> is_eof e))"
    by (cases q) (auto simp: http_layer_def connect_mode_def hs_on_read_def read_answered_def exec_bind_Inr Let_def
        split: if_splits sum.splits)
next
  fix s :: "(tunnel_task, 'p) http_server" and m h r
  assume "connect_mode s" "write_answered r (ly_machine (http_layer env new) s) = Inr m"
  then show "\<exists>s' as. ly_on_written (http_layer env new) h r s = Inr (s', as @ [Give h r]) \<and> connect_mode s' \<and>
      ly_machine (http_layer env new) s' = m \<and> (as = [] \<or> (\<exists>c e. as = [Cancel_Token c] \<and> r = Inl e))"
    by (cases r) (auto simp: http_layer_def connect_mode_def hs_on_written_def write_answered_def exec_bind_Inr)
qed (auto simp: http_layer_def connect_mode_def hs_read_def hs_write_def hs_close_write_def
    hs_on_write_closed_def exec_bind_Inr)

interpretation http_over_tcp: stacked_flow "http_layer (env :: 'p http_env) new" Local connect_mode
    "tcp_ops codes" "port_in_use Local" "port_held Local" port_dead port_pending "port_admissible codes"
  by unfold_locales

section \<open>The SOCKS5 server flow\<close>

fun socks5_name :: "tunnel_task socks5_server_task \<Rightarrow> tunnel_task" where
  "socks5_name (Server_Read h) = h"
| "socks5_name (Server_Written h) = h"
| "socks5_name (Server_Write_Closed h) = h"
| "socks5_name _ = Local_Opened"

definition socks5_layer :: "(tunnel_task socks5_server, tunnel_task socks5_server_task) layer" where
  "socks5_layer =
     \<lparr>ly_machine = ss_machine, ly_name = socks5_name, ly_read = server_read, ly_on_read = server_on_read,
      ly_write = server_write, ly_on_written = server_on_written, ly_close = server_close_write,
      ly_on_closed = server_on_write_closed, ly_destroy = socks5_server_destroy\<rparr>"

interpretation socks5_passing: passing_layer socks5_layer Local "\<lambda>s. True"
proof
  fix s :: "tunnel_task socks5_server" and m h q
  assume "read_answered q (ly_machine socks5_layer s) = Inr m"
  then show "\<exists>s' as. ly_on_read socks5_layer h q s = Inr (s', as @ [Give_Data h q]) \<and> True \<and>
      ly_machine socks5_layer s' = m \<and> (as = [] \<or> (\<exists>c e. as = [Cancel_Token c] \<and> q = Inl e \<and> \<not> is_eof e))"
    by (cases "\<exists>e. q = Inl e \<and> is_eof e"; cases q)
      (auto simp: socks5_layer_def server_on_read_def read_answered_def exec_bind_Inr split: if_splits)
next
  fix s :: "tunnel_task socks5_server" and m h r
  assume "write_answered r (ly_machine socks5_layer s) = Inr m"
  then show "\<exists>s' as. ly_on_written socks5_layer h r s = Inr (s', as @ [Give h r]) \<and> True \<and>
      ly_machine socks5_layer s' = m \<and> (as = [] \<or> (\<exists>c e. as = [Cancel_Token c] \<and> r = Inl e))"
    by (cases r) (auto simp: socks5_layer_def server_on_written_def write_answered_def exec_bind_Inr)
qed (auto simp: socks5_layer_def server_read_def server_write_def server_close_write_def
    server_on_write_closed_def exec_bind_Inr)

section \<open>Properties\<close>

definition connect_ends ::
  "asio_codes \<Rightarrow> 'p http_env \<Rightarrow> cancelable \<Rightarrow>
   ((tunnel_task, 'p) http_server \<times> tcp_port, nat \<times> sys_answer, boost_code,
    tcp_port, nat \<times> sys_answer, boost_code) ends" where
  "connect_ends codes env new = (stack_ops Local (http_layer env new) (tcp_ops codes), tcp_ops codes)"

interpretation connects: tunnel_between
    "stack_ops Local (http_layer (env :: 'p http_env) new) (tcp_ops codes)"
    "stack_ok (http_layer env new) (tcp_ops codes) connect_mode (port_in_use Local)"
    "\<lambda>sf. port_held Local (snd sf)" "\<lambda>sf. port_dead (snd sf)" "\<lambda>sf. port_pending (snd sf)"
    "\<lambda>sf a. port_admissible codes (snd sf) a \<and> closes_cleanly Local (tcp_ops codes) (snd sf) a"
    "tcp_ops codes" "port_in_use Remote" "port_held Remote" port_dead port_pending "port_admissible codes"
  by unfold_locales

definition begin_connect ::
  "asio_codes \<Rightarrow> 'p http_env \<Rightarrow> cancelable \<Rightarrow> (tunnel_task, 'p) http_server \<Rightarrow> tunnel_task tcp_world \<Rightarrow>
   tunnel_task tcp_world \<Rightarrow> ((tunnel_task, 'p) http_server \<times> tcp_port, tcp_port) forwarding exec" where
  "begin_connect codes env new s lw rw =
     flow_begin_forward (connect_ends codes env new)
       \<lparr>local_flow = (s, port_of lw), remote_flow = port_of rw, deleted = False\<rparr>"

definition connect_admits ::
  "asio_codes \<Rightarrow> ((tunnel_task, 'p) http_server \<times> tcp_port, tcp_port) forwarding \<Rightarrow>
   (nat \<times> sys_answer, boost_code, nat \<times> sys_answer, boost_code) forward_event \<Rightarrow> bool" where
  "connect_admits codes =
     admitted (\<lambda>sf a. port_admissible codes (snd sf) a \<and> closes_cleanly Local (tcp_ops codes) (snd sf) a)
       (port_admissible codes)"


definition sample_connect :: "(tunnel_task, unit) http_server" where
  "sample_connect =
     (http_server_new (session_new 0 None) (Some 4) (Some 0) (Some 5) ())
       \<lparr>front := (http_front_new (session_new 0 None))\<lparr>is_connect := True, has_read_method := True,
          reading_first_header := False\<rparr>, hs_machine := established Local\<rparr>"

lemmas connect_evaluate =
  forwarding_evaluate sample_connect_def http_server_new_def http_front_new_def stack_ops_def http_layer_def
  only_flow_def stack_call_def hs_read_def hs_on_read_def hs_write_def hs_on_written_def hs_close_write_def
  connect_admits_def closes_cleanly_def

lemma sample_connect_admissible:
  "(case begin_connect linux_codes head_env None sample_connect sample_local_world sample_remote_world of
      Inl f \<Rightarrow> False
    | Inr b \<Rightarrow> admissible_run (forward_step (connect_ends linux_codes head_env None)) (connect_admits linux_codes)
                 b sample_forwarding)"
  by (simp add: begin_connect_def connect_ends_def connect_evaluate)


end
