(* ===== verification/Proxy_Chain.thy ===== *)
theory Proxy_Chain
  imports Layered_Flows Http_Client
begin

text \<open>
  A proxy that forwards to another proxy, as src/test_package/example.cpp sets it up: the HTTP
  server flow takes the clients, and every rule makes an \<open>HttpDataFlow\<close>
  (src/data_flow/http_data_flow.cc) that connects through the next proxy.  Once connected,
  \<open>HttpDataFlow\<close> hands every call to its next hop with the handler it was given, and shows the
  next hop's state machine as its own.
\<close>

section \<open>The HTTP client flow over its next hop\<close>

fun client_name :: "tunnel_task http_client_task \<Rightarrow> tunnel_task" where
  "client_name (Hc_Read h) = h"
| "client_name (Hc_Written h) = h"
| "client_name (Hc_Write_Closed h) = h"
| "client_name (Hc_Connected c h) = h"
| "client_name (Hc_Request_Written c h) = h"
| "client_name (Hc_Response c h) = h"

text \<open>A call of the flow, which calls the next hop.\<close>

fun hand_down ::
  "('f, 'a, 'x) flow_ops \<Rightarrow> 'x option \<Rightarrow> 'f \<Rightarrow> (tunnel_task, tunnel_task http_client_task) action list \<Rightarrow> 'f exec" where
  "hand_down ops x f [] = Inr f"
| "hand_down ops x f (a # as) =
     exec_bind
       (case a of
          Do_Read k \<Rightarrow> op_read ops (client_name k) f
        | Do_Write xs k \<Rightarrow> op_write ops xs (client_name k) f
        | Do_Close_Write k \<Rightarrow> (case x of None \<Rightarrow> Inl Null_Deref | Some y \<Rightarrow> op_close ops y (client_name k) f)
        | Cancel_Token c \<Rightarrow> Inr (op_cancel ops c f)
        | _ \<Rightarrow> Inl Null_Deref) (\<lambda>f. hand_down ops x f as)"

definition client_call ::
  "('f, 'a, 'x) flow_ops \<Rightarrow> 'x option \<Rightarrow> ('s \<Rightarrow> ('s, tunnel_task, tunnel_task http_client_task) reaction) \<Rightarrow>
   's \<times> 'f \<Rightarrow> ('s \<times> 'f) exec" where
  "client_call ops x f sf =
     exec_bind (f (fst sf)) (\<lambda>(s, as). exec_bind (hand_down ops x (snd sf) as) (\<lambda>g. Inr (s, g)))"

definition drop_tokens ::
  "('f, 'a, 'x) flow_ops \<Rightarrow> (tunnel_task, tunnel_task http_client_task) action list \<Rightarrow> 'f \<Rightarrow> 'f" where
  "drop_tokens ops as f = fold (take_cancel ops) as f"

definition client_ops ::
  "('f, 'a, 'x) flow_ops \<Rightarrow> ('p http_client \<times> 'f, 'a, 'x) flow_ops" where
  "client_ops ops =
     \<lparr>op_machine = (\<lambda>sf. hc_state_machine (op_machine ops (snd sf)) (fst sf)),
      op_read = (\<lambda>h. client_call ops None (hc_read h)),
      op_write = (\<lambda>xs h. client_call ops None (hc_write xs h)),
      op_close = (\<lambda>x h. client_call ops (Some x) (hc_close_write h)),
      op_answer = (\<lambda>a sf. exec_bind (op_answer ops a (snd sf)) (\<lambda>(g, rs). Inr ((fst sf, g), rs))),
      op_token = (\<lambda>sf. op_token ops (snd sf)),
      op_cancel = (\<lambda>c sf. (fst sf, op_cancel ops c (snd sf))),
      op_destroy = (\<lambda>sf. (fst sf, op_destroy ops (drop_tokens ops (http_client_destroy (fst sf)) (snd sf)))),
      op_sent = (\<lambda>sf. op_sent ops (snd sf)),
      op_got = (\<lambda>sf. op_got ops (snd sf))\<rparr>"

definition client_connected :: "'p http_client \<Rightarrow> bool" where
  "client_connected s \<longleftrightarrow> state (hc_machine s) = Established"

locale client_over = tunnel_flow ops sd ok held dead pending adm
  for ops :: "('f, 'a, 'x) flow_ops" and sd ok held dead pending adm
begin

lemma cancels_held:
  "held f \<Longrightarrow> held (fold (take_cancel ops) as f) \<and> same_bytes ops f (fold (take_cancel ops) as f)"
proof (induction as arbitrary: f)
  case (Cons a as)
  have "held (take_cancel ops a f) \<and> same_bytes ops f (take_cancel ops a f)"
    using held_cancel_law [OF Cons.prems] Cons.prems by (cases a) (simp_all add: same_bytes_def)
  then show ?case using Cons.IH [of "take_cancel ops a f"] by (simp add: same_bytes_def)
qed (simp add: same_bytes_def)

end

lemmas client_simps =
  client_ops_def client_call_def hc_read_def hc_write_def hc_close_write_def hc_state_machine_def
  client_connected_def same_bytes_def drop_tokens_def

sublocale client_over \<subseteq> client: tunnel_flow "client_ops ops" sd "\<lambda>sf. client_connected (fst sf) \<and> ok (snd sf)"
    "\<lambda>sf. held (snd sf)" "\<lambda>sf. dead (snd sf)" "\<lambda>sf. pending (snd sf)" "\<lambda>sf. adm (snd sf)"
proof
  fix sf :: "'p http_client \<times> 'f" and m
  assume "client_connected (fst sf) \<and> ok (snd sf)" "open_machine (op_machine (client_ops ops) sf)"
    "read_begin (op_machine (client_ops ops) sf) = Inr m"
  then show "\<exists>f'. op_read (client_ops ops) (data_task sd) sf = Inr f' \<and> (client_connected (fst f') \<and> ok (snd f')) \<and>
      op_machine (client_ops ops) f' = m \<and> same_bytes (client_ops ops) sf f'"
    using read_law [of "snd sf" m] by (auto simp: client_simps)
next
  fix sf :: "'p http_client \<times> 'f" and m xs
  assume "client_connected (fst sf) \<and> ok (snd sf)" "open_machine (op_machine (client_ops ops) sf)"
    "write_begin (op_machine (client_ops ops) sf) = Inr m"
  then show "\<exists>f'. op_write (client_ops ops) xs (written_task sd) sf = Inr f' \<and>
      (client_connected (fst f') \<and> ok (snd f')) \<and> op_machine (client_ops ops) f' = m \<and>
      op_sent (client_ops ops) f' = op_sent (client_ops ops) sf @ xs \<and>
      op_got (client_ops ops) f' = op_got (client_ops ops) sf"
    using write_law [of "snd sf" m xs] by (auto simp: client_simps)
next
  fix sf :: "'p http_client \<times> 'f" and m x
  assume "client_connected (fst sf) \<and> ok (snd sf)" "open_machine (op_machine (client_ops ops) sf)"
    "is_write_closable (op_machine (client_ops ops) sf)" "write_close_begin (op_machine (client_ops ops) sf) = Inr m"
  then show "\<exists>f'. op_close (client_ops ops) x (closed_task sd) sf = Inr f' \<and>
      (client_connected (fst f') \<and> ok (snd f')) \<and> op_machine (client_ops ops) f' = m \<and>
      same_bytes (client_ops ops) sf f'"
    using close_law [of "snd sf" m x] by (auto simp: client_simps)
next
  fix sf :: "'p http_client \<times> 'f" and a
  assume sf: "client_connected (fst sf) \<and> ok (snd sf)" "open_machine (op_machine (client_ops ops) sf)" "adm (snd sf) a"
  then have m: "op_machine (client_ops ops) sf = op_machine ops (snd sf)" by (simp add: client_simps)
  with sf answer_law [of "snd sf" a] obtain g rs where
    "op_answer ops a (snd sf) = Inr (g, rs)" "ok g" "op_sent ops g = op_sent ops (snd sf)"
    "rs = [] \<and> op_machine ops g = op_machine ops (snd sf) \<and> op_got ops g = op_got ops (snd sf) \<or>
     (\<exists>rp e. rs = [rp] \<and> report_move sd rp = Some e \<and>
        move_machine (op_machine ops (snd sf)) e = Inr (op_machine ops g) \<and>
        op_got ops g = op_got ops (snd sf) @ report_bytes rp)" by auto
  then show "\<exists>f' rs. op_answer (client_ops ops) a sf = Inr (f', rs) \<and> (client_connected (fst f') \<and> ok (snd f')) \<and>
      op_sent (client_ops ops) f' = op_sent (client_ops ops) sf \<and>
      (rs = [] \<and> op_machine (client_ops ops) f' = op_machine (client_ops ops) sf \<and>
         op_got (client_ops ops) f' = op_got (client_ops ops) sf \<or>
       (\<exists>rp e. rs = [rp] \<and> report_move sd rp = Some e \<and>
          move_machine (op_machine (client_ops ops) sf) e = Inr (op_machine (client_ops ops) f') \<and>
          op_got (client_ops ops) f' = op_got (client_ops ops) sf @ report_bytes rp))"
    using sf(1) by (intro exI [of _ "(fst sf, g)"] exI [of _ rs]) (simp add: client_simps)
next
  fix sf :: "'p http_client \<times> 'f"
  assume "held (snd sf)"
  from cancels_held [OF this, of "http_client_destroy (fst sf)"]
  show "dead (snd (op_destroy (client_ops ops) sf)) \<and> same_bytes (client_ops ops) sf (op_destroy (client_ops ops) sf)"
    using destroy_law by (fastforce simp: client_simps)
next
  fix sf :: "'p http_client \<times> 'f" and a
  assume "dead (snd sf)"
  from dead_law [OF this, of a]
  show "\<exists>f'. op_answer (client_ops ops) a sf = Inr (f', []) \<and> dead (snd f') \<and> same_bytes (client_ops ops) sf f'"
    by (auto simp: client_simps)
next
  fix sf :: "'p http_client \<times> 'f" and c
  show "held (snd (op_cancel (client_ops ops) c sf)) \<and> same_bytes (client_ops ops) sf (op_cancel (client_ops ops) c sf)"
    if "held (snd sf)"
    using held_cancel_law [OF that, of c] by (simp add: client_simps)
  show "(client_connected (fst (op_cancel (client_ops ops) c sf)) \<and> ok (snd (op_cancel (client_ops ops) c sf))) \<and>
      op_machine (client_ops ops) (op_cancel (client_ops ops) c sf) = op_machine (client_ops ops) sf \<and>
      same_bytes (client_ops ops) sf (op_cancel (client_ops ops) c sf)"
    if "client_connected (fst sf) \<and> ok (snd sf)" "\<not> reading (op_machine (client_ops ops) sf)"
      "\<not> writing (op_machine (client_ops ops) sf)" "\<not> write_closing (op_machine (client_ops ops) sf)"
    using cancel_law [of "snd sf" c] that by (simp add: client_simps)
  show "held (snd sf)" if "client_connected (fst sf) \<and> ok (snd sf)" using held_law that by blast
  show "pending (snd sf)" if "client_connected (fst sf) \<and> ok (snd sf)"
    "reading (op_machine (client_ops ops) sf) \<or> writing (op_machine (client_ops ops) sf) \<or>
     write_closing (op_machine (client_ops ops) sf)"
    using pending_law [of "snd sf"] that by (simp add: client_simps)
qed

section \<open>Two proxies in a chain\<close>

interpretation client_over_tcp: client_over
    "tcp_ops codes" Remote "port_in_use Remote" "port_held Remote" port_dead port_pending "port_admissible codes"
  by unfold_locales

type_synonym ('p, 'q) chain =
  "((tunnel_task, 'p) http_server \<times> tcp_port, 'q http_client \<times> tcp_port) forwarding"

definition chain_ends ::
  "asio_codes \<Rightarrow> 'p http_env \<Rightarrow> cancelable \<Rightarrow>
   ((tunnel_task, 'p) http_server \<times> tcp_port, nat \<times> sys_answer, boost_code,
    'q http_client \<times> tcp_port, nat \<times> sys_answer, boost_code) ends" where
  "chain_ends codes env new = (stack_ops Local (http_layer env new) (tcp_ops codes), client_ops (tcp_ops codes))"

definition begin_chain ::
  "asio_codes \<Rightarrow> 'p http_env \<Rightarrow> cancelable \<Rightarrow> (tunnel_task, 'p) http_server \<Rightarrow> tunnel_task tcp_world \<Rightarrow>
   'q http_client \<Rightarrow> tunnel_task tcp_world \<Rightarrow> ('p, 'q) chain exec" where
  "begin_chain codes env new s lw c rw =
     flow_begin_forward (chain_ends codes env new)
       \<lparr>local_flow = (s, port_of lw), remote_flow = (c, port_of rw), deleted = False\<rparr>"

definition chain_admits ::
  "asio_codes \<Rightarrow> ('p, 'q) chain \<Rightarrow> (nat \<times> sys_answer, boost_code, nat \<times> sys_answer, boost_code) forward_event \<Rightarrow> bool" where
  "chain_admits codes =
     admitted (\<lambda>sf a. port_admissible codes (snd sf) a \<and> closes_cleanly Local (tcp_ops codes) (snd sf) a)
       (\<lambda>sf. port_admissible codes (snd sf))"

interpretation chains: tunnel_between
    "stack_ops Local (http_layer (env :: 'p http_env) new) (tcp_ops codes)"
    "stack_ok (http_layer env new) (tcp_ops codes) connect_mode (port_in_use Local)"
    "\<lambda>sf. port_held Local (snd sf)" "\<lambda>sf. port_dead (snd sf)" "\<lambda>sf. port_pending (snd sf)"
    "\<lambda>sf a. port_admissible codes (snd sf) a \<and> closes_cleanly Local (tcp_ops codes) (snd sf) a"
    "client_ops (tcp_ops codes) :: ('q http_client \<times> tcp_port, _, _) flow_ops"
    "\<lambda>sf. client_connected (fst sf) \<and> port_in_use Remote (snd sf)" "\<lambda>sf. port_held Remote (snd sf)"
    "\<lambda>sf. port_dead (snd sf)" "\<lambda>sf. port_pending (snd sf)" "\<lambda>sf. port_admissible codes (snd sf)"
  by unfold_locales


definition sample_client :: "unit http_client" where
  "sample_client =
     (http_client_new (endpoint_with_host (\<lambda>_. None) ''p'' 80 None) None (Some 0) None ())
       \<lparr>hc_machine := established Remote\<rparr>"

lemma sample_chain_admissible:
  "(case begin_chain linux_codes head_env None sample_connect sample_local_world sample_client sample_remote_world of
      Inl f \<Rightarrow> False
    | Inr b \<Rightarrow> admissible_run (forward_step (chain_ends linux_codes head_env None))
           (chain_admits linux_codes) b sample_forwarding)"
  by (simp add: begin_chain_def chain_ends_def chain_admits_def forwarding_evaluate client_simps
      sample_client_def http_client_new_def connect_evaluate)


end
