(* ===== verification/Tcp_Connector.thy ===== *)
theory Tcp_Connector
  imports Tcp_Socket
begin

text \<open>
  \<open>transport::TcpConnector\<close> (src/transport/tcp_connector.cc): connects to the first of a list
  of addresses that answers, resolving an endpoint first when it has to.
  \<open>transport::TcpListener\<close> (src/transport/tcp_listener.cc) and \<open>utils::Timer\<close>
  (src/utils/timer.cc), the other users of Boost.Asio, follow.
\<close>

section \<open>The connector\<close>

record tcp_connector =
  tc_addresses :: "ip_address list option"
  tc_address :: ip_address
  tc_endpoint :: "endpoint option"
  tc_port :: u16
  last_error :: boost_code
  current_ind :: nat
  connecting :: bool
  tc_cancelable :: cancelable

text \<open>What a connector asks for: an attempt on one address, a resolve, a posted task; and its report.\<close>

datatype 'h connector_action =
    Async_Connect ip_address u16 cancelable 'h
  | Ask_Resolve "(cancelable \<times> 'h) resolve_closure"
  | Post_Resolve_Error cancelable 'h
  | Tell 'h "unit result"

type_synonym 'h tc_reaction = "(tcp_connector \<times> 'h connector_action list) exec"

definition no_boost_error :: boost_code where
  "no_boost_error = \<lparr>bcategory = System_Category, bvalue = 0\<rparr>"

definition connector_for_addresses :: "ip_address list \<Rightarrow> u16 \<Rightarrow> cancelable \<Rightarrow> tcp_connector exec" where
  "connector_for_addresses as p c =
     boost_assert (as \<noteq> [])
       (Inr \<lparr>tc_addresses = Some as, tc_address = V4 0, tc_endpoint = None, tc_port = p,
             last_error = no_boost_error, current_ind = 0, connecting = False, tc_cancelable = c\<rparr>)"

definition connector_for_address :: "ip_address \<Rightarrow> u16 \<Rightarrow> cancelable \<Rightarrow> tcp_connector" where
  "connector_for_address a p c =
     \<lparr>tc_addresses = None, tc_address = a, tc_endpoint = None, tc_port = p,
      last_error = no_boost_error, current_ind = 0, connecting = False, tc_cancelable = c\<rparr>"

definition connector_for_endpoint :: "endpoint \<Rightarrow> cancelable \<Rightarrow> tcp_connector" where
  "connector_for_endpoint ep c =
     \<lparr>tc_addresses = None, tc_address = V4 0, tc_endpoint = Some ep, tc_port = port ep,
      last_error = no_boost_error, current_ind = 0, connecting = False, tc_cancelable = c\<rparr>"

definition connector_destroy :: "tcp_connector \<Rightarrow> cancel_store \<Rightarrow> cancel_store" where
  "connector_destroy s st = cancel (tc_cancelable s) st"

text \<open>\<open>at\<close> throws when the index is out of range.\<close>

definition do_connect :: "cancel_store \<Rightarrow> 'h \<Rightarrow> tcp_connector \<Rightarrow> 'h tc_reaction" where
  "do_connect st h s =
     (let s1 = s\<lparr>connecting := True\<rparr>
      in exec_bind (canceled (tc_cancelable s) st) (\<lambda>stop.
         if stop then Inr (s1\<lparr>connecting := False\<rparr>, [])
         else if (tc_addresses s = None \<and> current_ind s \<noteq> 0) \<or>
                 (\<exists>as. tc_addresses s = Some as \<and> current_ind s \<ge> length as)
         then exec_bind (from_boost_error (last_error s)) (\<lambda>e. Inr (s1, [Tell h (Inl e)]))
         else exec_bind
                (case tc_addresses s of
                   Some as \<Rightarrow> if current_ind s < length as then Inr (as ! current_ind s)
                              else Inl Out_Of_Bounds
                 | None \<Rightarrow> Inr (tc_address s)) (\<lambda>a.
              Inr (s1, [Async_Connect a (tc_port s) (tc_cancelable s) h]))))"

text \<open>\<open>tok\<close> is the token of the resolve this may start; the connector's own is returned.\<close>

definition connector_connect ::
  "cancel_store \<Rightarrow> cancelable \<Rightarrow> 'h \<Rightarrow> tcp_connector \<Rightarrow> 'h tc_reaction" where
  "connector_connect st tok h s =
     boost_assert (\<not> connecting s)
       (case tc_endpoint s of
          None \<Rightarrow> do_connect st h s
        | Some ep \<Rightarrow>
            (if is_address_available ep
             then (case etype ep of
                     Address_Type \<Rightarrow>
                       exec_bind (endpoint_address ep) (\<lambda>a. do_connect st h (s\<lparr>tc_address := a\<rparr>))
                   | Domain_Type \<Rightarrow>
                       do_connect st h (s\<lparr>tc_addresses := resolved_addresses ep\<rparr>))
             else if \<not> is_resolvable ep
             then Inr (s, [Post_Resolve_Error (tc_cancelable s) h])
             else exec_bind (endpoint_resolve tok (tc_cancelable s, h) ep) (\<lambda>(cl, c, ep').
                  Inr (s\<lparr>tc_endpoint := Some ep'\<rparr>, [Ask_Resolve cl]))))"

definition on_resolve_error ::
  "cancel_store \<Rightarrow> cancelable \<Rightarrow> 'h \<Rightarrow> tcp_connector \<Rightarrow> 'h tc_reaction" where
  "on_resolve_error st c h s =
     exec_bind (canceled c st) (\<lambda>stop.
       if stop then Inr (s, [])
       else case tc_endpoint s of
              None \<Rightarrow> Inl Null_Deref
            | Some ep \<Rightarrow> Inr (s, [Tell h (Inl (error_dup (resolve_error ep)))]))"

definition on_connector_resolved ::
  "cancel_store \<Rightarrow> cancelable \<Rightarrow> 'h \<Rightarrow> unit result \<Rightarrow> tcp_connector \<Rightarrow> 'h tc_reaction" where
  "on_connector_resolved st c h r s =
     exec_bind (canceled c st) (\<lambda>stop.
       if stop then Inr (s, [])
       else case r of
              Inl e \<Rightarrow> Inr (s, [Tell h (Inl e)])
            | Inr _ \<Rightarrow>
                (case tc_endpoint s of
                   None \<Rightarrow> Inl Null_Deref
                 | Some ep \<Rightarrow> do_connect st h (s\<lparr>tc_addresses := resolved_addresses ep\<rparr>)))"

text \<open>The answer to one attempt: \<open>None\<close> when it is connected.\<close>

definition on_attempt ::
  "asio_codes \<Rightarrow> cancel_store \<Rightarrow> cancelable \<Rightarrow> 'h \<Rightarrow> boost_code option \<Rightarrow> tcp_connector \<Rightarrow>
   'h tc_reaction" where
  "on_attempt codes st c h r s =
     exec_bind (canceled c st) (\<lambda>stop.
       if stop then Inr (s, [])
       else case r of
              Some ec \<Rightarrow>
                (if basic codes (bvalue ec) = Some Operation_Aborted then Inr (s, [])
                 else do_connect st h (s\<lparr>last_error := ec, current_ind := current_ind s + 1\<rparr>))
            | None \<Rightarrow> Inr (s\<lparr>connecting := False\<rparr>, [Tell h (Inr ())]))"

section \<open>A whole connect\<close>

text \<open>
  The attempts of a connector on a network that answers for each address: the addresses
  tried, in order, and what the handler is told, if anything.  The number bounds the attempts.
\<close>

fun attempts ::
  "asio_codes \<Rightarrow> cancel_store \<Rightarrow> (ip_address \<Rightarrow> boost_code option) \<Rightarrow> nat \<Rightarrow>
   tcp_connector \<times> 'h connector_action list \<Rightarrow> (ip_address list \<times> unit result option) exec" where
  "attempts codes st net n (s, [Async_Connect a p c h]) =
     (case n of
        0 \<Rightarrow> Inr ([], None)
      | Suc m \<Rightarrow>
          exec_bind (on_attempt codes st c h (net a) s) (\<lambda>r.
          exec_bind (attempts codes st net m r) (\<lambda>(as, res). Inr (a # as, res))))"
| "attempts codes st net n (s, [Tell h r]) = Inr ([], Some r)"
| "attempts codes st net n (s, acts) = Inr ([], None)"

text \<open>The addresses up to the first that answers, and the outcome.\<close>

fun first_answer ::
  "(ip_address \<Rightarrow> boost_code option) \<Rightarrow> boost_code \<Rightarrow> ip_address list \<Rightarrow> ip_address list \<times> unit result" where
  "first_answer net prev [] = ([], Inl (boost_error prev))"
| "first_answer net prev (a # as) =
     (case net a of
        None \<Rightarrow> ([a], Inr ())
      | Some ec \<Rightarrow> (let (tried, r) = first_answer net ec as in (a # tried, r)))"

lemma attempts_first_answer:
  assumes "tc_addresses s = Some as" "current_ind s \<le> length as"
    and "canceled (tc_cancelable s) st = Inr False"
    and "\<And>a ec. net a = Some ec \<Longrightarrow> basic codes (bvalue ec) \<noteq> Some Operation_Aborted"
    and "length as - current_ind s \<le> n"
  shows "exec_bind (do_connect st h s) (attempts codes st net n) =
           (let (tried, r) = first_answer net (last_error s) (drop (current_ind s) as)
            in Inr (tried, Some r))"
  using assms
proof (induction n arbitrary: s)
  case 0
  then show ?case by (simp add: do_connect_def Let_def)
next
  case (Suc n)
  show ?case
  proof (cases "current_ind s < length as")
    case False
    then show ?thesis using Suc.prems by (simp add: do_connect_def Let_def)
  next
    case True
    let ?a = "as ! current_ind s"
    have drop: "drop (current_ind s) as = ?a # drop (Suc (current_ind s)) as"
      using True by (simp add: Cons_nth_drop_Suc)
    have run: "do_connect st h s =
        Inr (s\<lparr>connecting := True\<rparr>, [Async_Connect ?a (tc_port s) (tc_cancelable s) h])"
      using Suc.prems True by (simp add: do_connect_def Let_def)
    show ?thesis
    proof (cases "net ?a")
      case None
      then show ?thesis using run drop Suc.prems(3) by (simp add: on_attempt_def)
    next
      case (Some ec)
      let ?s = "s\<lparr>connecting := True, last_error := ec, current_ind := current_ind s + 1\<rparr>"
      have ih: "exec_bind (do_connect st h ?s) (attempts codes st net n) =
           (let (tried, r) = first_answer net ec (drop (Suc (current_ind s)) as)
            in Inr (tried, Some r))"
        using Suc.IH [of ?s] Suc.prems True by simp
      have "exec_bind (do_connect st h s) (attempts codes st net (Suc n)) =
          exec_bind (exec_bind (do_connect st h ?s) (attempts codes st net n))
            (\<lambda>(as, res). Inr (?a # as, res))"
        using run Some Suc.prems(3,4) by (simp add: on_attempt_def exec_bind_assoc)
      then show ?thesis
        unfolding ih drop using Some by (simp add: Let_def split: prod.splits)
    qed
  qed
qed

section \<open>The timer\<close>

record timer =
  tm_cancelable :: cancelable

text \<open>A waiting closure holds the token of its \<open>Wait\<close>; \<open>Wait\<close> cancels the token before it.\<close>

definition timer_wait ::
  "cancel_store \<Rightarrow> timer \<Rightarrow> cancelable \<times> timer \<times> cancel_store" where
  "timer_wait st t =
     (let (c, st') = cancelable_reset (tm_cancelable t) (cancel (tm_cancelable t) st)
      in (c, t\<lparr>tm_cancelable := c\<rparr>, st'))"

definition timer_cancel :: "cancel_store \<Rightarrow> timer \<Rightarrow> cancel_store" where
  "timer_cancel st t = cancel (tm_cancelable t) st"

text \<open>The closure, with whether Boost reports an error: does it run the handler?\<close>

definition timer_expired :: "cancel_store \<Rightarrow> cancelable \<Rightarrow> bool \<Rightarrow> bool exec" where
  "timer_expired st c err =
     exec_bind (canceled c st) (\<lambda>stop. if stop then Inr False else Inr (\<not> err))"

text \<open>Several waits in a row: the tokens of their closures, oldest first.\<close>

fun timer_waits :: "nat \<Rightarrow> cancel_store \<Rightarrow> timer \<Rightarrow> cancelable list \<times> timer \<times> cancel_store" where
  "timer_waits 0 st t = ([], t, st)"
| "timer_waits (Suc n) st t =
     (let (c, t', st') = timer_wait st t; (cs, t'', st'') = timer_waits n st' t' in (c # cs, t'', st''))"

lemma timer_wait_ok:
  assumes "handle_ok (tm_cancelable t) st" "timer_wait st t = (c, t', st')"
  shows "tm_cancelable t' = c" "handle_ok c st'" "canceled c st' = Inr False"
    "canceled (tm_cancelable t) st' = Inr True" "store_le st st'"
  using assms
  by (auto simp: timer_wait_def cancelable_reset_def handle_ok_def canceled_def cancel_def store_le_def
      nth_append nth_set_True)

lemma timer_waits_store:
  "handle_ok (tm_cancelable t) st \<Longrightarrow> timer_waits n st t = (cs, t', st') \<Longrightarrow>
   store_le st st' \<and> handle_ok (tm_cancelable t') st' \<and> length cs = n \<and>
   (0 < n \<longrightarrow> canceled (tm_cancelable t) st' = Inr True \<and> last cs = tm_cancelable t' \<and>
              canceled (tm_cancelable t') st' = Inr False) \<and>
   (\<forall>c \<in> set (butlast cs). canceled c st' = Inr True)"
proof (induction n arbitrary: st t cs)
  case (Suc n)
  obtain c u su where w: "timer_wait st t = (c, u, su)" by (cases "timer_wait st t") auto
  note ok = timer_wait_ok [OF Suc.prems(1) w]
  obtain ds where r: "timer_waits n su u = (ds, t', st')" "cs = c # ds"
    using Suc.prems(2) w by (auto simp: Let_def split: prod.splits)
  have ih: "store_le su st' \<and> handle_ok (tm_cancelable t') st' \<and> length ds = n \<and>
     (0 < n \<longrightarrow> canceled (tm_cancelable u) st' = Inr True \<and> last ds = tm_cancelable t' \<and>
              canceled (tm_cancelable t') st' = Inr False) \<and>
     (\<forall>d \<in> set (butlast ds). canceled d st' = Inr True)"
    using Suc.IH [OF _ r(1)] ok by simp
  show ?case
  proof (cases "n = 0")
    case True
    then show ?thesis using r ok ih by auto
  next
    case False
    then have "ds \<noteq> []" using ih by auto
    then show ?thesis
      using r ok ih False canceled_mono [of su st' "tm_cancelable t"] store_le_trans [of st su st']
      by auto
  qed
qed simp

section \<open>The listener\<close>

definition listener_error :: "int \<Rightarrow> error" where
  "listener_error n = error_of Listener_Category n"

text \<open>
  \<open>Bind\<close>, given what \<open>open\<close>, \<open>set_option\<close>, \<open>bind\<close> and \<open>listen\<close> answer; \<open>in_use\<close> is the
  platform's number of an address in use.
\<close>

definition failed :: "boost_code \<Rightarrow> bool" where
  "failed ec \<longleftrightarrow> bvalue ec \<noteq> 0"

definition listener_bind ::
  "int \<Rightarrow> boost_code \<Rightarrow> boost_code \<Rightarrow> boost_code \<Rightarrow> boost_code \<Rightarrow> unit result exec" where
  "listener_bind in_use opened option_set bound listening =
     (if failed opened then exec_bind (from_boost_error opened) (\<lambda>e. Inr (Inl e))
      else if failed option_set then exec_bind (from_boost_error option_set) (\<lambda>e. Inr (Inl e))
      else if failed bound
      then (if bvalue bound = in_use then Inr (Inl (listener_error 1))
            else exec_bind (from_boost_error bound) (\<lambda>e. Inr (Inl e)))
      else if failed listening then exec_bind (from_boost_error listening) (\<lambda>e. Inr (Inl e))
      else Inr (Inr ()))"

text \<open>
  The answer to an accept: what the user's handler is told, and whether the listener goes on
  accepting.
\<close>

definition on_accepted ::
  "asio_codes \<Rightarrow> boost_code \<Rightarrow> (unit result option \<times> bool) exec" where
  "on_accepted codes ec =
     (if failed ec
      then (if basic codes (bvalue ec) = Some Operation_Aborted then Inr (None, False)
            else exec_bind (from_boost_error ec) (\<lambda>e. Inr (Some (Inl e), False)))
      else Inr (Some (Inr ()), True))"

section \<open>Properties\<close>



text \<open>
  However often a timer is started again, only the closure of the last wait can run the
  handler; the earlier ones, when they come late, see their token canceled.
\<close>

theorem timer_only_last_fires:
  assumes "handle_ok (tm_cancelable t) st" "timer_waits n st t = (cs, t', st')" "i < length cs"
  shows "timer_expired st' (cs ! i) err = Inr (Suc i = length cs \<and> \<not> err)"
proof -
  note w = timer_waits_store [OF assms(1,2)]
  have "0 < n" using assms(3) w by auto
  show ?thesis
  proof (cases "Suc i = length cs")
    case True
    then have "cs ! i = last cs" using assms(3) by (metis diff_Suc_1 last_conv_nth list.size(3) not_less_zero)
    then show ?thesis using True w \<open>0 < n\<close> by (simp add: timer_expired_def)
  next
    case False
    then have "cs ! i \<in> set (butlast cs)"
      using assms(3) by (metis Suc_lessI in_set_conv_nth length_butlast less_diff_conv nth_butlast
          Suc_eq_plus1)
    then show ?thesis using False w by (simp add: timer_expired_def)
  qed
qed

theorem timer_only_last_fires_witness:
  "\<exists>cs t' st'. timer_waits 3 [False] \<lparr>tm_cancelable = Some 0\<rparr> = (cs, t', st') \<and>
     timer_expired st' (cs ! 0) False = Inr False \<and> timer_expired st' (cs ! 2) False = Inr True"
proof -
  obtain cs t' st' where w: "timer_waits 3 [False] \<lparr>tm_cancelable = Some 0\<rparr> = (cs, t', st')"
    by (cases "timer_waits 3 [False] \<lparr>tm_cancelable = Some 0\<rparr>") auto
  moreover have "handle_ok (tm_cancelable \<lparr>tm_cancelable = Some 0\<rparr>) [False]"
    by (simp add: handle_ok_def)
  moreover have "length cs = 3" using timer_waits_store [OF calculation(2,1)] by simp
  ultimately show ?thesis
    using timer_only_last_fires [of "\<lparr>tm_cancelable = Some 0\<rparr>" "[False]" 3 cs t' st'] by auto
qed

end
