(* ===== verification/Tunnel_Life.thy ===== *)
theory Tunnel_Life
  imports Tunnel
begin

text \<open>
  A tunnel from \<open>Open\<close> on: its opening phases, and the contract its flows keep it safe by.
\<close>

text \<open>
  The answers before forwarding.  A flow goes through its own negotiation before it answers;
  the machine it has then comes with the answer.
\<close>

datatype opening_event =
    Open_Answer "unit result" fsm | Rule_Answer "fsm result" | Connect_Answer "unit result" fsm
  | Continue_Answer "unit result" fsm

fun opening_step :: "tunnel \<Rightarrow> opening_event \<Rightarrow> tunnel exec" where
  "opening_step t (Open_Answer r m) =
     answer Local_Opened (on_local_machine (\<lambda>_. Inr m)) (on_local_opened r) t"
| "opening_step t (Rule_Answer r) = answer Rule_Matched Inr (on_rule_matched r) t"
| "opening_step t (Connect_Answer r m) =
     answer Remote_Connected (on_remote_machine (\<lambda>_. Inr m)) (on_remote_connected r) t"
| "opening_step t (Continue_Answer r m) =
     answer Local_Continued (on_local_machine (\<lambda>_. Inr m)) (on_local_continued r) t"

datatype tunnel_event = Opening opening_event | Relaying relay_event

fun tunnel_step :: "tunnel \<Rightarrow> tunnel_event \<Rightarrow> tunnel exec" where
  "tunnel_step t (Opening e) = opening_step t e"
| "tunnel_step t (Relaying e) = relay_step t e"

text \<open>A flow that says it is connected, or has continued, is established and idle.\<close>

fun tunnel_admissible :: "tunnel \<Rightarrow> tunnel_event \<Rightarrow> bool" where
  "tunnel_admissible t (Opening (Connect_Answer r m)) = (r = Inr () \<longrightarrow> idle_machine m)"
| "tunnel_admissible t (Opening (Continue_Answer r m)) = (r = Inr () \<longrightarrow> idle_machine m)"
| "tunnel_admissible t _ = True"

definition no_data :: "tunnel \<Rightarrow> bool" where
  "no_data t \<longleftrightarrow> from_local t = [] \<and> to_remote t = [] \<and> from_remote t = [] \<and> to_local t = []"

text \<open>A tunnel waits for exactly one answer while it opens, then it forwards, or it is gone.\<close>

definition opening_phase :: "tunnel \<Rightarrow> tunnel_task \<Rightarrow> bool" where
  "opening_phase t k \<longleftrightarrow>
     (case k of
        Local_Opened \<Rightarrow> True
      | Rule_Matched \<Rightarrow> True
      | Remote_Connected \<Rightarrow> remote_machine t \<noteq> None
      | Local_Continued \<Rightarrow> (\<exists>rm. remote_machine t = Some rm \<and> idle_machine rm)
      | _ \<Rightarrow> False)"

definition opening_ok :: "tunnel \<Rightarrow> bool" where
  "opening_ok t \<longleftrightarrow> no_data t \<and>
     (if released t then waiting t = [] else \<exists>k. waiting t = [k] \<and> opening_phase t k)"

definition tunnel_ok :: "tunnel \<Rightarrow> bool" where
  "tunnel_ok t \<longleftrightarrow> relay_ok t \<or> opening_ok t"

lemma relay_no_opening:
  "relay_ok t \<Longrightarrow> k \<in> {Local_Opened, Rule_Matched, Remote_Connected, Local_Continued} \<Longrightarrow>
   k \<notin> set (waiting t)"
  by (auto simp: relay_ok_def waiting_ok_def split: if_splits)

lemma continue_step:
  assumes "no_data t" "\<not> released t" "waiting t = [Local_Continued]"
    and "remote_machine t = Some rm" "idle_machine rm" "idle_machine m"
  shows "\<exists>t'. opening_step t (Continue_Answer (Inr ()) m) = Inr t' \<and> relay_ok t'"
proof -
  let ?t = "t\<lparr>waiting := [], local_machine := m, timer_runs := timer_runs t + 1\<rparr>"
  have "opening_step t (Continue_Answer (Inr ()) m) = begin_forward ?t"
    using assms by (simp add: answer_def on_local_machine_def on_local_continued_def reset_timer_def alive_def)
  moreover have "\<exists>t'. begin_forward ?t = Inr t' \<and> relay_ok t'"
    using assms by (intro begin_forward_ok [where rm = rm]) (simp_all add: no_data_def)
  ultimately show ?thesis by simp
qed

text \<open>Each answer, in the phase that waits for it.\<close>

lemma released_ok: "no_data t \<Longrightarrow> tunnel_ok (t\<lparr>released := True, waiting := []\<rparr>)"
  by (simp add: tunnel_ok_def opening_ok_def no_data_def)

lemma phase_ok:
  "no_data t \<Longrightarrow> \<not> released t \<Longrightarrow> waiting t = [k] \<Longrightarrow> opening_phase t k \<Longrightarrow> tunnel_ok t"
  by (simp add: tunnel_ok_def opening_ok_def)

lemma opening_live_step:
  assumes "no_data t" "\<not> released t" "waiting t = [k]" "opening_phase t k"
    and "tunnel_admissible t (Opening e)"
  shows "\<exists>t'. opening_step t e = Inr t' \<and> tunnel_ok t'"
proof (cases e)
  case (Continue_Answer r m)
  have "tunnel_ok t" using assms(1-4) by (rule phase_ok)
  show ?thesis
  proof (cases "k = Local_Continued")
    case k: True
    obtain rm where rm: "remote_machine t = Some rm" "idle_machine rm"
      using assms(4) k by (auto simp: opening_phase_def)
    show ?thesis
    proof (cases r)
      case (Inr u)
      then show ?thesis
        using continue_step [OF assms(1,2) _ rm, of m] assms(3,5) k Continue_Answer
        by (auto simp: tunnel_ok_def simp del: opening_step.simps)
    next
      case (Inl er)
      then show ?thesis
        using assms(1-3) k Continue_Answer
        by (simp add: closure_simps on_local_continued_def release_tunnel_def tunnel_ok_def
            opening_ok_def no_data_def)
    qed
  next
    case False
    then show ?thesis using assms(3) Continue_Answer \<open>tunnel_ok t\<close> by (simp add: idle_answer)
  qed
next
  case (Open_Answer r m)
  have "tunnel_ok t" using assms(1-4) by (rule phase_ok)
  then show ?thesis
    using assms(1-3) Open_Answer
    by (cases "k = Local_Opened"; cases r)
      (simp_all add: closure_simps on_local_opened_def match_rule_def release_tunnel_def
        tunnel_ok_def opening_ok_def opening_phase_def no_data_def)
next
  case (Rule_Answer r)
  have "tunnel_ok t" using assms(1-4) by (rule phase_ok)
  then show ?thesis
    using assms(1-3) Rule_Answer
    by (cases "k = Rule_Matched"; cases r)
      (simp_all add: closure_simps on_rule_matched_def release_tunnel_def
        tunnel_ok_def opening_ok_def opening_phase_def no_data_def)
next
  case (Connect_Answer r m)
  have "tunnel_ok t" using assms(1-4) by (rule phase_ok)
  then show ?thesis
    using assms Connect_Answer
    by (cases "k = Remote_Connected"; cases r; cases "remote_machine t")
      (simp_all add: closure_simps on_remote_connected_def release_tunnel_def
        tunnel_ok_def opening_ok_def opening_phase_def no_data_def)
qed

lemma opening_step_ok:
  assumes "opening_ok t" "tunnel_admissible t (Opening e)"
  shows "\<exists>t'. opening_step t e = Inr t' \<and> tunnel_ok t'"
proof (cases "released t")
  case True
  then have "opening_step t e = Inr t"
    using assms(1) by (cases e) (simp_all add: opening_ok_def idle_answer)
  then show ?thesis using assms(1) by (simp add: tunnel_ok_def)
next
  case False
  then show ?thesis using assms opening_live_step by (auto simp: opening_ok_def)
qed

lemma relay_event_while_opening:
  assumes "opening_ok t"
  shows "\<exists>t'. relay_step t e = Inr t' \<and> tunnel_ok t'"
proof (cases "e = Timeout \<and> \<not> released t")
  case True
  then show ?thesis
    using assms by (simp add: alive_def release_tunnel_def opening_ok_def tunnel_ok_def no_data_def)
next
  case False
  have "k \<notin> set (waiting t)"
    if "k \<in> {Local_Data, Remote_Written, Remote_Write_Closed, Remote_Data, Local_Written, Local_Write_Closed}" for k
    using that assms by (auto simp: opening_ok_def opening_phase_def split: if_splits)
  then have "relay_step t e = Inr t"
    using False by (cases e) (simp_all add: idle_answer)
  then show ?thesis using assms by (simp add: tunnel_ok_def)
qed

lemma tunnel_step_ok:
  assumes "tunnel_ok t" "tunnel_admissible t e"
  shows "\<exists>t'. tunnel_step t e = Inr t' \<and> tunnel_ok t'"
proof (cases e)
  case (Opening ev)
  show ?thesis
  proof (cases "relay_ok t")
    case True
    then have "opening_step t ev = Inr t"
      using relay_no_opening [OF True] by (cases ev) (simp_all add: idle_answer)
    then show ?thesis using Opening assms(1) by simp
  next
    case False
    then show ?thesis using Opening assms opening_step_ok by (simp add: tunnel_ok_def)
  qed
next
  case (Relaying ev)
  show ?thesis
  proof (cases "relay_ok t")
    case True
    then show ?thesis
      using relay_step_ok [OF True, of ev] by (auto simp: Relaying tunnel_ok_def)
  next
    case False
    then show ?thesis
      using assms(1) relay_event_while_opening by (simp add: Relaying tunnel_ok_def)
  qed
qed

interpretation tunnel: contract_machine tunnel_step tunnel_ok tunnel_admissible
  by unfold_locales (rule tunnel_step_ok)

lemma tunnel_opened_ok: "\<exists>t. tunnel_open (tunnel_new lm) = Inr t \<and> tunnel_ok t"
  by (simp add: tunnel_open_def tunnel_new_def reset_timer_def alive_def await_def tunnel_ok_def
      opening_ok_def opening_phase_def no_data_def)



text \<open>
  Whatever phase the opening is in, an error in the answer the tunnel waits for deletes
  the tunnel at once: no closure of it is left, and the flows it owned go with it.
\<close>
theorem opening_error_releases:
  assumes "\<not> released t" "waiting t = [k]"
    and "k = Local_Opened \<and> ev = Open_Answer (Inl e) m \<or> k = Rule_Matched \<and> ev = Rule_Answer (Inl e) \<or>
         k = Remote_Connected \<and> ev = Connect_Answer (Inl e) m \<and> remote_machine t \<noteq> None \<or>
         k = Local_Continued \<and> ev = Continue_Answer (Inl e) m"
  shows "\<exists>t'. opening_step t ev = Inr t' \<and> released t' \<and> waiting t' = []"
  using assms
  by (auto simp: closure_simps on_local_opened_def on_rule_matched_def on_remote_connected_def
      on_local_continued_def release_tunnel_def)

theorem opening_error_releases_witness:
  "\<exists>t'. opening_step ((tunnel_new (fsm_new Local))\<lparr>waiting := [Rule_Matched]\<rparr>)
          (Rule_Answer (Inl (common_error EndOfFile))) = Inr t' \<and> released t' \<and> waiting t' = []"
  by (rule opening_error_releases [where k = Rule_Matched]) (simp_all add: tunnel_new_def)

text \<open>\<open>BeginForward\<close> over a flow that is not ready.\<close>

lemma begin_forward_not_writable:
  assumes "\<not> released t" "remote_machine t = Some rm" "\<not> is_writable rm"
    and "state rm \<noteq> Closed"
  shows "begin_forward t = Inl Assert_Failed"
  using assms
  by (auto simp: begin_forward_def forward_local_def check_tunnel_status_def closure_simps boost_assert_def)

end
