(* ===== verification/Proxy_Manager.thy ===== *)
theory Proxy_Manager
  imports Tcp_Connector Tunnel_Life
begin

text \<open>
  \<open>ProxyManager\<close> (src/proxy_manager.cc) and \<open>Instance\<close> (src/instance.cc): the listeners, the
  rule manager and the resolver of a proxy, and the tunnels it opens for the connections its
  listeners accept.
\<close>

section \<open>The proxy manager\<close>

text \<open>An object of \<open>AsyncInterface\<close> is known by its address and the run loop it returns.\<close>

record async_object =
  address :: nat
  object_runloop :: nat

record proxy_manager =
  pm_runloop :: nat
  pm_rule_manager :: "async_object option"
  pm_resolver :: "async_object option"
  pm_listeners :: "async_object list"
  pm_tunnels :: tunnel_manager

definition proxy_manager_new :: "nat \<Rightarrow> proxy_manager" where
  "proxy_manager_new loop =
     \<lparr>pm_runloop = loop, pm_rule_manager = None, pm_resolver = None, pm_listeners = [],
      pm_tunnels = Map.empty\<rparr>"

text \<open>The three setters move a pointer in, after an assertion about what it points to.\<close>

definition check_runloop :: "async_object option \<Rightarrow> proxy_manager \<Rightarrow> (async_object \<Rightarrow> 'a exec) \<Rightarrow> 'a exec" where
  "check_runloop p m k =
     (case p of
        None \<Rightarrow> Inl Null_Deref
      | Some x \<Rightarrow> boost_assert (object_runloop x = pm_runloop m) (k x))"

definition set_rule_manager :: "async_object option \<Rightarrow> proxy_manager \<Rightarrow> proxy_manager exec" where
  "set_rule_manager p m = check_runloop p m (\<lambda>x. Inr (m\<lparr>pm_rule_manager := Some x\<rparr>))"

definition set_resolver :: "async_object option \<Rightarrow> proxy_manager \<Rightarrow> proxy_manager exec" where
  "set_resolver p m = check_runloop p m (\<lambda>x. Inr (m\<lparr>pm_resolver := Some x\<rparr>))"

definition add_listener :: "async_object option \<Rightarrow> proxy_manager \<Rightarrow> proxy_manager exec" where
  "add_listener p m = check_runloop p m (\<lambda>x. Inr (m\<lparr>pm_listeners := pm_listeners m @ [x]\<rparr>))"

text \<open>\<open>Run\<close>: the listeners on which \<open>Accept\<close> is called.\<close>

definition proxy_run :: "proxy_manager \<Rightarrow> async_object list exec" where
  "proxy_run m =
     boost_assert (pm_rule_manager m \<noteq> None)
     (boost_assert (pm_resolver m \<noteq> None)
     (boost_assert (pm_listeners m \<noteq> []) (Inr (pm_listeners m))))"

text \<open>
  The handler given to the listeners.  An accepted flow has its session and its machine; \<open>a\<close> is
  the address of the tunnel built for it.  After an error it is still dereferenced.
\<close>

definition on_flow_accepted ::
  "nat \<Rightarrow> (session \<times> fsm) result \<Rightarrow> proxy_manager \<Rightarrow> (session \<times> proxy_manager) exec" where
  "on_flow_accepted a r m =
     (case r of
        Inl e \<Rightarrow> Inl Null_Deref
      | Inr (s, lm) \<Rightarrow>
          (case pm_resolver m of
             None \<Rightarrow> Inl Null_Deref
           | Some r \<Rightarrow>
               exec_bind (session_set_resolver (\<lambda>_. object_runloop r) (address r) s) (\<lambda>s.
               let tm = manager_build a lm (pm_tunnels m)
               in case tm a of
                    None \<Rightarrow> Inl Null_Deref
                  | Some t \<Rightarrow> exec_bind (tunnel_open t) (\<lambda>t.
                      Inr (s, m\<lparr>pm_tunnels := tm(a \<mapsto> t)\<rparr>)))))"

text \<open>\<open>Stop\<close>: the listeners closed, after the resolver has been stopped.\<close>

definition proxy_stop :: "proxy_manager \<Rightarrow> async_object list exec" where
  "proxy_stop m = (case pm_resolver m of None \<Rightarrow> Inl Null_Deref | Some r \<Rightarrow> Inr (pm_listeners m))"

section \<open>The instance\<close>

record instance_state =
  in_runloop :: nat
  proxy_managers :: "proxy_manager list"
  ready :: bool

definition instance_new :: "nat \<Rightarrow> instance_state" where
  "instance_new loop = \<lparr>in_runloop = loop, proxy_managers = [], ready = True\<rparr>"

definition add_proxy_manager :: "proxy_manager \<Rightarrow> instance_state \<Rightarrow> instance_state exec" where
  "add_proxy_manager m i =
     boost_assert (pm_runloop m = in_runloop i) (Inr (i\<lparr>proxy_managers := proxy_managers i @ [m]\<rparr>))"

fun each_manager :: "('a \<Rightarrow> 'b list exec) \<Rightarrow> 'a list \<Rightarrow> 'b list exec" where
  "each_manager f [] = Inr []"
| "each_manager f (m # ms) = exec_bind (f m) (\<lambda>xs. exec_bind (each_manager f ms) (\<lambda>ys. Inr (xs @ ys)))"

definition instance_run :: "instance_state \<Rightarrow> async_object list exec" where
  "instance_run i = boost_assert (ready i) (each_manager proxy_run (proxy_managers i))"

definition instance_stop :: "instance_state \<Rightarrow> (async_object list \<times> instance_state) exec" where
  "instance_stop i =
     exec_bind (each_manager proxy_stop (proxy_managers i)) (\<lambda>ls. Inr (ls, i\<lparr>ready := False\<rparr>))"

section \<open>A proxy at work\<close>

text \<open>
  The \<open>i\<close>-th listener answers an accept, with a flow of machine \<open>lm\<close> and a session of its own
  run loop if it succeeds; a tunnel gets an answer.  A tunnel that releases itself is erased by
  the manager.
\<close>

datatype proxy_event = Accept_Answer nat boost_code nat fsm | Tunnel_Answer nat tunnel_event

definition tunnel_answered :: "nat \<Rightarrow> tunnel_event \<Rightarrow> tunnel_manager \<Rightarrow> tunnel_manager exec" where
  "tunnel_answered a ev tm =
     (case tm a of
        None \<Rightarrow> Inr tm
      | Some t \<Rightarrow> exec_bind (tunnel_step t ev) (\<lambda>t.
          Inr (if released t then manager_notify_closed a tm else tm(a \<mapsto> t))))"

fun proxy_step :: "asio_codes \<Rightarrow> proxy_manager \<Rightarrow> proxy_event \<Rightarrow> proxy_manager exec" where
  "proxy_step codes m (Accept_Answer i ec a lm) =
     (if i < length (pm_listeners m)
      then exec_bind (on_accepted codes ec) (\<lambda>(told, again).
           case told of
             None \<Rightarrow> Inr m
           | Some r \<Rightarrow>
               exec_bind (on_flow_accepted a
                   (case r of Inl e \<Rightarrow> Inl e
                            | Inr u \<Rightarrow> Inr (session_new (object_runloop (pm_listeners m ! i)) None, lm)) m)
                 (\<lambda>(s, m). Inr m))
      else Inr m)"
| "proxy_step codes m (Tunnel_Answer a ev) =
     exec_bind (tunnel_answered a ev (pm_tunnels m)) (\<lambda>tm. Inr (m\<lparr>pm_tunnels := tm\<rparr>))"

text \<open>
  An accept fails only when the listener has been closed; a new tunnel gets a fresh address;
  the flows of a tunnel keep to what the tunnel relies on.
\<close>

fun proxy_admissible :: "asio_codes \<Rightarrow> proxy_manager \<Rightarrow> proxy_event \<Rightarrow> bool" where
  "proxy_admissible codes m (Accept_Answer i ec a lm) \<longleftrightarrow>
     pm_tunnels m a = None \<and> (failed ec \<longrightarrow> basic codes (bvalue ec) = Some Operation_Aborted)"
| "proxy_admissible codes m (Tunnel_Answer a ev) \<longleftrightarrow>
     (case pm_tunnels m a of None \<Rightarrow> True | Some t \<Rightarrow> tunnel_admissible t ev)"

definition loops_agree :: "proxy_manager \<Rightarrow> bool" where
  "loops_agree m \<longleftrightarrow>
     (case pm_resolver m of None \<Rightarrow> True | Some r \<Rightarrow> object_runloop r = pm_runloop m) \<and>
     (\<forall>l \<in> set (pm_listeners m). object_runloop l = pm_runloop m)"

definition tunnels_ok :: "proxy_manager \<Rightarrow> bool" where
  "tunnels_ok m \<longleftrightarrow> (\<forall>a t. pm_tunnels m a = Some t \<longrightarrow> tunnel_ok t \<and> \<not> released t)"

definition proxy_ok :: "proxy_manager \<Rightarrow> bool" where
  "proxy_ok m \<longleftrightarrow> pm_resolver m \<noteq> None \<and> loops_agree m \<and> tunnels_ok m"

lemma opened_tunnel: "\<exists>t. tunnel_open (tunnel_new lm) = Inr t \<and> tunnel_ok t \<and> \<not> released t"
  using tunnel_opened_ok [of lm]
  by (auto simp: tunnel_open_def tunnel_new_def reset_timer_def alive_def await_def)

lemma on_flow_accepted_ok:
  assumes "proxy_ok m" "session_runloop s = pm_runloop m"
  shows "\<exists>s' m'. on_flow_accepted a (Inr (s, lm)) m = Inr (s', m') \<and> proxy_ok m'"
proof -
  obtain t where "tunnel_open (tunnel_new lm) = Inr t" "tunnel_ok t" "\<not> released t"
    using opened_tunnel by blast
  then show ?thesis
    using assms
    by (auto simp: on_flow_accepted_def manager_build_def proxy_ok_def loops_agree_def tunnels_ok_def
        session_set_resolver_def)
qed

lemma tunnel_answered_ok:
  assumes "proxy_ok m" "proxy_admissible codes m (Tunnel_Answer a ev)"
  shows "\<exists>tm. tunnel_answered a ev (pm_tunnels m) = Inr tm \<and> proxy_ok (m\<lparr>pm_tunnels := tm\<rparr>)"
proof (cases "pm_tunnels m a")
  case (Some t)
  then obtain t' where "tunnel_step t ev = Inr t'" "tunnel_ok t'"
    using assms tunnel_step_ok [of t ev] by (auto simp: proxy_ok_def tunnels_ok_def)
  then show ?thesis
    using assms(1) Some
    by (auto simp: tunnel_answered_def manager_notify_closed_def proxy_ok_def loops_agree_def tunnels_ok_def)
qed (use assms in \<open>simp add: tunnel_answered_def\<close>)

lemma proxy_step_ok:
  assumes "proxy_ok m" "proxy_admissible codes m e"
  shows "\<exists>m'. proxy_step codes m e = Inr m' \<and> proxy_ok m'"
proof (cases e)
  case (Accept_Answer i ec a lm)
  have "\<exists>s' m'. on_flow_accepted a (Inr (session_new (object_runloop (pm_listeners m ! i)) None, lm)) m =
      Inr (s', m') \<and> proxy_ok m'" if "i < length (pm_listeners m)"
    using that assms(1)
    by (intro on_flow_accepted_ok) (auto simp: proxy_ok_def loops_agree_def session_new_def)
  then show ?thesis
    using assms Accept_Answer by (auto simp: on_accepted_def)
next
  case (Tunnel_Answer a ev)
  then show ?thesis
    using tunnel_answered_ok [OF assms(1), of codes a ev] assms(2) by auto
qed

interpretation proxy: contract_machine "proxy_step codes" proxy_ok "proxy_admissible codes"
  by unfold_locales (rule proxy_step_ok)

text \<open>Setting a proxy up.\<close>

datatype proxy_setup =
    Use_Rules "async_object option" | Use_Resolver "async_object option" | Use_Listener "async_object option"

fun setup_step :: "proxy_manager \<Rightarrow> proxy_setup \<Rightarrow> proxy_manager exec" where
  "setup_step m (Use_Rules p) = set_rule_manager p m"
| "setup_step m (Use_Resolver p) = set_resolver p m"
| "setup_step m (Use_Listener p) = add_listener p m"

interpretation configuring: invariant_machine setup_step "\<lambda>m. loops_agree m \<and> pm_tunnels m = Map.empty"
proof unfold_locales
  fix m e m'
  assume "loops_agree m \<and> pm_tunnels m = Map.empty" "setup_step m e = Inr m'"
  then show "loops_agree m' \<and> pm_tunnels m' = Map.empty"
    by (cases e)
      (auto simp: set_rule_manager_def set_resolver_def add_listener_def check_runloop_def
        boost_assert_Inr loops_agree_def split: option.splits)
qed

section \<open>Properties\<close>



text \<open>An accept that fails for any other reason takes the proxy down.\<close>

theorem accept_error_faults:
  assumes "failed ec" "basic codes (bvalue ec) \<noteq> Some Operation_Aborted" "from_boost_error ec = Inr e"
    and "i < length (pm_listeners m)"
  shows "proxy_step codes m (Accept_Answer i ec a lm) = Inl Null_Deref"
  using assms by (simp add: on_accepted_def on_flow_accepted_def)

text \<open>An instance that was stopped cannot run again: nothing sets \<open>ready_\<close> anew.\<close>

theorem instance_runs_once:
  "instance_stop i = Inr (ls, i') \<Longrightarrow> instance_run i' = Inl Assert_Failed"
  by (auto simp: instance_stop_def instance_run_def exec_bind_Inr)

end
