(* ===== verification/Tcp_Listener.thy ===== *)
theory Tcp_Listener
  imports Proxy_Manager "HOL-Library.Sublist"
begin

text \<open>
  \<open>transport::TcpListener\<close> (src/transport/tcp_listener.cc) over time: the accept that is
  outstanding, its completion, which waits in the run loop's queue, and \<open>Close\<close>.  \<open>Bind\<close> and the
  body of the closure are in \<open>Tcp_Connector\<close>.
\<close>

section \<open>The listener\<close>

text \<open>
  An accept has no code while the system has not answered.  \<open>async_accept\<close> on a closed acceptor is
  answered at once, with \<open>bad\<close>; closing the acceptor answers what is outstanding with \<open>aborted\<close>,
  and leaves alone what has been answered.
\<close>

record 'h tcp_listener =
  acceptor_open :: bool
  accepts :: "('h \<times> boost_code option) list"

record accept_codes =
  aborted :: boost_code
  bad :: boost_code

definition listener_accept :: "accept_codes \<Rightarrow> 'h \<Rightarrow> 'h tcp_listener \<Rightarrow> 'h tcp_listener" where
  "listener_accept ac h l =
     l\<lparr>accepts := accepts l @ [(h, if acceptor_open l then None else Some (bad ac))]\<rparr>"

definition listener_close :: "accept_codes \<Rightarrow> 'h tcp_listener \<Rightarrow> 'h tcp_listener" where
  "listener_close ac l =
     l\<lparr>acceptor_open := False,
       accepts := map (\<lambda>(h, c). (h, Some (case c of None \<Rightarrow> aborted ac | Some ec \<Rightarrow> ec))) (accepts l)\<rparr>"

text \<open>
  The closure of the oldest accept runs; the handler it calls may close the listener, before
  \<open>Accept\<close> is called again.
\<close>

definition listener_handles ::
  "asio_codes \<Rightarrow> accept_codes \<Rightarrow> bool \<Rightarrow> 'h tcp_listener \<Rightarrow> (('h \<times> unit result) list \<times> 'h tcp_listener) exec" where
  "listener_handles codes ac closes l =
     (case accepts l of
        (h, Some ec) # cs \<Rightarrow>
          exec_bind (on_accepted codes ec) (\<lambda>(told, again).
          let l = l\<lparr>accepts := cs\<rparr>;
              l = (if closes \<and> told \<noteq> None then listener_close ac l else l);
              l = (if again then listener_accept ac h l else l)
          in Inr (case told of None \<Rightarrow> [] | Some r \<Rightarrow> [(h, r)], l))
      | _ \<Rightarrow> Inr ([], l))"

definition listener_answered :: "boost_code \<Rightarrow> 'h tcp_listener \<Rightarrow> 'h tcp_listener" where
  "listener_answered ec l =
     (case accepts l of
        (h, None) # cs \<Rightarrow> l\<lparr>accepts := (h, Some ec) # cs\<rparr>
      | _ \<Rightarrow> l)"

record 'h listening =
  on_port :: "'h tcp_listener"
  heard :: "('h \<times> unit result) list"

datatype listen_event = System_Accepts boost_code | Completion_Runs bool | Close_Listener

fun listen_step :: "asio_codes \<Rightarrow> accept_codes \<Rightarrow> 'h listening \<Rightarrow> listen_event \<Rightarrow> 'h listening exec" where
  "listen_step codes ac w (System_Accepts ec) = Inr (w\<lparr>on_port := listener_answered ec (on_port w)\<rparr>)"
| "listen_step codes ac w (Completion_Runs closes) =
     exec_bind (listener_handles codes ac closes (on_port w)) (\<lambda>(rs, l).
     Inr (w\<lparr>on_port := l, heard := heard w @ rs\<rparr>))"
| "listen_step codes ac w Close_Listener = Inr (w\<lparr>on_port := listener_close ac (on_port w)\<rparr>)"

text \<open>A bound listener on which \<open>Accept\<close> has been called once.\<close>

definition listen_start :: "accept_codes \<Rightarrow> 'h \<Rightarrow> 'h listening" where
  "listen_start ac h =
     \<lparr>on_port = listener_accept ac h \<lparr>acceptor_open = True, accepts = []\<rparr>, heard = []\<rparr>"

section \<open>What it reports\<close>

text \<open>The codes are the platform's: one is an aborted operation, the other is not and has a name.\<close>

definition codes_fit :: "asio_codes \<Rightarrow> accept_codes \<Rightarrow> bool" where
  "codes_fit codes ac \<longleftrightarrow> on_accepted codes (aborted ac) = Inr (None, False) \<and>
     (\<exists>e. on_accepted codes (bad ac) = Inr (Some (Inl e), False))"

fun listen_admissible :: "asio_codes \<Rightarrow> 'h listening \<Rightarrow> listen_event \<Rightarrow> bool" where
  "listen_admissible codes w (System_Accepts ec) \<longleftrightarrow> (\<exists>x. on_accepted codes ec = Inr x)"
| "listen_admissible codes w _ \<longleftrightarrow> True"

text \<open>
  One accept at most is outstanding, so that no two share \<open>socket_\<close>; a failure is the last report.
\<close>

definition listen_ok :: "asio_codes \<Rightarrow> 'h \<Rightarrow> 'h listening \<Rightarrow> bool" where
  "listen_ok codes h w \<longleftrightarrow>
     (\<exists>n. heard w = replicate n (h, Inr ()) \<or>
        (\<exists>e. heard w = replicate n (h, Inr ()) @ [(h, Inl e)]) \<and> accepts (on_port w) = []) \<and>
     (accepts (on_port w) = [] \<or> accepts (on_port w) = [(h, None)] \<and> acceptor_open (on_port w) \<or>
      (\<exists>ec x. accepts (on_port w) = [(h, Some ec)] \<and> on_accepted codes ec = Inr x))"

lemma accepted_cases:
  assumes "on_accepted codes ec = Inr x"
  obtains "failed ec" "x = (None, False)" | e where "failed ec" "x = (Some (Inl e), False)"
    | "\<not> failed ec" "x = (Some (Inr ()), True)"
  using assms by (auto simp: on_accepted_def exec_bind_Inr split: if_splits)

lemma replicate_more: "\<exists>k. replicate n x @ [x] = replicate k x"
  using replicate_append_same [of n x] by (metis replicate_Suc)

lemma completion_ok:
  assumes "codes_fit codes ac" "listen_ok codes h w"
  shows "\<exists>w'. listen_step codes ac w (Completion_Runs closes) = Inr w' \<and> listen_ok codes h w'"
proof (cases "\<exists>ec x. accepts (on_port w) = [(h, Some ec)] \<and> on_accepted codes ec = Inr x")
  case False
  then have "listen_step codes ac w (Completion_Runs closes) = Inr w"
    using assms(2) by (auto simp: listen_ok_def listener_handles_def)
  then show ?thesis using assms(2) by simp
next
  case True
  then obtain ec x where ec: "accepts (on_port w) = [(h, Some ec)]" "on_accepted codes ec = Inr x" by blast
  then obtain n where n: "heard w = replicate n (h, Inr ())" using assms(2) by (auto simp: listen_ok_def)
  from ec(2) show ?thesis
  proof (cases rule: accepted_cases)
    case 3
    then show ?thesis
      using ec n assms(1) replicate_more [of n "(h, Inr ())"]
      by (auto simp: listener_handles_def listen_ok_def listener_accept_def listener_close_def codes_fit_def Let_def)
  qed (use ec n in \<open>auto simp: listener_handles_def listen_ok_def listener_close_def Let_def\<close>)
qed

lemma listen_step_ok:
  assumes "codes_fit codes ac" "listen_ok codes h w" "listen_admissible codes w e"
  shows "\<exists>w'. listen_step codes ac w e = Inr w' \<and> listen_ok codes h w'"
proof (cases e)
  case (System_Accepts ec)
  then show ?thesis using assms by (auto simp: listen_ok_def listener_answered_def)
next
  case (Completion_Runs closes)
  then show ?thesis using completion_ok [OF assms(1,2)] by simp
next
  case Close_Listener
  then show ?thesis using assms by (auto simp: listen_ok_def listener_close_def codes_fit_def)
qed

lemma listen_contract:
  "codes_fit codes ac \<and> listen_ok codes h w \<Longrightarrow> listen_admissible codes w e \<Longrightarrow>
   \<exists>w'. listen_step codes ac w e = Inr w' \<and> codes_fit codes ac \<and> listen_ok codes h w'"
  using listen_step_ok [of codes ac h w e] by auto

interpretation listener: contract_machine "listen_step codes ac"
    "\<lambda>w. codes_fit codes ac \<and> listen_ok codes h w" "listen_admissible codes"
  by unfold_locales (rule listen_contract)

section \<open>After Close\<close>

text \<open>What the completions in the queue still report once the acceptor is closed.\<close>

definition reported :: "asio_codes \<Rightarrow> 'h \<Rightarrow> boost_code \<Rightarrow> ('h \<times> unit result) list" where
  "reported codes h ec = (case on_accepted codes ec of Inr (Some r, again) \<Rightarrow> [(h, r)] | _ \<Rightarrow> [])"

fun due :: "asio_codes \<Rightarrow> accept_codes \<Rightarrow> ('h \<times> boost_code option) list \<Rightarrow> ('h \<times> unit result) list" where
  "due codes ac ((h, Some ec) # cs) = reported codes h ec @ (if failed ec then [] else reported codes h (bad ac))"
| "due codes ac cs = []"

lemma closed_step:
  assumes "codes_fit codes ac" "listen_ok codes h w" "\<not> acceptor_open (on_port w)"
    and "listen_step codes ac w e = Inr w'"
  shows "\<not> acceptor_open (on_port w')"
    "heard w' @ due codes ac (accepts (on_port w')) = heard w @ due codes ac (accepts (on_port w))"
proof -
  consider "accepts (on_port w) = []" | ec x where "accepts (on_port w) = [(h, Some ec)]" "on_accepted codes ec = Inr x"
    using assms(2,3) by (auto simp: listen_ok_def)
  then have "\<not> acceptor_open (on_port w') \<and>
    heard w' @ due codes ac (accepts (on_port w')) = heard w @ due codes ac (accepts (on_port w))"
  proof cases
    case 1
    then show ?thesis
      using assms(3,4) by (cases e) (auto simp: listener_answered_def listener_handles_def listener_close_def)
  next
    case 2
    show ?thesis
    proof (cases e)
      case (Completion_Runs closes)
      from 2(2) show ?thesis
        by (cases rule: accepted_cases)
          (use 2 assms(1,3,4) Completion_Runs in \<open>auto simp: listener_handles_def listener_close_def
            listener_accept_def reported_def codes_fit_def Let_def on_accepted_def split: if_splits\<close>)
    qed (use 2 assms(3,4) in \<open>auto simp: listener_answered_def listener_close_def\<close>)
  qed
  then show "\<not> acceptor_open (on_port w')"
    "heard w' @ due codes ac (accepts (on_port w')) = heard w @ due codes ac (accepts (on_port w))" by auto
qed

lemma closed_run:
  assumes "codes_fit codes ac"
  shows "listen_ok codes h w \<Longrightarrow> \<not> acceptor_open (on_port w) \<Longrightarrow>
    admissible_run (listen_step codes ac) (listen_admissible codes) w es \<Longrightarrow>
    run (listen_step codes ac) w es = Inr w' \<Longrightarrow>
    heard w' @ due codes ac (accepts (on_port w')) = heard w @ due codes ac (accepts (on_port w))"
proof (induction es arbitrary: w)
  case (Cons e es)
  then obtain w1 where w1: "listen_step codes ac w e = Inr w1" "listen_ok codes h w1"
    "admissible_run (listen_step codes ac) (listen_admissible codes) w1 es" "run (listen_step codes ac) w1 es = Inr w'"
    using listen_step_ok [OF assms Cons.prems(1), of e] by (auto simp: exec_bind_Inr)
  note close = closed_step [OF assms Cons.prems(1,2) w1(1)]
  show ?case using Cons.IH [OF w1(2) close(1) w1(3,4)] close(2) by simp
qed simp

lemma due_cases:
  assumes "codes_fit codes ac" "listen_ok codes h w"
  shows "due codes ac (accepts (on_port w)) = [] \<or> (\<exists>e. due codes ac (accepts (on_port w)) = [(h, Inl e)]) \<or>
    (\<exists>e. due codes ac (accepts (on_port w)) = [(h, Inr ()), (h, Inl e)])"
proof (cases "\<exists>ec x. accepts (on_port w) = [(h, Some ec)] \<and> on_accepted codes ec = Inr x")
  case True
  then obtain ec x where ec: "accepts (on_port w) = [(h, Some ec)]" "on_accepted codes ec = Inr x" by blast
  from ec(2) show ?thesis
    by (cases rule: accepted_cases) (use ec assms(1) in \<open>auto simp: reported_def codes_fit_def\<close>)
qed (use assms(2) in \<open>auto simp: listen_ok_def\<close>)

lemma listen_start_ok: "listen_ok codes h (listen_start ac h)"
  by (simp add: listen_ok_def listen_start_def listener_accept_def)

text \<open>
  C33. A listener on which \<open>Accept\<close> was called once never has two accepts outstanding and never
  faults, whatever the system answers and whenever it is closed, by its user or inside the handler.
  It reports the accepted sockets one by one; an error is its last report, after which it accepts
  no more.  Once it is closed it reports at most what was already in the queue, and then, if that
  was a socket, the error of accepting on a closed acceptor.
\<close>

theorem listener_reports:
  assumes "codes_fit codes ac"
    and "admissible_run (listen_step codes ac) (listen_admissible codes) (listen_start ac h) es"
  shows "\<exists>w. run (listen_step codes ac) (listen_start ac h) es = Inr w \<and> length (accepts (on_port w)) \<le> 1 \<and>
    (\<exists>n. heard w = replicate n (h, Inr ()) \<or>
       (\<exists>e. heard w = replicate n (h, Inr ()) @ [(h, Inl e)]) \<and> accepts (on_port w) = []) \<and>
    (\<forall>es1 es2 w1. es = es1 @ es2 \<longrightarrow> run (listen_step codes ac) (listen_start ac h) es1 = Inr w1 \<longrightarrow>
       \<not> acceptor_open (on_port w1) \<longrightarrow>
       (\<exists>tl. prefix (heard w) (heard w1 @ tl) \<and>
          (tl = [] \<or> (\<exists>e. tl = [(h, Inl e)]) \<or> (\<exists>e. tl = [(h, Inr ()), (h, Inl e)]))))"
proof -
  let ?step = "listen_step codes ac" and ?start = "listen_start ac h"
  obtain w where w: "run ?step ?start es = Inr w" "listen_ok codes h w"
    using listener.contract_run [OF conjI [OF assms(1) listen_start_ok] assms(2)] by blast
  have "\<exists>tl. prefix (heard w) (heard w1 @ tl) \<and>
      (tl = [] \<or> (\<exists>e. tl = [(h, Inl e)]) \<or> (\<exists>e. tl = [(h, Inr ()), (h, Inl e)]))"
    if "es = es1 @ es2" "run ?step ?start es1 = Inr w1" "\<not> acceptor_open (on_port w1)" for es1 es2 w1
  proof -
    have adm: "admissible_run ?step (listen_admissible codes) ?start es1"
      "admissible_run ?step (listen_admissible codes) w1 es2"
      using admissible_split [OF assms(2) [unfolded that(1)] that(2)] by auto
    have ok: "listen_ok codes h w1"
      using listener.contract_run [OF conjI [OF assms(1) listen_start_ok] adm(1)] that(2) by auto
    have "run ?step w1 es2 = Inr w" using w(1) that(1,2) by (simp add: run_append)
    then have "prefix (heard w) (heard w1 @ due codes ac (accepts (on_port w1)))"
      using closed_run [OF assms(1) ok that(3) adm(2)] by (metis prefixI)
    then show ?thesis using due_cases [OF assms(1) ok] by blast
  qed
  moreover have "length (accepts (on_port w)) \<le> 1" using w(2) by (auto simp: listen_ok_def)
  ultimately show ?thesis using w unfolding listen_ok_def by blast
qed

definition linux_accept_codes :: accept_codes where
  "linux_accept_codes =
     \<lparr>aborted = \<lparr>bcategory = System_Category, bvalue = 125\<rparr>, bad = \<lparr>bcategory = System_Category, bvalue = 9\<rparr>\<rparr>"

definition sample_listening :: "listen_event list" where
  "sample_listening = [System_Accepts no_boost_error, Completion_Runs False, System_Accepts no_boost_error,
     Close_Listener, Completion_Runs False, Completion_Runs False]"

theorem listener_reports_witness:
  "\<exists>w e. run (listen_step linux_codes linux_accept_codes) (listen_start linux_accept_codes (7::nat)) sample_listening = Inr w \<and>
     length (accepts (on_port w)) \<le> 1 \<and> heard w = [(7, Inr ()), (7, Inr ()), (7, Inl e)]"
proof -
  let ?step = "listen_step linux_codes linux_accept_codes" and ?start = "listen_start linux_accept_codes (7::nat)"
  note eval = sample_listening_def listen_start_def listener_accept_def listener_close_def listener_answered_def
    listener_handles_def on_accepted_def failed_def linux_codes_def linux_accept_codes_def no_boost_error_def
    from_boost_error_def
  have "codes_fit linux_codes linux_accept_codes" by (simp add: codes_fit_def eval)
  moreover have "admissible_run ?step (listen_admissible linux_codes) ?start sample_listening" by (simp add: eval) blast
  ultimately obtain w where "run ?step ?start sample_listening = Inr w" "length (accepts (on_port w)) \<le> 1"
    using listener_reports [of linux_codes linux_accept_codes 7 sample_listening] by blast
  moreover have "\<exists>e w. run ?step ?start sample_listening = Inr w \<and> heard w = [(7, Inr ()), (7, Inr ()), (7, Inl e)]"
    by (simp add: eval)
  ultimately show ?thesis by auto
qed

text \<open>
  So a proxy does not survive \<open>Stop\<close> while a connection is in the queue: \<open>Accept\<close> is called again on
  the closed acceptor, and the error it reports is dereferenced by the proxy's handler.
\<close>

theorem stopped_proxy_faults:
  assumes "codes_fit codes ac" "accepts (on_port w) = [(h, None)]" "\<not> failed ec"
    and "i < length (pm_listeners m)"
  shows "\<exists>w' e. run (listen_step codes ac) w
      [System_Accepts ec, Close_Listener, Completion_Runs False, Completion_Runs False] = Inr w' \<and>
    heard w' = heard w @ [(h, Inr ()), (h, Inl e)] \<and>
    proxy_step codes m (Accept_Answer i (bad ac) a lm) = Inl Null_Deref"
proof -
  have ec: "on_accepted codes ec = Inr (Some (Inr ()), True)" using assms(3) by (simp add: on_accepted_def)
  obtain e where e: "on_accepted codes (bad ac) = Inr (Some (Inl e), False)"
    using assms(1) by (auto simp: codes_fit_def)
  then show ?thesis
    using assms(2,4) ec
    by (simp add: listener_answered_def listener_close_def listener_handles_def listener_accept_def on_flow_accepted_def)
qed

end
