(* ===== verification/Track_Id.thy ===== *)
theory Track_Id
  imports Nekit_Prelude
begin

text \<open>
  \<open>utils::TrackIdGenerator\<close> (src/utils/track_id_generator.cc): the identifiers that tell tunnels
  apart in the log.  The generator of random numbers is Boost's; \<open>draw m\<close> gives a number up to
  \<open>m\<close> and the generator after it, and \<open>fresh\<close> is a generator just made.
\<close>

definition track_chars :: string where
  "track_chars = ''abcdefghijklmnopqrstuvwxyz'' @ ''ABCDEFGHIJKLMNOPQRSTUVWXYZ'' @ ''1234567890''"

fun draw_chars :: "(nat \<Rightarrow> 'g \<Rightarrow> nat \<times> 'g) \<Rightarrow> nat \<Rightarrow> 'g \<Rightarrow> string exec" where
  "draw_chars draw 0 g = Inr []"
| "draw_chars draw (Suc n) g =
     (let (i, g) = draw (length track_chars - 1) g
      in if i < length track_chars
         then exec_bind (draw_chars draw n g) (\<lambda>cs. Inr (track_chars ! i # cs)) else Inl Out_Of_Bounds)"

definition track_id_generate :: "(nat \<Rightarrow> 'g \<Rightarrow> nat \<times> 'g) \<Rightarrow> 'g \<Rightarrow> string exec" where
  "track_id_generate draw fresh = draw_chars draw 8 fresh"

text \<open>\<open>Trackable\<close>: an object's identifier.\<close>

definition create_track_id :: "(nat \<Rightarrow> 'g \<Rightarrow> nat \<times> 'g) \<Rightarrow> 'g \<Rightarrow> string \<Rightarrow> string exec" where
  "create_track_id draw fresh old = track_id_generate draw fresh"

lemma draw_chars_ok:
  assumes "\<And>m g. fst (draw m g) \<le> m"
  shows "\<exists>cs. draw_chars draw n g = Inr cs \<and> length cs = n \<and> set cs \<subseteq> set track_chars"
proof (induction n arbitrary: g)
  case (Suc n)
  obtain i g' where d: "draw (length track_chars - 1) g = (i, g')" by (rule prod.exhaust)
  then have "i < length track_chars" using assms [of "length track_chars - 1" g] by (simp add: track_chars_def)
  moreover obtain cs where "draw_chars draw n g' = Inr cs" "length cs = n" "set cs \<subseteq> set track_chars"
    using Suc.IH by blast
  ultimately show ?case using d by (auto simp: Let_def)
qed simp

text \<open>
  Identifiers have eight letters and digits.  Each call makes a generator of its own, seeded as
  the last one was, so they are all the same.
\<close>

theorem track_ids_all_equal:
  assumes "\<And>m g. fst (draw m g) \<le> m"
  shows "\<exists>cs. length cs = 8 \<and> set cs \<subseteq> set track_chars \<and>
     (\<forall>old. create_track_id draw fresh old = Inr cs)"
  using draw_chars_ok [of draw 8 fresh, OF assms] by (auto simp: create_track_id_def track_id_generate_def)

end
