(* ===== verification/Flow_Stack.thy ===== *)
theory Flow_Stack
  imports Speed_Flow Track_Id
begin

text \<open>
  Flows as a stack: what \<open>NextHop\<close>, \<open>NextLocalHop\<close>, \<open>NextRemoteHop\<close>, \<open>FlowDataType\<close> and
  \<open>GetRunloop\<close> say of it (data_flow/data_flow_interface.h and the flows), and the loops in which a
  tunnel hands its identifier down (transport/tunnel.cc).
\<close>

section \<open>Stacks\<close>

datatype data_type = Stream | Packet

datatype layer = Socks5_Server_Layer | Http_Server_Layer | Socks5_Layer | Http_Layer | Tls_Layer

text \<open>
  A socket at the bottom, a layer over a next hop, or a race with its candidates and its winner.
  Each has its identifier; a socket and a layer have the run loop of their session.
\<close>

datatype flow_stack =
    Socket_Hop (hop_id: string) nat
  | Layer_Hop layer (hop_id: string) nat flow_stack
  | Speed_Hop (hop_id: string) "flow_stack list" "flow_stack option"

fun stack_next_hop :: "flow_stack \<Rightarrow> flow_stack option" where
  "stack_next_hop (Socket_Hop t l) = None"
| "stack_next_hop (Layer_Hop k t l f) = Some f"
| "stack_next_hop (Speed_Hop t cs w) = w"

text \<open>Which classes implement the local and the remote interface; a socket has both.\<close>

fun is_local :: "flow_stack \<Rightarrow> bool" where
  "is_local (Socket_Hop t l) = True"
| "is_local (Layer_Hop k t l f) \<longleftrightarrow> k = Socks5_Server_Layer \<or> k = Http_Server_Layer"
| "is_local (Speed_Hop t cs w) = False"

fun is_remote :: "flow_stack \<Rightarrow> bool" where
  "is_remote (Layer_Hop k t l f) \<longleftrightarrow> k \<noteq> Socks5_Server_Layer \<and> k \<noteq> Http_Server_Layer"
| "is_remote _ = True"

text \<open>The casts of the next hop, null when it is of another kind.\<close>

definition hop_as :: "(flow_stack \<Rightarrow> bool) \<Rightarrow> flow_stack \<Rightarrow> flow_stack option" where
  "hop_as kind f = (case stack_next_hop f of None \<Rightarrow> None | Some g \<Rightarrow> if kind g then Some g else None)"

definition next_local_hop :: "flow_stack \<Rightarrow> flow_stack option" where
  "next_local_hop = hop_as is_local"

definition next_remote_hop :: "flow_stack \<Rightarrow> flow_stack option" where
  "next_remote_hop = hop_as is_remote"

text \<open>A race asks its first candidate, though it drops the candidates when one has won.\<close>

fun flow_data_type :: "flow_stack \<Rightarrow> data_type exec" where
  "flow_data_type (Speed_Hop t [] w) = Inl Out_Of_Bounds"
| "flow_data_type (Speed_Hop t (f # fs) w) = flow_data_type f"
| "flow_data_type _ = Inr Stream"

fun flow_runloop :: "flow_stack \<Rightarrow> nat exec" where
  "flow_runloop (Socket_Hop t l) = Inr l"
| "flow_runloop (Layer_Hop k t l f) = (if k = Http_Layer then Inr l else flow_runloop f)"
| "flow_runloop (Speed_Hop t (f # fs) w) = flow_runloop f"
| "flow_runloop (Speed_Hop t [] (Some f)) = flow_runloop f"
| "flow_runloop (Speed_Hop t [] None) = Inl Null_Deref"

text \<open>The constructors of the server flows.\<close>

definition server_over :: "layer \<Rightarrow> nat \<Rightarrow> flow_stack \<Rightarrow> flow_stack exec" where
  "server_over k l f =
     exec_bind (flow_data_type f) (\<lambda>d. boost_assert (d = Stream) (Inr (Layer_Hop k [] l f)))"

section \<open>Identifiers\<close>

text \<open>
  \<open>while (flow) { flow->SetTrackId(id); flow = flow->NextLocalHop(); }\<close>, and the same with
  \<open>NextRemoteHop\<close>; the stack that begins with \<open>flow\<close> is rebuilt with the identifiers set.
\<close>

fun set_track_ids :: "(flow_stack \<Rightarrow> bool) \<Rightarrow> string \<Rightarrow> flow_stack \<Rightarrow> flow_stack" where
  "set_track_ids kind i (Socket_Hop t l) = Socket_Hop i l"
| "set_track_ids kind i (Layer_Hop k t l f) = Layer_Hop k i l (if kind f then set_track_ids kind i f else f)"
| "set_track_ids kind i (Speed_Hop t cs None) = Speed_Hop i cs None"
| "set_track_ids kind i (Speed_Hop t cs (Some f)) =
     Speed_Hop i cs (Some (if kind f then set_track_ids kind i f else f))"

text \<open>The constructor of a tunnel, and its answer to a rule, which builds the remote flow.\<close>

definition tunnel_tracks_local :: "(nat \<Rightarrow> 'g \<Rightarrow> nat \<times> 'g) \<Rightarrow> 'g \<Rightarrow> flow_stack \<Rightarrow> (string \<times> flow_stack) exec" where
  "tunnel_tracks_local draw fresh f =
     exec_bind (create_track_id draw fresh []) (\<lambda>i. Inr (i, set_track_ids is_local i f))"

definition tunnel_tracks_remote :: "string \<Rightarrow> flow_stack \<Rightarrow> flow_stack" where
  "tunnel_tracks_remote i f = set_track_ids is_remote i f"

section \<open>What holds of stacks\<close>

text \<open>The stacks the types of the constructors allow.\<close>

fun local_stack :: "flow_stack \<Rightarrow> bool" where
  "local_stack (Socket_Hop t l) = True"
| "local_stack (Layer_Hop k t l f) \<longleftrightarrow> is_local (Layer_Hop k t l f) \<and> local_stack f"
| "local_stack (Speed_Hop t cs w) = False"

fun remote_stack :: "flow_stack \<Rightarrow> bool" where
  "remote_stack (Socket_Hop t l) = True"
| "remote_stack (Layer_Hop k t l f) \<longleftrightarrow> is_remote (Layer_Hop k t l f) \<and> remote_stack f"
| "remote_stack (Speed_Hop t cs w) \<longleftrightarrow>
     (\<forall>f \<in> set cs. remote_stack f) \<and> (case w of None \<Rightarrow> True | Some f \<Rightarrow> remote_stack f)"

lemma local_stack_kind: "local_stack f \<Longrightarrow> is_local f"
  by (cases f) auto

lemma remote_stack_kind: "remote_stack f \<Longrightarrow> is_remote f"
  by (cases f) auto

text \<open>All flows from the top down.\<close>

fun hops :: "flow_stack \<Rightarrow> flow_stack list" where
  "hops (Socket_Hop t l) = [Socket_Hop t l]"
| "hops (Layer_Hop k t l f) = Layer_Hop k t l f # hops f"
| "hops (Speed_Hop t cs None) = [Speed_Hop t cs None]"
| "hops (Speed_Hop t cs (Some f)) = Speed_Hop t cs (Some f) # hops f"

text \<open>The walk down the pointers meets just these.\<close>

lemma hops_walk: "hops f = f # (case stack_next_hop f of None \<Rightarrow> [] | Some g \<Rightarrow> hops g)"
  by (cases f) (auto split: option.split)

lemma cast_succeeds:
  "local_stack f \<Longrightarrow> next_local_hop f = stack_next_hop f" "remote_stack f \<Longrightarrow> next_remote_hop f = stack_next_hop f"
  by (cases f; auto simp: next_local_hop_def next_remote_hop_def hop_as_def local_stack_kind remote_stack_kind
      split: option.splits)+

fun unnamed :: "flow_stack \<Rightarrow> flow_stack" where
  "unnamed (Socket_Hop t l) = Socket_Hop [] l"
| "unnamed (Layer_Hop k t l f) = Layer_Hop k [] l (unnamed f)"
| "unnamed (Speed_Hop t cs None) = Speed_Hop [] cs None"
| "unnamed (Speed_Hop t cs (Some f)) = Speed_Hop [] cs (Some (unnamed f))"

lemma unnamed_set: "unnamed (set_track_ids kind i f) = unnamed f"
  by (induction kind i f rule: set_track_ids.induct) auto

lemma hops_set_local: "local_stack f \<Longrightarrow> map hop_id (hops (set_track_ids is_local i f)) = replicate (length (hops f)) i"
  by (induction f rule: hops.induct) (auto simp: local_stack_kind)

lemma hops_set_remote: "remote_stack f \<Longrightarrow> map hop_id (hops (set_track_ids is_remote i f)) = replicate (length (hops f)) i"
  by (induction f rule: hops.induct) (auto simp: remote_stack_kind)

text \<open>
  Every flow of a tunnel's stacks gets the tunnel's identifier, nothing else of them changes, and
  the identifier is eight letters and digits.
\<close>

theorem tunnel_tracks_all_hops:
  assumes "\<And>m g. fst (draw m g) \<le> m" "local_stack f" "remote_stack g"
  shows "\<exists>i f'. tunnel_tracks_local draw fresh f = Inr (i, f') \<and> length i = 8 \<and>
    map hop_id (hops f') = replicate (length (hops f)) i \<and> unnamed f' = unnamed f \<and>
    map hop_id (hops (tunnel_tracks_remote i g)) = replicate (length (hops g)) i \<and>
    unnamed (tunnel_tracks_remote i g) = unnamed g"
proof -
  obtain i where "create_track_id draw fresh [] = Inr i" "length i = 8"
    using draw_chars_ok [of draw 8 fresh, OF assms(1)] by (auto simp: create_track_id_def track_id_generate_def)
  then show ?thesis
    using hops_set_local [OF assms(2)] hops_set_remote [OF assms(3)]
    by (simp add: tunnel_tracks_local_def tunnel_tracks_remote_def unnamed_set)
qed

text \<open>The candidates of a race are not reached: the flow that wins has no identifier.\<close>

lemma race_winner_untracked:
  "tunnel_tracks_remote i (Speed_Hop t cs None) = Speed_Hop i cs None"
  by (simp add: tunnel_tracks_remote_def)

text \<open>A server flow can be built over any local stack, and all flows of a stack share a run loop.\<close>

lemma local_stack_streams: "local_stack f \<Longrightarrow> flow_data_type f = Inr Stream"
  by (cases f) auto

theorem server_over_local:
  assumes "local_stack f" "k = Socks5_Server_Layer \<or> k = Http_Server_Layer"
  shows "server_over k l f = Inr (Layer_Hop k [] l f) \<and> local_stack (Layer_Hop k [] l f)"
  using assms by (auto simp: server_over_def local_stack_streams)

fun on_loop :: "nat \<Rightarrow> flow_stack \<Rightarrow> bool" where
  "on_loop n (Socket_Hop t l) \<longleftrightarrow> l = n"
| "on_loop n (Layer_Hop k t l f) \<longleftrightarrow> l = n \<and> on_loop n f"
| "on_loop n (Speed_Hop t cs w) \<longleftrightarrow> (\<forall>f \<in> set cs. on_loop n f) \<and>
     (case w of None \<Rightarrow> cs \<noteq> [] | Some f \<Rightarrow> on_loop n f)"

theorem runloops_agree: "on_loop n f \<Longrightarrow> flow_runloop f = Inr n"
  by (induction f rule: flow_runloop.induct) auto

section \<open>A race seen from outside\<close>

text \<open>The speed flow as a stack; \<open>flows\<close> gives the stacks of its candidates.\<close>

definition speed_stack :: "string \<Rightarrow> (nat \<Rightarrow> flow_stack) \<Rightarrow> speed_flow \<Rightarrow> flow_stack" where
  "speed_stack t flows s = Speed_Hop t (map (\<lambda>(f, d). flows f) (data_flows s)) (map_option flows (chosen_flow s))"

text \<open>Once a race is won its run loop is the winner's, but asking for its type reads past the end.\<close>

theorem race_winner_has_no_type:
  assumes "canceled c st = Inr False" "sp_on_connected st i c h (Inr ()) s = Inr (s', as)"
  shows "flow_data_type (speed_stack t flows s') = Inl Out_Of_Bounds \<and>
    (\<exists>f. stack_next_hop (speed_stack t flows s') = Some (flows f) \<and> fst (data_flows s ! i) = f \<and>
       flow_runloop (speed_stack t flows s') = flow_runloop (flows f))"
  using assms by (auto simp: sp_on_connected_def unless_canceled_def speed_stack_def Let_def exec_bind_Inr split: if_splits)

end
