(* ===== verification/Resolver_Pool.thy ===== *)
theory Resolver_Pool
  imports Endpoint Machine
begin

text \<open>
  \<open>utils::SystemResolver\<close> (src/utils/system_resolver.cc) as a whole: the queue of its own run
  loop, the threads that serve it, the replies posted to the caller's loop, and the destructor,
  which waits for the threads.  The threads run concurrently with the caller's loop; an event is
  one step of either, and a run is any interleaving of them.
\<close>

section \<open>The pool\<close>

text \<open>
  \<open>Stopping\<close>: the caller's thread is inside \<open>join_all\<close>, so only the pool's threads take steps;
  \<open>Gone\<close>: the resolver is destroyed, its flag outlives it in the tasks.
\<close>

datatype pool_phase = Serving | Stopping | Gone

record 'h pool =
  phase :: pool_phase
  threads :: nat
  lifetime :: cancelable
  pool_flags :: cancel_store
  queries :: "'h query_task list"
  busy :: "'h query_task list"
  replies :: "'h reply_task list"
  asked :: "'h query_task list"
  os_answers :: "(cancelable \<times> (boost_code + ip_address list)) list"
  called :: "'h reply_task list"

definition pool_new :: "nat \<Rightarrow> 'h pool" where
  "pool_new n =
     \<lparr>phase = Serving, threads = n, lifetime = Some 0, pool_flags = [False], queries = [], busy = [],
      replies = [], asked = [], os_answers = [], called = []\<rparr>"

datatype 'h pool_event =
    Ask string 'h | Take | Finish nat "boost_code + ip_address list" | Deliver
  | Cancel_Query cancelable | Begin_Stop | Joined

text \<open>\<open>Resolve\<close>; a thread that takes a query looks at the flags before it asks the system.\<close>

definition pool_ask :: "string \<Rightarrow> 'h \<Rightarrow> 'h pool \<Rightarrow> 'h pool exec" where
  "pool_ask d h p =
     (if phase p = Gone then Inl Dangling
      else let (q, c, st) = system_resolve (lifetime p) d h (pool_flags p)
           in Inr (p\<lparr>pool_flags := st, queries := queries p @ [q], asked := asked p @ [q]\<rparr>))"

definition pool_take :: "'h pool \<Rightarrow> 'h pool exec" where
  "pool_take p =
     (case queries p of
        [] \<Rightarrow> Inr p
      | q # qs \<Rightarrow>
          if length (busy p) < threads p
          then exec_bind (either_canceled (q_cancelable q) (q_lifetime q) (pool_flags p)) (\<lambda>stop.
               Inr (p\<lparr>queries := qs, busy := if stop then busy p else busy p @ [q]\<rparr>))
          else Inr p)"

text \<open>The system has answered a thread, which posts the reply.\<close>

definition pool_finish :: "nat \<Rightarrow> boost_code + ip_address list \<Rightarrow> 'h pool \<Rightarrow> 'h pool exec" where
  "pool_finish i a p =
     (if i < length (busy p)
      then exec_bind (query_reply a (busy p ! i)) (\<lambda>r.
           Inr (p\<lparr>busy := take i (busy p) @ drop (Suc i) (busy p), replies := replies p @ [r],
                  os_answers := os_answers p @ [(q_cancelable (busy p ! i), a)]\<rparr>))
      else Inr p)"

definition pool_deliver :: "'h pool \<Rightarrow> 'h pool exec" where
  "pool_deliver p =
     (case replies p of
        [] \<Rightarrow> Inr p
      | r # rs \<Rightarrow>
          exec_bind (run_reply (pool_flags p) r) (\<lambda>c.
          Inr (p\<lparr>replies := rs, called := (case c of None \<Rightarrow> called p | Some x \<Rightarrow> called p @ [r])\<rparr>)))"

text \<open>
  The destructor: \<open>Stop\<close> drops the work guard, so that the threads' loop ends once its queue is
  empty, and joins them; then the flag is set.
\<close>

definition pool_begin_stop :: "'h pool \<Rightarrow> 'h pool exec" where
  "pool_begin_stop p = Inr (if phase p = Serving then p\<lparr>phase := Stopping\<rparr> else p)"

definition threads_done :: "'h pool \<Rightarrow> bool" where
  "threads_done p \<longleftrightarrow> threads p = 0 \<or> queries p = [] \<and> busy p = []"

definition pool_joined :: "'h pool \<Rightarrow> 'h pool exec" where
  "pool_joined p =
     Inr (if phase p = Stopping \<and> threads_done p
          then p\<lparr>phase := Gone, pool_flags := cancel (lifetime p) (pool_flags p)\<rparr> else p)"

fun pool_step :: "'h pool \<Rightarrow> 'h pool_event \<Rightarrow> 'h pool exec" where
  "pool_step p (Ask d h) = pool_ask d h p"
| "pool_step p Take = pool_take p"
| "pool_step p (Finish i a) = pool_finish i a p"
| "pool_step p Deliver = pool_deliver p"
| "pool_step p (Cancel_Query c) = Inr (p\<lparr>pool_flags := cancel c (pool_flags p)\<rparr>)"
| "pool_step p Begin_Stop = pool_begin_stop p"
| "pool_step p Joined = pool_joined p"

text \<open>What can happen when: the caller's thread is blocked while it joins the others.\<close>

fun pool_admissible :: "'h pool \<Rightarrow> 'h pool_event \<Rightarrow> bool" where
  "pool_admissible p (Ask d h) \<longleftrightarrow> phase p = Serving"
| "pool_admissible p Deliver \<longleftrightarrow> phase p \<noteq> Stopping"
| "pool_admissible p (Cancel_Query c) \<longleftrightarrow> phase p \<noteq> Stopping \<and> c \<noteq> lifetime p"
| "pool_admissible p _ \<longleftrightarrow> True"

section \<open>The invariant\<close>

definition in_hand :: "'h pool \<Rightarrow> cancelable list" where
  "in_hand p = map q_cancelable (queries p) @ map q_cancelable (busy p) @
     map r_cancelable (replies p) @ map r_cancelable (called p)"

definition fresh_token :: "'h pool \<Rightarrow> cancelable \<Rightarrow> bool" where
  "fresh_token p c \<longleftrightarrow> (\<exists>i. c = Some i \<and> 0 < i \<and> i < length (pool_flags p))"

definition answers :: "'h pool \<Rightarrow> 'h reply_task \<Rightarrow> bool" where
  "answers p r \<longleftrightarrow>
     (\<exists>q \<in> set (asked p). \<exists>a. (q_cancelable q, a) \<in> set (os_answers p) \<and> query_reply a q = Inr r)"

definition pool_ok :: "'h pool \<Rightarrow> bool" where
  "pool_ok p \<longleftrightarrow>
     lifetime p = Some 0 \<and> pool_flags p \<noteq> [] \<and> (pool_flags p ! 0 \<longleftrightarrow> phase p = Gone) \<and>
     distinct (in_hand p) \<and> (\<forall>c \<in> set (in_hand p). fresh_token p c) \<and>
     (\<forall>q \<in> set (queries p) \<union> set (busy p). q \<in> set (asked p) \<and> q_lifetime q = Some 0) \<and>
     (\<forall>r \<in> set (replies p) \<union> set (called p). answers p r \<and> r_lifetime r = Some 0) \<and>
     length (busy p) \<le> threads p \<and> (phase p = Gone \<longrightarrow> threads_done p)"

lemma query_reply_total:
  "\<exists>r. query_reply a q = Inr r \<and> r_cancelable r = q_cancelable q \<and> r_lifetime r = q_lifetime q \<and>
     r_handler r = q_handler q"
  by (cases a) (simp_all add: query_reply_def)

lemma pool_new_ok: "pool_ok (pool_new n)"
  by (simp add: pool_ok_def pool_new_def in_hand_def)

lemma either_run:
  assumes "handle_ok a st" "handle_ok b st"
  shows "\<exists>x. either_canceled a b st = Inr x"
  using either_canceled_total [OF assms] by (auto simp: either_canceled_def)

lemma ask_ok:
  assumes "pool_ok p" "phase p = Serving"
  shows "\<exists>p'. pool_ask d h p = Inr p' \<and> pool_ok p'"
proof -
  let ?n = "length (pool_flags p)"
  let ?q = "\<lparr>q_domain = d, q_handler = h, q_cancelable = Some ?n, q_lifetime = lifetime p\<rparr>"
  let ?p = "p\<lparr>pool_flags := pool_flags p @ [False], queries := queries p @ [?q], asked := asked p @ [?q]\<rparr>"
  have n: "0 < ?n" "Some ?n \<notin> set (in_hand p)" using assms(1) by (auto simp: pool_ok_def fresh_token_def)
  then have "distinct (in_hand ?p)" "set (in_hand ?p) = insert (Some ?n) (set (in_hand p))"
    using assms(1) by (auto simp: pool_ok_def in_hand_def)
  moreover have "fresh_token p c \<Longrightarrow> fresh_token ?p c" for c by (auto simp: fresh_token_def)
  moreover have "fresh_token ?p (Some ?n)" using n(1) by (simp add: fresh_token_def)
  moreover have "answers p r \<Longrightarrow> answers ?p r" for r by (auto simp: answers_def)
  moreover have "(pool_flags p @ [False]) ! 0 = pool_flags p ! 0" using n(1) by (simp add: nth_append)
  ultimately have "pool_ok ?p" using assms by (auto simp: pool_ok_def threads_done_def)
  then show ?thesis using assms(2) by (simp add: pool_ask_def system_resolve_def cancelable_new_def)
qed

lemma take_ok:
  assumes "pool_ok p"
  shows "\<exists>p'. pool_take p = Inr p' \<and> pool_ok p'"
proof (cases "queries p")
  case (Cons q qs)
  have "fresh_token p (q_cancelable q)" "q_lifetime q = Some 0" "pool_flags p \<noteq> []"
    using assms Cons by (auto simp: pool_ok_def in_hand_def)
  then have "handle_ok (q_cancelable q) (pool_flags p)" "handle_ok (q_lifetime q) (pool_flags p)"
    by (auto simp: handle_ok_def fresh_token_def)
  from either_run [OF this] obtain x where
    "either_canceled (q_cancelable q) (q_lifetime q) (pool_flags p) = Inr x" by blast
  then show ?thesis
    using assms Cons
    by (cases x) (auto simp: pool_take_def pool_ok_def in_hand_def fresh_token_def answers_def threads_done_def)
qed (use assms in \<open>simp add: pool_take_def\<close>)

lemma finish_ok:
  assumes "pool_ok p"
  shows "\<exists>p'. pool_finish i a p = Inr p' \<and> pool_ok p'"
proof (cases "i < length (busy p)")
  case True
  let ?q = "busy p ! i"
  obtain r where r: "query_reply a ?q = Inr r" "r_cancelable r = q_cancelable ?q" "r_lifetime r = q_lifetime ?q"
    using query_reply_total by blast
  obtain xs ys where b: "busy p = xs @ ?q # ys" "xs = take i (busy p)" "ys = drop (Suc i) (busy p)"
    by (rule that [OF id_take_nth_drop [OF True] refl refl])
  let ?p = "p\<lparr>busy := xs @ ys, replies := replies p @ [r], os_answers := os_answers p @ [(q_cancelable ?q, a)]\<rparr>"
  have q: "?q \<in> set (asked p)" "q_lifetime ?q = Some 0" using assms True by (auto simp: pool_ok_def)
  have "pool_finish i a p = Inr ?p" using True r(1) b(2,3) by (simp add: pool_finish_def)
  moreover have "answers ?p r" using r(1) q(1) by (auto simp: answers_def)
  moreover have "answers p x \<Longrightarrow> answers ?p x" for x by (auto simp: answers_def)
  moreover have "distinct (in_hand p)" using assms by (simp add: pool_ok_def)
  then have "distinct (in_hand ?p)" "set (in_hand ?p) = set (in_hand p)"
    using arg_cong [OF b(1), of "map q_cancelable"] by (auto simp: in_hand_def r(2))
  moreover have "set (xs @ ys) \<subseteq> set (busy p)" "length (xs @ ys) \<le> length (busy p)"
    using arg_cong [OF b(1), of set] arg_cong [OF b(1), of length] by auto
  moreover have "phase p \<noteq> Gone" using assms True by (auto simp: pool_ok_def threads_done_def)
  moreover have "fresh_token p c \<Longrightarrow> fresh_token ?p c" for c by (simp add: fresh_token_def)
  ultimately show ?thesis
    using assms r(3) q(2) unfolding pool_ok_def by (simp add: subset_iff) blast
qed (use assms in \<open>simp add: pool_finish_def\<close>)

lemma pool_deliver_ok:
  assumes "pool_ok p"
  shows "\<exists>p'. pool_deliver p = Inr p' \<and> pool_ok p'"
proof (cases "replies p")
  case (Cons r rs)
  have "fresh_token p (r_cancelable r)" "r_lifetime r = Some 0" "pool_flags p \<noteq> []"
    using assms Cons by (auto simp: pool_ok_def in_hand_def)
  then have "handle_ok (r_cancelable r) (pool_flags p)" "handle_ok (r_lifetime r) (pool_flags p)"
    by (auto simp: handle_ok_def fresh_token_def)
  from either_run [OF this] obtain x where
    "either_canceled (r_cancelable r) (r_lifetime r) (pool_flags p) = Inr x" by blast
  then show ?thesis
    using assms Cons
    by (cases x) (auto simp: pool_deliver_def run_reply_def pool_ok_def in_hand_def fresh_token_def answers_def
        threads_done_def)
qed (use assms in \<open>simp add: pool_deliver_def\<close>)

lemma length_cancel [simp]: "length (cancel c st) = length st"
  by (simp add: cancel_def split: option.split)

lemma cancel_other: "c \<noteq> Some i \<Longrightarrow> cancel c st ! i = st ! i"
  by (auto simp: cancel_def split: option.split)

lemma cancel_query_ok:
  assumes "pool_ok p" "c \<noteq> lifetime p"
  shows "pool_ok (p\<lparr>pool_flags := cancel c (pool_flags p)\<rparr>)"
proof -
  have "cancel c (pool_flags p) \<noteq> []" using assms(1) by (auto simp: pool_ok_def cancel_def split: option.split)
  then show ?thesis
    using assms by (auto simp: pool_ok_def in_hand_def fresh_token_def answers_def threads_done_def cancel_other)
qed

lemma joined_ok: "pool_ok p \<Longrightarrow> \<exists>p'. pool_joined p = Inr p' \<and> pool_ok p'"
  by (auto simp: pool_joined_def pool_ok_def in_hand_def fresh_token_def answers_def threads_done_def cancel_def)

lemma pool_step_ok:
  assumes "pool_ok p" "pool_admissible p e"
  shows "\<exists>p'. pool_step p e = Inr p' \<and> pool_ok p'"
proof (cases e)
  case Begin_Stop
  then show ?thesis
    using assms(1) by (auto simp: pool_begin_stop_def pool_ok_def in_hand_def fresh_token_def answers_def)
qed (use assms ask_ok take_ok finish_ok pool_deliver_ok cancel_query_ok joined_ok in auto)

interpretation pool: contract_machine pool_step pool_ok pool_admissible
  by unfold_locales (rule pool_step_ok)

lemma pool_run_ok:
  assumes "admissible_run pool_step pool_admissible (pool_new n) es" "run pool_step (pool_new n) es = Inr p"
  shows "pool_ok p"
  using pool.contract_run [OF pool_new_ok assms(1)] assms(2) by auto

lemma query_reply_is:
  "query_reply a q = Inr r \<Longrightarrow> r_cancelable r = q_cancelable q \<and> r_handler r = q_handler q \<and>
     r_answer r = (case a of Inl ec \<Rightarrow> Inl (boost_error ec) | Inr as \<Rightarrow> Inr as)"
  by (cases a) (auto simp: query_reply_def)

lemma pool_step_threads: "pool_step p e = Inr p' \<Longrightarrow> threads p' = threads p"
  by (cases e) (auto simp: pool_ask_def system_resolve_def cancelable_new_def pool_take_def pool_finish_def
      pool_deliver_def pool_begin_stop_def pool_joined_def exec_bind_Inr split: list.splits if_splits)

lemma pool_run_threads: "run pool_step p es = Inr p' \<Longrightarrow> threads p' = threads p"
  by (induction es arbitrary: p) (auto simp: exec_bind_Inr dest: pool_step_threads)

section \<open>Cancellation\<close>

text \<open>The flags a reply is held back by: its query's, or the resolver's.\<close>

definition silenced :: "'h pool \<Rightarrow> cancelable \<Rightarrow> bool" where
  "silenced p c \<longleftrightarrow> phase p = Gone \<or> canceled c (pool_flags p) = Inr True"

definition calls_for :: "cancelable \<Rightarrow> 'h pool \<Rightarrow> 'h reply_task list" where
  "calls_for c p = List.filter (\<lambda>r. r_cancelable r = c) (called p)"

lemma flags_become:
  "pool_step p e = Inr p' \<Longrightarrow> pool_flags p' = pool_flags p \<or> pool_flags p' = pool_flags p @ [False] \<or>
     (\<exists>c. pool_flags p' = cancel c (pool_flags p))"
  by (cases e)
    (auto simp: pool_ask_def system_resolve_def cancelable_new_def pool_take_def pool_finish_def pool_deliver_def
      pool_begin_stop_def pool_joined_def exec_bind_Inr split: list.splits if_splits)

lemma flags_grow: "pool_step p e = Inr p' \<Longrightarrow> store_le (pool_flags p) (pool_flags p')"
  using flags_become [of p e p'] by (auto simp: cancel_le) (simp add: store_le_def nth_append)

lemma phase_stays: "pool_step p e = Inr p' \<Longrightarrow> phase p = Gone \<Longrightarrow> phase p' = Gone"
  by (cases e)
    (auto simp: pool_ask_def pool_take_def pool_finish_def pool_deliver_def
      pool_begin_stop_def pool_joined_def exec_bind_Inr split: list.splits if_splits)

lemma only_deliver_calls: "pool_step p e = Inr p' \<Longrightarrow> e \<noteq> Deliver \<Longrightarrow> called p' = called p"
  by (cases e)
    (auto simp: pool_ask_def system_resolve_def cancelable_new_def pool_take_def pool_finish_def
      pool_begin_stop_def pool_joined_def exec_bind_Inr split: list.splits if_splits)

lemma silenced_step:
  assumes "pool_ok p" "silenced p c" "pool_step p e = Inr p'"
  shows "calls_for c p' = calls_for c p \<and> silenced p' c"
proof
  show "silenced p' c"
    using assms(2) phase_stays [OF assms(3)] canceled_mono [OF flags_grow [OF assms(3)], of c]
    by (auto simp: silenced_def)
  show "calls_for c p' = calls_for c p"
  proof (cases "e = Deliver")
    case False
    then show ?thesis using only_deliver_calls [OF assms(3)] by (simp add: calls_for_def)
  next
    case True
    show ?thesis
    proof (cases "replies p")
      case (Cons r rs)
      have r: "fresh_token p (r_cancelable r)" "r_lifetime r = Some 0" "pool_flags p \<noteq> []"
        "phase p = Gone \<Longrightarrow> pool_flags p ! 0"
        using assms(1) Cons by (auto simp: pool_ok_def in_hand_def)
      then have "handle_ok (r_cancelable r) (pool_flags p)" by (auto simp: handle_ok_def fresh_token_def)
      moreover have "canceled (r_lifetime r) (pool_flags p) = Inr True" if "phase p = Gone"
        using r(2,3) r(4) [OF that] by (simp add: canceled_def)
      ultimately have "either_canceled (r_cancelable r) (r_lifetime r) (pool_flags p) = Inr True" if "r_cancelable r = c"
        using assms(2) that by (auto simp: silenced_def intro: either_canceled_True)
      moreover obtain x where "run_reply (pool_flags p) r = Inr x"
        "called p' = (case x of None \<Rightarrow> called p | Some y \<Rightarrow> called p @ [r])"
        using assms(3) True Cons by (auto simp: pool_deliver_def exec_bind_Inr)
      ultimately show ?thesis by (cases "r_cancelable r = c"; cases x) (auto simp: run_reply_def calls_for_def)
    qed (use assms(3) True in \<open>simp add: pool_deliver_def\<close>)
  qed
qed

lemma silenced_run:
  "pool_ok p \<Longrightarrow> silenced p c \<Longrightarrow> admissible_run pool_step pool_admissible p es \<Longrightarrow> run pool_step p es = Inr p' \<Longrightarrow>
   calls_for c p' = calls_for c p"
proof (induction es arbitrary: p)
  case (Cons e es)
  then obtain q where q: "pool_step p e = Inr q" "run pool_step q es = Inr p'" by (auto simp: exec_bind_Inr)
  moreover have "pool_ok q" using pool_step_ok [OF Cons.prems(1), of e] Cons.prems(3) q(1) by auto
  ultimately show ?case
    using Cons.IH [of q] silenced_step [OF Cons.prems(1,2) q(1)] Cons.prems(3) by auto
qed simp

section \<open>Stopping\<close>

text \<open>The steps of the pool's threads that do something, and what is left for them to do.\<close>

fun thread_step :: "'h pool \<Rightarrow> 'h pool_event \<Rightarrow> bool" where
  "thread_step p Take \<longleftrightarrow> queries p \<noteq> [] \<and> length (busy p) < threads p"
| "thread_step p (Finish i a) \<longleftrightarrow> i < length (busy p)"
| "thread_step p _ \<longleftrightarrow> False"

definition backlog :: "'h pool \<Rightarrow> nat" where
  "backlog p = 2 * length (queries p) + length (busy p)"

lemma thread_step_progress:
  assumes "thread_step p e" "pool_step p e = Inr p'"
  shows "backlog p' < backlog p \<and> threads p' = threads p \<and> phase p' = phase p"
  using assms
  by (cases e) (auto simp: pool_take_def pool_finish_def backlog_def exec_bind_Inr split: list.splits if_splits)

lemma thread_step_enabled: "0 < threads p \<Longrightarrow> threads_done p \<or> (\<exists>e. thread_step p e)"
  by (cases "busy p = []")
    (auto simp: threads_done_def intro: exI [of _ Take] exI [of _ "Finish 0 (Inr [])"])

lemma thread_steps_ok:
  "pool_ok p \<Longrightarrow> admissible_run pool_step thread_step p ws \<Longrightarrow>
   \<exists>q. run pool_step p ws = Inr q \<and> pool_ok q \<and> threads q = threads p \<and> phase q = phase p \<and>
     backlog q + length ws \<le> backlog p"
proof (induction ws arbitrary: p)
  case (Cons e ws)
  have t: "thread_step p e" using Cons.prems(2) by simp
  then have "pool_admissible p e" by (cases e) simp_all
  then obtain q where q: "pool_step p e = Inr q" "pool_ok q" using pool_step_ok [OF Cons.prems(1)] by blast
  obtain r where r: "run pool_step q ws = Inr r" "pool_ok r" "threads r = threads q" "phase r = phase q"
    "backlog r + length ws \<le> backlog q"
    using Cons.IH [OF q(2)] Cons.prems(2) q(1) by auto
  then show ?case using thread_step_progress [OF t q(1)] q(1) by auto
qed simp

section \<open>Properties\<close>

lemmas pool_evaluate =
  pool_new_def pool_ask_def system_resolve_def cancelable_new_def pool_take_def pool_finish_def query_reply_def
  pool_deliver_def run_reply_def pool_begin_stop_def pool_joined_def either_canceled_def canceled_def cancel_def

text \<open>
  C16. Whatever the interleaving of the caller's loop with the resolver's threads - queries posted,
  taken, answered by the system in any order and delayed at will, tokens canceled, the resolver
  stopped and destroyed with work outstanding - no flag is used after it is gone, every handler
  is called at most once, only for a query that was asked, and with the operating system's
  answer to that very query.
\<close>

theorem resolver_calls_once:
  assumes "admissible_run pool_step pool_admissible (pool_new n) es"
  shows "\<exists>p. run pool_step (pool_new n) es = Inr p \<and> distinct (map r_cancelable (called p)) \<and>
     length (busy p) \<le> n \<and>
     (\<forall>r \<in> set (called p). \<exists>q \<in> set (asked p). \<exists>a.
        r_cancelable r = q_cancelable q \<and> r_handler r = q_handler q \<and>
        (q_cancelable q, a) \<in> set (os_answers p) \<and>
        r_answer r = (case a of Inl ec \<Rightarrow> Inl (boost_error ec) | Inr as \<Rightarrow> Inr as))"
proof -
  obtain p where p: "run pool_step (pool_new n) es = Inr p" "pool_ok p"
    using pool.contract_run [OF pool_new_ok assms] by blast
  have "length (busy p) \<le> n" using p(2) pool_run_threads [OF p(1)] by (simp add: pool_ok_def pool_new_def)
  moreover have "distinct (map r_cancelable (called p))" using p(2) by (simp add: pool_ok_def in_hand_def)
  moreover have "\<exists>q \<in> set (asked p). \<exists>a. r_cancelable r = q_cancelable q \<and> r_handler r = q_handler q \<and>
        (q_cancelable q, a) \<in> set (os_answers p) \<and>
        r_answer r = (case a of Inl ec \<Rightarrow> Inl (boost_error ec) | Inr as \<Rightarrow> Inr as)"
    if "r \<in> set (called p)" for r
  proof -
    have "answers p r" using p(2) that by (simp add: pool_ok_def)
    then show ?thesis unfolding answers_def using query_reply_is by blast
  qed
  ultimately show ?thesis using p(1) by blast
qed

theorem resolver_calls_once_witness:
  "\<exists>p. run pool_step (pool_new 1)
       [Ask ''a'' (7 :: nat), Ask ''b'' 8, Take, Finish 0 (Inr [V4 1]), Deliver, Take] = Inr p \<and>
     distinct (map r_cancelable (called p)) \<and> length (busy p) \<le> 1"
  using resolver_calls_once [of 1 "[Ask ''a'' (7 :: nat), Ask ''b'' 8, Take, Finish 0 (Inr [V4 1]), Deliver, Take]"]
  by (force simp: pool_evaluate)

text \<open>
  Canceling holds: once a query's token is canceled, or the resolver is destroyed, no further
  step of any thread calls the query's handler, even with its answer already on the way.
\<close>

theorem resolver_cancel_holds:
  assumes "admissible_run pool_step pool_admissible (pool_new n) (es @ fs)"
    and "run pool_step (pool_new n) es = Inr p" "run pool_step p fs = Inr p'"
    and "phase p = Gone \<or> canceled c (pool_flags p) = Inr True"
  shows "calls_for c p' = calls_for c p"
  using silenced_run [OF pool_run_ok _ _ assms(3), of n es c] admissible_split [OF assms(1,2)] assms(2,4)
  by (simp add: silenced_def)

theorem resolver_cancel_holds_witness:
  "\<exists>p p'. run pool_step (pool_new 1)
       [Ask ''a'' (7 :: nat), Take, Finish 0 (Inr [V4 1]), Cancel_Query (Some 1)] = Inr p \<and>
     run pool_step p [Deliver] = Inr p' \<and> calls_for (Some 1) p' = calls_for (Some 1) p"
proof -
  let ?es = "[Ask ''a'' (7 :: nat), Take, Finish 0 (Inr [V4 1]), Cancel_Query (Some 1)]"
  obtain p p' where p: "run pool_step (pool_new 1) ?es = Inr p" "run pool_step p [Deliver] = Inr p'"
    "canceled (Some 1) (pool_flags p) = Inr True"
    by (force simp: pool_evaluate)
  have "admissible_run pool_step pool_admissible (pool_new 1) (?es @ [Deliver])" by (simp add: pool_evaluate)
  from resolver_cancel_holds [OF this p(1,2)] p show ?thesis by blast
qed

text \<open>
  C17. The destructor returns.  While it waits for the threads, every step one of them takes brings
  the work down, a thread that can take a step exists until all queries are done, and then the
  join returns: \<open>Stop\<close> needs at most two steps for each query still queued and one for each that
  is with the system, and it loses none of them.
\<close>

theorem resolver_stop_returns:
  assumes "admissible_run pool_step pool_admissible (pool_new n) es"
    and "run pool_step (pool_new n) es = Inr p" "phase p = Stopping" "0 < threads p"
    and "admissible_run pool_step thread_step p ws"
  shows "length ws \<le> backlog p \<and> (\<exists>q. run pool_step p ws = Inr q \<and>
     (if threads_done q then \<exists>g. pool_step q Joined = Inr g \<and> phase g = Gone else \<exists>e. thread_step q e))"
proof -
  obtain q where q: "run pool_step p ws = Inr q" "threads q = threads p" "phase q = phase p"
    "backlog q + length ws \<le> backlog p"
    using thread_steps_ok [OF pool_run_ok [OF assms(1,2)] assms(5)] by blast
  then show ?thesis
    using thread_step_enabled [of q] assms(3,4) by (auto simp: pool_joined_def)
qed

theorem resolver_stop_returns_witness:
  "\<exists>p. run pool_step (pool_new 1) [Ask ''a'' (7 :: nat), Ask ''b'' 8, Take, Begin_Stop] = Inr p \<and>
     3 \<le> backlog p \<and> (\<exists>q. run pool_step p [Finish 0 (Inr []), Take, Finish 0 (Inr [])] = Inr q \<and>
     (if threads_done q then \<exists>g. pool_step q Joined = Inr g \<and> phase g = Gone else \<exists>e. thread_step q e))"
proof -
  let ?es = "[Ask ''a'' (7 :: nat), Ask ''b'' 8, Take, Begin_Stop]"
  let ?ws = "[Finish 0 (Inr []), Take, Finish 0 (Inr [])]"
  obtain p where p: "run pool_step (pool_new 1) ?es = Inr p" "phase p = Stopping" "0 < threads p"
    "admissible_run pool_step thread_step p ?ws"
    by (force simp: pool_evaluate)
  have "admissible_run pool_step pool_admissible (pool_new 1) ?es" by (simp add: pool_evaluate)
  from resolver_stop_returns [OF this p] p(1) show ?thesis by auto
qed

end
