(* ===== verification/Resolved_Matches.thy ===== *)
theory Resolved_Matches
  imports Rule_Manager Resolver_Pool "HOL-Library.Multiset"
begin

text \<open>
  Rule matching over the resolver: \<open>RuleManager\<close> (src/rule/rule_manager.cc) asks the endpoint of
  a session to resolve, \<open>Endpoint::Resolve\<close> (src/utils/endpoint.cc) asks the
  \<open>SystemResolver\<close>, and its reply comes back through both.  Any number of matches share one
  manager and one pool of threads; all flags are in the pool's store.  The rules do not change
  while matches run.  A session ends with the last closure that holds it, after its reply has been
  taken, so the flag its endpoint then cancels is nobody's any more.
\<close>

section \<open>The matches and the pool\<close>

text \<open>
  A match waits for its posted task, or for its endpoint with the rules that are left, or has
  called its handler, or was dropped.  \<open>m_first\<close> is the endpoint it was started with.
\<close>

datatype ('r, 'f) stage =
    Posted | Resolving "('r, 'f) rule list" "unit resolve_closure" | Told "('r, 'f) rule result" | Left_Off

fun posted :: "('r, 'f) stage \<Rightarrow> bool" where
  "posted Posted = True"
| "posted _ = False"

lemma posted_iff [simp]: "posted s \<longleftrightarrow> s = Posted" by (cases s) simp_all

record ('r, 'f) matching =
  m_token :: cancelable
  m_session :: session
  m_stage :: "('r, 'f) stage"
  m_first :: endpoint

record ('r, 'f) match_world =
  resolver_pool :: "nat pool"
  matchings :: "('r, 'f) matching list"
  told :: "(nat \<times> ('r, 'f) rule result) list"

text \<open>The flags of the resolver and of the manager come first.\<close>

definition match_world_new :: "nat \<Rightarrow> ('r, 'f) match_world" where
  "match_world_new n =
     \<lparr>resolver_pool = (pool_new n)\<lparr>pool_flags := [False, False]\<rparr>, matchings = [], told = []\<rparr>"

text \<open>A session for a host, and \<open>Match\<close> on it.\<close>

definition begin_match ::
  "(string \<Rightarrow> ip_address option) \<Rightarrow> string \<Rightarrow> u16 \<Rightarrow> ('r, 'f) match_world \<Rightarrow> ('r, 'f) match_world exec" where
  "begin_match parse d port_no w =
     (let p = resolver_pool w;
          (ep, st) = endpoint_from_host parse d port_no (pool_flags p);
          ep = ep\<lparr>resolver := Some 0\<rparr>;
          (c, st) = manager_match st
      in Inr (w\<lparr>resolver_pool := p\<lparr>pool_flags := st\<rparr>,
                matchings := matchings w @
                  [\<lparr>m_token = c, m_session = session_new 0 (Some ep), m_stage = Posted, m_first = ep\<rparr>]\<rparr>))"

text \<open>How a walk over the rules ends; when it waits, the endpoint has asked the resolver.\<close>

definition settle ::
  "nat \<Rightarrow> ('r, 'f) match_world \<Rightarrow> ('r, 'f) walk \<times> session \<Rightarrow> ('r, 'f) match_world exec" where
  "settle i w ws =
     (let x = (matchings w ! i)\<lparr>m_session := snd ws\<rparr>
      in case fst ws of
           Done r \<Rightarrow> Inr (w\<lparr>matchings := (matchings w)[i := x\<lparr>m_stage := Told r\<rparr>], told := told w @ [(i, r)]\<rparr>)
         | Dropped \<Rightarrow> Inr (w\<lparr>matchings := (matchings w)[i := x\<lparr>m_stage := Left_Off\<rparr>]\<rparr>)
         | Waiting rs t cl \<Rightarrow>
             (case session_endpoint (snd ws) of
                None \<Rightarrow> Inl Null_Deref
              | Some ep \<Rightarrow>
                  exec_bind (pool_ask (host ep) i (resolver_pool w)) (\<lambda>p.
                  Inr (w\<lparr>resolver_pool := p,
                         matchings := (matchings w)[i := x\<lparr>m_stage := Resolving rs cl\<rparr>]\<rparr>))))"

definition run_match_task ::
  "'r rule_env \<Rightarrow> ('r, 'f) rule_manager \<Rightarrow> nat \<Rightarrow> ('r, 'f) match_world \<Rightarrow> ('r, 'f) match_world exec" where
  "run_match_task env m i w =
     (if i < length (matchings w) \<and> posted (m_stage (matchings w ! i))
      then let st = pool_flags (resolver_pool w); x = matchings w ! i
           in exec_bind (match_task env (Some (length st)) st (m_token x) m (m_session x)) (settle i w)
      else Inr w)"

text \<open>The reply of the resolver runs the endpoint's closure and the manager's callback.\<close>

definition run_resolved ::
  "'r rule_env \<Rightarrow> ('r, 'f) rule_manager \<Rightarrow> nat \<Rightarrow> ip_address list result \<Rightarrow> ('r, 'f) match_world \<Rightarrow>
   ('r, 'f) match_world exec" where
  "run_resolved env m i answer w =
     (let st = pool_flags (resolver_pool w); x = matchings w ! i; s = m_session x
      in case (m_stage x, session_endpoint s) of
           (Resolving rs cl, Some ep) \<Rightarrow>
             exec_bind (endpoint_resolved st cl answer ep) (\<lambda>(ep', call).
             case call of
               None \<Rightarrow> Inr w
             | Some u \<Rightarrow>
                 exec_bind (resolve_callback env (Some (length st)) st (m_token x) m rs
                   (s\<lparr>session_endpoint := Some ep'\<rparr>)) (settle i w))
         | _ \<Rightarrow> Inl Null_Deref)"

definition deliver_reply ::
  "'r rule_env \<Rightarrow> ('r, 'f) rule_manager \<Rightarrow> ('r, 'f) match_world \<Rightarrow> ('r, 'f) match_world exec" where
  "deliver_reply env m w =
     (let p = resolver_pool w
      in case replies p of
           [] \<Rightarrow> Inr w
         | r # rs \<Rightarrow>
             exec_bind (run_reply (pool_flags p) r) (\<lambda>c.
             exec_bind (pool_deliver p) (\<lambda>p'.
             case c of
               None \<Rightarrow> Inr (w\<lparr>resolver_pool := p'\<rparr>)
             | Some (i, a) \<Rightarrow> run_resolved env m i a (w\<lparr>resolver_pool := p'\<rparr>))))"

datatype match_event =
    Match_Begins string u16 | Task_Runs nat | Thread_Takes
  | System_Answers nat "boost_code + ip_address list" | Reply_Arrives | Caller_Cancels nat
  | Manager_Destroyed

fun match_step ::
  "(string \<Rightarrow> ip_address option) \<Rightarrow> 'r rule_env \<Rightarrow> ('r, 'f) rule_manager \<Rightarrow> ('r, 'f) match_world \<Rightarrow> match_event \<Rightarrow>
   ('r, 'f) match_world exec" where
  "match_step parse env m w (Match_Begins d n) = begin_match parse d n w"
| "match_step parse env m w (Task_Runs i) = run_match_task env m i w"
| "match_step parse env m w Thread_Takes =
     exec_bind (pool_take (resolver_pool w)) (\<lambda>p. Inr (w\<lparr>resolver_pool := p\<rparr>))"
| "match_step parse env m w (System_Answers i a) =
     exec_bind (pool_finish i a (resolver_pool w)) (\<lambda>p. Inr (w\<lparr>resolver_pool := p\<rparr>))"
| "match_step parse env m w Reply_Arrives = deliver_reply env m w"
| "match_step parse env m w (Caller_Cancels i) =
     (if i < length (matchings w)
      then Inr (w\<lparr>resolver_pool := (resolver_pool w)\<lparr>pool_flags :=
             cancel (m_token (matchings w ! i)) (pool_flags (resolver_pool w))\<rparr>\<rparr>)
      else Inr w)"
| "match_step parse env m w Manager_Destroyed =
     Inr (w\<lparr>resolver_pool := (resolver_pool w)\<lparr>pool_flags :=
         rule_manager_destroy m (pool_flags (resolver_pool w))\<rparr>\<rparr>)"

text \<open>The manager is not called once it is gone; a look-up that succeeds finds some address.\<close>

fun match_admissible :: "('r, 'f) rule_manager \<Rightarrow> ('r, 'f) match_world \<Rightarrow> match_event \<Rightarrow> bool" where
  "match_admissible m w (Match_Begins d n) \<longleftrightarrow>
     canceled (manager_lifetime m) (pool_flags (resolver_pool w)) = Inr False"
| "match_admissible m w (System_Answers i a) \<longleftrightarrow> a \<noteq> Inr []"
| "match_admissible m w _ \<longleftrightarrow> True"

section \<open>The invariant\<close>

definition handlers_in_hand :: "'h pool \<Rightarrow> 'h list" where
  "handlers_in_hand p = map q_handler (queries p) @ map q_handler (busy p) @ map r_handler (replies p)"

fun resolving_stage :: "('r, 'f) stage \<Rightarrow> bool" where
  "resolving_stage (Resolving rs cl) = True"
| "resolving_stage _ = False"

fun system_answer :: "boost_code + ip_address list \<Rightarrow> ip_address list result" where
  "system_answer (Inl ec) = Inl (boost_error ec)"
| "system_answer (Inr as) = Inr as"

text \<open>
  A result is right when it is the first rule for the address the system gave for this match's
  host, or the first rule whatever the address.
\<close>

definition right_result ::
  "'r rule_env \<Rightarrow> (ip_address \<Rightarrow> country_iso_code) \<Rightarrow> ('r, 'f) rule_manager \<Rightarrow> nat pool \<Rightarrow> endpoint \<Rightarrow> nat \<Rightarrow>
   ('r, 'f) rule result \<Rightarrow> bool" where
  "right_result env geo m p ep i r \<longleftrightarrow>
     (\<forall>answer. r = first_rule env geo ep (final_address ep answer) (rules m)) \<or>
     (\<exists>q \<in> set (asked p). \<exists>a. q_handler q = i \<and> q_domain q = host ep \<and> (q_cancelable q, a) \<in> set (os_answers p) \<and>
        r = first_rule env geo ep (final_address ep (system_answer a)) (rules m))"

definition given_up :: "('r, 'f) rule_manager \<Rightarrow> nat pool \<Rightarrow> cancelable \<Rightarrow> bool" where
  "given_up m p c \<longleftrightarrow> canceled c (pool_flags p) = Inr True \<or> canceled (manager_lifetime m) (pool_flags p) = Inr True"

fun stage_ok ::
  "'r rule_env \<Rightarrow> (ip_address \<Rightarrow> country_iso_code) \<Rightarrow> ('r, 'f) rule_manager \<Rightarrow> nat pool \<Rightarrow> nat \<Rightarrow>
   ('r, 'f) matching \<Rightarrow> ('r, 'f) stage \<Rightarrow> bool" where
  "stage_ok env geo m p i x Posted \<longleftrightarrow>
     session_ok geo (m_session x) (m_first x) \<and> resolver (m_first x) \<noteq> None \<and> \<not> resolving (m_first x)"
| "stage_ok env geo m p i x (Resolving ys cl) \<longleftrightarrow>
     (\<exists>tok. session_endpoint (m_session x) = Some ((m_first x)\<lparr>resolving := True, resolve_cancelable := tok\<rparr>)) \<and>
     int_cache (m_session x) country_cache_key = None \<and> undecided (m_first x) \<and>
     cl = \<lparr>on_resolved = (), captured = resolve_cancelable (m_first x)\<rparr> \<and>
     (\<forall>a. first_rule env geo (m_first x) a (rules m) = first_rule env geo (m_first x) a ys)"
| "stage_ok env geo m p i x (Told r) \<longleftrightarrow> right_result env geo m p (m_first x) i r"
| "stage_ok env geo m p i x Left_Off \<longleftrightarrow> given_up m p (m_token x)"

text \<open>The flags that nobody cancels: of queries, and of endpoints.\<close>

definition quiet :: "('r, 'f) match_world \<Rightarrow> cancelable set" where
  "quiet w = set (in_hand (resolver_pool w)) \<union> (\<lambda>x. resolve_cancelable (m_first x)) ` set (matchings w)"

definition tokens_apart :: "('r, 'f) rule_manager \<Rightarrow> ('r, 'f) match_world \<Rightarrow> bool" where
  "tokens_apart m w \<longleftrightarrow>
     (\<forall>c \<in> quiet w. canceled c (pool_flags (resolver_pool w)) = Inr False) \<and>
     manager_lifetime m = Some 1 \<and> 1 < length (pool_flags (resolver_pool w)) \<and> Some 1 \<notin> quiet w \<and>
     (\<forall>x \<in> set (matchings w). m_token x \<notin> quiet w \<and> m_token x \<noteq> Some 0 \<and>
        handle_ok (m_token x) (pool_flags (resolver_pool w)))"

text \<open>All is well but for match \<open>i\<close>, which is being run; \<open>None\<close> for none.\<close>

definition matches_ok ::
  "'r rule_env \<Rightarrow> (ip_address \<Rightarrow> country_iso_code) \<Rightarrow> ('r, 'f) rule_manager \<Rightarrow> nat option \<Rightarrow> ('r, 'f) match_world \<Rightarrow> bool" where
  "matches_ok env geo m k w \<longleftrightarrow>
     (let p = resolver_pool w; ms = matchings w
      in pool_ok p \<and> phase p = Serving \<and> tokens_apart m w \<and>
         (\<forall>i < length ms. endpoint_ok (m_first (ms ! i)) \<and>
            (Some i \<noteq> k \<longrightarrow> stage_ok env geo m p i (ms ! i) (m_stage (ms ! i)))) \<and>
         distinct (handlers_in_hand p) \<and>
         set (handlers_in_hand p) = {i. i < length ms \<and> Some i \<noteq> k \<and> resolving_stage (m_stage (ms ! i))} \<and>
         (\<forall>q \<in> set (asked p). q_handler q < length ms \<and> q_domain q = host (m_first (ms ! q_handler q))) \<and>
         (\<forall>(c, a) \<in> set (os_answers p). a \<noteq> Inr []) \<and>
         distinct (map fst (told w)) \<and>
         (\<forall>i r. (i, r) \<in> set (told w) \<longleftrightarrow> i < length ms \<and> Some i \<noteq> k \<and> m_stage (ms ! i) = Told r))"

lemma matches_okD:
  assumes "matches_ok env geo m k w"
  shows "pool_ok (resolver_pool w)" "phase (resolver_pool w) = Serving" "tokens_apart m w"
    "\<And>i. i < length (matchings w) \<Longrightarrow> endpoint_ok (m_first (matchings w ! i))"
    "\<And>i. i < length (matchings w) \<Longrightarrow> Some i \<noteq> k \<Longrightarrow>
       stage_ok env geo m (resolver_pool w) i (matchings w ! i) (m_stage (matchings w ! i))"
    "distinct (handlers_in_hand (resolver_pool w))"
    "set (handlers_in_hand (resolver_pool w)) =
       {i. i < length (matchings w) \<and> Some i \<noteq> k \<and> resolving_stage (m_stage (matchings w ! i))}"
    "\<And>q. q \<in> set (asked (resolver_pool w)) \<Longrightarrow>
       q_handler q < length (matchings w) \<and> q_domain q = host (m_first (matchings w ! q_handler q))"
    "\<And>c. (c, Inr []) \<notin> set (os_answers (resolver_pool w))"
    "distinct (map fst (told w))"
    "\<And>i r. (i, r) \<in> set (told w) \<longleftrightarrow> i < length (matchings w) \<and> Some i \<noteq> k \<and> m_stage (matchings w ! i) = Told r"
  using assms by (auto simp: matches_ok_def Let_def)

lemma matches_okI:
  assumes "pool_ok (resolver_pool w)" "phase (resolver_pool w) = Serving" "tokens_apart m w"
    and "\<And>i. i < length (matchings w) \<Longrightarrow> endpoint_ok (m_first (matchings w ! i))"
    and "\<And>i. i < length (matchings w) \<Longrightarrow> Some i \<noteq> k \<Longrightarrow>
       stage_ok env geo m (resolver_pool w) i (matchings w ! i) (m_stage (matchings w ! i))"
    and "distinct (handlers_in_hand (resolver_pool w))"
    and "set (handlers_in_hand (resolver_pool w)) =
       {i. i < length (matchings w) \<and> Some i \<noteq> k \<and> resolving_stage (m_stage (matchings w ! i))}"
    and "\<And>q. q \<in> set (asked (resolver_pool w)) \<Longrightarrow>
       q_handler q < length (matchings w) \<and> q_domain q = host (m_first (matchings w ! q_handler q))"
    and "\<And>c. (c, Inr []) \<notin> set (os_answers (resolver_pool w))"
    and "distinct (map fst (told w))"
    and "\<And>i r. (i, r) \<in> set (told w) \<longleftrightarrow> i < length (matchings w) \<and> Some i \<noteq> k \<and> m_stage (matchings w ! i) = Told r"
  shows "matches_ok env geo m k w"
  using assms unfolding matches_ok_def Let_def by auto

text \<open>What the resolver's own steps leave alone.\<close>

definition pool_grows :: "nat pool \<Rightarrow> nat pool \<Rightarrow> bool" where
  "pool_grows p p' \<longleftrightarrow> set (asked p) \<subseteq> set (asked p') \<and> set (os_answers p) \<subseteq> set (os_answers p') \<and>
     store_le (pool_flags p) (pool_flags p')"

lemma stage_ok_grows:
  assumes "stage_ok env geo m p i x s" "pool_grows p p'"
  shows "stage_ok env geo m p' i x s"
  using assms canceled_mono [of "pool_flags p" "pool_flags p'"]
  by (cases s) (auto simp: pool_grows_def right_result_def given_up_def, blast)

definition pool_moves :: "nat pool \<Rightarrow> nat pool \<Rightarrow> bool" where
  "pool_moves p p' \<longleftrightarrow> mset (handlers_in_hand p') = mset (handlers_in_hand p) \<and>
     set (in_hand p') \<subseteq> set (in_hand p) \<and> pool_flags p' = pool_flags p \<and> phase p' = phase p \<and>
     asked p' = asked p \<and> set (os_answers p) \<subseteq> set (os_answers p') \<and>
     (\<forall>(c, a) \<in> set (os_answers p'). a \<noteq> Inr [])"

lemma tokens_apart_moves:
  "tokens_apart m w \<Longrightarrow> pool_moves (resolver_pool w) p' \<Longrightarrow> tokens_apart m (w\<lparr>resolver_pool := p'\<rparr>)"
  by (auto simp: tokens_apart_def quiet_def pool_moves_def)

lemma moves_ok:
  assumes "matches_ok env geo m k w" "pool_ok p'" "pool_moves (resolver_pool w) p'"
  shows "matches_ok env geo m k (w\<lparr>resolver_pool := p'\<rparr>)"
proof -
  note ok = matches_okD [OF assms(1)]
  have "pool_grows (resolver_pool w) p'" using assms(3) by (simp add: pool_moves_def pool_grows_def)
  then have "\<forall>i < length (matchings w). Some i \<noteq> k \<longrightarrow>
      stage_ok env geo m p' i (matchings w ! i) (m_stage (matchings w ! i))"
    using ok(5) stage_ok_grows by blast
  moreover have "distinct (handlers_in_hand p')"
    "set (handlers_in_hand p') = set (handlers_in_hand (resolver_pool w))"
    using assms(3) ok(6) mset_eq_imp_distinct_iff mset_eq_setD unfolding pool_moves_def by blast+
  ultimately show ?thesis
    using ok assms(2,3) tokens_apart_moves [OF ok(3) assms(3)]
    by (simp add: matches_ok_def Let_def pool_moves_def)
qed

lemma quiet_calm:
  assumes "pool_ok p" "phase p = Serving" "c \<in> set (in_hand p)" "\<forall>c \<in> set (in_hand p). canceled c (pool_flags p) = Inr False"
  shows "either_canceled c (lifetime p) (pool_flags p) = Inr False" "lifetime p = Some 0"
  using assms by (auto simp: pool_ok_def canceled_def intro!: either_canceled_False)

lemma hands_calm:
  assumes "matches_ok env geo m k w"
  shows "\<forall>c \<in> set (in_hand (resolver_pool w)). canceled c (pool_flags (resolver_pool w)) = Inr False"
  using matches_okD(3) [OF assms] by (simp add: tokens_apart_def quiet_def)

lemma take_step_ok:
  assumes "matches_ok env geo m None w"
  shows "\<exists>w'. match_step parse env m w Thread_Takes = Inr w' \<and> matches_ok env geo m None w'"
proof -
  let ?p = "resolver_pool w"
  note ok = matches_okD [OF assms]
  obtain p' where p': "pool_take ?p = Inr p'" "pool_ok p'" using take_ok [OF ok(1)] by blast
  have "pool_moves ?p p'"
  proof (cases "queries ?p")
    case (Cons q qs)
    have "q_cancelable q \<in> set (in_hand ?p)" "q_lifetime q = lifetime ?p"
      using Cons ok(1) by (auto simp: in_hand_def pool_ok_def)
    then have "either_canceled (q_cancelable q) (q_lifetime q) (pool_flags ?p) = Inr False"
      using quiet_calm [OF ok(1,2) _ hands_calm [OF assms]] by simp
    then show ?thesis
      using p'(1) Cons ok(9) by (auto simp: pool_take_def pool_moves_def handlers_in_hand_def in_hand_def split: if_splits)
  qed (use p'(1) ok(9) in \<open>auto simp: pool_take_def pool_moves_def\<close>)
  then show ?thesis using moves_ok [OF assms p'(2)] p'(1) by simp
qed

lemma finish_step_ok:
  assumes "matches_ok env geo m None w" "a \<noteq> Inr []"
  shows "\<exists>w'. match_step parse env m w (System_Answers i a) = Inr w' \<and> matches_ok env geo m None w'"
proof -
  let ?p = "resolver_pool w"
  note ok = matches_okD [OF assms(1)]
  obtain p' where p': "pool_finish i a ?p = Inr p'" "pool_ok p'" using finish_ok [OF ok(1)] by blast
  have "pool_moves ?p p'"
  proof (cases "i < length (busy ?p)")
    case True
    let ?q = "busy ?p ! i"
    obtain r where r: "query_reply a ?q = Inr r" "r_cancelable r = q_cancelable ?q" "r_handler r = q_handler ?q"
      using query_reply_total by blast
    obtain xs ys where b: "busy ?p = xs @ ?q # ys" "xs = take i (busy ?p)" "ys = drop (Suc i) (busy ?p)"
      by (rule that [OF id_take_nth_drop [OF True] refl refl])
    have "p' = ?p\<lparr>busy := xs @ ys, replies := replies ?p @ [r],
        os_answers := os_answers ?p @ [(q_cancelable ?q, a)]\<rparr>"
      using p'(1) True r(1) b(2,3) by (simp add: pool_finish_def)
    then show ?thesis
      using ok(9) assms(2) arg_cong [OF b(1), of "map q_cancelable"] arg_cong [OF b(1), of "map q_handler"]
      by (auto simp: pool_moves_def handlers_in_hand_def in_hand_def r(2,3))
  qed (use p'(1) ok(9) in \<open>auto simp: pool_finish_def pool_moves_def\<close>)
  then show ?thesis using moves_ok [OF assms(1) p'(2)] p'(1) by simp
qed

text \<open>Canceling one of the tokens nobody else relies on.\<close>

lemma cancel_ok:
  assumes "matches_ok env geo m k w" "handle_ok c (pool_flags (resolver_pool w))" "c \<noteq> Some 0" "c \<notin> quiet w"
  shows "matches_ok env geo m k
     (w\<lparr>resolver_pool := (resolver_pool w)\<lparr>pool_flags := cancel c (pool_flags (resolver_pool w))\<rparr>\<rparr>)"
proof -
  let ?p = "resolver_pool w"
  let ?p' = "?p\<lparr>pool_flags := cancel c (pool_flags ?p)\<rparr>"
  note ok = matches_okD [OF assms(1)]
  have "lifetime ?p = Some 0" using ok(1) by (simp add: pool_ok_def)
  then have "pool_ok ?p'" using cancel_query_ok [OF ok(1)] assms(3) by simp
  moreover have "tokens_apart m (w\<lparr>resolver_pool := ?p'\<rparr>)"
    using ok(3) assms(2,4)
    by (auto simp: tokens_apart_def quiet_def in_hand_def canceled_cancel handle_ok_def)
  moreover have "pool_grows ?p ?p'" by (auto simp: pool_grows_def)
  then have "\<forall>i < length (matchings w). Some i \<noteq> k \<longrightarrow>
      stage_ok env geo m ?p' i (matchings w ! i) (m_stage (matchings w ! i))"
    using ok(5) stage_ok_grows by blast
  moreover have "handlers_in_hand ?p' = handlers_in_hand ?p" by (simp add: handlers_in_hand_def)
  ultimately show ?thesis using ok by (auto simp: matches_ok_def Let_def)
qed

lemma cancel_steps_ok:
  assumes "matches_ok env geo m None w"
  shows "\<exists>w'. match_step parse env m w (Caller_Cancels i) = Inr w' \<and> matches_ok env geo m None w'"
    "\<exists>w'. match_step parse env m w Manager_Destroyed = Inr w' \<and> matches_ok env geo m None w'"
proof -
  note apart = matches_okD(3) [OF assms]
  show "\<exists>w'. match_step parse env m w (Caller_Cancels i) = Inr w' \<and> matches_ok env geo m None w'"
  proof (cases "i < length (matchings w)")
    case True
    then have "matchings w ! i \<in> set (matchings w)" by simp
    then show ?thesis using cancel_ok [OF assms] apart True by (simp add: tokens_apart_def)
  qed (use assms in simp)
  have "handle_ok (Some 1) (pool_flags (resolver_pool w))" "manager_lifetime m = Some 1" "Some 1 \<notin> quiet w"
    using apart by (simp_all add: tokens_apart_def handle_ok_def)
  then show "\<exists>w'. match_step parse env m w Manager_Destroyed = Inr w' \<and> matches_ok env geo m None w'"
    using cancel_ok [OF assms, of "Some 1"] by (simp add: rule_manager_destroy_def)
qed

lemma canceled_more: "canceled c st = Inr b \<Longrightarrow> canceled c (st @ xs) = Inr b"
  by (auto simp: canceled_def nth_append split: option.splits if_splits)

lemma fresh_not_quiet:
  assumes "tokens_apart m w" "length (pool_flags (resolver_pool w)) \<le> n"
  shows "Some n \<notin> quiet w" "\<forall>x \<in> set (matchings w). m_token x \<noteq> Some n"
proof
  assume "Some n \<in> quiet w"
  then have "canceled (Some n) (pool_flags (resolver_pool w)) = Inr False" using assms(1) by (simp add: tokens_apart_def)
  then show False using assms(2) by (simp add: canceled_def split: if_splits)
qed (use assms in \<open>fastforce simp: tokens_apart_def handle_ok_def\<close>)

lemma nth_snoc:
  assumes "i < length (xs @ [x])"
  obtains "i < length xs" "(xs @ [x]) ! i = xs ! i" | "i = length xs" "(xs @ [x]) ! i = x"
  using assms by (cases "i < length xs") (auto simp: nth_append)

lemma flags_more_ok:
  assumes "pool_ok p"
  shows "pool_ok (p\<lparr>pool_flags := pool_flags p @ fs\<rparr>)"
proof -
  let ?p = "p\<lparr>pool_flags := pool_flags p @ fs\<rparr>"
  have "in_hand ?p = in_hand p" "\<And>r. answers ?p r = answers p r" "threads_done ?p = threads_done p"
    by (simp_all add: in_hand_def answers_def threads_done_def)
  moreover have "fresh_token p c \<Longrightarrow> fresh_token ?p c" for c by (auto simp: fresh_token_def)
  moreover have "pool_flags p \<noteq> []" using assms by (simp add: pool_ok_def)
  then have "(pool_flags p @ fs) ! 0 = pool_flags p ! 0" by (simp add: nth_append)
  ultimately show ?thesis using assms by (simp add: pool_ok_def)
qed

text \<open>A new match, and the flags that come with it.\<close>

lemma new_match_ok:
  assumes "matches_ok env geo m None w"
    and x: "endpoint_ok (m_first x)" "m_stage x = Posted" "stage_ok env geo m p' (length (matchings w)) x Posted"
      "resolve_cancelable (m_first x) = Some n" "m_token x = Some (Suc n)"
    and p': "p' = (resolver_pool w)\<lparr>pool_flags := pool_flags (resolver_pool w) @ [False, False]\<rparr>"
    and n: "n = length (pool_flags (resolver_pool w))"
  shows "matches_ok env geo m None (w\<lparr>resolver_pool := p', matchings := matchings w @ [x]\<rparr>)"
    (is "matches_ok env geo m None ?w")
proof (rule matches_okI)
  note ok = matches_okD [OF assms(1)]
  have hands: "handlers_in_hand p' = handlers_in_hand (resolver_pool w)" by (simp add: p' handlers_in_hand_def)
  have grows: "pool_grows (resolver_pool w) p'" by (auto simp: p' pool_grows_def store_le_def nth_append)
  show "pool_ok (resolver_pool ?w)" using flags_more_ok [OF ok(1)] by (simp add: p')
  show "phase (resolver_pool ?w) = Serving" using ok(2) by (simp add: p')
  show "distinct (handlers_in_hand (resolver_pool ?w))" using ok(6) hands by simp
  show "(c, Inr []) \<notin> set (os_answers (resolver_pool ?w))" for c using ok(9) by (simp add: p')
  show "distinct (map fst (told ?w))" using ok(10) by simp
  show "set (handlers_in_hand (resolver_pool ?w)) =
      {i. i < length (matchings ?w) \<and> Some i \<noteq> None \<and> resolving_stage (m_stage (matchings ?w ! i))}"
  proof (rule set_eqI)
    fix i
    show "i \<in> set (handlers_in_hand (resolver_pool ?w)) \<longleftrightarrow> i \<in> {i. i < length (matchings ?w) \<and> Some i \<noteq> None \<and>
        resolving_stage (m_stage (matchings ?w ! i))}"
      using ok(7) hands x(2) by (cases "i < length (matchings w)") (simp_all add: nth_append less_Suc_eq)
  qed
  show "(i, r) \<in> set (told ?w) \<longleftrightarrow>
      i < length (matchings ?w) \<and> Some i \<noteq> None \<and> m_stage (matchings ?w ! i) = Told r" for i r
    using ok(11) [of i r] x(2) by (auto simp: nth_append less_Suc_eq)
  show "q_handler q < length (matchings ?w) \<and> q_domain q = host (m_first (matchings ?w ! q_handler q))"
    if "q \<in> set (asked (resolver_pool ?w))" for q
    using ok(8) [of q] that by (simp add: p' nth_append)
  show "endpoint_ok (m_first (matchings ?w ! i))" if "i < length (matchings ?w)" for i
    using ok(4) [of i] x(1) that by (auto simp: nth_append less_Suc_eq)
  show "stage_ok env geo m (resolver_pool ?w) i (matchings ?w ! i) (m_stage (matchings ?w ! i))"
    if "i < length (matchings ?w)" for i
    using stage_ok_grows [OF ok(5) grows, of i] x(2,3) that
    by (auto simp: nth_append less_Suc_eq simp del: stage_ok.simps)
  have q: "quiet ?w = insert (Some n) (quiet w)" by (auto simp: quiet_def in_hand_def p' x(4))
  have fresh: "Some n \<notin> quiet w" "Some (Suc n) \<notin> quiet w" "\<forall>y \<in> set (matchings w). m_token y \<noteq> Some n"
    using fresh_not_quiet [OF ok(3), of n] fresh_not_quiet(1) [OF ok(3), of "Suc n"] by (simp_all add: n)
  have "canceled c (pool_flags p') = Inr False" if "c \<in> quiet ?w" for c
    using that ok(3) canceled_more [of c "pool_flags (resolver_pool w)" False "[False, False]"]
    unfolding q by (auto simp: tokens_apart_def p' n canceled_def nth_append)
  moreover have "m_token y \<notin> quiet ?w \<and> m_token y \<noteq> Some 0 \<and> handle_ok (m_token y) (pool_flags p')"
    if "y \<in> set (matchings ?w)" for y
    using that ok(3) fresh x(5) unfolding q by (auto simp: tokens_apart_def handle_ok_def p' n)
  moreover have "n \<noteq> 1" using ok(3) n by (simp add: tokens_apart_def)
  then have "Some 1 \<notin> quiet ?w" "1 < length (pool_flags p')" "manager_lifetime m = Some 1"
    using ok(3) unfolding q by (auto simp: tokens_apart_def p')
  ultimately show "tokens_apart m ?w" by (simp add: tokens_apart_def)
qed

lemma begin_step_ok:
  assumes "matches_ok env geo m None w"
  shows "\<exists>w'. match_step parse env m w (Match_Begins d port_no) = Inr w' \<and> matches_ok env geo m None w'"
proof -
  define n where "n = length (pool_flags (resolver_pool w))"
  define ep where "ep = (endpoint_with_host parse d port_no (Some n))\<lparr>resolver := Some 0\<rparr>"
  define p' where "p' = (resolver_pool w)\<lparr>pool_flags := pool_flags (resolver_pool w) @ [False, False]\<rparr>"
  let ?x = "\<lparr>m_token = Some (Suc n), m_session = session_new 0 (Some ep), m_stage = Posted, m_first = ep\<rparr>"
  have ep: "endpoint_ok ep" "\<not> resolving ep" "resolve_cancelable ep = Some n" "resolver ep \<noteq> None"
    by (auto simp: ep_def endpoint_ok_def endpoint_with_host_def split: option.splits)
  have "match_step parse env m w (Match_Begins d port_no) = Inr (w\<lparr>resolver_pool := p', matchings := matchings w @ [?x]\<rparr>)"
    by (simp add: begin_match_def endpoint_from_host_def manager_match_def cancelable_new_def ep_def p'_def n_def Let_def)
  moreover have "matches_ok env geo m None (w\<lparr>resolver_pool := p', matchings := matchings w @ [?x]\<rparr>)"
    using ep by (intro new_match_ok [OF assms _ _ _ _ _ p'_def n_def])
      (simp_all add: session_ok_def session_new_def cache_ok_def)
  ultimately show ?thesis by blast
qed

section \<open>Running a match\<close>

text \<open>The match that was run goes on in a new stage.\<close>

definition stage_set :: "nat \<Rightarrow> ('r, 'f) matching \<Rightarrow> ('r, 'f) match_world \<Rightarrow> ('r, 'f) match_world" where
  "stage_set i x w = w\<lparr>matchings := (matchings w)[i := x]\<rparr>"

lemma stage_set_simps [simp]:
  "matchings (stage_set i x w) = (matchings w)[i := x]" "resolver_pool (stage_set i x w) = resolver_pool w"
  "told (stage_set i x w) = told w"
  by (simp_all add: stage_set_def)

lemma stage_set_quiet:
  assumes "i < length (matchings w)" "m_first x = m_first (matchings w ! i)"
  shows "quiet (stage_set i x w) = quiet w"
proof -
  have "map (\<lambda>x. resolve_cancelable (m_first x)) ((matchings w)[i := x]) =
      map (\<lambda>x. resolve_cancelable (m_first x)) (matchings w)"
    using assms by (simp add: map_update) (metis length_map list_update_id nth_map)
  then show ?thesis by (simp add: quiet_def stage_set_def) (metis set_map)
qed

lemma stage_set_apart:
  assumes "tokens_apart m w" "i < length (matchings w)" "m_first x = m_first (matchings w ! i)"
    and "m_token x = m_token (matchings w ! i)"
  shows "tokens_apart m (stage_set i x w)"
proof -
  have t: "m_token y \<in> m_token ` set (matchings w)" if "y \<in> set ((matchings w)[i := x])" for y
    using set_update_subset_insert [of "matchings w" i x] that assms(2,4) by auto
  have "\<forall>c \<in> m_token ` set (matchings w). c \<notin> quiet w \<and> c \<noteq> Some 0 \<and> handle_ok c (pool_flags (resolver_pool w))"
    using assms(1) by (auto simp: tokens_apart_def)
  then have "\<forall>y \<in> set ((matchings w)[i := x]). m_token y \<notin> quiet w \<and> m_token y \<noteq> Some 0 \<and>
      handle_ok (m_token y) (pool_flags (resolver_pool w))"
    using t by blast
  then show ?thesis
    using assms(1) stage_set_quiet [OF assms(2,3)] by (simp add: tokens_apart_def)
qed

lemma stage_set_ok:
  assumes "matches_ok env geo m (Some i) w" "i < length (matchings w)"
    and x: "m_first x = m_first (matchings w ! i)" "m_token x = m_token (matchings w ! i)"
      "stage_ok env geo m (resolver_pool w) i x (m_stage x)"
    and "\<not> resolving_stage (m_stage x)"
    and ts: "ts = (case m_stage x of Told r \<Rightarrow> told w @ [(i, r)] | _ \<Rightarrow> told w)"
  shows "matches_ok env geo m None ((stage_set i x w)\<lparr>told := ts\<rparr>)" (is "matches_ok env geo m None ?w")
proof (rule matches_okI)
  note ok = matches_okD [OF assms(1)]
  have ms: "matchings ?w = (matchings w)[i := x]" "resolver_pool ?w = resolver_pool w" "told ?w = ts"
    by (simp_all add: stage_set_def)
  have "tokens_apart m ?w = tokens_apart m (stage_set i x w)" by (simp add: tokens_apart_def quiet_def)
  then show "tokens_apart m ?w" using stage_set_apart [OF ok(3) assms(2) x(1,2)] by simp
  show "pool_ok (resolver_pool ?w)" "phase (resolver_pool ?w) = Serving"
    "distinct (handlers_in_hand (resolver_pool ?w))" "\<And>c. (c, Inr []) \<notin> set (os_answers (resolver_pool ?w))"
    unfolding ms(2) by (rule ok)+
  show "endpoint_ok (m_first (matchings ?w ! j))" if "j < length (matchings ?w)" for j
    using ok(4) [of j] that x(1) by (cases "j = i") (simp_all add: ms)
  show "stage_ok env geo m (resolver_pool ?w) j (matchings ?w ! j) (m_stage (matchings ?w ! j))"
    if "j < length (matchings ?w)" for j
    using ok(5) [of j] that x(3) by (cases "j = i") (simp_all add: ms nth_list_update del: stage_ok.simps)
  show "q_handler q < length (matchings ?w) \<and> q_domain q = host (m_first (matchings ?w ! q_handler q))"
    if "q \<in> set (asked (resolver_pool ?w))" for q
    using ok(8) [of q] that x(1) by (cases "q_handler q = i") (simp_all add: ms)
  show "set (handlers_in_hand (resolver_pool ?w)) =
      {j. j < length (matchings ?w) \<and> Some j \<noteq> None \<and> resolving_stage (m_stage (matchings ?w ! j))}"
  proof (rule set_eqI)
    fix j
    show "j \<in> set (handlers_in_hand (resolver_pool ?w)) \<longleftrightarrow> j \<in> {j. j < length (matchings ?w) \<and> Some j \<noteq> None \<and>
        resolving_stage (m_stage (matchings ?w ! j))}"
      using ok(7) assms(2,6) by (cases "j = i") (simp_all add: ms nth_list_update)
  qed
  have new: "(i, r) \<notin> set (told w)" for r using ok(11) [of i r] by simp
  then have i: "i \<notin> fst ` set (told w)" by auto
  then show "distinct (map fst (told ?w))" using ok(10) by (simp add: ms ts split: stage.split)
  show "(j, r) \<in> set (told ?w) \<longleftrightarrow>
      j < length (matchings ?w) \<and> Some j \<noteq> None \<and> m_stage (matchings ?w ! j) = Told r" for j r
    using ok(11) [of j r] new [of r] assms(2)
    by (cases "j = i") (auto simp: ms ts nth_list_update split: stage.split)
qed

text \<open>Or its endpoint asks the resolver, with a new flag.\<close>

lemma pool_ask_is:
  assumes "phase p = Serving" "pool_ask d i p = Inr p'"
  obtains q where "q_domain q = d" "q_handler q = i" "q_cancelable q = Some (length (pool_flags p))"
    "p' = p\<lparr>pool_flags := pool_flags p @ [False], queries := queries p @ [q], asked := asked p @ [q]\<rparr>"
proof (rule that)
  show "p' = p\<lparr>pool_flags := pool_flags p @ [False],
      queries := queries p @ [\<lparr>q_domain = d, q_handler = i, q_cancelable = Some (length (pool_flags p)), q_lifetime = lifetime p\<rparr>],
      asked := asked p @ [\<lparr>q_domain = d, q_handler = i, q_cancelable = Some (length (pool_flags p)), q_lifetime = lifetime p\<rparr>]\<rparr>"
    using assms by (simp add: pool_ask_def system_resolve_def cancelable_new_def)
qed simp_all

lemma ask_apart:
  assumes "tokens_apart m w" "phase (resolver_pool w) = Serving" "pool_ask d i (resolver_pool w) = Inr p'"
  shows "tokens_apart m (w\<lparr>resolver_pool := p'\<rparr>)" (is "tokens_apart m ?w")
proof -
  let ?p = "resolver_pool w" and ?n = "length (pool_flags (resolver_pool w))"
  from assms(2,3) obtain q where q: "q_cancelable q = Some ?n"
    and p': "p' = ?p\<lparr>pool_flags := pool_flags ?p @ [False], queries := queries ?p @ [q], asked := asked ?p @ [q]\<rparr>"
    by (rule pool_ask_is)
  have quiet: "quiet ?w = insert (Some ?n) (quiet w)" by (auto simp: quiet_def p' in_hand_def q)
  have fresh: "Some ?n \<notin> quiet w" "\<forall>y \<in> set (matchings w). m_token y \<noteq> Some ?n"
    using fresh_not_quiet [OF assms(1), of ?n] by simp_all
  have "canceled c (pool_flags p') = Inr False" if "c \<in> quiet ?w" for c
    using that assms(1) canceled_more [of c "pool_flags ?p" False "[False]"]
    unfolding quiet by (auto simp: tokens_apart_def p' canceled_def nth_append)
  moreover have "m_token y \<notin> quiet ?w \<and> m_token y \<noteq> Some 0 \<and> handle_ok (m_token y) (pool_flags p')"
    if "y \<in> set (matchings ?w)" for y
    using that assms(1) fresh unfolding quiet by (auto simp: tokens_apart_def handle_ok_def p')
  moreover have "?n \<noteq> 1" using assms(1) by (simp add: tokens_apart_def)
  then have "Some 1 \<notin> quiet ?w" "1 < length (pool_flags p')" "manager_lifetime m = Some 1"
    using assms(1) unfolding quiet by (auto simp: tokens_apart_def p')
  ultimately show ?thesis by (simp add: tokens_apart_def)
qed

text \<open>What the matches and their answers see of the pool that was asked.\<close>

lemma ask_pool:
  assumes "phase p = Serving" "pool_ask d i p = Inr p'"
  shows "pool_grows p p'" "phase p' = Serving" "os_answers p' = os_answers p"
    "set (handlers_in_hand p') = insert i (set (handlers_in_hand p))"
    "distinct (handlers_in_hand p') \<longleftrightarrow> distinct (handlers_in_hand p) \<and> i \<notin> set (handlers_in_hand p)"
    "\<And>q. q \<in> set (asked p') \<Longrightarrow> q \<in> set (asked p) \<or> q_handler q = i \<and> q_domain q = d"
proof -
  from assms obtain q where "q_domain q = d" "q_handler q = i"
    and p': "p' = p\<lparr>pool_flags := pool_flags p @ [False], queries := queries p @ [q], asked := asked p @ [q]\<rparr>"
    by (rule pool_ask_is)
  then show "pool_grows p p'" "phase p' = Serving" "os_answers p' = os_answers p"
    "set (handlers_in_hand p') = insert i (set (handlers_in_hand p))"
    "distinct (handlers_in_hand p') \<longleftrightarrow> distinct (handlers_in_hand p) \<and> i \<notin> set (handlers_in_hand p)"
    "\<And>q. q \<in> set (asked p') \<Longrightarrow> q \<in> set (asked p) \<or> q_handler q = i \<and> q_domain q = d"
    using assms(1) by (auto simp: pool_grows_def store_le_def nth_append handlers_in_hand_def)
qed

lemma ask_resolver_ok:
  assumes "matches_ok env geo m (Some i) w" "i < length (matchings w)"
    and x: "m_first x = m_first (matchings w ! i)" "m_token x = m_token (matchings w ! i)"
      "stage_ok env geo m (resolver_pool w) i x (m_stage x)" "m_stage x = Resolving rs cl"
    and p': "pool_ask (host (m_first x)) i (resolver_pool w) = Inr p'"
  shows "matches_ok env geo m None ((stage_set i x w)\<lparr>resolver_pool := p'\<rparr>)" (is "matches_ok env geo m None ?w")
proof (rule matches_okI)
  note ok = matches_okD [OF assms(1)]
  note asked = ask_pool [OF ok(2) p']
  have ms: "matchings ?w = (matchings w)[i := x]" "resolver_pool ?w = p'" "told ?w = told w"
    by (simp_all add: stage_set_def)
  have i: "i \<notin> set (handlers_in_hand (resolver_pool w))" using ok(7) by simp
  show "pool_ok (resolver_pool ?w)" using ask_ok [OF ok(1,2), of "host (m_first x)" i] p' by (simp add: ms)
  show "phase (resolver_pool ?w) = Serving" using asked(2) by (simp add: ms)
  show "(c, Inr []) \<notin> set (os_answers (resolver_pool ?w))" for c using ok(9) asked(3) by (simp add: ms)
  show "distinct (map fst (told ?w))" using ok(10) by (simp add: ms)
  show "distinct (handlers_in_hand (resolver_pool ?w))" using ok(6) asked(5) i by (simp add: ms)
  show "endpoint_ok (m_first (matchings ?w ! j))" if "j < length (matchings ?w)" for j
    using ok(4) [of j] that x(1) by (cases "j = i") (simp_all add: ms)
  show "stage_ok env geo m (resolver_pool ?w) j (matchings ?w ! j) (m_stage (matchings ?w ! j))"
    if "j < length (matchings ?w)" for j
    using stage_ok_grows [OF ok(5) asked(1), of j] stage_ok_grows [OF x(3) asked(1)] that
    by (cases "j = i") (simp_all del: stage_ok.simps add: ms)
  show "q_handler q < length (matchings ?w) \<and> q_domain q = host (m_first (matchings ?w ! q_handler q))"
    if "q \<in> set (asked (resolver_pool ?w))" for q
    using asked(6) [of q] ok(8) [of q] that assms(2) x(1) by (cases "q_handler q = i") (auto simp: ms)
  show "set (handlers_in_hand (resolver_pool ?w)) =
      {j. j < length (matchings ?w) \<and> Some j \<noteq> None \<and> resolving_stage (m_stage (matchings ?w ! j))}"
  proof (rule set_eqI)
    fix j
    show "j \<in> set (handlers_in_hand (resolver_pool ?w)) \<longleftrightarrow> j \<in> {j. j < length (matchings ?w) \<and> Some j \<noteq> None \<and>
        resolving_stage (m_stage (matchings ?w ! j))}"
      using ok(7) assms(2) asked(4) x(4) by (cases "j = i") (simp_all add: ms)
  qed
  show "(j, r) \<in> set (told ?w) \<longleftrightarrow>
      j < length (matchings ?w) \<and> Some j \<noteq> None \<and> m_stage (matchings ?w ! j) = Told r" for j r
    using ok(11) [of j r] assms(2) x(4) by (cases "j = i") (simp_all add: ms)
  show "tokens_apart m ?w"
    using ask_apart [OF stage_set_apart [OF ok(3) assms(2) x(1,2)]] ok(2) p' by simp
qed

fun walk_stage :: "('r, 'f) walk \<Rightarrow> ('r, 'f) stage" where
  "walk_stage (Done r) = Told r"
| "walk_stage (Waiting rs t cl) = Resolving rs cl"
| "walk_stage Dropped = Left_Off"

lemma settle_ok:
  assumes "matches_ok env geo m (Some i) w" "i < length (matchings w)"
    and "stage_ok env geo m (resolver_pool w) i ((matchings w ! i)\<lparr>m_session := s, m_stage := walk_stage wk\<rparr>) (walk_stage wk)"
  shows "\<exists>w'. settle i w (wk, s) = Inr w' \<and> matches_ok env geo m None w'"
proof -
  let ?x = "(matchings w ! i)\<lparr>m_session := s, m_stage := walk_stage wk\<rparr>"
  note ok = matches_okD [OF assms(1)]
  show ?thesis
  proof (cases wk)
    case (Waiting rs t cl)
    obtain p' where p': "pool_ask (host (m_first ?x)) i (resolver_pool w) = Inr p'"
      using ask_ok [OF ok(1,2)] by blast
    obtain ep where "session_endpoint s = Some ep" "host ep = host (m_first ?x)"
      using assms(3) Waiting by auto
    then have "settle i w (wk, s) = Inr ((stage_set i ?x w)\<lparr>resolver_pool := p'\<rparr>)"
      using p' Waiting by (simp add: settle_def stage_set_def)
    then show ?thesis
      using ask_resolver_ok [OF assms(1,2) _ _ _ _ p', of rs cl] assms(3) Waiting by (simp del: stage_ok.simps)
  next
    case (Done r)
    have "settle i w (wk, s) = Inr ((stage_set i ?x w)\<lparr>told := told w @ [(i, r)]\<rparr>)"
      using Done by (simp add: settle_def stage_set_def)
    then show ?thesis
      using stage_set_ok [OF assms(1,2), of ?x "told w @ [(i, r)]"] assms(3) Done by simp
  next
    case Dropped
    have "settle i w (wk, s) = Inr ((stage_set i ?x w)\<lparr>told := told w\<rparr>)"
      using Dropped by (simp add: settle_def stage_set_def)
    then show ?thesis
      using stage_set_ok [OF assms(1,2), of ?x "told w"] assms(3) Dropped by simp
  qed
qed

text \<open>What is still to be done, by the caller's loop and by the threads.\<close>

definition pending :: "('r, 'f) match_world \<Rightarrow> nat" where
  "pending w = 4 * length (List.filter (\<lambda>x. m_stage x = Posted) (matchings w)) +
     3 * length (queries (resolver_pool w)) + 2 * length (busy (resolver_pool w)) +
     length (replies (resolver_pool w))"

lemma filter_update:
  "i < length xs \<Longrightarrow> length (List.filter P (xs[i := x])) + (if P (xs ! i) then 1 else 0) =
     length (List.filter P xs) + (if P x then 1 else 0)"
proof (induction xs arbitrary: i)
  case (Cons y ys)
  then show ?case by (cases i) auto
qed simp

text \<open>A match that goes on is not posted any more; one that waits has added a query.\<close>

lemma settle_pending:
  assumes "settle i w (wk, s) = Inr w'" "i < length (matchings w)"
  shows "pending w' + (if m_stage (matchings w ! i) = Posted then 4 else 0) =
      pending w + (case wk of Waiting _ _ _ \<Rightarrow> 3 | _ \<Rightarrow> 0)"
  using assms filter_update [of i "matchings w" "\<lambda>x. m_stage x = Posted"
      "(matchings w ! i)\<lparr>m_session := s, m_stage := walk_stage wk\<rparr>"]
  by (cases wk) (auto simp: settle_def pending_def pool_ask_def system_resolve_def cancelable_new_def exec_bind_Inr
      split: option.splits if_splits)

text \<open>A walk decides at once, or waits for the address; what is left then decides as all would.\<close>

lemma match_walk:
  assumes "session_ok geo s ep" "mmdb_answers (env_mmdb env) geo" "resolver ep \<noteq> None" "\<not> resolving ep"
  shows "\<exists>wk s'. match_loop env tok rs s = Inr (wk, s') \<and>
     ((\<exists>r. wk = Done r \<and> (\<forall>answer. r = first_rule env geo ep (final_address ep answer) rs)) \<or>
      (\<exists>ys. wk = Waiting ys tok \<lparr>on_resolved = (), captured = resolve_cancelable ep\<rparr> \<and> undecided ep \<and>
         session_endpoint s' = Some (ep\<lparr>resolving := True, resolve_cancelable := tok\<rparr>) \<and>
         int_cache s' country_cache_key = None \<and>
         (\<forall>a. first_rule env geo ep a rs = first_rule env geo ep a ys)))"
proof (cases "undecided ep")
  case False
  then show ?thesis using match_loop_settled [OF assms(1,2) False, of tok rs] by (auto simp: final_address_def)
next
  case True
  note walk = match_loop_open [OF assms(1,2) True assms(3,4), of tok rs]
  obtain wk s' where m: "match_loop env tok rs s = Inr (wk, s')" using walk by blast
  have each: "wk = Done (first_rule env geo ep a rs) \<or>
      (\<exists>ys. wk = Waiting ys tok \<lparr>on_resolved = (), captured = resolve_cancelable ep\<rparr> \<and>
         session_endpoint s' = Some (ep\<lparr>resolving := True, resolve_cancelable := tok\<rparr>) \<and>
         int_cache s' country_cache_key = None \<and> first_rule env geo ep a rs = first_rule env geo ep a ys)" for a
    using walk [of a] m by auto
  show ?thesis
  proof (cases wk)
    case (Done r)
    then have "\<forall>a. r = first_rule env geo ep a rs" using each by auto
    then show ?thesis using m Done by blast
  next
    case (Waiting ys t cl)
    then have "\<forall>a. first_rule env geo ep a rs = first_rule env geo ep a ys" using each by auto
    then show ?thesis using m Waiting each [of None] True by auto
  qed (use each [of None] in simp)
qed

lemma guard_cases:
  assumes "handle_ok a st" "handle_ok b st"
  obtains "either_canceled a b st = Inr True" "canceled a st = Inr True \<or> canceled b st = Inr True"
  | "either_canceled a b st = Inr False" "canceled a st = Inr False" "canceled b st = Inr False"
proof -
  obtain x y where "canceled a st = Inr x" "canceled b st = Inr y"
    using assms by (auto simp: handle_ok_def canceled_def)
  then show ?thesis using that by (cases x; cases y) (simp_all add: either_canceled_def)
qed

lemma match_tokens:
  assumes "matches_ok env geo m k w" "i < length (matchings w)"
  shows "handle_ok (m_token (matchings w ! i)) (pool_flags (resolver_pool w))"
    "handle_ok (manager_lifetime m) (pool_flags (resolver_pool w))"
    "canceled (resolve_cancelable (m_first (matchings w ! i))) (pool_flags (resolver_pool w)) = Inr False"
  using matches_okD(3) [OF assms(1)] nth_mem [OF assms(2)]
  by (auto simp: tokens_apart_def handle_ok_def quiet_def)

lemma start_running:
  assumes "matches_ok env geo m None w" "m_stage (matchings w ! i) = Posted"
  shows "matches_ok env geo m (Some i) w"
proof (rule matches_okI)
  note ok = matches_okD [OF assms(1)]
  show "pool_ok (resolver_pool w)" "phase (resolver_pool w) = Serving" "tokens_apart m w"
    "distinct (handlers_in_hand (resolver_pool w))" "distinct (map fst (told w))"
    by (rule ok)+
  show "endpoint_ok (m_first (matchings w ! j))" if "j < length (matchings w)" for j using ok(4) that .
  show "stage_ok env geo m (resolver_pool w) j (matchings w ! j) (m_stage (matchings w ! j))"
    if "j < length (matchings w)" for j using ok(5) that by simp
  show "q_handler q < length (matchings w) \<and> q_domain q = host (m_first (matchings w ! q_handler q))"
    if "q \<in> set (asked (resolver_pool w))" for q using ok(8) that .
  show "(c, Inr []) \<notin> set (os_answers (resolver_pool w))" for c by (rule ok)
  have "resolving_stage (m_stage (matchings w ! j)) \<Longrightarrow> j \<noteq> i" for j using assms(2) by auto
  then show "set (handlers_in_hand (resolver_pool w)) =
      {j. j < length (matchings w) \<and> Some j \<noteq> Some i \<and> resolving_stage (m_stage (matchings w ! j))}"
    unfolding ok(7) by blast
  show "(j, r) \<in> set (told w) \<longleftrightarrow> j < length (matchings w) \<and> Some j \<noteq> Some i \<and> m_stage (matchings w ! j) = Told r"
    for j r using ok(11) [of j r] assms(2) by (cases "j = i") simp_all
qed

lemma task_step_ok:
  assumes "matches_ok env geo m None w" "mmdb_answers (env_mmdb env) geo"
  shows "\<exists>w'. match_step parse env m w (Task_Runs i) = Inr w' \<and> matches_ok env geo m None w' \<and>
     (i < length (matchings w) \<and> m_stage (matchings w ! i) = Posted \<longrightarrow> pending w' < pending w)"
proof (cases "i < length (matchings w) \<and> m_stage (matchings w ! i) = Posted")
  case True
  let ?x = "matchings w ! i" and ?st = "pool_flags (resolver_pool w)"
  let ?tok = "Some (length ?st)"
  have run: "matches_ok env geo m (Some i) w" using start_running assms(1) True by blast
  have x: "session_ok geo (m_session ?x) (m_first ?x)" "resolver (m_first ?x) \<noteq> None" "\<not> resolving (m_first ?x)"
    using matches_okD(5) [OF assms(1), of i] True by simp_all
  note tokens = match_tokens [OF assms(1), of i]
  obtain wk s where walk: "match_task env ?tok ?st (m_token ?x) m (m_session ?x) = Inr (wk, s)"
    "stage_ok env geo m (resolver_pool w) i (?x\<lparr>m_session := s, m_stage := walk_stage wk\<rparr>) (walk_stage wk)"
  proof (rule guard_cases [OF tokens(1,2)])
    assume "either_canceled (m_token ?x) (manager_lifetime m) ?st = Inr True"
      "canceled (m_token ?x) ?st = Inr True \<or> canceled (manager_lifetime m) ?st = Inr True"
    then show ?thesis using that [of Dropped "m_session ?x"] by (simp add: match_task_def given_up_def)
  next
    assume "either_canceled (m_token ?x) (manager_lifetime m) ?st = Inr False" "canceled (m_token ?x) ?st = Inr False"
    then have "match_task env ?tok ?st (m_token ?x) m (m_session ?x) = match_loop env ?tok (rules m) (m_session ?x)"
      by (simp add: match_task_def match_iterator_def)
    then show ?thesis
      using that match_walk [OF x(1) assms(2) x(2,3), of ?tok "rules m"] by (fastforce simp: right_result_def)
  qed (use True in simp_all)
  then obtain w' where w': "settle i w (wk, s) = Inr w'" "matches_ok env geo m None w'"
    using settle_ok [OF run _ walk(2)] True by blast
  moreover have "pending w' < pending w" using settle_pending [OF w'(1)] True by (cases wk) simp_all
  moreover have "run_match_task env m i w = Inr w'" using True walk(1) w'(1) by (simp add: run_match_task_def Let_def)
  ultimately show ?thesis by simp
next
  case False
  then have "run_match_task env m i w = Inr w" unfolding run_match_task_def posted_iff by (rule if_not_P)
  then show ?thesis using assms(1) False by simp
qed

section \<open>The reply\<close>

lemma reply_for:
  assumes "matches_ok env geo m None w" "replies (resolver_pool w) = r # rs"
  shows "r_handler r < length (matchings w)"
    "\<exists>ys cl. m_stage (matchings w ! r_handler r) = Resolving ys cl"
    "\<exists>q \<in> set (asked (resolver_pool w)). \<exists>a. q_handler q = r_handler r \<and>
       q_domain q = host (m_first (matchings w ! r_handler r)) \<and>
       (q_cancelable q, a) \<in> set (os_answers (resolver_pool w)) \<and> a \<noteq> Inr [] \<and> r_answer r = system_answer a"
    "run_reply (pool_flags (resolver_pool w)) r = Inr (Some (r_handler r, r_answer r))"
proof -
  let ?p = "resolver_pool w"
  note ok = matches_okD [OF assms(1)]
  have "r_handler r \<in> set (handlers_in_hand ?p)" using assms(2) by (simp add: handlers_in_hand_def)
  then have i: "r_handler r < length (matchings w)" "resolving_stage (m_stage (matchings w ! r_handler r))"
    unfolding ok(7) by simp_all
  then show "r_handler r < length (matchings w)" by simp
  show "\<exists>ys cl. m_stage (matchings w ! r_handler r) = Resolving ys cl"
    using i(2) by (cases "m_stage (matchings w ! r_handler r)") simp_all
  have r: "answers ?p r" "r_lifetime r = Some 0" "r_cancelable r \<in> set (in_hand ?p)"
    using ok(1) assms(2) by (auto simp: pool_ok_def in_hand_def)
  obtain q a where q: "q \<in> set (asked ?p)" "(q_cancelable q, a) \<in> set (os_answers ?p)" "query_reply a q = Inr r"
    using r(1) by (auto simp: answers_def)
  have "q_handler q = r_handler r" "r_answer r = system_answer a"
    using query_reply_is [OF q(3)] by (cases a; simp)+
  moreover have "q_domain q = host (m_first (matchings w ! q_handler q))" using ok(8) [OF q(1)] by simp
  moreover have "a \<noteq> Inr []" using ok(9) q(2) by blast
  ultimately show "\<exists>q \<in> set (asked ?p). \<exists>a. q_handler q = r_handler r \<and>
       q_domain q = host (m_first (matchings w ! r_handler r)) \<and>
       (q_cancelable q, a) \<in> set (os_answers ?p) \<and> a \<noteq> Inr [] \<and> r_answer r = system_answer a"
    using q(1,2) by metis
  have "either_canceled (r_cancelable r) (r_lifetime r) (pool_flags ?p) = Inr False"
    using quiet_calm [OF ok(1,2) r(3) hands_calm [OF assms(1)]] r(2) by simp
  then show "run_reply (pool_flags ?p) r = Inr (Some (r_handler r, r_answer r))"
    by (simp add: run_reply_def)
qed

lemma delivered_ok:
  assumes "matches_ok env geo m None w" "replies (resolver_pool w) = r # rs"
    and "pool_deliver (resolver_pool w) = Inr p'"
  shows "matches_ok env geo m (Some (r_handler r)) (w\<lparr>resolver_pool := p'\<rparr>)"
    and "pool_flags p' = pool_flags (resolver_pool w)" "asked p' = asked (resolver_pool w)"
    "os_answers p' = os_answers (resolver_pool w)"
proof -
  let ?p = "resolver_pool w" and ?i = "r_handler r" and ?w = "w\<lparr>resolver_pool := p'\<rparr>"
  note ok = matches_okD [OF assms(1)]
  note r = reply_for [OF assms(1,2)]
  have p': "p' = ?p\<lparr>replies := rs, called := called ?p @ [r]\<rparr>"
    using assms(2,3) r(4) by (simp add: pool_deliver_def)
  then show same: "pool_flags p' = pool_flags ?p" "asked p' = asked ?p" "os_answers p' = os_answers ?p" by simp_all
  have hands: "set (handlers_in_hand ?p) = insert ?i (set (handlers_in_hand p'))"
    "distinct (handlers_in_hand p')" "?i \<notin> set (handlers_in_hand p')"
    using ok(6) assms(2) by (auto simp: p' handlers_in_hand_def)
  have grows: "pool_grows ?p p'" by (simp add: same pool_grows_def)
  have "set (in_hand p') = set (in_hand ?p)" using assms(2) by (auto simp: p' in_hand_def)
  then have apart: "tokens_apart m ?w" using ok(3) by (simp add: tokens_apart_def quiet_def same)
  have told: "m_stage (matchings w ! ?i) \<noteq> Told x" for x using r(2) by auto
  show "matches_ok env geo m (Some ?i) ?w"
  proof (rule matches_okI)
    show "pool_ok (resolver_pool ?w)" using pool_deliver_ok [OF ok(1)] assms(3) by simp
    show "phase (resolver_pool ?w) = Serving" using ok(2) by (simp add: p')
    show "tokens_apart m ?w" by (rule apart)
    show "distinct (handlers_in_hand (resolver_pool ?w))" using hands(2) by simp
    show "distinct (map fst (told ?w))" using ok(10) by simp
    show "endpoint_ok (m_first (matchings ?w ! j))" if "j < length (matchings ?w)" for j using ok(4) that by simp
    show "stage_ok env geo m (resolver_pool ?w) j (matchings ?w ! j) (m_stage (matchings ?w ! j))"
      if "j < length (matchings ?w)" for j
      using stage_ok_grows [OF ok(5) grows, of j] that by (simp del: stage_ok.simps)
    show "q_handler q < length (matchings ?w) \<and> q_domain q = host (m_first (matchings ?w ! q_handler q))"
      if "q \<in> set (asked (resolver_pool ?w))" for q using ok(8) [of q] that by (simp add: same)
    show "(c, Inr []) \<notin> set (os_answers (resolver_pool ?w))" for c using ok(9) by (simp add: same)
    have "set (handlers_in_hand p') = set (handlers_in_hand ?p) - {?i}" using hands by auto
    then show "set (handlers_in_hand (resolver_pool ?w)) =
        {j. j < length (matchings ?w) \<and> Some j \<noteq> Some ?i \<and> resolving_stage (m_stage (matchings ?w ! j))}"
      unfolding ok(7) by (simp add: set_eq_iff) blast
    show "(j, x) \<in> set (told ?w) \<longleftrightarrow>
        j < length (matchings ?w) \<and> Some j \<noteq> Some ?i \<and> m_stage (matchings ?w ! j) = Told x" for j x
      using ok(11) [of j x] told [of x] by (cases "j = ?i") simp_all
  qed
qed

text \<open>The closure of the endpoint and the manager's callback, on an answer for a match that waits.\<close>

lemma resolved_walk:
  assumes w: "matches_ok env geo m None w" "i < length (matchings w)" "m_stage (matchings w ! i) = Resolving ys cl"
    and "mmdb_answers (env_mmdb env) geo"
    and p': "pool_flags p' = pool_flags (resolver_pool w)"
    and q: "q \<in> set (asked p')" "q_handler q = i" "q_domain q = host (m_first (matchings w ! i))"
      "(q_cancelable q, a) \<in> set (os_answers p')" "a \<noteq> Inr []"
  shows "\<exists>ep ep' u wk s. session_endpoint (m_session (matchings w ! i)) = Some ep \<and>
      endpoint_resolved (pool_flags p') cl (system_answer a) ep = Inr (ep', Some u) \<and>
      resolve_callback env tok (pool_flags p') (m_token (matchings w ! i)) m ys
        ((m_session (matchings w ! i))\<lparr>session_endpoint := Some ep'\<rparr>) = Inr (wk, s) \<and>
      (case wk of Waiting _ _ _ \<Rightarrow> False | _ \<Rightarrow> True) \<and>
      stage_ok env geo m p' i ((matchings w ! i)\<lparr>m_session := s, m_stage := walk_stage wk\<rparr>) (walk_stage wk)"
proof -
  let ?x = "matchings w ! i" and ?st = "pool_flags (resolver_pool w)"
  obtain tok' where x: "session_endpoint (m_session ?x) = Some ((m_first ?x)\<lparr>resolving := True, resolve_cancelable := tok'\<rparr>)"
    "int_cache (m_session ?x) country_cache_key = None" "undecided (m_first ?x)"
    "cl = \<lparr>on_resolved = (), captured = resolve_cancelable (m_first ?x)\<rparr>"
    "\<forall>a. first_rule env geo (m_first ?x) a (rules m) = first_rule env geo (m_first ?x) a ys"
    using matches_okD(5) [OF w(1,2)] w(3) by auto
  note tokens = match_tokens [OF w(1,2)]
  have ep: "endpoint_ok (m_first ?x)" by (rule matches_okD(4) [OF w(1,2)])
  have answer: "system_answer a \<noteq> Inr []" using q(5) by (cases a) simp_all
  let ?ep = "(m_first ?x)\<lparr>resolving := True, resolve_cancelable := tok'\<rparr>"
  show ?thesis
  proof (rule guard_cases [OF tokens(1,2)])
    assume stop: "either_canceled (m_token ?x) (manager_lifetime m) ?st = Inr True"
      "canceled (m_token ?x) ?st = Inr True \<or> canceled (manager_lifetime m) ?st = Inr True"
    then have "given_up m p' (m_token ?x)" by (simp add: given_up_def p')
    moreover obtain ep' u where "endpoint_resolved ?st cl (system_answer a) ?ep = Inr (ep', Some u)"
      using tokens(3) endpoint_resolved_run [of cl ?st] x(4) by (cases "system_answer a") auto
    ultimately show ?thesis
      using stop(1) x(1) by (intro exI [of _ ?ep] exI [of _ ep'] exI [of _ u] exI [of _ Dropped])
        (simp add: resolve_callback_def p')
  next
    assume go: "canceled (m_token ?x) ?st = Inr False" "canceled (manager_lifetime m) ?st = Inr False"
    let ?r = "first_rule env geo (m_first ?x) (final_address (m_first ?x) (system_answer a)) ys"
    obtain ep' s where "endpoint_resolved ?st cl (system_answer a) ?ep =
        Inr (ep', Some ((), case system_answer a of Inl e \<Rightarrow> Inl e | Inr _ \<Rightarrow> Inr ()))"
      "resolve_callback env tok ?st (m_token ?x) m ys ((m_session ?x)\<lparr>session_endpoint := Some ep'\<rparr>) = Inr (Done ?r, s)"
      using resume_match [OF x(1,2,3) ep answer tokens(3) go assms(4), of tok ys] unfolding x(4) by blast
    moreover have "right_result env geo m p' (m_first ?x) i ?r"
      using q x(5) unfolding right_result_def by metis
    ultimately show ?thesis
      using x(1) by (intro exI [of _ ?ep] exI [of _ ep'] exI conjI) (assumption | simp add: p')+
  qed
qed

lemma reply_step_ok:
  assumes "matches_ok env geo m None w" "mmdb_answers (env_mmdb env) geo"
  shows "\<exists>w'. match_step parse env m w Reply_Arrives = Inr w' \<and> matches_ok env geo m None w' \<and>
     (replies (resolver_pool w) \<noteq> [] \<longrightarrow> pending w' < pending w)"
proof (cases "replies (resolver_pool w)")
  case Nil
  then show ?thesis using assms(1) by (simp add: deliver_reply_def)
next
  case (Cons r rs)
  let ?i = "r_handler r"
  let ?x = "matchings w ! ?i" and ?tok = "Some (length (pool_flags (resolver_pool w)))"
  note r = reply_for [OF assms(1) Cons]
  obtain p' where p': "pool_deliver (resolver_pool w) = Inr p'"
    using pool_deliver_ok [OF matches_okD(1) [OF assms(1)]] by blast
  note w1 = delivered_ok [OF assms(1) Cons p']
  obtain q a where q: "q \<in> set (asked p')" "q_handler q = ?i" "q_domain q = host (m_first ?x)"
    "(q_cancelable q, a) \<in> set (os_answers p')" "a \<noteq> Inr []" "r_answer r = system_answer a"
    using r(3) by (auto simp: w1)
  obtain ys cl where stage: "m_stage ?x = Resolving ys cl" using r(2) by blast
  from resolved_walk [OF assms(1) r(1) stage assms(2) w1(2) q(1-5), of ?tok]
  obtain ep ep' u wk s where go: "session_endpoint (m_session ?x) = Some ep"
    "endpoint_resolved (pool_flags p') cl (system_answer a) ep = Inr (ep', Some u)"
    "resolve_callback env ?tok (pool_flags p') (m_token ?x) m ys ((m_session ?x)\<lparr>session_endpoint := Some ep'\<rparr>) =
      Inr (wk, s)" "case wk of Waiting _ _ _ \<Rightarrow> False | _ \<Rightarrow> True"
    "stage_ok env geo m p' ?i (?x\<lparr>m_session := s, m_stage := walk_stage wk\<rparr>) (walk_stage wk)" by blast
  let ?w = "w\<lparr>resolver_pool := p'\<rparr>"
  have "deliver_reply env m w = settle ?i ?w (wk, s)"
    using Cons r(4) p' go(1-3) stage q(6) by (simp add: deliver_reply_def run_resolved_def w1 Let_def)
  then obtain w' where w': "deliver_reply env m w = Inr w'" "settle ?i ?w (wk, s) = Inr w'" "matches_ok env geo m None w'"
    using settle_ok [OF w1(1), where s = s and wk = wk] r(1) go(5) by auto
  have "pending w' \<le> pending ?w"
    using settle_pending [OF w'(2)] r(1) go(4) stage by (cases wk) simp_all
  moreover have "pending ?w < pending w" using Cons p' r(4) by (auto simp: pending_def pool_deliver_def)
  ultimately show ?thesis using w'(1,3) by auto
qed

section \<open>Every run\<close>

lemma match_step_ok:
  assumes "matches_ok env geo m None w" "mmdb_answers (env_mmdb env) geo" "match_admissible m w e"
  shows "\<exists>w'. match_step parse env m w e = Inr w' \<and> matches_ok env geo m None w'"
proof (cases e)
  case Reply_Arrives
  then show ?thesis using reply_step_ok [OF assms(1,2)] by blast
next
  case (Task_Runs i)
  then show ?thesis using task_step_ok [OF assms(1,2)] by blast
qed (use begin_step_ok [OF assms(1)] take_step_ok [OF assms(1)] finish_step_ok [OF assms(1)]
    cancel_steps_ok [OF assms(1)] assms(3) in simp_all)

lemma match_world_new_ok:
  "manager_lifetime m = Some 1 \<Longrightarrow> matches_ok env geo m None (match_world_new n)"
  by (simp add: matches_ok_def match_world_new_def pool_new_def pool_ok_def in_hand_def handlers_in_hand_def
      tokens_apart_def quiet_def)

interpretation matches: contract_machine "match_step parse env m"
    "\<lambda>w. mmdb_answers (env_mmdb env) geo \<and> matches_ok env geo m None w" "match_admissible m"
  using match_step_ok by unfold_locales blast

section \<open>Coming to an end\<close>

text \<open>The steps of the loop and of the threads, when the system answers \<open>a\<close>.\<close>

fun loop_event :: "boost_code + ip_address list \<Rightarrow> match_event \<Rightarrow> bool" where
  "loop_event a (Task_Runs i) = True"
| "loop_event a Thread_Takes = True"
| "loop_event a (System_Answers i b) \<longleftrightarrow> b = a"
| "loop_event a Reply_Arrives = True"
| "loop_event a _ = False"

definition stays :: "('r, 'f) match_world \<Rightarrow> ('r, 'f) match_world \<Rightarrow> bool" where
  "stays w w' \<longleftrightarrow> map m_token (matchings w') = map m_token (matchings w) \<and>
     map m_first (matchings w') = map m_first (matchings w) \<and>
     threads (resolver_pool w') = threads (resolver_pool w) \<and>
     (\<exists>fs. pool_flags (resolver_pool w') = pool_flags (resolver_pool w) @ fs)"

lemma stays_trans: "stays w w' \<Longrightarrow> stays w' w'' \<Longrightarrow> stays w w''"
  by (auto simp: stays_def)

lemma stays_self: "stays w w" by (simp add: stays_def)

lemma settle_stays:
  assumes "settle i w ws = Inr w'"
  shows "stays w w'"
proof -
  have tokens: "map m_token ((matchings w)[i := (matchings w ! i)\<lparr>m_session := s, m_stage := g\<rparr>]) =
      map m_token (matchings w)"
    "map m_first ((matchings w)[i := (matchings w ! i)\<lparr>m_session := s, m_stage := g\<rparr>]) = map m_first (matchings w)" for s g
    by (cases "i < length (matchings w)"; simp add: map_update list_update_beyond; metis length_map list_update_id nth_map)+
  obtain wk s where "ws = (wk, s)" by (cases ws)
  then show ?thesis
    using assms tokens
    by (cases wk) (auto simp: settle_def stays_def pool_ask_def system_resolve_def cancelable_new_def exec_bind_Inr
        split: option.splits if_splits)
qed

lemma stays_pool: "stays (w\<lparr>resolver_pool := p\<rparr>) w' \<Longrightarrow> pool_flags p = pool_flags (resolver_pool w) \<Longrightarrow>
   threads p = threads (resolver_pool w) \<Longrightarrow> stays w w'"
  by (simp add: stays_def)

lemma loop_stays:
  assumes "match_step parse env m w e = Inr w'" "loop_event a e"
  shows "stays w w'"
proof (cases e)
  case (Task_Runs i)
  then show ?thesis
    using assms(1) stays_self settle_stays by (auto simp: run_match_task_def Let_def exec_bind_Inr split: if_splits)
next
  case Reply_Arrives
  have same: "pool_flags p = pool_flags (resolver_pool w)" "threads p = threads (resolver_pool w)"
    if "pool_deliver (resolver_pool w) = Inr p" for p
    using that by (auto simp: pool_deliver_def exec_bind_Inr split: list.splits)
  have "stays (w\<lparr>resolver_pool := p\<rparr>) w'"
    if "run_resolved env m i b (w\<lparr>resolver_pool := p\<rparr>) = Inr w'" for p i b
    using that stays_self settle_stays
    by (auto simp: run_resolved_def Let_def exec_bind_Inr split: stage.splits option.splits)
  moreover have "w' = w \<or> (\<exists>p. pool_deliver (resolver_pool w) = Inr p \<and>
      (w' = w\<lparr>resolver_pool := p\<rparr> \<or> (\<exists>i b. run_resolved env m i b (w\<lparr>resolver_pool := p\<rparr>) = Inr w')))"
    using assms(1) Reply_Arrives by (auto simp: deliver_reply_def Let_def exec_bind_Inr split: list.splits option.splits)
  ultimately show ?thesis using same stays_self stays_pool by metis
qed (use assms in \<open>auto simp: pool_take_def pool_finish_def exec_bind_Inr stays_def split: list.splits if_splits\<close>)

lemma pending_moves:
  assumes "matches_ok env geo m None w"
  shows "busy (resolver_pool w) = [] \<Longrightarrow> queries (resolver_pool w) \<noteq> [] \<Longrightarrow> 0 < threads (resolver_pool w) \<Longrightarrow>
      match_step parse env m w Thread_Takes = Inr w' \<Longrightarrow> pending w' < pending w"
    and "busy (resolver_pool w) \<noteq> [] \<Longrightarrow> match_step parse env m w (System_Answers 0 a) = Inr w' \<Longrightarrow>
      pending w' < pending w"
proof -
  let ?p = "resolver_pool w"
  show "pending w' < pending w" if "busy ?p = []" "queries ?p \<noteq> []" "0 < threads ?p"
    "match_step parse env m w Thread_Takes = Inr w'"
    using that by (cases "queries ?p") (auto simp: pool_take_def exec_bind_Inr pending_def split: if_splits)
  show "pending w' < pending w" if "busy ?p \<noteq> []" "match_step parse env m w (System_Answers 0 a) = Inr w'"
    using that by (cases "busy ?p") (auto simp: pool_finish_def exec_bind_Inr pending_def)
qed

lemma pending_none:
  assumes "matches_ok env geo m None w" "pending w = 0" "i < length (matchings w)"
  shows "(\<exists>r. (i, r) \<in> set (told w)) \<or> given_up m (resolver_pool w) (m_token (matchings w ! i))"
proof -
  note ok = matches_okD [OF assms(1)]
  have "handlers_in_hand (resolver_pool w) = []" "m_stage (matchings w ! i) \<noteq> Posted"
    using assms(2,3) by (auto simp: pending_def handlers_in_hand_def filter_empty_conv)
  then show ?thesis
    using ok(5) [OF assms(3)] ok(7) ok(11) [of i] assms(3) by (cases "m_stage (matchings w ! i)") auto
qed

lemma loop_progress:
  assumes "matches_ok env geo m None w" "mmdb_answers (env_mmdb env) geo" "a \<noteq> Inr []"
    and "0 < threads (resolver_pool w)" "pending w \<noteq> 0"
  shows "\<exists>e w'. loop_event a e \<and> match_step parse env m w e = Inr w' \<and> matches_ok env geo m None w' \<and>
      pending w' < pending w"
proof -
  let ?p = "resolver_pool w"
  consider i where "i < length (matchings w)" "m_stage (matchings w ! i) = Posted" | "replies ?p \<noteq> []"
    | "busy ?p \<noteq> []" | "busy ?p = []" "queries ?p \<noteq> []"
    using assms(5) by (auto simp: pending_def filter_empty_conv in_set_conv_nth)
  then show ?thesis
  proof cases
    case 1
    then show ?thesis using task_step_ok [OF assms(1,2)] loop_event.simps(1) by blast
  next
    case 2
    then show ?thesis using reply_step_ok [OF assms(1,2)] loop_event.simps(4) by blast
  next
    case 3
    then show ?thesis
      using finish_step_ok [OF assms(1,3)] pending_moves(2) [OF assms(1)] loop_event.simps(3) by blast
  next
    case 4
    then show ?thesis
      using take_step_ok [OF assms(1)] pending_moves(1) [OF assms(1)] assms(4) loop_event.simps(2) by blast
  qed
qed

lemma matches_finish:
  assumes "mmdb_answers (env_mmdb env) geo" "a \<noteq> Inr []"
  shows "matches_ok env geo m None w \<Longrightarrow> 0 < threads (resolver_pool w) \<Longrightarrow>
    \<exists>es w'. list_all (loop_event a) es \<and> run (match_step parse env m) w es = Inr w' \<and>
      matches_ok env geo m None w' \<and> stays w w' \<and> pending w' = 0"
proof (induction "pending w" arbitrary: w rule: less_induct)
  case less
  show ?case
  proof (cases "pending w = 0")
    case True
    then show ?thesis using less.prems stays_self by (intro exI [of _ "[]"] exI [of _ w]) simp
  next
    case False
    obtain e w' where e: "loop_event a e" "match_step parse env m w e = Inr w'" "matches_ok env geo m None w'"
      "pending w' < pending w"
      using loop_progress [OF less.prems(1) assms less.prems(2) False] by blast
    have keep: "stays w w'" by (rule loop_stays [OF e(2,1)])
    then have "0 < threads (resolver_pool w')" using less.prems(2) by (simp add: stays_def)
    then obtain es w'' where "list_all (loop_event a) es" "run (match_step parse env m) w' es = Inr w''"
      "matches_ok env geo m None w''" "stays w' w''" "pending w'' = 0"
      using less.hyps [OF e(4,3)] by blast
    then show ?thesis
      using e(1,2) stays_trans [OF keep] by (intro exI [of _ "e # es"] exI [of _ w'']) simp
  qed
qed

section \<open>What the callers get\<close>

definition sample_matches :: "match_event list" where
  "sample_matches = [Match_Begins ''a.b'' 80, Task_Runs 0, Thread_Takes,
     System_Answers 0 (Inr [V4 0x0A010203]), Match_Begins ''c.d'' 80, Task_Runs 1, Reply_Arrives]"

lemma sample_matches_run:
  "case run (match_step (\<lambda>_. None) sample_env sample_manager) (match_world_new 1) sample_matches of
     Inl _ \<Rightarrow> False
   | Inr w \<Rightarrow> (case told w of
         [(j, Inr (Domain_Rule _ a)), (i, Inr (Subnet_Rule _ b))] \<Rightarrow> j = 1 \<and> a = 1 \<and> i = 0 \<and> b = 2
       | _ \<Rightarrow> False)"
  by code_simp

lemma sample_matches_told:
  "case run (match_step (\<lambda>_. None) sample_env sample_manager) (match_world_new 1) sample_matches of
     Inl _ \<Rightarrow> False | Inr w \<Rightarrow> map fst (told w) = [1, 0]"
  by code_simp

lemma sample_matches_admissible:
  "admissible_run (match_step (\<lambda>_. None) sample_env sample_manager) (match_admissible sample_manager)
     (match_world_new 1) sample_matches"
  by code_simp


fun begun_for :: "match_event list \<Rightarrow> string list" where
  "begun_for [] = []"
| "begun_for (Match_Begins d n # es) = d # begun_for es"
| "begun_for (_ # es) = begun_for es"

lemma step_keeps:
  assumes "match_step parse env m w e = Inr w'"
  shows "threads (resolver_pool w') = threads (resolver_pool w)"
    "map (\<lambda>x. host (m_first x)) (matchings w') = map (\<lambda>x. host (m_first x)) (matchings w) @ begun_for [e]"
proof -
  have "threads (resolver_pool w') = threads (resolver_pool w) \<and>
      map (host \<circ> m_first) (matchings w') = map (host \<circ> m_first) (matchings w)" if "loop_event a e" for a
    using loop_stays [OF assms that] unfolding stays_def by (simp flip: map_map)
  note loop = this
  have hosts: "endpoint_from_host parse d port_no st = (ep, st') \<Longrightarrow> host ep = d" for d port_no st ep st'
    by (auto simp add: endpoint_from_host_def endpoint_with_host_def cancelable_new_def split: option.split)
  show "threads (resolver_pool w') = threads (resolver_pool w)"
    using assms loop
    by (cases e) (auto simp: begin_match_def endpoint_from_host_def manager_match_def cancelable_new_def Let_def split: if_splits)
  show "map (\<lambda>x. host (m_first x)) (matchings w') = map (\<lambda>x. host (m_first x)) (matchings w) @ begun_for [e]"
    using assms loop hosts
    by (cases e) (auto simp: begin_match_def manager_match_def cancelable_new_def comp_def Let_def
        split: if_splits prod.splits)
qed

lemma run_keeps:
  assumes "run (match_step parse env m) w es = Inr w'"
  shows "threads (resolver_pool w') = threads (resolver_pool w) \<and>
     map (\<lambda>x. host (m_first x)) (matchings w') = map (\<lambda>x. host (m_first x)) (matchings w) @ begun_for es"
  using assms
proof (induction es arbitrary: w)
  case (Cons e es)
  then obtain w1 where "match_step parse env m w e = Inr w1" "run (match_step parse env m) w1 es = Inr w'"
    by (auto simp: exec_bind_Inr)
  moreover have "begun_for (e # es) = begun_for [e] @ begun_for es" by (cases e) simp_all
  ultimately show ?case using Cons.IH [of w1] step_keeps [of parse env m w e w1] by simp
qed simp

text \<open>A match that was given up is told nothing more.\<close>

lemma settle_told:
  "settle j w (wk, s) = Inr w' \<Longrightarrow> told w' = told w @ (case wk of Done r \<Rightarrow> [(j, r)] | _ \<Rightarrow> [])"
  by (cases wk) (auto simp: settle_def exec_bind_Inr split: option.splits)

lemma given_up_silent:
  assumes "matches_ok env geo m None w" "i < length (matchings w)"
    "given_up m (resolver_pool w) (m_token (matchings w ! i))"
    and "match_step parse env m w e = Inr w'" "(i, r) \<in> set (told w')"
  shows "(i, r) \<in> set (told w)"
proof -
  let ?p = "resolver_pool w" and ?x = "matchings w ! i"
  have drop: "match_task env tok (pool_flags ?p) (m_token ?x) m s = Inr (Dropped, s)"
    "resolve_callback env tok (pool_flags ?p) (m_token ?x) m rs s = Inr (Dropped, s)" for tok rs s
    using rule_manager_canceled [OF match_tokens(1) [OF assms(1,2)] assms(3) [unfolded given_up_def]] by blast+
  have reply: "(i, r) \<in> set (told w)"
    if "run_resolved env m j b (w\<lparr>resolver_pool := p\<rparr>) = Inr w'" "pool_deliver ?p = Inr p" for p j b
  proof -
    have "pool_flags p = pool_flags ?p"
      using that(2) by (auto simp: pool_deliver_def exec_bind_Inr split: list.splits)
    then show ?thesis
      using that(1) drop assms(5)
      by (cases "j = i")
        (auto simp: run_resolved_def Let_def exec_bind_Inr dest!: settle_told split: stage.splits option.splits walk.splits)
  qed
  show ?thesis
  proof (cases e)
    case (Task_Runs j)
    then show ?thesis
      using assms(4,5) drop(1)
      by (cases "j = i") (auto simp: run_match_task_def Let_def exec_bind_Inr dest!: settle_told split: if_splits walk.splits)
  next
    case Reply_Arrives
    then show ?thesis
      using assms(4,5) reply
      by (auto simp: deliver_reply_def Let_def exec_bind_Inr split: list.splits option.splits)
  qed (use assms(4,5) in \<open>auto simp: begin_match_def Let_def exec_bind_Inr split: prod.splits if_splits\<close>)
qed

lemma given_up_stays:
  assumes "i < length (matchings w)" "given_up m (resolver_pool w) (m_token (matchings w ! i))"
    and "match_step parse env m w e = Inr w'"
  shows "i < length (matchings w')" "given_up m (resolver_pool w') (m_token (matchings w' ! i))"
proof -
  have grow: "given_up m p' c" if "given_up m p c" "store_le (pool_flags p) (pool_flags p')" for p p' c
    using that canceled_mono [of "pool_flags p" "pool_flags p'"] unfolding given_up_def by blast
  have more: "store_le st (st @ fs)" for st fs by (simp add: store_le_def nth_append)
  have "i < length (matchings w') \<and> m_token (matchings w' ! i) = m_token (matchings w ! i) \<and>
      store_le (pool_flags (resolver_pool w)) (pool_flags (resolver_pool w'))"
  proof (cases "\<exists>a. loop_event a e")
    case True
    then have "stays w w'" using loop_stays [OF assms(3)] by blast
    then show ?thesis using assms(1) more unfolding stays_def by (metis length_map nth_map)
  next
    case False
    then show ?thesis
      using assms(1,3) more [of "pool_flags (resolver_pool w)" "[False, False]"]
      by (cases e) (auto simp: begin_match_def endpoint_from_host_def manager_match_def cancelable_new_def Let_def
          nth_append rule_manager_destroy_def cancel_le split: if_splits)
  qed
  then show "i < length (matchings w')" "given_up m (resolver_pool w') (m_token (matchings w' ! i))"
    using grow assms(2) by auto
qed

lemma given_up_run:
  assumes "mmdb_answers (env_mmdb env) geo"
  shows "matches_ok env geo m None w \<Longrightarrow> i < length (matchings w) \<Longrightarrow>
    given_up m (resolver_pool w) (m_token (matchings w ! i)) \<Longrightarrow>
    admissible_run (match_step parse env m) (match_admissible m) w es \<Longrightarrow>
    run (match_step parse env m) w es = Inr w' \<Longrightarrow> (i, r) \<in> set (told w') \<Longrightarrow> (i, r) \<in> set (told w)"
proof (induction es arbitrary: w)
  case (Cons e es)
  then obtain w1 where w1: "match_step parse env m w e = Inr w1" "matches_ok env geo m None w1"
    "admissible_run (match_step parse env m) (match_admissible m) w1 es" "run (match_step parse env m) w1 es = Inr w'"
    using match_step_ok [OF Cons.prems(1) assms, of e parse] by (auto simp: exec_bind_Inr)
  have "(i, r) \<in> set (told w1)"
    using Cons.IH [OF w1(2) given_up_stays [OF Cons.prems(2,3) w1(1)] w1(3,4) Cons.prems(6)] .
  then show ?case using given_up_silent [OF Cons.prems(1,2,3) w1(1)] by blast
qed simp


lemma sample_mmdb: "mmdb_answers (env_mmdb sample_env) (\<lambda>_. country ''XX'')"
  by (simp add: mmdb_answers_def sample_env_def maxmind_lookup_def mmdb_success_def entry_country_def)




end
