(* ===== verification/Key_Generator.thy ===== *)
theory Key_Generator
  imports Nekit_Prelude
begin

text \<open>
  \<open>crypto::KeyGenerator::ShadowsocksGenerate\<close> (src/crypto/key_generator.cc): a key and an
  initialisation vector from a password, by chained digests.  The digest of OpenSSL is an
  argument \<open>md\<close>, which may fail; the code then exits.  After it the other key derivation,
  \<open>HkdfGenerate\<close>, and random bytes, over what OpenSSL's functions return.
\<close>

section \<open>The code\<close>

text \<open>
  An output pointer with what it points to: the memory, unless the pointer is null, and how far
  the writing has come.
\<close>

type_synonym out_pointer = "bytes option \<times> nat"

text \<open>\<open>if (p) { *p++ = x; }\<close>\<close>

definition put_byte :: "u8 \<Rightarrow> out_pointer \<Rightarrow> out_pointer exec" where
  "put_byte x p =
     (case p of
        (None, i) \<Rightarrow> Inr (None, i)
      | (Some m, i) \<Rightarrow> if i < length m then Inr (Some (m[i := x]), Suc i) else Inl Out_Of_Bounds)"

text \<open>\<open>while (remain && out_remain)\<close>: the digest's last \<open>remain\<close> bytes go to the output.\<close>

fun take_digest :: "bytes \<Rightarrow> nat \<Rightarrow> nat \<Rightarrow> out_pointer \<Rightarrow> (nat \<times> nat \<times> out_pointer) exec" where
  "take_digest d (Suc r) (Suc n) p =
     exec_bind (put_byte (d ! (length d - Suc r)) p) (\<lambda>p. take_digest d r n p)"
| "take_digest d r n p = Inr (r, n, p)"

text \<open>
  The loop runs while bytes of the vector are missing; with a digest of no bytes it would run
  for ever.
\<close>

partial_function (option) derive_loop ::
  "(bytes \<Rightarrow> bytes option) \<Rightarrow> bytes \<Rightarrow> nat \<Rightarrow> bytes \<Rightarrow> nat \<Rightarrow> nat \<Rightarrow> out_pointer \<Rightarrow> out_pointer \<Rightarrow>
   (out_pointer \<times> out_pointer) exec option" where
  "derive_loop md data round digest key_remain iv_remain key iv =
     (if iv_remain = 0 then Some (Inr (key, iv))
      else case md ((if round \<noteq> 0 then digest else []) @ data) of
             None \<Rightarrow> Some (Inl Exited)
           | Some d \<Rightarrow>
               (case take_digest d (length d) key_remain key of
                  Inl f \<Rightarrow> Some (Inl f)
                | Inr x \<Rightarrow>
                    (case take_digest d (fst x) iv_remain iv of
                       Inl f \<Rightarrow> Some (Inl f)
                     | Inr y \<Rightarrow>
                         derive_loop md data (Suc round) d (fst (snd x)) (fst (snd y))
                           (snd (snd x)) (snd (snd y)))))"

definition shadowsocks_generate ::
  "(bytes \<Rightarrow> bytes option) \<Rightarrow> bytes \<Rightarrow> bytes option \<Rightarrow> nat \<Rightarrow> bytes option \<Rightarrow> nat \<Rightarrow>
   (bytes option \<times> bytes option) exec option" where
  "shadowsocks_generate md data key key_size iv iv_size =
     map_option (\<lambda>r. exec_bind r (\<lambda>(k, v). Inr (fst k, fst v)))
       (derive_loop md data 0 [] key_size iv_size (key, 0) (iv, 0))"

section \<open>The chain of digests\<close>

text \<open>Each digest is of the one before, followed by the password.\<close>

fun digest_chain :: "(bytes \<Rightarrow> bytes) \<Rightarrow> bytes \<Rightarrow> bytes \<Rightarrow> nat \<Rightarrow> bytes" where
  "digest_chain md data prev 0 = []"
| "digest_chain md data prev (Suc n) =
     (let d = md (prev @ data) in d @ digest_chain md data d n)"

lemma digest_chain_length:
  assumes "\<And>xs. md xs \<noteq> []"
  shows "n \<le> length (digest_chain md data prev n)"
proof (induction n arbitrary: prev)
  case (Suc n)
  have "1 \<le> length (md (prev @ data))" using assms [of "prev @ data"] by (cases "md (prev @ data)") auto
  then show ?case using Suc.IH [of "md (prev @ data)"] by (simp add: Let_def)
qed simp

text \<open>More links do not change the bytes that are there.\<close>

lemma digest_chain_prefix:
  "n \<le> m \<Longrightarrow> take (length (digest_chain md data prev n)) (digest_chain md data prev m) =
     digest_chain md data prev n"
proof (induction n arbitrary: m prev)
  case (Suc n)
  then obtain k where "m = Suc k" "n \<le> k" by (cases m) auto
  then show ?case using Suc.IH by (simp add: Let_def)
qed simp

lemma digest_chain_take:
  assumes "k \<le> length (digest_chain md data prev n)" "n \<le> m"
  shows "take k (digest_chain md data prev m) = take k (digest_chain md data prev n)"
  by (metis assms digest_chain_prefix min.absorb1 take_take)

section \<open>What the loops write\<close>

text \<open>A pointer after \<open>xs\<close> has been written through it.\<close>

fun written :: "bytes \<Rightarrow> out_pointer \<Rightarrow> out_pointer" where
  "written xs (None, i) = (None, i)"
| "written xs (Some m, i) = (Some (splice m i xs), i + length xs)"

fun has_room :: "nat \<Rightarrow> out_pointer \<Rightarrow> bool" where
  "has_room n (None, i) = True"
| "has_room n (Some m, i) = (i + n \<le> length m)"

lemma written_Nil [simp]: "written [] p = p"
  by (cases p; cases "fst p") (simp_all add: splice_def)

lemma splice_append:
  "i + length (xs @ ys) \<le> length m \<Longrightarrow> splice (splice m i xs) (i + length xs) ys = splice m i (xs @ ys)"
  by (simp add: splice_def ac_simps)

lemma written_append:
  "has_room (length (xs @ ys)) p \<Longrightarrow> written ys (written xs p) = written (xs @ ys) p"
  by (cases p; cases "fst p") (use splice_append in auto)

lemma has_room_written: "has_room (length xs + n) p \<Longrightarrow> has_room n (written xs p)"
  by (cases p; cases "fst p") (auto simp: add.assoc)

lemma has_room_mono: "has_room n p \<Longrightarrow> k \<le> n \<Longrightarrow> has_room k p"
  by (cases p; cases "fst p") auto

lemma put_byte_written: "has_room (Suc n) p \<Longrightarrow> put_byte x p = Inr (written [x] p)"
  by (cases p; cases "fst p")
    (auto simp: put_byte_def splice_def upd_conv_take_nth_drop)

lemma take_digest_ok:
  "r \<le> length d \<Longrightarrow> has_room n p \<Longrightarrow>
   take_digest d r n p =
     Inr (r - n, n - r, written (take n (drop (length d - r) d)) p)"
proof (induction d r n p rule: take_digest.induct)
  case (1 d r n p)
  let ?x = "d ! (length d - Suc r)"
  have at: "drop (length d - Suc r) d = ?x # drop (length d - r) d"
    using "1.prems"(1) Cons_nth_drop_Suc [of "length d - Suc r" d] by (simp add: Suc_diff_Suc)
  have room: "has_room n (written [?x] p)" using has_room_written [of "[?x]" n p] "1.prems"(2) by simp
  have "has_room (length ([?x] @ take n (drop (length d - r) d))) p"
    by (rule has_room_mono [OF "1.prems"(2)]) simp
  then show ?case
    using "1.IH" [OF put_byte_written [OF "1.prems"(2)]] "1.prems" room
    by (simp add: put_byte_written [OF "1.prems"(2)] at written_append)
qed simp_all

section \<open>The loop derives the chain\<close>

lemma derive_loop_chain:
  assumes "\<And>xs. md xs \<noteq> []" "0 < iv_remain" "has_room key_remain key" "has_room iv_remain iv"
    and "prev = (if round \<noteq> 0 then digest else [])" "key_remain + iv_remain \<le> m"
  shows "derive_loop (\<lambda>xs. Some (md xs)) data round digest key_remain iv_remain key iv =
     Some (Inr (written (take key_remain (digest_chain md data prev m)) key,
                written (take iv_remain (drop key_remain (digest_chain md data prev m))) iv))"
  using assms(2-)
proof (induction "key_remain + iv_remain" arbitrary: key_remain iv_remain key iv round digest prev m
    rule: less_induct)
  case less
  let ?d = "md (prev @ data)"
  let ?n = "length ?d"
  have d: "0 < ?n" using assms(1) by simp
  obtain m' where m: "m = Suc m'" using less.prems(1,5) by (cases m) auto
  let ?C = "digest_chain md data ?d m'"
  have C: "digest_chain md data prev m = ?d @ ?C" by (simp add: m Let_def)
  let ?key = "written (take key_remain ?d) key"
  let ?iv = "written (take iv_remain (drop key_remain ?d)) iv"
  have 1: "take_digest ?d ?n key_remain key = Inr (?n - key_remain, key_remain - ?n, ?key)"
    using take_digest_ok [of ?n ?d key_remain key] less.prems(2) by simp
  have "drop (?n - (?n - key_remain)) ?d = drop key_remain ?d" by (cases "key_remain \<le> ?n") simp_all
  then have 2: "take_digest ?d (?n - key_remain) iv_remain iv =
      Inr (?n - key_remain - iv_remain, iv_remain - (?n - key_remain), ?iv)"
    using take_digest_ok [of "?n - key_remain" ?d iv_remain iv] less.prems(3) by simp
  let ?kr = "key_remain - ?n" let ?ir = "iv_remain - (?n - key_remain)"
  have step: "derive_loop (\<lambda>xs. Some (md xs)) data round digest key_remain iv_remain key iv =
      derive_loop (\<lambda>xs. Some (md xs)) data (Suc round) ?d ?kr ?ir ?key ?iv"
    using less.prems(1,4) 1 2 by (subst derive_loop.simps) (simp add: Let_def)
  have rk: "has_room (length (take key_remain (?d @ ?C))) key"
    by (rule has_room_mono [OF less.prems(2)]) simp
  have rv: "has_room (length (take iv_remain (drop key_remain (?d @ ?C)))) iv"
    by (rule has_room_mono [OF less.prems(3)]) simp
  have k: "take key_remain (?d @ ?C) = take key_remain ?d @ take ?kr ?C" by simp
  have v: "take iv_remain (drop key_remain (?d @ ?C)) =
      take iv_remain (drop key_remain ?d) @ take ?ir (drop ?kr ?C)" by simp
  show ?case
  proof (cases "?ir = 0")
    case True
    then have kr: "?kr = 0" using less.prems(1) by simp
    have "derive_loop (\<lambda>xs. Some (md xs)) data (Suc round) ?d ?kr ?ir ?key ?iv = Some (Inr (?key, ?iv))"
      using True by (subst derive_loop.simps) simp
    then show ?thesis using step k v kr True by (simp add: C)
  next
    case False
    have "has_room ?kr ?key" "has_room ?ir ?iv"
      using less.prems(2,3) by (auto intro!: has_room_written elim!: has_room_mono)
    moreover have "?kr + ?ir < key_remain + iv_remain" using d False by linarith
    moreover have "?kr + ?ir \<le> m'" using d less.prems(5) m False by linarith
    ultimately have "derive_loop (\<lambda>xs. Some (md xs)) data (Suc round) ?d ?kr ?ir ?key ?iv =
        Some (Inr (written (take ?kr ?C) ?key, written (take ?ir (drop ?kr ?C)) ?iv))"
      using less.hyps [of ?kr ?ir ?key ?iv ?d "Suc round" ?d m'] False by simp
    then show ?thesis using step rk rv by (simp add: C k v written_append)
  qed
qed

text \<open>
  C25. With a vector of at least one byte, the key and the vector are the first bytes of the
  chain of digests, \<open>key_size\<close> and then \<open>iv_size\<close> of them, as in OpenSSL's
  \<open>EVP_BytesToKey\<close>; memory behind them is left alone.  A cipher without a vector gets no key:
  the loop is not entered.
\<close>

theorem shadowsocks_key_derivation:
  assumes "\<And>xs. md xs \<noteq> []" "key_size \<le> length key" "iv_size \<le> length iv"
  shows "shadowsocks_generate (\<lambda>xs. Some (md xs)) data (Some key) key_size (Some iv) iv_size =
     Some (Inr
       (if iv_size = 0 then (Some key, Some iv)
        else let chain = digest_chain md data [] (key_size + iv_size)
             in (Some (take key_size chain @ drop key_size key),
                 Some (take iv_size (drop key_size chain) @ drop iv_size iv))))"
proof (cases "iv_size = 0")
  case True
  then show ?thesis by (simp add: shadowsocks_generate_def derive_loop.simps)
next
  case False
  let ?C = "digest_chain md data [] (key_size + iv_size)"
  have "key_size + iv_size \<le> length ?C" by (rule digest_chain_length [OF assms(1)])
  then show ?thesis
    using derive_loop_chain [OF assms(1), where key_remain = key_size and iv_remain = iv_size
        and key = "(Some key, 0)" and iv = "(Some iv, 0)" and round = 0 and digest = "[]"
        and prev = "[]" and m = "key_size + iv_size" and data = data] assms False
    by (simp add: shadowsocks_generate_def Let_def splice_def)
qed

theorem shadowsocks_key_derivation_witness:
  "shadowsocks_generate (\<lambda>xs. Some [of_nat (length xs), 9]) [1, 2, 3] (Some [0, 0, 0]) 3 (Some [0, 0]) 2 =
     Some (Inr (Some [3, 9, 5], Some [9, 5]))"
  using shadowsocks_key_derivation [of "\<lambda>xs. [of_nat (length xs), 9]" 3 "[0, 0, 0]" 2 "[0, 0]" "[1, 2, 3]"]
  by (simp add: eval_nat_numeral Let_def)

section \<open>HKDF\<close>

text \<open>
  \<open>Hash\<close> and \<open>ToOpenSslType\<close> (include/nekit/crypto/hash.h), the digests of OpenSSL by the names
  of the functions that give them.
\<close>

datatype hash = MD4 | MD5 | SHA1 | SHA224 | SHA256 | SHA384 | SHA512

datatype evp_md = EVP_md4 | EVP_md5 | EVP_sha1 | EVP_sha224 | EVP_sha256 | EVP_sha384 | EVP_sha512

fun to_openssl_type :: "hash \<Rightarrow> evp_md" where
  "to_openssl_type MD4 = EVP_md4"
| "to_openssl_type MD5 = EVP_md5"
| "to_openssl_type SHA1 = EVP_sha1"
| "to_openssl_type SHA224 = EVP_sha224"
| "to_openssl_type SHA256 = EVP_sha256"
| "to_openssl_type SHA384 = EVP_sha384"
| "to_openssl_type SHA512 = EVP_sha512"

text \<open>
  What the functions of a derivation context return, for inputs that fit an \<open>int\<close>;
  \<open>EVP_PKEY_derive\<close> also gives the bytes it has written, for the digest, key, salt, info and size
  set before.
\<close>

record pkey_calls =
  derive_init :: int
  set_hkdf_md :: "evp_md \<Rightarrow> int"
  set1_hkdf_key :: "bytes \<Rightarrow> int"
  set1_hkdf_salt :: "bytes \<Rightarrow> int"
  add1_hkdf_info :: "bytes \<Rightarrow> int"
  pkey_derive :: "evp_md \<Rightarrow> bytes \<Rightarrow> bytes \<Rightarrow> bytes \<Rightarrow> nat \<Rightarrow> int \<times> bytes"

text \<open>\<open>if (status <= 0) { exit(1); }\<close>\<close>

definition or_exit :: "int \<Rightarrow> 'a exec \<Rightarrow> 'a exec" where
  "or_exit status k = (if status \<le> 0 then Inl Exited else k)"

definition hkdf_generate ::
  "pkey_calls \<Rightarrow> bytes \<Rightarrow> bytes \<Rightarrow> bytes \<Rightarrow> bytes \<Rightarrow> nat \<Rightarrow> hash \<Rightarrow> bytes exec" where
  "hkdf_generate c data salt info key key_size h =
     or_exit (derive_init c)
     (or_exit (set_hkdf_md c (to_openssl_type h))
     (or_exit (set1_hkdf_key c data)
     (or_exit (set1_hkdf_salt c salt)
     (or_exit (add1_hkdf_info c info)
     (let (status, out) = pkey_derive c (to_openssl_type h) data salt info key_size
      in if length key < length out then Inl Out_Of_Bounds
         else or_exit status (Inr (splice key 0 out)))))))"

lemma to_openssl_type_inj: "to_openssl_type h = to_openssl_type h' \<longleftrightarrow> h = h'"
  by (cases h; cases h') simp_all

text \<open>
  The key is either what OpenSSL derives with the digest, or the program ends; no other byte of the
  caller's memory changes, and a failure never lets it go on with an old key.
\<close>

theorem hkdf_generate_writes:
  assumes "pkey_derive c (to_openssl_type h) data salt info key_size = (status, out)"
    and "length out = key_size" "key_size \<le> length key"
  shows "hkdf_generate c data salt info key key_size h =
    (if list_all (\<lambda>x. 0 < x) [derive_init c, set_hkdf_md c (to_openssl_type h), set1_hkdf_key c data,
          set1_hkdf_salt c salt, add1_hkdf_info c info, status]
     then Inr (out @ drop key_size key) else Inl Exited)"
  using assms by (auto simp: hkdf_generate_def or_exit_def splice_def)

text \<open>
  \<open>Random::Bytes\<close> (src/crypto/random.cc).  \<open>RAND_bytes\<close> may fail; its result is not looked at, and
  the buffer is left as it was.
\<close>

definition random_bytes :: "(nat \<Rightarrow> bytes option) \<Rightarrow> bytes \<Rightarrow> nat \<Rightarrow> bytes exec" where
  "random_bytes rand buffer n =
     (if length buffer < n then Inl Out_Of_Bounds
      else Inr (case rand n of None \<Rightarrow> buffer | Some xs \<Rightarrow> splice buffer 0 (take n xs)))"

lemma random_failure_unnoticed:
  "rand n = None \<Longrightarrow> n \<le> length buffer \<Longrightarrow> random_bytes rand buffer n = Inr buffer"
  by (simp add: random_bytes_def)

end
