(* ===== verification/Stream_Cipher.thy ===== *)
theory Stream_Cipher
  imports Nekit_Error Machine
begin

text \<open>
  \<open>crypto::OpenSslStreamCipher\<close> (include/nekit/crypto/openssl_stream_cipher.h), a template over
  the direction and the cipher.  What OpenSSL does to a cipher context of type \<open>'c\<close> is an
  argument.
\<close>

section \<open>OpenSSL\<close>

text \<open>
  Each call tells whether it succeeded; \<open>EVP_CipherUpdate\<close> and \<open>EVP_CipherFinal_ex\<close> give the
  bytes they write too.
\<close>

record 'c evp =
  evp_new :: "'c option"
  evp_init :: "'c \<Rightarrow> bool \<times> 'c"
  evp_init_key :: "bytes \<Rightarrow> 'c \<Rightarrow> bool \<times> 'c"
  evp_init_iv :: "bytes \<Rightarrow> 'c \<Rightarrow> bool \<times> 'c"
  evp_set_tag :: "bytes \<Rightarrow> 'c \<Rightarrow> bool \<times> 'c"
  evp_update :: "int \<Rightarrow> bytes \<Rightarrow> 'c \<Rightarrow> bool \<times> bytes \<times> 'c"
  evp_final :: "'c \<Rightarrow> int \<times> bytes \<times> 'c"
  evp_get_tag :: "nat \<Rightarrow> 'c \<Rightarrow> bool \<times> bytes \<times> 'c"
  evp_reset :: "'c \<Rightarrow> 'c"
  evp_key_length :: nat
  evp_iv_length :: nat

section \<open>The cipher\<close>

datatype cipher_action = Decryption | Encryption

datatype stream_cipher_error_code = Validation_Failed | Unknown_Error

fun stream_cipher_code :: "stream_cipher_error_code \<Rightarrow> int" where
  "stream_cipher_code Validation_Failed = 1"
| "stream_cipher_code Unknown_Error = 2"

definition stream_cipher_error :: "stream_cipher_error_code \<Rightarrow> error" where
  "stream_cipher_error c = error_of Stream_Cipher_Category (stream_cipher_code c)"

record 'c stream_cipher =
  cipher_context :: 'c
  cipher_key :: "bytes option"
  cipher_iv :: "bytes option"

text \<open>\<open>if (!...) exit(1);\<close>\<close>

definition or_exit :: "bool \<times> 'a \<Rightarrow> ('a \<Rightarrow> 'b exec) \<Rightarrow> 'b exec" where
  "or_exit r k = (if fst r then k (snd r) else Inl Exited)"

definition stream_cipher_new :: "'c evp \<Rightarrow> 'c stream_cipher exec" where
  "stream_cipher_new e =
     (case evp_new e of
        None \<Rightarrow> Inl Exited
      | Some c \<Rightarrow> or_exit (evp_init e c) (\<lambda>c.
          Inr \<lparr>cipher_context = c, cipher_key = Some (replicate (evp_key_length e) 0),
               cipher_iv = Some (replicate (evp_iv_length e) 0)\<rparr>))"

text \<open>\<open>std::memcpy(p.get(), data, n)\<close> into memory of \<open>n\<close> bytes or more.\<close>

definition copy_to :: "bytes option \<Rightarrow> nat \<Rightarrow> bytes \<Rightarrow> bytes exec" where
  "copy_to p n data =
     (case p of
        None \<Rightarrow> Inl Null_Deref
      | Some m \<Rightarrow> exec_bind (mem_read data 0 n) (\<lambda>xs. mem_write m 0 xs))"

definition set_key :: "'c evp \<Rightarrow> bytes \<Rightarrow> 'c stream_cipher \<Rightarrow> 'c stream_cipher exec" where
  "set_key e data s =
     exec_bind (copy_to (cipher_key s) (evp_key_length e) data) (\<lambda>k.
     or_exit (evp_init_key e k (cipher_context s)) (\<lambda>c.
     Inr (s\<lparr>cipher_key := Some k, cipher_context := c\<rparr>)))"

definition set_iv :: "'c evp \<Rightarrow> bytes \<Rightarrow> 'c stream_cipher \<Rightarrow> 'c stream_cipher exec" where
  "set_iv e data s =
     exec_bind (copy_to (cipher_iv s) (evp_iv_length e) data) (\<lambda>v.
     or_exit (evp_init_iv e v (cipher_context s)) (\<lambda>c.
     Inr (s\<lparr>cipher_iv := Some v, cipher_context := c\<rparr>)))"

definition cipher_reset :: "'c evp \<Rightarrow> 'c stream_cipher \<Rightarrow> 'c stream_cipher" where
  "cipher_reset e s =
     s\<lparr>cipher_key := None, cipher_iv := None,
       cipher_context := snd (evp_init e (evp_reset e (cipher_context s)))\<rparr>"

section \<open>Processing\<close>

text \<open>
  The result, the bytes written to \<open>output\<close>, the tag written to \<open>output_tag\<close> (\<open>want_tag\<close>: that
  pointer is not null), and the cipher.  \<open>int(len)\<close> keeps the low 32 bits.
\<close>

type_synonym 'c processed = "(unit result \<times> bytes \<times> bytes option \<times> 'c stream_cipher) exec"

definition finish_decryption :: "'c evp \<Rightarrow> bytes \<Rightarrow> 'c stream_cipher \<Rightarrow> 'c processed" where
  "finish_decryption e out s =
     (let (n, xs, c) = evp_final e (cipher_context s); s = s\<lparr>cipher_context := c\<rparr>
      in if n \<le> 0 then Inr (Inl (stream_cipher_error Validation_Failed), out, None, s)
         else boost_assert (xs = []) (Inr (Inr (), out, None, s)))"

definition finish_encryption :: "'c evp \<Rightarrow> nat \<Rightarrow> bytes \<Rightarrow> 'c stream_cipher \<Rightarrow> 'c processed" where
  "finish_encryption e tag_size out s =
     (let (n, xs, c) = evp_final e (cipher_context s); s = s\<lparr>cipher_context := c\<rparr>
      in if n = 0 then Inr (Inl (stream_cipher_error Unknown_Error), out, None, s)
         else boost_assert (xs = [])
           (let (ok, tag, c) = evp_get_tag e tag_size (cipher_context s); s = s\<lparr>cipher_context := c\<rparr>
            in if ok then Inr (Inr (), out, Some tag, s)
               else Inr (Inl (stream_cipher_error Unknown_Error), out, None, s)))"

definition cipher_process ::
  "'c evp \<Rightarrow> cipher_action \<Rightarrow> nat \<Rightarrow> bytes \<Rightarrow> bytes option \<Rightarrow> bool \<Rightarrow> 'c stream_cipher \<Rightarrow> 'c processed" where
  "cipher_process e act tag_size input input_tag want_tag s =
     (let (ok, c) = (case (act, input_tag) of
                       (Decryption, Some t) \<Rightarrow> evp_set_tag e (take tag_size t) (cipher_context s)
                     | _ \<Rightarrow> (True, cipher_context s));
          n = sint (of_nat (length input) :: 32 word);
          s = s\<lparr>cipher_context := c\<rparr>
      in if \<not> ok then Inr (Inl (stream_cipher_error Unknown_Error), [], None, s)
         else let (ok, out, c) = evp_update e n input (cipher_context s); s = s\<lparr>cipher_context := c\<rparr>
              in if \<not> ok then Inr (Inl (stream_cipher_error Unknown_Error), out, None, s)
                 else boost_assert (int (length out) = n)
                   (if act = Decryption \<and> input_tag \<noteq> None then finish_decryption e out s
                    else if act = Encryption \<and> want_tag then finish_encryption e tag_size out s
                    else Inr (Inr (), out, None, s)))"

section \<open>A cipher in use\<close>

datatype cipher_op = Set_Key bytes | Set_Iv bytes | Process bytes "bytes option" bool | Reset

definition cipher_step ::
  "'c evp \<Rightarrow> cipher_action \<Rightarrow> nat \<Rightarrow> 'c stream_cipher \<Rightarrow> cipher_op \<Rightarrow> 'c stream_cipher exec" where
  "cipher_step e act tag_size s op =
     (case op of
        Set_Key k \<Rightarrow> set_key e k s
      | Set_Iv v \<Rightarrow> set_iv e v s
      | Process xs t w \<Rightarrow>
          exec_bind (cipher_process e act tag_size xs t w s) (\<lambda>(r, out, tag, s). Inr s)
      | Reset \<Rightarrow> Inr (cipher_reset e s))"

definition keyless :: "'c stream_cipher \<Rightarrow> bool" where
  "keyless s \<longleftrightarrow> cipher_key s = None \<and> cipher_iv s = None"

definition same_keys :: "'c stream_cipher \<Rightarrow> 'c stream_cipher \<Rightarrow> bool" where
  "same_keys s s' \<longleftrightarrow> cipher_key s' = cipher_key s \<and> cipher_iv s' = cipher_iv s"

lemma same_keys_context [simp]:
  "same_keys s (s\<lparr>cipher_context := c\<rparr>)"
  "same_keys (s\<lparr>cipher_context := c\<rparr>) s' = same_keys s s'"
  by (simp_all add: same_keys_def)

lemma finish_decryption_keeps: "finish_decryption e out s = Inr (r, out', tag, s') \<Longrightarrow> same_keys s s'"
  by (cases "evp_final e (cipher_context s)")
    (auto simp: finish_decryption_def Let_def boost_assert_Inr split: if_splits)

lemma finish_encryption_keeps: "finish_encryption e n out s = Inr (r, out', tag, s') \<Longrightarrow> same_keys s s'"
  by (cases "evp_final e (cipher_context s)"; cases "evp_get_tag e n (snd (snd (evp_final e (cipher_context s))))")
    (auto simp: finish_encryption_def Let_def boost_assert_Inr split: if_splits)

lemma cipher_process_keeps:
  assumes "cipher_process e act ts xs t w s = Inr (r, out, tag, s')"
  shows "same_keys s s'"
proof -
  obtain ok c where 1: "(case (act, t) of (Decryption, Some t) \<Rightarrow> evp_set_tag e (take ts t) (cipher_context s)
      | _ \<Rightarrow> (True, cipher_context s)) = (ok, c)" by fastforce
  obtain ok' out' c' where 2:
    "evp_update e (sint (of_nat (length xs) :: 32 word)) xs c = (ok', out', c')" by (rule prod_cases3)
  show ?thesis
    using assms 1 2
    by (auto simp: cipher_process_def Let_def boost_assert_Inr
        dest: finish_decryption_keeps finish_encryption_keeps split: if_splits)
qed

lemma keyless_step:
  assumes "keyless s" "cipher_step e act ts s op = Inr s'"
  shows "keyless s'"
  using assms
  by (cases op)
    (auto simp: cipher_step_def keyless_def exec_bind_Inr set_key_def set_iv_def copy_to_def
      cipher_reset_def same_keys_def dest!: cipher_process_keeps)

interpretation keyless_cipher: invariant_machine "cipher_step e act ts" keyless
  by unfold_locales (rule keyless_step)

section \<open>Properties\<close>

text \<open>
  C37. \<open>Reset\<close> ends the use of a cipher: it drops the memory of key and vector, and nothing
  brings it back, so no program that resets a cipher and later sets a key or a vector gets
  through - the copy goes through a null pointer.
\<close>

theorem cipher_unusable_after_reset:
  "\<not> fault_free (run (cipher_step e act ts) s (ops @ Reset # others @ Set_Key k # rest)) \<and>
   \<not> fault_free (run (cipher_step e act ts) s (ops @ Reset # others @ Set_Iv k # rest))"
proof -
  have "\<not> fault_free (run (cipher_step e act ts) s (ops @ Reset # others @ op # rest))"
    if "op = Set_Key k \<or> op = Set_Iv k" for op
  proof (cases "run (cipher_step e act ts) s ops")
    case (Inr u)
    let ?u = "cipher_reset e u"
    have k: "keyless ?u" by (simp add: keyless_def cipher_reset_def)
    show ?thesis
    proof (cases "run (cipher_step e act ts) ?u others")
      case m: (Inr v)
      have "keyless v" by (rule keyless_cipher.inv_run [OF k m])
      then have "cipher_step e act ts v op = Inl Null_Deref"
        using that by (auto simp: cipher_step_def set_key_def set_iv_def copy_to_def keyless_def)
      then show ?thesis using Inr m by (simp add: run_append cipher_step_def)
    qed (use Inr in \<open>simp add: run_append cipher_step_def\<close>)
  qed (simp add: run_append)
  then show ?thesis by blast
qed

text \<open>
  Decryption with a tag succeeds only if the tag was accepted: the error is
  \<open>ValidationFailed\<close> exactly when everything but the last step of OpenSSL went well, and
  \<open>UnknownError\<close> when an earlier one failed; without a tag nothing is checked.  Success gives
  as many bytes as there were, for inputs below 2 GiB.
\<close>

theorem decryption_checks_tag:
  assumes "cipher_process e Decryption ts xs t w s = Inr (r, out, tag, s')" "length xs < 2 ^ 31"
  shows "(r = Inr () \<longrightarrow> length out = length xs) \<and>
    (case t of
       None \<Rightarrow> r = Inr () \<longleftrightarrow> fst (evp_update e (int (length xs)) xs (cipher_context s))
     | Some t \<Rightarrow>
         let (ok, c) = evp_set_tag e (take ts t) (cipher_context s);
             (ok', out', c') = evp_update e (int (length xs)) xs c;
             (n, rest, c'') = evp_final e c'
         in r = (if \<not> ok \<or> \<not> ok' then Inl (stream_cipher_error Unknown_Error)
                 else if n \<le> 0 then Inl (stream_cipher_error Validation_Failed) else Inr ()))"
proof -
  have n: "sint (of_nat (length xs) :: 32 word) = int (length xs)"
    using assms(2) by (simp add: signed_of_nat signed_take_bit_int_eq_self)
  show ?thesis
  proof (cases t)
    case None
    obtain ok out' c' where "evp_update e (int (length xs)) xs (cipher_context s) = (ok, out', c')"
      by (rule prod_cases3)
    then show ?thesis using assms(1) n None by (auto simp: cipher_process_def Let_def boost_assert_Inr split: if_splits)
  next
    case (Some u)
    obtain ok c where 1: "evp_set_tag e (take ts u) (cipher_context s) = (ok, c)" by (rule prod.exhaust)
    obtain ok' out' c' where 2: "evp_update e (int (length xs)) xs c = (ok', out', c')" by (rule prod_cases3)
    obtain k rest c'' where 3: "evp_final e c' = (k, rest, c'')" by (rule prod_cases3)
    show ?thesis
      using assms(1) n Some 1 2 3
      by (auto simp: cipher_process_def finish_decryption_def Let_def boost_assert_Inr split: if_splits)
  qed
qed

text \<open>A cipher that changes nothing and accepts the tag \<open>[7]\<close> only.\<close>

definition toy_evp :: "bool evp" where
  "toy_evp = \<lparr>evp_new = Some False, evp_init = (\<lambda>c. (True, c)), evp_init_key = (\<lambda>k c. (True, c)),
     evp_init_iv = (\<lambda>v c. (True, c)), evp_set_tag = (\<lambda>t c. (True, t = [7])),
     evp_update = (\<lambda>n xs c. (True, xs, c)), evp_final = (\<lambda>c. (if c then 1 else 0, [], c)),
     evp_get_tag = (\<lambda>n c. (True, [7], c)), evp_reset = (\<lambda>c. False), evp_key_length = 2, evp_iv_length = 1\<rparr>"

theorem decryption_checks_tag_witness:
  "\<exists>s'. cipher_process toy_evp Decryption 1 [1, 2] (Some [8]) False
      \<lparr>cipher_context = False, cipher_key = None, cipher_iv = None\<rparr> =
    Inr (Inl (stream_cipher_error Validation_Failed), [1, 2], None, s')"
proof -
  let ?s = "\<lparr>cipher_context = False, cipher_key = None, cipher_iv = None\<rparr>"
  obtain r out tag s' where p: "cipher_process toy_evp Decryption 1 [1, 2] (Some [8]) False ?s =
      Inr (r, out, tag, s')" "out = [1, 2]" "tag = None"
    by (simp add: cipher_process_def toy_evp_def finish_decryption_def Let_def)
  with decryption_checks_tag [OF p(1)] show ?thesis by (simp add: toy_evp_def)
qed

end
