(* ===== verification/Error_Texts.thy ===== *)
theory Error_Texts
  imports Tcp_Connector Socks5_Client Socks5_Server Http_Server Http_Client Rule_Manager Stream_Cipher
    Tls_Tunnel
begin

text \<open>
  What the error categories say of an error: \<open>Description\<close> and \<open>DebugDescription\<close> of each
  subclass of \<open>ErrorCategory\<close> (include/nekit/utils/error.h), which read the error's code and its
  extra values without checking them.  A judgement on errors says when that is safe, and the
  errors that reach the user of a TCP socket or of a flow above it are shown to satisfy it;
  the errors of the HTTP parser do not.
\<close>

section \<open>Descriptions\<close>

text \<open>Texts made outside the library.\<close>

record messages =
  boost_message :: "boost_code \<Rightarrow> string"
  regex_what :: "int \<Rightarrow> string"
  errno_description :: "int \<Rightarrow> string"
  ssl_error_string :: "64 word \<Rightarrow> string"
  mmdb_strerror :: "int \<Rightarrow> string"

text \<open>A switch over the codes that has no value for any other code.\<close>

definition switch_text :: "(int \<times> string) list \<Rightarrow> int \<Rightarrow> string exec" where
  "switch_text cs n = (case map_of cs n of None \<Rightarrow> Inl Unreachable | Some s \<Rightarrow> Inr s)"

definition common_description :: "error \<Rightarrow> string exec" where
  "common_description e =
     switch_text
       [(common_code EndOfFile, ''end of file''), (common_code Cancelled, ''cancelled''),
        (common_code UnknownError, ''unknown error'')] (error_code e)"

definition boost_description :: "messages \<Rightarrow> error \<Rightarrow> string exec" where
  "boost_description m e = exec_bind (to_boost_error e) (\<lambda>ec. Inr (''boost error: '' @ boost_message m ec))"

definition regex_description :: "messages \<Rightarrow> error \<Rightarrow> string exec" where
  "regex_description m e =
     exec_bind (get_info e regex_info_key) (\<lambda>v.
       case v of Any_Regex n \<Rightarrow> Inr (regex_what m n) | _ \<Rightarrow> Inl Bad_Cast)"

definition tcp_description :: "error \<Rightarrow> string exec" where
  "tcp_description e =
     switch_text
       [(tcp_code ConnectionAborted, ''connection aborted''), (tcp_code ConnectionReset, ''connection reset''),
        (tcp_code HostUnreachable, ''host unreachable''), (tcp_code NetworkDown, ''network down''),
        (tcp_code NetworkReset, ''network reset''), (tcp_code NetworkUnreachable, ''network unreachable''),
        (tcp_code TimedOut, ''timeout'')] (error_code e)"

definition listener_description :: "error \<Rightarrow> string exec" where
  "listener_description e = Inr ''address in use''"

definition rule_manager_description :: "error \<Rightarrow> string exec" where
  "rule_manager_description e = Inr ''no match''"

definition http_description :: "error \<Rightarrow> string exec" where
  "http_description e =
     switch_text
       [(http_code Invalid_Response, ''server send an invalid response''),
        (http_code Connect_Error, ''connect failed since the server returns a non 200 response'')] (error_code e)"

definition http_server_description :: "error \<Rightarrow> string exec" where
  "http_server_description e =
     switch_text
       [(http_server_code DataBeforeConnectRequestFinish,
         ''client send more data before CONNECT request finished''),
        (http_server_code InvalidRequest, ''client send an invalid request'')] (error_code e)"

definition socks5_server_description :: "error \<Rightarrow> string exec" where
  "socks5_server_description e =
     switch_text
       [(socks5_server_code IllegalRequest, ''client send illegal request''),
        (socks5_server_code UnsupportedAuthenticationMethod,
         ''all client requested authentication methods are not supported''),
        (socks5_server_code UnsupportedCommand, ''unknown command''),
        (socks5_server_code UnsupportedAddressType, ''unknown address type''),
        (socks5_server_code UnsupportedVersion, ''SOCKS version is not supported'')] (error_code e)"

definition rewriter_description :: "messages \<Rightarrow> error \<Rightarrow> string exec" where
  "rewriter_description m e =
     (if error_code e = rewriter_code ParserError
      then exec_bind (get_info e parser_info_key) (\<lambda>v.
             case v of Any_Http_Errno n \<Rightarrow> Inr (errno_description m n) | _ \<Rightarrow> Inl Bad_Cast)
      else switch_text
             [(rewriter_code BlockTooLong, ''block too long''), (rewriter_code UserError, ''user error'')]
             (error_code e))"

text \<open>The code, an \<open>int\<close>, becomes an \<open>unsigned long\<close> again; the text is cut to 1023 characters.\<close>

definition tls_description :: "messages \<Rightarrow> error \<Rightarrow> string exec" where
  "tls_description m e = Inr (take 1023 (ssl_error_string m (word_of_int (error_code e))))"

definition stream_cipher_description :: "error \<Rightarrow> string exec" where
  "stream_cipher_description e =
     switch_text
       [(stream_cipher_code Validation_Failed, ''data validation failed''),
        (stream_cipher_code Unknown_Error, ''unknown error'')] (error_code e)"

definition maxmind_description :: "messages \<Rightarrow> error \<Rightarrow> string exec" where
  "maxmind_description m e = Inr (mmdb_strerror m (error_code e))"

definition base_description :: "error \<Rightarrow> string exec" where
  "base_description e = Inr ''no error''"

text \<open>
  The virtual call.  \<open>Socks5ErrorCategory\<close> declares the two functions, but no source defines
  them.
\<close>

definition description :: "messages \<Rightarrow> error \<Rightarrow> string exec option" where
  "description m e =
     (case category e of
        No_Error_Category \<Rightarrow> Some (base_description e)
      | Common_Category \<Rightarrow> Some (common_description e)
      | Boost_Category \<Rightarrow> Some (boost_description m e)
      | Regex_Category \<Rightarrow> Some (regex_description m e)
      | Tcp_Category \<Rightarrow> Some (tcp_description e)
      | Listener_Category \<Rightarrow> Some (listener_description e)
      | Rule_Manager_Category \<Rightarrow> Some (rule_manager_description e)
      | Http_Category \<Rightarrow> Some (http_description e)
      | Http_Server_Category \<Rightarrow> Some (http_server_description e)
      | Socks5_Category \<Rightarrow> None
      | Socks5_Server_Category \<Rightarrow> Some (socks5_server_description e)
      | Http_Rewriter_Category \<Rightarrow> Some (rewriter_description m e)
      | Tls_Tunnel_Category \<Rightarrow> Some (tls_description m e)
      | Stream_Cipher_Category \<Rightarrow> Some (stream_cipher_description e)
      | Maxmind_Category \<Rightarrow> Some (maxmind_description m e))"

text \<open>Every \<open>DebugDescription\<close> calls \<open>Description\<close>, only that of TLS the one of the base class.\<close>

definition debug_description :: "messages \<Rightarrow> error \<Rightarrow> string exec option" where
  "debug_description m e =
     (if category e = Tls_Tunnel_Category then Some (base_description e) else description m e)"

lemmas description_defs =
  description_def debug_description_def base_description_def common_description_def boost_description_def
  regex_description_def tcp_description_def listener_description_def rule_manager_description_def
  http_description_def http_server_description_def socks5_server_description_def rewriter_description_def
  tls_description_def stream_cipher_description_def maxmind_description_def switch_text_def

section \<open>Well-typed errors\<close>

text \<open>The codes of a category, and what its extra values have to be.\<close>

fun codes_of :: "error_category \<Rightarrow> int list option" where
  "codes_of No_Error_Category = Some [0]"
| "codes_of Common_Category = Some (map common_code [EndOfFile, Cancelled, UnknownError])"
| "codes_of Boost_Category = Some [1]"
| "codes_of Regex_Category = Some [1]"
| "codes_of Tcp_Category =
     Some (map tcp_code [ConnectionAborted, ConnectionReset, HostUnreachable, NetworkDown, NetworkReset,
                         NetworkUnreachable, TimedOut])"
| "codes_of Listener_Category = Some [1]"
| "codes_of Rule_Manager_Category = Some [1]"
| "codes_of Http_Category = Some (map http_code [Invalid_Response, Connect_Error])"
| "codes_of Http_Server_Category = Some (map http_server_code [DataBeforeConnectRequestFinish, InvalidRequest])"
| "codes_of Socks5_Category = Some []"
| "codes_of Socks5_Server_Category =
     Some (map socks5_server_code [IllegalRequest, UnsupportedAuthenticationMethod, UnsupportedCommand,
                                   UnsupportedAddressType, UnsupportedVersion])"
| "codes_of Http_Rewriter_Category = Some (map rewriter_code [BlockTooLong, UserError])"
| "codes_of Stream_Cipher_Category = Some (map stream_cipher_code [Validation_Failed, Unknown_Error])"
| "codes_of Tls_Tunnel_Category = None"
| "codes_of Maxmind_Category = None"

fun info_typed :: "error_category \<Rightarrow> (int \<Rightarrow> any option) option \<Rightarrow> bool" where
  "info_typed Boost_Category (Some i) =
     (case i boost_info_key of Some (Any_Boost ec) \<Rightarrow> True | _ \<Rightarrow> False)"
| "info_typed Regex_Category (Some i) =
     (case i regex_info_key of Some (Any_Regex n) \<Rightarrow> True | _ \<Rightarrow> False)"
| "info_typed c i = (c \<noteq> Boost_Category \<and> c \<noteq> Regex_Category)"

definition error_typed :: "error \<Rightarrow> bool" where
  "error_typed e \<longleftrightarrow>
     (case codes_of (category e) of None \<Rightarrow> True | Some ns \<Rightarrow> error_code e \<in> set ns) \<and>
     info_typed (category e) (info e)"

text \<open>A well-typed error has its texts.\<close>

lemma typed_described:
  assumes "error_typed e"
  shows "\<exists>s t. description m e = Some (Inr s) \<and> debug_description m e = Some (Inr t)"
  using assms
  by (cases "category e"; cases "info e")
    (auto simp: error_typed_def description_defs to_boost_error_def get_info_def
      split: option.splits any.splits)

text \<open>The errors the library makes are well typed.\<close>

lemmas typed_defs = error_typed_def error_of_def

lemma typed_common [simp]: "error_typed (common_error c)"
  by (cases c) (simp_all add: common_error_def typed_defs)

lemma typed_tcp [simp]: "error_typed (tcp_error c)"
  by (cases c) (simp_all add: tcp_error_def typed_defs)

lemma typed_http [simp]: "error_typed (http_error c)"
  by (cases c) (simp_all add: http_error_def typed_defs)

lemma typed_http_server [simp]: "error_typed (http_server_error c)"
  by (cases c) (simp_all add: http_server_error_def typed_defs)

lemma typed_socks5_server [simp]: "error_typed (socks5_server_error c)"
  by (cases c) (simp_all add: socks5_server_error_def typed_defs)

lemma typed_cipher [simp]: "error_typed (stream_cipher_error c)"
  by (cases c) (simp_all add: stream_cipher_error_def typed_defs)

lemma typed_made [simp]:
  "error_typed no_error" "error_typed (boost_error ec)" "error_typed no_match_error" "error_typed (from_ssl_error w)"
  "error_typed (error_of Maxmind_Category n)" "error_typed (listener_error 1)"
  by (simp_all add: typed_defs no_error_def boost_error_def no_match_error_def from_ssl_error_def
      listener_error_def)

text \<open>The errors of the connector, of the listener and of the rules.\<close>

lemma connector_errors_typed:
  "do_connect st h s = Inr (s', acts) \<Longrightarrow> Tell h' (Inl e) \<in> set acts \<Longrightarrow> error_typed e"
  "on_attempt codes st c h a s = Inr (s', acts) \<Longrightarrow> Tell h' (Inl e) \<in> set acts \<Longrightarrow> error_typed e"
  by (cases a; auto simp: on_attempt_def do_connect_def Let_def exec_bind_Inr split: if_splits option.splits)+

lemma other_errors_typed:
  "listener_bind in_use op st bd li = Inr (Inl e) \<Longrightarrow> error_typed e"
  "domain_regex_rule_add compile x rl = Inr (Inl e, rl') \<Longrightarrow> error_typed e"
  "maxmind_lookup db a = Inl e \<Longrightarrow> error_typed e"
  by (auto simp: listener_bind_def domain_regex_rule_add_def maxmind_lookup_def from_regex_error_def add_info_def
      create_info_dict_def typed_defs exec_bind_Inr boost_error_def listener_error_def
      split: if_splits sum.splits rule.splits prod.splits)

section \<open>Errors that reach a user\<close>

fun given_errors :: "('h, 'k) action \<Rightarrow> error list" where
  "given_errors (Give h (Inl e)) = [e]"
| "given_errors (Give_Data h (Inl e)) = [e]"
| "given_errors _ = []"

definition errors_told :: "('h, 'k) action list \<Rightarrow> error list" where
  "errors_told as = concat (map given_errors as)"

lemma errors_told_simps [simp]:
  "errors_told [] = []" "errors_told (a # as) = given_errors a @ errors_told as"
  "errors_told (as @ bs) = errors_told as @ errors_told bs"
  by (simp_all add: errors_told_def)

lemma errors_told_reports [simp]: "errors_told (List.filter is_report as) = errors_told as"
proof (induction as)
  case (Cons a as)
  then show ?case by (cases a) simp_all
qed simp

subsection \<open>The TCP socket\<close>

fun closing_error :: "'h tcp_task \<Rightarrow> error list" where
  "closing_error (Sock_Write_Closed c h e) = [e]"
| "closing_error _ = []"

definition tasks_typed :: "'h tcp_task list \<Rightarrow> bool" where
  "tasks_typed ws \<longleftrightarrow> (\<forall>t \<in> set ws. \<forall>e \<in> set (closing_error t). error_typed e)"

definition reaction_typed :: "'s \<times> ('h, 'h tcp_task) action list \<Rightarrow> bool" where
  "reaction_typed r \<longleftrightarrow> (\<forall>e \<in> set (errors_told (snd r)). error_typed e) \<and>
     tasks_typed (concat (map tasks_of (snd r)))"

definition world_typed :: "'h tcp_world \<Rightarrow> bool" where
  "world_typed w \<longleftrightarrow> (\<forall>e \<in> set (errors_told (given w)). error_typed e) \<and> tasks_typed (tcp_world.waiting w)"

fun answer_typed :: "sys_answer \<Rightarrow> bool" where
  "answer_typed (Connect_Answer (Inl e)) = error_typed e"
| "answer_typed _ = True"

fun event_typed :: "'h tcp_event \<Rightarrow> bool" where
  "event_typed (Answer i a) = answer_typed a"
| "event_typed (Call c) = True"

lemma converted_typed: "convert_boost_error codes ec = Inr e \<Longrightarrow> error_typed e"
  by (auto simp: convert_boost_error_def split: if_splits option.splits basic_error.splits)

lemma call_typed: "run_call codes new c s = Inr r \<Longrightarrow> reaction_typed r"
  by (cases c)
    (auto simp: tcp_read_def tcp_write_def tcp_close_write_def tcp_open_def tcp_continue_def tcp_connect_def
      Let_def exec_bind_Inr reaction_typed_def tasks_typed_def converted_typed split: option.splits)

lemma closures_typed:
  "tcp_on_read codes st c h rs q s = Inr r \<Longrightarrow> reaction_typed r"
  "tcp_on_written codes st c h n w s = Inr r \<Longrightarrow> reaction_typed r"
  "tcp_on_write_closed st c h e s = Inr r \<Longrightarrow> error_typed e \<Longrightarrow> reaction_typed r"
  "tcp_on_opened st c h s = Inr r \<Longrightarrow> reaction_typed r"
  "tcp_on_continued st c h s = Inr r \<Longrightarrow> reaction_typed r"
  "tcp_on_connected st c h u s = Inr r \<Longrightarrow> answer_typed (Connect_Answer u) \<Longrightarrow> reaction_typed r"
  by (cases q; cases w; cases u;
      auto simp: tcp_on_read_def tcp_on_written_def tcp_on_write_closed_def tcp_on_opened_def
        tcp_on_continued_def tcp_on_connected_def exec_bind_Inr boost_assert_Inr reaction_typed_def
        tasks_typed_def converted_typed split: if_splits)+

lemma task_typed:
  assumes "run_task codes st t a s = Some (Inr r)" "answer_typed a" "\<forall>e \<in> set (closing_error t). error_typed e"
  shows "reaction_typed r"
  using assms
  by (cases "(codes, st, t, a, s)" rule: run_task.cases) (simp_all add: closures_typed)

lemma absorb_typed:
  assumes "world_typed w" "reaction_typed r" "tasks_typed ws"
  shows "world_typed (absorb st ws w r)"
  using assms by (auto simp: world_typed_def reaction_typed_def absorb_def tasks_typed_def split: prod.splits)

lemma tcp_step_typed:
  assumes "world_typed w" "tcp_step codes w ev = Inr w'" "event_typed ev"
  shows "world_typed w'"
proof (cases ev)
  case (Call c)
  then show ?thesis
    using assms call_typed absorb_typed [OF assms(1)] by (fastforce simp: exec_bind_Inr world_typed_def)
next
  case (Answer i a)
  show ?thesis
  proof (cases "i < length (tcp_world.waiting w)")
    case True
    let ?ws = "take i (tcp_world.waiting w) @ drop (Suc i) (tcp_world.waiting w)"
    have t: "\<forall>e \<in> set (closing_error (tcp_world.waiting w ! i)). error_typed e" "tasks_typed ?ws"
      using assms(1) True
      by (auto simp: world_typed_def tasks_typed_def dest: in_set_takeD in_set_dropD)
    then show ?thesis
      using assms Answer True absorb_typed [OF assms(1) _ t(2)] task_typed [OF _ _ t(1)]
      by (fastforce simp: exec_bind_Inr split: option.splits)
  qed (use assms Answer in simp)
qed

lemma tcp_run_typed:
  "world_typed w \<Longrightarrow> run (tcp_step codes) w es = Inr w' \<Longrightarrow> \<forall>ev \<in> set es. event_typed ev \<Longrightarrow> world_typed w'"
  by (induction es arbitrary: w) (auto simp: exec_bind_Inr dest: tcp_step_typed)

text \<open>
  C18. Every error a TCP socket hands to a handler is well typed: whatever its user calls and
  the system answers, in any order, the error's code is one of its category's and its extra
  values are what the category reads, so that \<open>Description\<close> and \<open>DebugDescription\<close> return a text
  - no switch is left without a value, no value is missing or cast to a wrong type.  The errors
  of the connector, which the socket passes on, are assumed to be so.
\<close>

theorem tcp_errors_typed:
  assumes "run (tcp_step codes) (tcp_start sd session) es = Inr w" "\<forall>ev \<in> set es. event_typed ev"
    and "e \<in> set (errors_told (given w))"
  shows "error_typed e \<and>
    (\<exists>s t. description m e = Some (Inr s) \<and> debug_description m e = Some (Inr t))"
proof -
  have "world_typed (tcp_start sd session)" by (simp add: world_typed_def tcp_start_def tasks_typed_def)
  from tcp_run_typed [OF this assms(1,2)] have "error_typed e" using assms(3) by (simp add: world_typed_def)
  then show ?thesis using typed_described by blast
qed

definition plain_messages :: messages where
  "plain_messages =
     \<lparr>boost_message = (\<lambda>_. ''boost''), regex_what = (\<lambda>_. ''regex''), errno_description = (\<lambda>_. ''parser''),
      ssl_error_string = (\<lambda>_. ''ssl''), mmdb_strerror = (\<lambda>_. ''mmdb'')\<rparr>"

theorem tcp_errors_typed_witness:
  "\<exists>w. run (tcp_step linux_codes) (tcp_start Local (session_new 0 None))
       [Call (Call_Open 1), Answer 0 Run_Task, Call (Call_Continue 2), Answer 0 Run_Task,
        Call (Call_Read (3 :: nat)), Answer 0 (Read_Answer (Inl \<lparr>bcategory = System_Category, bvalue = 104\<rparr>))] = Inr w \<and>
     errors_told (given w) = [tcp_error ConnectionReset] \<and>
     (\<exists>s t. description plain_messages (tcp_error ConnectionReset) = Some (Inr s) \<and>
        debug_description plain_messages (tcp_error ConnectionReset) = Some (Inr t))"
proof -
  let ?es = "[Call (Call_Open 1), Answer 0 Run_Task, Call (Call_Continue 2), Answer 0 Run_Task,
        Call (Call_Read (3 :: nat)), Answer 0 (Read_Answer (Inl \<lparr>bcategory = System_Category, bvalue = 104\<rparr>))]"
  obtain w where w: "run (tcp_step linux_codes) (tcp_start Local (session_new 0 None)) ?es = Inr w"
    "errors_told (given w) = [tcp_error ConnectionReset]"
    by (simp add: tcp_start_def tcp_socket_new_def fsm_new_def fsm_defs absorb_def tcp_open_def tcp_on_opened_def
        tcp_read_def tcp_on_read_def tcp_continue_def tcp_on_continued_def canceled_def
        convert_boost_error_def linux_codes_def is_eof_def tcp_error_def error_of_def)
  then show ?thesis using tcp_errors_typed [OF w(1), of "tcp_error ConnectionReset" plain_messages] by simp
qed

subsection \<open>The flows above it\<close>

fun answer_errors :: "'a result \<Rightarrow> error list" where
  "answer_errors (Inl e) = [e]"
| "answer_errors (Inr x) = []"

text \<open>What a flow tells its user when its next hop answers: the errors of the answer, and the actions.\<close>

inductive socks5_server_reacts :: "error list \<Rightarrow> ('h, 'h socks5_server_task) action list \<Rightarrow> bool" where
  "server_on_read h q s = Inr (s', as) \<Longrightarrow> socks5_server_reacts (answer_errors q) as"
| "server_on_written h r s = Inr (s', as) \<Longrightarrow> socks5_server_reacts (answer_errors r) as"
| "server_on_write_closed h r s = Inr (s', as) \<Longrightarrow> socks5_server_reacts (answer_errors r) as"
| "server_on_opened tok h r s = Inr (s', as) \<Longrightarrow> socks5_server_reacts (answer_errors r) as"
| "on_negotiate order parse show_ip new tok q s = Inr (s', as) \<Longrightarrow> socks5_server_reacts (answer_errors q) as"
| "on_hello_written tok r s = Inr (s', as) \<Longrightarrow> socks5_server_reacts (answer_errors r) as"
| "on_reply_written tok r s = Inr (s', as) \<Longrightarrow> socks5_server_reacts (answer_errors r) as"
| "on_continued st c r s = Inr (s', as) \<Longrightarrow> socks5_server_reacts (answer_errors r) as"

inductive http_server_reacts :: "'p http_env \<Rightarrow> error list \<Rightarrow> ('h, 'h http_server_task) action list \<Rightarrow> bool" where
  "hs_on_posted st c h (s :: ('h, 'p) http_server) = Inr (s', as) \<Longrightarrow> http_server_reacts env [] as"
| "hs_on_read env new h q (s :: ('h, 'p) http_server) = Some (Inr (s', as)) \<Longrightarrow> http_server_reacts env (answer_errors q) as"
| "hs_on_written h r (s :: ('h, 'p) http_server) = Inr (s', as) \<Longrightarrow> http_server_reacts env (answer_errors r) as"
| "hs_on_write_closed h r (s :: ('h, 'p) http_server) = Inr (s', as) \<Longrightarrow> http_server_reacts env (answer_errors r) as"
| "hs_on_opened tok r (s :: ('h, 'p) http_server) = Inr (s', as) \<Longrightarrow> http_server_reacts env (answer_errors r) as"
| "hs_on_negotiate env new tok q (s :: ('h, 'p) http_server) = Some (Inr (s', as)) \<Longrightarrow> http_server_reacts env (answer_errors q) as"
| "hs_on_response_written tok h r (s :: ('h, 'p) http_server) = Inr (s', as) \<Longrightarrow> http_server_reacts env (answer_errors r) as"
| "hs_on_continued st c h r (s :: ('h, 'p) http_server) = Inr (s', as) \<Longrightarrow> http_server_reacts env (answer_errors r) as"

inductive http_client_reacts :: "'p http_env \<Rightarrow> error list \<Rightarrow> ('h, 'h http_client_task) action list \<Rightarrow> bool" where
  "hc_on_connected sextets st tok c h r (s :: 'p http_client) = Inr (s', as) \<Longrightarrow> http_client_reacts env (answer_errors r) as"
| "hc_on_request_written st tok c h r (s :: 'p http_client) = Inr (s', as) \<Longrightarrow> http_client_reacts env (answer_errors r) as"
| "hc_on_response env st tok c h q (s :: 'p http_client) = Some (Inr (s', as)) \<Longrightarrow> http_client_reacts env (answer_errors q) as"

text \<open>What the rewriter itself answers.\<close>

definition from_parser :: "error \<Rightarrow> bool" where
  "from_parser e \<longleftrightarrow> category e = Http_Rewriter_Category \<and> error_code e = rewriter_code ParserError"

lemma keep_pending_errors:
  assumes "keep_pending w = Inr (Inl e, w')"
  shows "error_typed e \<or> (\<exists>n. from_parser_error n = Inr e)"
  using assms
  by (auto simp: keep_pending_def Let_def exec_bind_Inr error_typed_def rewriter_error_def error_of_def
      split: if_splits option.splits)

lemma rewrite_errors:
  assumes "rewrite_buffer dlg ex blk fuel b dw = Some (Inr (Inl e, b', dw'))"
  shows "error_typed e \<or> (\<exists>n. from_parser_error n = Inr e)"
  using assms
  by (auto simp: rewrite_buffer_def exec_bind_Inr dest!: keep_pending_errors split: sum.splits option.splits)

lemma parser_error_bad:
  assumes "from_parser_error n = Inr e"
  shows "from_parser e" "\<not> error_typed e" "description m e = Some (Inl Bad_Cast)"
  using assms
  by (auto simp: from_parser_error_def add_info_def create_info_dict_def rewriter_error_def error_of_def
      from_parser_def error_typed_def description_def rewriter_description_def get_info_def)

lemma hs_rewrite_errors:
  assumes "hs_rewrite env new b s = Some (Inr (Inl e, b', s'))"
  shows "error_typed e \<or> (\<exists>n. from_parser_error n = Inr e)"
  using assms by (auto simp: hs_rewrite_def exec_bind_Inr dest: rewrite_errors)

text \<open>Each flow in turn.\<close>

lemma server_fail_errors:
  "server_fail e s = Inr (s', as) \<Longrightarrow> errors_told as = [e]"
  by (auto simp: server_fail_def call_handler_def split: option.splits)

lemma server_reject_errors:
  "server_reject c s = Inr (s', as) \<Longrightarrow> errors_told as = [socks5_server_error c]"
  by (simp add: server_reject_def server_fail_errors)

lemma finish_request_errors:
  "finish_request order p off ep s = Inr (s', as) \<Longrightarrow> errors_told as = []"
  by (auto simp: finish_request_def Let_def exec_bind_Inr call_handler_def split: option.splits)

lemma read_version_errors:
  assumes "read_version tok p xs s = Inr (s', as)" "e \<in> set (errors_told as)"
  shows "error_typed e"
  using assms
  by (auto simp: read_version_def Let_def negotiate_read_def exec_bind_Inr dest!: server_reject_errors
      split: if_splits)

lemma read_request_errors:
  assumes "read_request order parse show_ip new tok p s = Inr (s', as)" "e \<in> set (errors_told as)"
  shows "error_typed e"
  using assms
  by (auto simp: read_request_def Let_def negotiate_read_def dest!: server_reject_errors finish_request_errors
      split: if_splits)

lemma on_negotiate_errors:
  assumes "on_negotiate order parse show_ip new tok q s = Inr (s', as)" "e \<in> set (errors_told as)"
  shows "error_typed e \<or> e \<in> set (answer_errors q)"
proof (cases q)
  case (Inl err)
  then show ?thesis using assms by (auto simp: on_negotiate_def dest!: server_fail_errors)
next
  case (Inr xs)
  then consider c s1 where "server_reject c s1 = Inr (s', as)"
    | s2 p where "(case negotiation_state s2 of
          ReadingVersion \<Rightarrow> read_version tok p xs s2
        | ReadingRequest \<Rightarrow> read_request order parse show_ip new tok p s2) = Inr (s', as)"
    using assms(1)
    by (auto simp: on_negotiate_def Let_def exec_bind_Inr split: if_splits option.split_asm)
  then show ?thesis
  proof cases
    case 1
    then show ?thesis using assms(2) by (simp add: server_reject_errors)
  next
    case 2
    then show ?thesis
      using assms(2) by (auto dest: read_version_errors read_request_errors split: negotiate_state.split_asm)
  qed
qed

lemma socks5_server_passes:
  "server_on_read h q s = Inr (s', as) \<Longrightarrow> e \<in> set (errors_told as) \<Longrightarrow> e \<in> set (answer_errors q)"
  "server_on_written h r s = Inr (s', as) \<Longrightarrow> e \<in> set (errors_told as) \<Longrightarrow> e \<in> set (answer_errors r)"
  "server_on_write_closed h r s = Inr (s', as) \<Longrightarrow> e \<in> set (errors_told as) \<Longrightarrow> e \<in> set (answer_errors r)"
  "server_on_opened tok h r s = Inr (s', as) \<Longrightarrow> e \<in> set (errors_told as) \<Longrightarrow> e \<in> set (answer_errors r)"
  "on_hello_written tok r s = Inr (s', as) \<Longrightarrow> e \<in> set (errors_told as) \<Longrightarrow> e \<in> set (answer_errors r)"
  "on_reply_written tok r s = Inr (s', as) \<Longrightarrow> e \<in> set (errors_told as) \<Longrightarrow> e \<in> set (answer_errors r)"
  "on_continued st c r s = Inr (s', as) \<Longrightarrow> e \<in> set (errors_told as) \<Longrightarrow> e \<in> set (answer_errors r)"
  by (cases q; cases r;
      auto simp: server_on_read_def server_on_written_def server_on_write_closed_def server_on_opened_def
        on_hello_written_def on_reply_written_def on_continued_def negotiate_read_def exec_bind_Inr
        call_handler_def dest!: server_fail_errors split: if_splits option.splits)+

lemma socks5_server_errors:
  "socks5_server_reacts es as \<Longrightarrow> e \<in> set (errors_told as) \<Longrightarrow> error_typed e \<or> e \<in> set es"
  by (induction rule: socks5_server_reacts.induct) (blast dest: socks5_server_passes on_negotiate_errors)+

lemma http_server_passes:
  "hs_on_posted st c h s = Inr (s', as) \<Longrightarrow> errors_told as = []"
  "hs_on_written h r s = Inr (s', as) \<Longrightarrow> e \<in> set (errors_told as) \<Longrightarrow> e \<in> set (answer_errors r)"
  "hs_on_write_closed h r s = Inr (s', as) \<Longrightarrow> e \<in> set (errors_told as) \<Longrightarrow> e \<in> set (answer_errors r)"
  "hs_on_opened tok r s = Inr (s', as) \<Longrightarrow> e \<in> set (errors_told as) \<Longrightarrow> e \<in> set (answer_errors r)"
  "hs_on_response_written tok h r s = Inr (s', as) \<Longrightarrow> e \<in> set (errors_told as) \<Longrightarrow> e \<in> set (answer_errors r)"
  "hs_on_continued st c h r s = Inr (s', as) \<Longrightarrow> e \<in> set (errors_told as) \<Longrightarrow> e \<in> set (answer_errors r)"
  by (cases r;
      auto simp: hs_on_posted_def hs_on_written_def hs_on_write_closed_def hs_on_opened_def hs_fail_def
        hs_negotiate_read_def hs_on_response_written_def hs_on_continued_def unless_canceled_def
        exec_bind_Inr call_handler_def split: if_splits option.splits)+

lemma hs_proceed_errors:
  assumes "hs_proceed tok b s = Inr (s', as)" "e \<in> set (errors_told as)"
  shows "error_typed e"
  using assms
  by (auto simp: hs_proceed_def hs_fail_def hs_succeed_def hs_negotiate_read_def Let_def call_handler_def
      split: if_splits option.splits)

lemma hs_fail_errors: "hs_fail e s = Inr (s', as) \<Longrightarrow> errors_told as = [e]"
  by (auto simp: hs_fail_def call_handler_def split: option.splits)

lemma hs_negotiate_errors:
  assumes "hs_on_negotiate env new tok q s = Some (Inr (s', as))" "e \<in> set (errors_told as)"
  shows "error_typed e \<or> e \<in> set (answer_errors q) \<or> (\<exists>n. from_parser_error n = Inr e)"
proof (cases q)
  case (Inl err)
  then show ?thesis using assms by (auto simp: hs_on_negotiate_def dest!: hs_fail_errors)
next
  case (Inr b)
  then obtain res b' s1 where "hs_rewrite env new b s = Some (Inr (res, b', s1))"
    "(case res of Inl e \<Rightarrow> hs_fail e s1 | Inr _ \<Rightarrow> hs_proceed tok b' s1) = Inr (s', as)"
    using assms(1) by (auto simp: hs_on_negotiate_def exec_bind_Inr)
  then show ?thesis
    using assms(2)
    by (cases res) (auto dest!: hs_fail_errors dest: hs_rewrite_errors hs_proceed_errors)
qed

lemma hs_read_errors:
  assumes "hs_on_read env new h q s = Some (Inr (s', as))" "e \<in> set (errors_told as)"
  shows "error_typed e \<or> e \<in> set (answer_errors q) \<or> (\<exists>n. from_parser_error n = Inr e)"
proof (cases q)
  case (Inl err)
  then show ?thesis
    using assms by (auto simp: hs_on_read_def Let_def exec_bind_Inr split: sum.splits if_splits)
next
  case (Inr b)
  obtain m where m: "read_end (hs_machine s) = Inr m"
    using assms(1) by (cases "read_end (hs_machine s)") (simp_all add: hs_on_read_def)
  show ?thesis
  proof (cases "is_connect (front s)")
    case False
    then obtain res b' s1 where "hs_rewrite env new b (s\<lparr>hs_machine := m\<rparr>) = Some (Inr (res, b', s1))"
      "(case res of
          Inl e \<Rightarrow> Inr (s1\<lparr>hs_machine := errored (hs_machine s1)\<rparr>, [Give_Data h (Inl e)])
        | Inr _ \<Rightarrow> Inr (s1, [Give_Data h (Inr b')])) =
       (Inr (s', as) :: fault + ('a, 'b) http_server \<times> ('a, 'a http_server_task) action list)"
      using assms(1) Inr m by (auto simp: hs_on_read_def Let_def exec_bind_Inr)
    then show ?thesis using assms(2) by (cases res) (auto dest: hs_rewrite_errors)
  qed (use assms Inr m in \<open>auto simp: hs_on_read_def Let_def\<close>)
qed

lemma http_server_errors:
  "http_server_reacts env es as \<Longrightarrow> e \<in> set (errors_told as) \<Longrightarrow>
   error_typed e \<or> e \<in> set es \<or> (\<exists>n. from_parser_error n = Inr e)"
proof (induction rule: http_server_reacts.induct)
  case (1 st c h s s' as)
  then show ?case by (simp add: http_server_passes(1))
qed (blast dest: http_server_passes(2-) hs_read_errors hs_negotiate_errors)+

lemma http_client_passes:
  "hc_on_connected sextets st tok c h r s = Inr (s', as) \<Longrightarrow> e \<in> set (errors_told as) \<Longrightarrow> e \<in> set (answer_errors r)"
  "hc_on_request_written st tok c h r s = Inr (s', as) \<Longrightarrow> e \<in> set (errors_told as) \<Longrightarrow> e \<in> set (answer_errors r)"
  by (cases r;
      auto simp: hc_on_connected_def hc_on_request_written_def hc_fail_def hc_read_response_def
        unless_canceled_def exec_bind_Inr Let_def split: if_splits option.splits)+

lemma hc_proceed_errors:
  "hc_proceed tok b h s = Inr (s', as) \<Longrightarrow> e \<in> set (errors_told as) \<Longrightarrow> error_typed e"
  using hc_proceed_cases by fastforce

lemma hc_response_errors:
  assumes "hc_on_response env st tok c h q s = Some (Inr (s', as))" "e \<in> set (errors_told as)"
  shows "error_typed e \<or> e \<in> set (answer_errors q) \<or> (\<exists>n. from_parser_error n = Inr e)"
proof (cases q)
  case (Inl err)
  then show ?thesis
    using assms by (auto simp: hc_on_response_def hc_fail_def split: sum.split_asm bool.split_asm if_splits)
next
  case (Inr b)
  show ?thesis
  proof (cases "canceled c st = Inr False")
    case True
    then obtain res b' f w where rw: "rewrite_buffer hc_delegate (env_execute env) (env_blocks env) (env_fuel env) b
        (hc_response s, hc_rewriter s) = Some (Inr (res, b', f, w))"
      "(case res of
          Inl e \<Rightarrow> hc_fail e h (s\<lparr>hc_response := f, hc_rewriter := w\<rparr>)
        | Inr _ \<Rightarrow> hc_proceed tok b' h (s\<lparr>hc_response := f, hc_rewriter := w\<rparr>)) = Inr (s', as)"
      using assms(1) Inr by (auto simp: hc_on_response_def Let_def exec_bind_Inr)
    then show ?thesis
      using assms(2) by (cases res) (auto simp: hc_fail_def dest: rewrite_errors hc_proceed_errors)
  qed (use assms Inr in \<open>auto simp: hc_on_response_def split: sum.split_asm bool.split_asm\<close>)
qed

lemma http_client_errors:
  "http_client_reacts env es as \<Longrightarrow> e \<in> set (errors_told as) \<Longrightarrow>
   error_typed e \<or> e \<in> set es \<or> (\<exists>n. from_parser_error n = Inr e)"
  by (induction rule: http_client_reacts.induct) (blast dest: http_client_passes hc_response_errors)+

text \<open>
  C19. The flows above keep to it.  When the next hop answers a SOCKS5 server flow, an HTTP server
  flow or an HTTP client flow with well-typed errors, or none, the errors the flow tells its
  user - passed on or made by it, in any state, by any of its closures - are well typed and have
  their texts.  The one exception is an error the HTTP parser has reported, which the
  HTTP flows pass on: it keeps the errno as an \<open>unsigned int\<close>, \<open>Description\<close> asks for an
  \<open>http_errno\<close>, and the cast throws.
\<close>

theorem flow_errors_typed:
  assumes "\<forall>e \<in> set es. error_typed e"
    and "socks5_server_reacts es as \<and> e \<in> set (errors_told as) \<or>
      http_server_reacts env es bs \<and> e \<in> set (errors_told bs) \<or>
      http_client_reacts env es cs \<and> e \<in> set (errors_told cs)"
  shows "error_typed e \<and> (\<exists>s t. description m e = Some (Inr s) \<and> debug_description m e = Some (Inr t)) \<or>
    (\<exists>n. from_parser_error n = Inr e \<and> description m e = Some (Inl Bad_Cast))"
  using assms socks5_server_errors http_server_errors http_client_errors typed_described parser_error_bad(3) by metis

theorem flow_errors_typed_witness:
  "\<exists>s t. description plain_messages (http_error Invalid_Response) = Some (Inr s) \<and>
     debug_description plain_messages (http_error Invalid_Response) = Some (Inr t)"
proof -
  let ?s = "http_client_new (endpoint_with_host (\<lambda>_. None) ''p'' 80 None) None (Some 0) None ()"
  have "hc_on_response head_env [False] None (Some 0) (7 :: nat) (Inl (common_error EndOfFile)) ?s =
      Some (Inr (?s\<lparr>hc_machine := errored (hc_machine ?s)\<rparr>, [Give 7 (Inl (http_error Invalid_Response))]))"
    by (simp add: hc_on_response_def hc_fail_def canceled_def)
  then have r: "http_client_reacts head_env [common_error EndOfFile] [Give (7 :: nat) (Inl (http_error Invalid_Response))]"
    using http_client_reacts.intros(3) [of head_env "[False]" None "Some 0" 7 "Inl (common_error EndOfFile)"]
    by simp
  show ?thesis
    using flow_errors_typed [of "[common_error EndOfFile]" "[] :: (nat, nat socks5_server_task) action list"
        "http_error Invalid_Response" head_env "[] :: (nat, nat http_server_task) action list"
        "[Give (7 :: nat) (Inl (http_error Invalid_Response))]" plain_messages] r
      parser_error_bad(2) [of _ "http_error Invalid_Response"] by auto
qed

text \<open>The text the cast hides, and what is said of every error of TLS when debugging.\<close>

theorem parser_error_text_throws:
  "from_parser_error n = Inr e \<Longrightarrow> description m e = Some (Inl Bad_Cast) \<and> debug_description m e = Some (Inl Bad_Cast)"
  using parser_error_bad(1,3) by (simp add: debug_description_def from_parser_def)

theorem tls_debug_text: "debug_description m (from_ssl_error w) = Some (Inr ''no error'')"
  by (simp add: debug_description_def from_ssl_error_def error_of_def base_description_def)

theorem socks5_error_no_text: "description m (socks5_error c) = None"
  by (simp add: description_def socks5_error_def error_of_def)

end
