(* ===== verification/Spec2Isabelle.thy ===== *)
theory Spec2Isabelle
  imports Rule_Manager Country_Code Socks5_Exchange Http_Client Tls_Flow Speed_Flow Relayed_Flows
    Proxy_Chain Tcp_Listener Flow_Stack Resolved_Matches Key_Generator Stream_Cipher Error_Texts
begin

text \<open>
  libnekit is a C++ library for proxies: it accepts a connection, learns from it where it wants
  to go, picks by rules how to get there, and relays bytes in both directions.  This
  development models its core and proves what makes it correct; where the code does not do what
  it means to, the theorem says what it does.  Paths are relative to src/ and include/nekit/ of
  the repository.

  The program.  A connection is a \<open>Tunnel\<close> between a local and a remote \<open>DataFlow\<close>.  Flows are
  stacked: a TCP socket at the bottom, TLS, SOCKS5 or HTTP over it.  Each keeps a
  \<open>FlowStateMachine\<close>, reads and writes \<open>Buffer\<close>s (chains of blocks) and reports through
  handlers; a \<open>Cancelable\<close>, a shared flag, keeps a closure from running after its owner has
  gone.  The \<open>Session\<close> of a tunnel names its target, an \<open>Endpoint\<close>, which the \<open>RuleManager\<close>
  matches against its rules, resolving it on demand.

  The theories, in the order of the code's layers.

  \<^item> \<open>Nekit_Prelude\<close>: widths of integers, faults (a failed \<open>BOOST_ASSERT\<close>, a null pointer, an
    index out of bounds), the monad \<open>'a exec\<close> in which they end a run, its rules \<open>exec_simps\<close>.
  \<^item> \<open>Machine\<close>: runs of step functions, reachability, and the locales for invariants, ranks,
    contracts and simulations.
  \<^item> \<open>Buffer\<close>, \<open>Buffer_Laws\<close>, \<open>Byte_Buffer\<close>: utils/buffer.cc.  Blocks, chains with identities,
    every operation of \<open>Buffer\<close>; what each does to the bytes; byte lists as the abstract
    specification, and the simulation of programs on chains by programs on lists.  All later
    theories use the list operations \<open>bb_...\<close>.  How a buffer is cut into blocks stays open: the
    walks take it as an argument, a \<open>cutter\<close>.
  \<^item> \<open>Nekit_Error\<close>, \<open>Cancelable\<close>: utils/error.h and the error categories, utils/cancelable.cc.
  \<^item> \<open>Flow_State_Machine\<close>: data_flow/flow_state_machine.h.
  \<^item> \<open>Trie\<close>, \<open>Subnet\<close>, \<open>Network_Order\<close>, \<open>Country_Code\<close>: utils/trie.h, utils/subnet.cc, the
    byte order of hosts, utils/country_iso_code.cc.
  \<^item> \<open>Endpoint\<close>, \<open>Resolver_Pool\<close>: utils/endpoint.cc, utils/session.h, utils/system_resolver.cc;
    the second the resolver with its threads, as steps of a pool that interleave with its user's.
  \<^item> \<open>Rules\<close>, \<open>Rule_Manager\<close>: rule/ and utils/maxmind.cc.
  \<^item> \<open>Resolved_Matches\<close>: rule manager, endpoints and resolver together: any number of matches over
    one manager and one pool of threads.
  \<^item> \<open>Flow_Interface\<close>: data_flow/data_flow_interface.h.  A handler of a flow is a function from
    the flow to the changed flow and the list of the calls it makes (\<open>action\<close>); the closure it
    hands on is a value of a datatype of tasks, and a function \<open>..._on_...\<close> is its body.
    Orders of events are then sequences of such functions.
  \<^item> \<open>Stream_Reader\<close>, \<open>Socks5_Server\<close>, \<open>Socks5_Client\<close>, \<open>Socks5_Exchange\<close>:
    utils/stream_reader.cc, data_flow/socks5_server_data_flow.cc and
    data_flow/socks5_data_flow.cc, and the two against each other.
  \<^item> \<open>Http_Rewriter\<close>, \<open>Http_Rewriter_Laws\<close>: utils/http_message_stream_rewriter.cc.
    \<open>http_parser_execute\<close> is an argument: for each state and chunk, a script of the callbacks it
    makes, which may depend on what they return.
  \<^item> \<open>Http_Url\<close>: the URL parser of third_party/http_parser/http_parser.c, whose result the HTTP
    server flow takes apart.
  \<^item> \<open>Http_Server\<close>, \<open>Http_Server_Laws\<close>, \<open>Http_Client\<close>: data_flow/http_server_data_flow.cc and
    data_flow/http_data_flow.cc.
  \<^item> \<open>Tls_Tunnel\<close>, \<open>Tls_Tunnel_Laws\<close>, \<open>Tls_Flow\<close>: crypto/tls_tunnel.cc over an \<open>engine\<close>, the
    functions of OpenSSL it calls, and data_flow/tls_data_flow.cc.
  \<^item> \<open>Speed_Flow\<close>, \<open>Flow_Stack\<close>: data_flow/speed_data_flow.cc, and flows as stacks: next hops,
    data type, run loop, and how a tunnel names all flows of its stacks.
  \<^item> \<open>Tcp_Socket\<close>, \<open>Tcp_Connector\<close>, \<open>Tcp_Listener\<close>: transport/tcp_socket.cc,
    transport/tcp_connector.cc, utils/timer.cc, transport/tcp_listener.cc; the last is the listener
    over time, with what \<open>Close\<close> finds in the queue.
  \<^item> \<open>Tunnel\<close>, \<open>Tunnel_Life\<close>: transport/tunnel.cc, its relay and its whole life.
  \<^item> \<open>Relayed_Flows\<close>: that the flows move as the tunnel's model of a flow does.
  \<^item> \<open>Tunnel_Flows\<close>, \<open>Socket_Tunnel\<close>, \<open>Layered_Flows\<close>, \<open>Proxy_Chain\<close>: the tunnel over the flows
    themselves.  The first has the operations of a flow as a record and the TCP socket with its
    outstanding operations as one; the second the forwarding of transport/tunnel.cc over any two
    of them; the third puts a server flow on top of a socket, the fourth the HTTP client flow.
  \<^item> \<open>Proxy_Manager\<close>: proxy_manager.cc and instance.cc, with the accept loop and the tunnels.
  \<^item> \<open>Key_Generator\<close>, \<open>Stream_Cipher\<close>, \<open>Track_Id\<close>: crypto/key_generator.cc, crypto/hash.h,
    crypto/random.cc, crypto/openssl_stream_cipher.h, utils/track_id_generator.cc.
  \<^item> \<open>Error_Texts\<close>: \<open>Description\<close> and \<open>DebugDescription\<close> of all categories, and which errors have
    them.

  Interfaces.  \<open>byte_store\<close> is the contract of a buffer its users rely on, provided by the
  chains of blocks; \<open>simulation\<close> carries it to whole programs.  \<open>relayed_flow\<close> is what the tunnel
  expects of a flow's state machine, provided by the TCP socket and the SOCKS5 and HTTP server
  flows.  \<open>tunnel_flow\<close> is what it expects of the flow as a whole: that reads, writes and closes
  succeed when the machine allows them, that an answer makes at most one report, that a
  destroyed flow reports nothing.  The TCP socket provides it on either side; a flow that hands
  its calls on (\<open>passing_layer\<close>, \<open>stacked_flow\<close>, \<open>client_over\<close>) provides it over a next hop that
  does.  \<open>tunnel_between\<close> takes two such flows and shows that the tunnel over them follows the
  abstract one.
  \<open>invariant_machine\<close> and \<open>ranked_machine\<close> are provided by the flow state machine, the set-up of a
  proxy and the cipher, \<open>contract_machine\<close> by the TCP socket with the operating system's answers,
  by the listener, the relay, the tunnel and the proxy, by the resolver and by the matches that
  run over it.
  \<open>observed_delegate\<close> states what the rewriter's bookkeeping and a delegate keep; delegates that
  only look and delegates that edit are its two interpretations.

  What is shown.  Of the containers: the operations on chains refine lists, and a trie, a subnet
  and the country table decide what they should.  Of the flows: they keep their state machine's
  rules under every order of answers, report each request at most once, and lose no byte; the
  two ends of SOCKS5 and HTTP understand each other.  Of the rules: the first that holds is
  chosen, each handler is called at most once and every match comes to an end. Of the tunnel:
  every sequence of answers, errors, ends of stream and timeouts is survived, the tunnel ends
  released or waiting for something, and it is released once its flows have nothing more to send
  - first for flows that are state machines, then for the sockets and the flows above them,
  where what is sent on one side is what was delivered on the other; a proxy of any number of
  tunnels is as safe. Of the resolver: its threads call each handler at most once and let the
  destructor return. Of errors: those that reach a user are well typed, so that their texts can
  be made.

  Fuel.  \<open>RewriteBuffer\<close> and the loops of \<open>TlsTunnel\<close> end only if the parser and the engine
  make progress, so they take fuel and return \<open>None\<close> without it.  For the rewriter
  \<open>(n + 1) * (K + 1)\<close> rounds are enough for \<open>n\<close> bytes and a parser that pauses at most \<open>K\<close>
  times in one place (\<open>rewrite_buffer_returns\<close>).  The loop of the key derivation, which a digest
  of no bytes would keep running, is a partial function with \<open>None\<close> for that case; the theorem
  shows that it returns.  All other functions are total.

  Widths.  Ports, words of addresses, fields of a URL and the offsets of the rewriter are words;
  sizes of buffers, which the code keeps in \<open>size_t\<close>, are natural numbers in \<open>Buffer\<close>, whose
  subtractions are guarded as in the code, and wrap by \<open>sz_sub\<close> where the code does not guard
  them.

  Not modelled: the Sodium cipher (it does not compile when used), the run loop and logging, the
  message parser of http_parser.  The tunnel over whole flows is shown from
  \<open>BeginForward\<close> on, for the TCP socket, the HTTP server flow once it has seen \<open>CONNECT\<close>, and
  the HTTP client flow once it is connected; the SOCKS5 and TLS flows do not provide the
  interface, as the theorems on their faults show.
\<close>

section \<open>A tunnel over the SOCKS5 client flow\<close>

text \<open>
  A tunnel whose remote flow is the SOCKS5 client cannot begin to forward.  The client
  flow reports the end of a successful negotiation while its state machine still says that it
  is connecting; when the local flow has then continued, \<open>BeginForward\<close> asks whether the
  remote flow is writable, and the assertion fails.
\<close>

theorem tunnel_over_socks5_asserts:
  assumes "state (sc_machine s) = Establishing" "ftype (sc_machine s) = Remote"
    and "sr_buffer (sc_reader s) = []"
    and "on_reply_tail h (Inr b) s = Inr (s', acts)"
    and "\<not> released t" "remote_machine t = Some (client_machine next_hop s')"
  shows "acts = [Give h (Inr ())] \<and> on_local_continued (Inr ()) t = Inl Assert_Failed"
proof -
  have s': "acts = [Give h (Inr ())]" "sc_machine s' = sc_machine s"
    using assms(3,4) by (auto simp: on_reply_tail_def consume_remain_data_def)
  have nw: "\<not> is_writable (client_machine next_hop s')" "state (client_machine next_hop s') \<noteq> Closed"
    using assms(1,2) s'(2) by (simp_all add: client_machine_def is_writable_def)
  have "begin_forward (t\<lparr>timer_runs := timer_runs t + 1\<rparr>) = Inl Assert_Failed"
    by (rule begin_forward_not_writable [OF _ _ nw]) (use assms(5,6) in simp_all)
  then show ?thesis using assms(5) s'(1) by (simp add: on_local_continued_def reset_timer_def alive_def)
qed

theorem tunnel_over_socks5_asserts_witness:
  "on_local_continued (Inr ())
     ((tunnel_new (fsm_new Local))\<lparr>remote_machine := Some ((fsm_new Remote)\<lparr>state := Establishing\<rparr>)\<rparr>) =
   Inl Assert_Failed"
proof -
  let ?s = "(socks5_client_new (endpoint_with_host (\<lambda>_. None) ''p'' 1080 None) None None None None)
              \<lparr>sc_machine := (fsm_new Remote)\<lparr>state := Establishing\<rparr>\<rparr>"
  have r: "on_reply_tail (3::nat) (Inr [0, 0]) ?s = Inr (?s, [Give 3 (Inr ())])"
    by (simp add: on_reply_tail_def consume_remain_data_def socks5_client_new_def stream_reader_new_def)
  show ?thesis
    using tunnel_over_socks5_asserts [OF _ _ _ r, of "(tunnel_new (fsm_new Local))
      \<lparr>remote_machine := Some ((fsm_new Remote)\<lparr>state := Establishing\<rparr>)\<rparr>" undefined]
    by (simp add: client_machine_def socks5_client_new_def stream_reader_new_def fsm_new_def tunnel_new_def)
qed

end
